(* ===== verification/Kernel_Prelude.thy ===== *)
theory Kernel_Prelude
  imports Main "HOL-Library.Word" "HOL-Library.Multiset"
begin

text \<open>
  Shared vocabulary of the development.

  \<^item> Machine integers: \<open>u32\<close>, \<open>u64\<close> are the kernel's unsigned types as words. The target is a
    64-bit machine, so \<open>unsigned long\<close> is \<open>u64\<close> and \<open>long\<close> is a 64-bit two's complement value.
  \<^item> \<open>errno\<close>: the error codes the modelled functions return; a C function that returns a negative
    error code becomes a function into \<open>errno + 'a\<close> (\<open>'a result\<close>).
  \<^item> \<open>c_div\<close>, \<open>c_mod\<close>: C's division and remainder, which truncate towards zero.
  \<^item> \<open>memmove\<close>: the C library's block move inside one array.
  \<^item> \<open>step_system\<close>, \<open>transition_system\<close>: the contract "every operation keeps the invariant" and its
    consequence for whole runs. Each stateful component interprets one of them on its operations.
\<close>

type_synonym u8 = "8 word"
type_synonym u32 = "32 word"
type_synonym u64 = "64 word"

datatype errno =
    EPERM | ENOENT | ESRCH | EINTR | EAGAIN | ENOMEM | EACCES | EFAULT | EBUSY | EINVAL
  | ETIME | EUSERS | ERESTARTSYS | ENOSPC

type_synonym 'a result = "errno + 'a"

named_theorems kernel_defs \<open>definitions of straight-line kernel helpers\<close>

section \<open>Integers\<close>

definition c_div :: "int \<Rightarrow> int \<Rightarrow> int" where
  "c_div a b = sgn a * sgn b * (\<bar>a\<bar> div \<bar>b\<bar>)"

definition c_mod :: "int \<Rightarrow> int \<Rightarrow> int" where
  "c_mod a b = a - b * c_div a b"

lemma c_div_nonneg [simp]: "0 \<le> a \<Longrightarrow> 0 < b \<Longrightarrow> c_div a b = a div b"
  by (cases "a = 0") (simp_all add: c_div_def)

lemma c_mod_nonneg [simp]: "0 \<le> a \<Longrightarrow> 0 < b \<Longrightarrow> c_mod a b = a mod b"
  by (simp add: c_mod_def minus_mult_div_eq_mod)

lemma c_div_neg: "a < 0 \<Longrightarrow> 0 < b \<Longrightarrow> c_div a b = - ((- a) div b)"
  by (simp add: c_div_def)

lemma c_mod_neg: "a < 0 \<Longrightarrow> 0 < b \<Longrightarrow> c_mod a b = - ((- a) mod b)"
  by (simp add: c_mod_def c_div_neg minus_mult_div_eq_mod [symmetric])

lemma c_div_mod: "a = b * c_div a b + c_mod a b"
  by (simp add: c_mod_def)

lemma c_mod_bounds:
  assumes "0 < b"
  shows "- b < c_mod a b \<and> c_mod a b < b"
proof (cases "0 \<le> a")
  case True
  have "0 \<le> a mod b" "a mod b < b" using assms by simp_all
  with True assms show ?thesis by (simp add: c_mod_nonneg)
next
  case False
  have "0 \<le> (- a) mod b" "(- a) mod b < b" using assms by simp_all
  with False assms show ?thesis by (simp add: c_mod_neg)
qed

text \<open>Rounding towards minus infinity, recovered from the truncating operations.\<close>

lemma floor_div_from_trunc:
  assumes "0 < b"
  shows "c_div a b - (if c_mod a b < 0 then 1 else 0) = a div b"
proof (cases "0 \<le> a")
  case True
  with assms show ?thesis by (simp add: not_less)
next
  case False
  have eq: "a = b * c_div a b + c_mod a b" by (rule c_div_mod)
  have low: "- b < c_mod a b" and up: "c_mod a b < b" using c_mod_bounds [OF assms] by auto
  have neg: "c_mod a b \<le> 0" using False assms by (simp add: c_mod_neg)
  show ?thesis
  proof (cases "c_mod a b < 0")
    case True
    have "a = b * (c_div a b - 1) + (b + c_mod a b)" using eq by (simp add: algebra_simps)
    with True low have "a div b = c_div a b - 1" by (intro int_div_pos_eq) auto
    with True show ?thesis by simp
  next
    case False
    with neg have "c_mod a b = 0" by simp
    with eq assms have "a div b = c_div a b" by (metis add.right_neutral nonzero_mult_div_cancel_left less_irrefl)
    with False show ?thesis by simp
  qed
qed

lemma unat_u32_lt: "unat (w :: u32) < 2 ^ 32"
  using unsigned_less [of w] by simp

lemma unat_u64_lt: "unat (w :: u64) < 2 ^ 64"
  using unsigned_less [of w] by simp

text \<open>The two's complement reading of a word.\<close>

lemma signed_take_bit_cases:
  assumes "0 \<le> k" "k < 2 ^ Suc n"
  shows "signed_take_bit n k = (if k < 2 ^ n then k else k - (2 ^ Suc n :: int))"
proof (cases "k < 2 ^ n")
  case True
  then show ?thesis using assms by (simp add: signed_take_bit_int_eq_self)
next
  case False
  have "signed_take_bit n k = (k + 2 ^ n) mod 2 ^ Suc n - 2 ^ n"
    by (simp only: signed_take_bit_eq_take_bit_shift take_bit_eq_mod)
  also have "(k + 2 ^ n) mod 2 ^ Suc n = k - 2 ^ n"
    using False assms by (intro int_mod_pos_eq [of _ _ 1]) auto
  finally show ?thesis using False by simp
qed

lemma sint_cases:
  "sint (w :: 'a :: len word) = (if unat w < 2 ^ (LENGTH('a) - 1) then int (unat w) else int (unat w) - 2 ^ LENGTH('a))"
proof -
  have l: "Suc (LENGTH('a) - 1) = LENGTH('a)" using len_gt_0 [where 'a = 'a] by linarith
  have b: "0 \<le> uint w" "uint w < 2 ^ Suc (LENGTH('a) - 1)" using unsigned_less [of w] unfolding l by simp_all
  have "sint w = signed_take_bit (LENGTH('a) - 1) (uint w)" by (simp add: sint_uint)
  also have "\<dots> = (if uint w < 2 ^ (LENGTH('a) - 1) then uint w else uint w - 2 ^ LENGTH('a))"
    using signed_take_bit_cases [OF b] unfolding l .
  also have "\<dots> = (if int (unat w) < 2 ^ (LENGTH('a) - 1) then int (unat w) else int (unat w) - 2 ^ LENGTH('a))" by simp
  also have "int (unat w) < 2 ^ (LENGTH('a) - 1) \<longleftrightarrow> unat w < 2 ^ (LENGTH('a) - 1)"
    by (metis of_nat_less_iff of_nat_numeral of_nat_power)
  finally show ?thesis .
qed

section \<open>Arrays\<close>

text \<open>\<open>memmove(&a[dst], &a[src], n * sizeof(a[0]))\<close> for a destination below the source.\<close>

definition memmove :: "nat \<Rightarrow> nat \<Rightarrow> nat \<Rightarrow> 'a list \<Rightarrow> 'a list" where
  "memmove dst src n xs = take dst xs @ take n (drop src xs) @ drop (dst + n) xs"

lemma length_memmove [simp]:
  "dst \<le> src \<Longrightarrow> src + n \<le> length xs \<Longrightarrow> length (memmove dst src n xs) = length xs"
  by (simp add: memmove_def)

lemma mset_list_update: "i < length xs \<Longrightarrow> mset (xs[i := x]) = add_mset x (mset xs - {#xs ! i#})"
  by (rule mset_update)

lemma mset_exchange:
  assumes "i < length xs" "j < length xs"
  shows "mset (xs[i := xs ! j, j := xs ! i]) = mset xs"
  by (rule mset_swap [OF assms(2,1)])

lemma filter_list_update_same:
  "i < length xs \<Longrightarrow> \<not> P (xs ! i) \<Longrightarrow> \<not> P y \<Longrightarrow> filter P (xs[i := y]) = filter P xs"
  by (induction xs arbitrary: i) (auto split: nat.splits)

lemma set_list_update_distinct_set:
  "i < length xs \<Longrightarrow> set (xs[i := y]) = insert y {xs ! k | k. k < length xs \<and> k \<noteq> i}"
  by (auto simp: set_conv_nth nth_list_update)

section \<open>Invariants of runs\<close>

text \<open>A component whose operations are a function of the state and the operation requested.\<close>

locale step_system =
  fixes step :: "'s \<Rightarrow> 'e \<Rightarrow> 's"
    and inv :: "'s \<Rightarrow> bool"
  assumes step_inv: "inv s \<Longrightarrow> inv (step s e)"
begin

lemma run_inv: "inv s \<Longrightarrow> inv (foldl step s es)"
  by (induction es arbitrary: s) (auto intro: step_inv)

end

text \<open>A component whose steps are a relation (several tasks, chosen by the scheduler).\<close>

locale transition_system =
  fixes step :: "'s \<Rightarrow> 's \<Rightarrow> bool"
    and inv :: "'s \<Rightarrow> bool"
  assumes step_inv: "step s t \<Longrightarrow> inv s \<Longrightarrow> inv t"
begin

lemma reach_inv: "step\<^sup>*\<^sup>* s t \<Longrightarrow> inv s \<Longrightarrow> inv t"
  by (induction rule: rtranclp_induct) (auto intro: step_inv)

end

text \<open>
  A component that implements an abstract one: every call on a well-formed state does to the abstraction of
  the state what the specification does, for the arguments the callers may pass.
\<close>

locale refinement_system =
  fixes step :: "'s \<Rightarrow> 'e \<Rightarrow> 's"
    and astep :: "'a \<Rightarrow> 'e \<Rightarrow> 'a"
    and abs :: "'s \<Rightarrow> 'a"
    and inv :: "'s \<Rightarrow> bool"
    and allowed :: "'e \<Rightarrow> bool"
  assumes step_inv: "inv s \<Longrightarrow> allowed e \<Longrightarrow> inv (step s e)"
    and step_abs: "inv s \<Longrightarrow> allowed e \<Longrightarrow> abs (step s e) = astep (abs s) e"
begin

lemma run_refines: "inv s \<Longrightarrow> list_all allowed es \<Longrightarrow> inv (foldl step s es) \<and> abs (foldl step s es) = foldl astep (abs s) es"
  by (induction es arbitrary: s) (auto simp: step_inv step_abs)

end

end
