(* ===== verification/Ranges.thy ===== *)
theory Ranges
  imports Kernel_Prelude
begin

text \<open>
  The memory-range arrays of \<^verbatim>\<open>range.c\<close>.

  A \<^verbatim>\<open>struct range\<close> is a half-open interval of 64-bit addresses; a slot whose \<^verbatim>\<open>end\<close> is 0 is free.
  The array of \<open>az\<close> slots is a list, \<open>nr_range\<close> a natural number (the callers count slots from 0).
  The library routine \<^verbatim>\<open>sort\<close> (\<^verbatim>\<open>lib/sort.c\<close>, not part of the sources) is a parameter of
  \<open>clean_sort_range\<close> and \<open>sort_range\<close>; \<open>sort_contract\<close> is what its documentation promises.
\<close>

section \<open>Data and operations\<close>

record range =
  r_start :: u64
  r_end :: u64

definition empty_range :: range where
  "empty_range = \<lparr>r_start = 0, r_end = 0\<rparr>"

definition add_range :: "range list \<Rightarrow> nat \<Rightarrow> nat \<Rightarrow> u64 \<Rightarrow> u64 \<Rightarrow> range list \<times> nat" where
  "add_range rs az nr_range start end =
     (if start \<ge> end then (rs, nr_range)
      else if nr_range \<ge> az then (rs, nr_range)
      else (rs[nr_range := \<lparr>r_start = start, r_end = end\<rparr>], nr_range + 1))"

text \<open>The loop of \<open>add_range_with_merge\<close>: absorbs every range that meets the new one.\<close>

function merge_loop ::
  "range list \<Rightarrow> nat \<Rightarrow> nat \<Rightarrow> u64 \<Rightarrow> u64 \<Rightarrow> range list \<times> nat \<times> u64 \<times> u64" where
  "merge_loop rs i nr_range start end =
     (if i < nr_range then
        if r_end (rs ! i) = 0 then merge_loop rs (i + 1) nr_range start end
        else
          let common_start = max (r_start (rs ! i)) start;
              common_end = min (r_end (rs ! i)) end
          in if common_start > common_end then merge_loop rs (i + 1) nr_range start end
             else merge_loop
                    ((memmove i (i + 1) (nr_range - (i + 1)) rs)[nr_range - 1 := empty_range])
                    i (nr_range - 1) (min (r_start (rs ! i)) start) (max (r_end (rs ! i)) end)
      else (rs, nr_range, start, end))"
  by pat_completeness auto
termination
  by (relation "measure (\<lambda>(rs, i, nr_range, start, end). nr_range - i)") auto

declare merge_loop.simps [simp del]

definition add_range_with_merge ::
  "range list \<Rightarrow> nat \<Rightarrow> nat \<Rightarrow> u64 \<Rightarrow> u64 \<Rightarrow> range list \<times> nat" where
  "add_range_with_merge rs az nr_range start end =
     (if start \<ge> end then (rs, nr_range)
      else case merge_loop rs 0 nr_range start end of
             (rs', nr', start', end') \<Rightarrow> add_range rs' az nr' start' end')"

text \<open>The search for a free slot in \<open>subtract_range\<close>; \<open>None\<close> is \<^verbatim>\<open>i == az\<close>.\<close>

fun find_spare :: "range list \<Rightarrow> nat \<Rightarrow> nat \<Rightarrow> nat option" where
  "find_spare rs i 0 = None"
| "find_spare rs i (Suc n) = (if r_end (rs ! i) = 0 then Some i else find_spare rs (i + 1) n)"

text \<open>
  One iteration of \<open>subtract_range\<close> at slot \<open>j\<close>. The flag records that the message
  "run out of slot in ranges" was printed.
\<close>

definition subtract_step ::
  "nat \<Rightarrow> u64 \<Rightarrow> u64 \<Rightarrow> nat \<Rightarrow> range list \<times> bool \<Rightarrow> range list \<times> bool" where
  "subtract_step az start end j st =
     (case st of (rs, err) \<Rightarrow>
       (let rj = rs ! j in
        if r_end rj = 0 then (rs, err)
        else if start \<le> r_start rj \<and> end \<ge> r_end rj then (rs[j := empty_range], err)
        else if start \<le> r_start rj \<and> end < r_end rj \<and> r_start rj < end
          then (rs[j := rj\<lparr>r_start := end\<rparr>], err)
        else if start > r_start rj \<and> end \<ge> r_end rj \<and> r_end rj > start
          then (rs[j := rj\<lparr>r_end := start\<rparr>], err)
        else if start > r_start rj \<and> end < r_end rj
          then (case find_spare rs 0 az of
                  Some i \<Rightarrow> ((rs[i := \<lparr>r_start = end, r_end = r_end rj\<rparr>])[j := rj\<lparr>r_end := start\<rparr>], err)
                | None \<Rightarrow> (rs[j := rj\<lparr>r_end := start\<rparr>], True))
        else (rs, err)))"

definition subtract_range :: "range list \<Rightarrow> nat \<Rightarrow> u64 \<Rightarrow> u64 \<Rightarrow> range list \<times> bool" where
  "subtract_range rs az start end =
     (if start \<ge> end then (rs, False)
      else fold (subtract_step az start end) [0..<az] (rs, False))"

text \<open>The comparison is computed in 64 bits and returned as an \<^verbatim>\<open>int\<close>.\<close>

definition cmp_range :: "range \<Rightarrow> range \<Rightarrow> int" where
  "cmp_range r1 r2 = sint (ucast (r_start r1 - r_start r2) :: 32 word)"

fun find_last_used :: "range list \<Rightarrow> nat \<Rightarrow> nat \<Rightarrow> nat option" where
  "find_last_used rs i 0 = None"
| "find_last_used rs i (Suc j) =
     (if Suc j > i then
        if r_end (rs ! Suc j) \<noteq> 0 then Some (Suc j) else find_last_used rs i j
      else None)"

lemma find_last_used_bounds: "find_last_used rs i j = Some k \<Longrightarrow> i < k \<and> k \<le> j"
  by (induction j) (auto split: if_splits)

function compact_loop :: "range list \<Rightarrow> nat \<Rightarrow> nat \<Rightarrow> range list" where
  "compact_loop rs i k =
     (if i < k then
        if r_end (rs ! i) \<noteq> 0 then compact_loop rs (i + 1) k
        else case find_last_used rs i k of
               None \<Rightarrow> rs
             | Some k' \<Rightarrow> compact_loop (rs[i := rs ! k', k' := empty_range]) (i + 1) (k' - 1)
      else rs)"
  by pat_completeness auto
termination
  by (relation "measure (\<lambda>(rs, i, k). k - i)") (auto dest: find_last_used_bounds)

declare compact_loop.simps [simp del]

fun count_used :: "range list \<Rightarrow> nat \<Rightarrow> nat \<Rightarrow> nat" where
  "count_used rs i 0 = i"
| "count_used rs i (Suc n) = (if r_end (rs ! i) = 0 then i else count_used rs (i + 1) n)"

definition clean_sort_range ::
  "((range \<Rightarrow> range \<Rightarrow> int) \<Rightarrow> range list \<Rightarrow> range list) \<Rightarrow> range list \<Rightarrow> nat \<Rightarrow> range list \<times> nat" where
  "clean_sort_range lib_sort rs az =
     (let rs' = compact_loop rs 0 (az - 1);
          nr_range = count_used rs' 0 az
      in (lib_sort cmp_range (take nr_range rs') @ drop nr_range rs', nr_range))"

definition sort_range ::
  "((range \<Rightarrow> range \<Rightarrow> int) \<Rightarrow> range list \<Rightarrow> range list) \<Rightarrow> range list \<Rightarrow> nat \<Rightarrow> range list" where
  "sort_range lib_sort rs nr_range = lib_sort cmp_range (take nr_range rs) @ drop nr_range rs"

section \<open>What the arrays mean\<close>

definition iv :: "range \<Rightarrow> u64 set" where
  "iv r = {r_start r..<r_end r}"

definition covered :: "range list \<Rightarrow> u64 set" where
  "covered rs = (\<Union>r\<in>set rs. iv r)"

definition touches :: "range \<Rightarrow> u64 \<Rightarrow> u64 \<Rightarrow> bool" where
  "touches r s e \<longleftrightarrow> r_end r \<noteq> 0 \<and> \<not> min (r_end r) e < max (r_start r) s"

definition apart :: "range \<Rightarrow> range \<Rightarrow> bool" where
  "apart r q \<longleftrightarrow> r_end r < r_start q \<or> r_end q < r_start r"

text \<open>The used slots hold non-empty ranges no two of which overlap or are adjacent.\<close>

definition wf_ranges :: "range list \<Rightarrow> bool" where
  "wf_ranges rs \<longleftrightarrow> (\<forall>r\<in>set rs. r_start r < r_end r) \<and> sorted_wrt apart rs"

lemma covered_simps [simp]:
  "covered [] = {}"
  "covered (r # rs) = iv r \<union> covered rs"
  "covered (rs @ qs) = covered rs \<union> covered qs"
  by (auto simp: covered_def)

lemma iv_covered: "r \<in> set rs \<Longrightarrow> iv r \<subseteq> covered rs"
  by (auto simp: covered_def)


section \<open>Adding a range\<close>

text \<open>The loop on the used prefix, without the array: what it keeps and the range it leaves to add.\<close>

fun merge_spec :: "range list \<Rightarrow> u64 \<Rightarrow> u64 \<Rightarrow> range list \<times> u64 \<times> u64" where
  "merge_spec [] s e = ([], s, e)"
| "merge_spec (r # rs) s e =
     (if touches r s e then merge_spec rs (min (r_start r) s) (max (r_end r) e)
      else case merge_spec rs s e of (rs', s', e') \<Rightarrow> (r # rs', s', e'))"

lemma take_remove_slot:
  assumes "i < n" "n \<le> length xs"
  shows "take (n - 1) ((memmove i (i + 1) (n - (i + 1)) xs)[n - 1 := z]) = take i xs @ drop (i + 1) (take n xs)"
proof -
  have "n - 1 = i \<or> i < n - 1" using assms by linarith
  with assms show ?thesis by (auto simp: memmove_def take_drop min_def)
qed

lemma merge_loop_spec:
  assumes "i \<le> nr" "nr \<le> length rs"
    and "merge_loop rs i nr s e = (rs', nr', s', e')"
  shows "length rs' = length rs \<and> nr' \<le> nr \<and>
    (\<exists>qs. merge_spec (drop i (take nr rs)) s e = (qs, s', e') \<and> take nr' rs' = take i rs @ qs)"
  using assms
proof (induction rs i nr s e rule: merge_loop.induct)
  case (1 rs i nr s e)
  let ?rs = "(memmove i (i + 1) (nr - (i + 1)) rs)[nr - 1 := empty_range]"
  show ?case
  proof (cases "i < nr")
    case False
    then have "merge_loop rs i nr s e = (rs, nr, s, e)" by (simp add: merge_loop.simps)
    with False 1(4-) show ?thesis by simp
  next
    case True
    have dr: "drop i (take nr rs) = rs ! i # drop (i + 1) (take nr rs)"
      using True 1(5) by (simp add: Cons_nth_drop_Suc [symmetric])
    show ?thesis
    proof (cases "touches (rs ! i) s e")
      case False
      have "merge_loop rs i nr s e = merge_loop rs (i + 1) nr s e"
        using True False by (subst merge_loop.simps) (auto simp: touches_def Let_def)
      then have "length rs' = length rs \<and> nr' \<le> nr \<and>
         (\<exists>qs. merge_spec (drop (i + 1) (take nr rs)) s e = (qs, s', e') \<and> take nr' rs' = take (i + 1) rs @ qs)"
        using False True 1(1,2) 1(5,6) by (auto simp: touches_def)
      then show ?thesis using False True 1(5) unfolding dr by (auto simp: take_Suc_conv_app_nth)
    next
      case touch: True
      have "merge_loop rs i nr s e =
          merge_loop ?rs i (nr - 1) (min (r_start (rs ! i)) s) (max (r_end (rs ! i)) e)"
        using True touch by (subst merge_loop.simps) (auto simp: touches_def Let_def)
      moreover have tk: "take i ?rs = take i rs" "length ?rs = length rs"
        using True 1(5) by (simp_all add: memmove_def)
      moreover have "drop i (take (nr - 1) ?rs) = drop (i + 1) (take nr rs)"
        unfolding take_remove_slot [OF True 1(5)] using True 1(5) by simp
      ultimately have "length rs' = length rs \<and> nr' \<le> nr - 1 \<and>
         (\<exists>qs. merge_spec (drop (i + 1) (take nr rs)) (min (r_start (rs ! i)) s) (max (r_end (rs ! i)) e) =
                 (qs, s', e') \<and> take nr' rs' = take i rs @ qs)"
        using touch True 1(3) 1(5,6) by (auto simp: touches_def)
      then show ?thesis using touch unfolding dr by auto
    qed
  qed
qed


lemma covered_hull:
  assumes "touches r s e"
  shows "iv r \<union> {s..<e} = {min (r_start r) s..<max (r_end r) e}"
  using assms by (auto simp: iv_def touches_def not_less min_def max_def split: if_splits)

lemma merge_spec_covered:
  "merge_spec rs s e = (qs, s', e') \<Longrightarrow> covered qs \<union> {s'..<e'} = covered rs \<union> {s..<e}"
proof (induction rs s e arbitrary: qs rule: merge_spec.induct)
  case (1 s e)
  then show ?case by simp
next
  case (2 r rs s e)
  show ?case
  proof (cases "touches r s e")
    case True
    with 2 show ?thesis by (auto simp flip: covered_hull)
  next
    case False
    with 2 show ?thesis by (force split: prod.splits)
  qed
qed

lemma merge_spec_grows: "merge_spec rs s e = (qs, s', e') \<Longrightarrow> s' \<le> s \<and> e \<le> e'"
  by (induction rs s e arbitrary: qs rule: merge_spec.induct)
    (force split: prod.splits if_splits)+

lemma merge_spec_subset: "merge_spec rs s e = (qs, s', e') \<Longrightarrow> set qs \<subseteq> set rs"
  by (induction rs s e arbitrary: qs rule: merge_spec.induct)
    (force split: prod.splits if_splits)+

lemma merge_spec_shrinks:
  "merge_spec rs s e = (qs, s', e') \<Longrightarrow>
    length qs \<le> length rs \<and> ((\<exists>r\<in>set rs. touches r s e) \<longrightarrow> length qs < length rs)"
  by (induction rs s e arbitrary: qs rule: merge_spec.induct)
    (fastforce split: prod.splits if_splits)+

text \<open>A range apart from two ranges that meet is apart from their hull.\<close>

lemma apart_hull:
  assumes "r_start p < r_end p" "r_start q < r_end q" "touches q s e"
    and "apart p q" "apart p \<lparr>r_start = s, r_end = e\<rparr>"
  shows "apart p \<lparr>r_start = min (r_start q) s, r_end = max (r_end q) e\<rparr>"
  using assms by (auto simp: touches_def apart_def not_less min_def max_def split: if_splits)

lemma not_touches_apart:
  assumes "\<not> touches r s e" "r_start r < r_end r" "s < e"
  shows "apart r \<lparr>r_start = s, r_end = e\<rparr>"
  using assms by (auto simp: touches_def apart_def min_def max_def split: if_splits)

lemma merge_spec_apart:
  "merge_spec rs s e = (qs, s', e') \<Longrightarrow> r_start p < r_end p \<Longrightarrow> \<forall>q\<in>set rs. r_start q < r_end q \<and> apart p q \<Longrightarrow>
    apart p \<lparr>r_start = s, r_end = e\<rparr> \<Longrightarrow> apart p \<lparr>r_start = s', r_end = e'\<rparr>"
  by (induction rs s e arbitrary: qs rule: merge_spec.induct)
    (auto split: prod.splits if_splits intro: apart_hull)

lemma merge_spec_wf:
  "merge_spec rs s e = (qs, s', e') \<Longrightarrow> wf_ranges rs \<Longrightarrow> s < e \<Longrightarrow>
    wf_ranges (qs @ [\<lparr>r_start = s', r_end = e'\<rparr>])"
proof (induction rs s e arbitrary: qs rule: merge_spec.induct)
  case (1 s e)
  then show ?case by (simp add: wf_ranges_def)
next
  case (2 r rs s e)
  show ?case
  proof (cases "touches r s e")
    case True
    with 2 show ?thesis by (auto simp: wf_ranges_def min_less_iff_disj less_max_iff_disj)
  next
    case False
    then obtain qs' where qs: "merge_spec rs s e = (qs', s', e')" "qs = r # qs'"
      using 2(3) by (auto split: prod.splits)
    have wf: "wf_ranges (qs' @ [\<lparr>r_start = s', r_end = e'\<rparr>])"
      using 2(2,4,5) False qs by (auto simp: wf_ranges_def)
    have r: "r_start r < r_end r" "\<forall>q\<in>set rs. r_start q < r_end q \<and> apart r q"
      using 2(4) by (auto simp: wf_ranges_def)
    have "apart r \<lparr>r_start = s', r_end = e'\<rparr>"
      using merge_spec_apart [OF qs(1) r] not_touches_apart [OF False r(1) 2(5)] .
    with wf r merge_spec_subset [OF qs(1)] qs(2) show ?thesis
      by (auto simp: wf_ranges_def)
  qed
qed


lemma merge_spec_none: "\<forall>r\<in>set rs. \<not> touches r s e \<Longrightarrow> merge_spec rs s e = (rs, s, e)"
  by (induction rs) auto

text \<open>A full array with no range that meets the new one: nothing changes.\<close>

lemma add_range_with_merge_full:
  assumes "length rs = az" "start < end" "\<forall>r\<in>set (take az rs). \<not> touches r start end"
    and "add_range_with_merge rs az az start end = (rs', nr')"
  shows "length rs' = az \<and> nr' = az \<and> take nr' rs' = take az rs"
proof -
  obtain qs n s e where loop: "merge_loop rs 0 az start end = (qs, n, s, e)"
    by (cases "merge_loop rs 0 az start end") auto
  have spec: "length qs = az" "n \<le> az" "(take n qs, s, e) = (take az rs, start, end)"
    using merge_loop_spec [OF _ _ loop] merge_spec_none [OF assms(3)] assms(1) by auto
  then have "n = az" using assms(1) by (metis Pair_inject length_take min.absorb2 order_refl)
  then show ?thesis
    using assms(2,4) [folded not_le] loop spec by (auto simp: add_range_with_merge_def add_range_def)
qed

text \<open>
  C21. Adding a non-empty range with merging keeps the used slots well formed (non-empty, pairwise disjoint
  and non-adjacent) and makes them cover exactly the old addresses and the new ones, if there is a free slot or the new
  range meets a stored one. Otherwise the array is full, and the ranges in it stay as they are: the new one is dropped.
\<close>

theorem add_range_with_merge_correct:
  assumes "length rs = az" "nr \<le> az" "wf_ranges (take nr rs)" "start < end"
    and "add_range_with_merge rs az nr start end = (rs', nr')"
  shows "length rs' = az \<and> nr' \<le> az \<and> wf_ranges (take nr' rs') \<and>
    (if nr < az \<or> (\<exists>r\<in>set (take nr rs). touches r start end)
     then covered (take nr' rs') = covered (take nr rs) \<union> {start..<end}
     else nr' = nr \<and> take nr' rs' = take nr rs)"
proof (cases "nr < az \<or> (\<exists>r\<in>set (take nr rs). touches r start end)")
  case False
  then have "nr = az" using assms(2) by simp
  then show ?thesis using add_range_with_merge_full [of rs az start "end" rs' nr'] assms False by auto
next
  case room: True
  obtain qs n s e where loop: "merge_loop rs 0 nr start end = (qs, n, s, e)"
    by (cases "merge_loop rs 0 nr start end") auto
  have spec: "length qs = az" "n \<le> nr" "merge_spec (take nr rs) start end = (take n qs, s, e)"
    using merge_loop_spec [OF _ _ loop] assms(1,2) by auto
  have "s < e" using merge_spec_grows [OF spec(3)] assms(4) by auto
  have "n < az"
  proof (cases "nr < az")
    case False
    then have "length (take n qs) < length (take nr rs)"
      using merge_spec_shrinks [OF spec(3)] room by auto
    then show ?thesis using assms(1,2) spec(1,2) by simp
  qed (use spec(2) in simp)
  then have res: "rs' = qs[n := \<lparr>r_start = s, r_end = e\<rparr>]" "nr' = n + 1"
    using assms(5) loop assms(4) [folded not_le] \<open>s < e\<close> [folded not_le]
    by (auto simp: add_range_with_merge_def add_range_def)
  have tk: "take nr' rs' = take n qs @ [\<lparr>r_start = s, r_end = e\<rparr>]"
    using res \<open>n < az\<close> spec(1) by (simp add: take_Suc_conv_app_nth)
  show ?thesis
    using merge_spec_wf [OF spec(3) assms(3,4)] merge_spec_covered [OF spec(3)] res spec(1) \<open>n < az\<close> room
    unfolding tk by (simp add: iv_def)
qed

theorem add_range_with_merge_witness:
  "let rs = [\<lparr>r_start = 10, r_end = 20\<rparr>, \<lparr>r_start = 30, r_end = 40\<rparr>, empty_range];
       (rs', nr') = add_range_with_merge rs 3 2 15 30
   in nr' = 1 \<and> wf_ranges (take nr' rs') \<and> covered (take nr' rs') = covered (take 2 rs) \<union> {15..<30}"
  using add_range_with_merge_correct
    [of "[\<lparr>r_start = 10, r_end = 20\<rparr>, \<lparr>r_start = 30, r_end = 40\<rparr>, empty_range]" 3 2 15 30]
  by (simp add: add_range_with_merge_def add_range_def merge_loop.simps memmove_def empty_range_def
      wf_ranges_def apart_def)


section \<open>Subtracting a range\<close>

lemma covered_update:
  assumes "j < length rs"
  shows "covered (rs[j := x]) \<union> iv (rs ! j) = covered rs \<union> iv x" and "iv x \<subseteq> covered (rs[j := x])"
    and "covered (rs[j := x]) \<subseteq> covered rs \<union> iv x"
proof -
  have "covered rs = covered (take j rs @ rs ! j # drop (Suc j) rs)"
    using id_take_nth_drop [OF assms] by simp
  moreover have "covered (rs[j := x]) = covered (take j rs @ x # drop (Suc j) rs)"
    using upd_conv_take_nth_drop [OF assms] by simp
  ultimately show "covered (rs[j := x]) \<union> iv (rs ! j) = covered rs \<union> iv x"
    and "iv x \<subseteq> covered (rs[j := x])" and "covered (rs[j := x]) \<subseteq> covered rs \<union> iv x"
    by auto
qed

lemma find_spare_Some: "find_spare rs i n = Some k \<Longrightarrow> i \<le> k \<and> k < i + n \<and> r_end (rs ! k) = 0"
  by (induction n arbitrary: i) (fastforce split: if_splits)+

lemma find_spare_None: "find_spare rs i n = None \<Longrightarrow> i \<le> k \<Longrightarrow> k < i + n \<Longrightarrow> r_end (rs ! k) \<noteq> 0"
proof (induction n arbitrary: i)
  case (Suc n)
  then show ?case by (cases "k = i") (auto split: if_splits)
qed simp

lemma iv_free [simp]: "r_end r = 0 \<Longrightarrow> iv r = {}"
  by (simp add: iv_def)

text \<open>
  What the loop keeps while it subtracts \<open>{s..<e}\<close>: the slots already visited are clear of it, no
  address is added, and none outside it is lost unless a slot was missing.
\<close>

definition subtract_inv :: "range list \<Rightarrow> u64 \<Rightarrow> u64 \<Rightarrow> nat \<Rightarrow> range list \<times> bool \<Rightarrow> bool" where
  "subtract_inv rs0 s e j st \<longleftrightarrow>
     (case st of (rs, err) \<Rightarrow>
        length rs = length rs0 \<and> (\<forall>k<j. iv (rs ! k) \<inter> {s..<e} = {}) \<and> covered rs \<subseteq> covered rs0 \<and>
        (\<not> err \<longrightarrow> covered rs0 - {s..<e} \<subseteq> covered rs))"

lemma subtract_inv_replace:
  assumes inv: "subtract_inv rs0 s e j (rs, err)" and j: "j < length rs"
    and x: "iv x \<subseteq> iv (rs ! j) - {s..<e}"
    and rest: "\<not> err' \<Longrightarrow> \<not> err \<and> iv (rs ! j) - {s..<e} \<subseteq> covered (rs[j := x])"
  shows "subtract_inv rs0 s e (Suc j) (rs[j := x], err')"
proof -
  let ?D = "{s..<e}"
  have upd: "covered rs \<subseteq> covered (rs[j := x]) \<union> iv (rs ! j)" "covered (rs[j := x]) \<subseteq> covered rs \<union> iv x"
    using covered_update [OF j, of x] by simp_all
  have "iv (rs ! j) \<subseteq> covered rs" using j by (simp add: iv_covered)
  then have sub: "covered (rs[j := x]) \<subseteq> covered rs"
    using upd(2) x by (meson Diff_subset Un_least order_trans subset_refl)
  have rest': "covered rs - ?D \<subseteq> covered (rs[j := x])" if "\<not> err'"
    using upd(1) rest [OF that] by (meson Diff_subset_conv Un_least Un_upper2 order_trans sup.coboundedI1 sup_commute)
  have clear: "iv (rs[j := x] ! k) \<inter> ?D = {}" if "k < Suc j" for k
  proof (cases "k = j")
    case True
    then show ?thesis using j x by auto
  next
    case False
    with that inv show ?thesis by (simp add: subtract_inv_def)
  qed
  have old: "length rs = length rs0" "covered rs \<subseteq> covered rs0" "\<not> err \<Longrightarrow> covered rs0 - ?D \<subseteq> covered rs"
    using inv by (simp_all add: subtract_inv_def)
  have "covered rs0 - ?D \<subseteq> covered (rs[j := x])" if "\<not> err'"
    using old(3) rest [OF that] rest' [OF that] by blast
  with clear old(1,2) sub show ?thesis by (simp add: subtract_inv_def)
qed

lemma subtract_inv_shrink:
  assumes inv: "subtract_inv rs0 s e j (rs, err)" and j: "j < length rs"
    and x: "iv x = iv (rs ! j) - {s..<e}"
  shows "subtract_inv rs0 s e (Suc j) (rs[j := x], err)"
  using covered_update(2) [OF j, of x] x by (intro subtract_inv_replace [OF inv j]) blast+

lemma subtract_inv_skip:
  assumes inv: "subtract_inv rs0 s e j (rs, err)" and j: "j < length rs"
    and "iv (rs ! j) \<inter> {s..<e} = {}"
  shows "subtract_inv rs0 s e (Suc j) (rs, err)"
  using subtract_inv_shrink [OF inv j, of "rs ! j"] assms(3) by (simp add: Diff_triv)

text \<open>The upper part of a range that is split goes to a free slot.\<close>

lemma subtract_inv_split:
  assumes inv: "subtract_inv rs0 s e j (rs, err)" and j: "j < length rs"
    and i: "i < length rs" "r_end (rs ! i) = 0"
    and rj: "s > r_start (rs ! j)" "e < r_end (rs ! j)" "s < e"
  shows "subtract_inv rs0 s e (Suc j)
    ((rs[i := \<lparr>r_start = e, r_end = r_end (rs ! j)\<rparr>])[j := (rs ! j)\<lparr>r_end := s\<rparr>], err)"
proof -
  let ?y = "\<lparr>r_start = e, r_end = r_end (rs ! j)\<rparr>" and ?x = "(rs ! j)\<lparr>r_end := s\<rparr>"
  have ij: "i \<noteq> j" using i rj by auto
  have sets: "iv ?y \<union> iv ?x = iv (rs ! j) - {s..<e}" "iv ?y \<inter> {s..<e} = {}"
    using rj by (auto simp: iv_def)
  have up: "covered (rs[i := ?y]) = covered rs \<union> iv ?y"
    using covered_update(1) [OF i(1), of ?y] i(2) by simp
  moreover have "iv (rs ! j) \<subseteq> covered rs" using nth_mem [OF j] by (auto simp: covered_def iv_def)
  ultimately have "covered (rs[i := ?y]) = covered rs" using sets by blast
  then have inv': "subtract_inv rs0 s e j (rs[i := ?y], err)"
    using inv sets(2) i by (simp add: subtract_inv_def nth_list_update)
  have jj: "j < length (rs[i := ?y])" "(rs[i := ?y]) ! j = rs ! j" using j ij by simp_all
  have "iv ?y \<subseteq> covered (rs[i := ?y, j := ?x])"
    using covered_update(2) [of i "rs[j := ?x]" ?y] i ij by (simp add: list_update_swap)
  then show ?thesis
    using sets covered_update(2) [OF jj(1), of ?x] jj(2)
    by (intro subtract_inv_replace [OF inv' jj(1)]) auto
qed

text \<open>A range that contains the subtracted one on both sides is split, if there is a free slot.\<close>

lemma subtract_inv_inside:
  assumes inv: "subtract_inv rs0 s e j (rs, err)" and len: "j < length rs" "length rs = az" and "s < e"
    and r: "r_end (rs ! j) \<noteq> 0" "r_start (rs ! j) < s" "e < r_end (rs ! j)"
  shows "subtract_inv rs0 s e (Suc j) (subtract_step az s e j (rs, err))"
proof -
  let ?r = "rs ! j"
  have step: "subtract_step az s e j (rs, err) =
    (case find_spare rs 0 az of
       Some i \<Rightarrow> ((rs[i := \<lparr>r_start = e, r_end = r_end ?r\<rparr>])[j := ?r\<lparr>r_end := s\<rparr>], err)
     | None \<Rightarrow> (rs[j := ?r\<lparr>r_end := s\<rparr>], True))"
    using r r(2,3) [folded not_le] by (simp add: subtract_step_def Let_def)
  show ?thesis
  proof (cases "find_spare rs 0 az")
    case None
    have "iv (?r\<lparr>r_end := s\<rparr>) \<subseteq> iv ?r - {s..<e}" using r assms(4) by (auto simp: iv_def)
    then have "subtract_inv rs0 s e (Suc j) (rs[j := ?r\<lparr>r_end := s\<rparr>], True)"
      by (rule subtract_inv_replace [OF inv len(1)]) simp
    then show ?thesis using None step by simp
  next
    case (Some i)
    then have "i < length rs" "r_end (rs ! i) = 0" using find_spare_Some [OF Some] len by auto
    then show ?thesis using subtract_inv_split [OF inv len(1) _ _ r(2,3) assms(4)] Some step by simp
  qed
qed

lemma subtract_inv_step:
  assumes inv: "subtract_inv rs0 s e j st" and j: "j < length rs0" "length rs0 = az" and "s < e"
  shows "subtract_inv rs0 s e (Suc j) (subtract_step az s e j st)"
proof -
  obtain rs err where st: "st = (rs, err)" by (cases st)
  then have inv: "subtract_inv rs0 s e j (rs, err)" and len: "j < length rs" "length rs = az"
    using inv j by (auto simp: subtract_inv_def)
  let ?r = "rs ! j"
  consider "r_end ?r = 0" | "r_end ?r \<noteq> 0" "s \<le> r_start ?r" "r_end ?r \<le> e"
    | "r_end ?r \<noteq> 0" "s \<le> r_start ?r" "e < r_end ?r" "r_start ?r < e"
    | "r_end ?r \<noteq> 0" "r_start ?r < s" "r_end ?r \<le> e" "s < r_end ?r"
    | "r_end ?r \<noteq> 0" "r_start ?r < s" "e < r_end ?r"
    | "r_end ?r \<noteq> 0" "s \<le> r_start ?r" "e < r_end ?r" "e \<le> r_start ?r"
    | "r_end ?r \<noteq> 0" "r_start ?r < s" "r_end ?r \<le> e" "r_end ?r \<le> s"
    by (cases "r_end ?r = 0"; cases "s \<le> r_start ?r"; cases "r_end ?r \<le> e";
        cases "r_start ?r < e"; cases "s < r_end ?r") (simp_all add: not_le not_less)
  then show ?thesis
  proof cases
    case 1
    then show ?thesis using inv len by (simp add: st subtract_step_def subtract_inv_skip)
  next
    case 2
    then have "iv empty_range = iv ?r - {s..<e}" by (auto simp: iv_def empty_range_def)
    with 2 show ?thesis using subtract_inv_shrink [OF inv len(1)] by (simp add: st subtract_step_def Let_def)
  next
    case 3
    then have "iv (?r\<lparr>r_start := e\<rparr>) = iv ?r - {s..<e}" using assms(4) by (auto simp: iv_def)
    with 3 3(3) [folded not_le] show ?thesis using subtract_inv_shrink [OF inv len(1)]
      by (simp add: st subtract_step_def Let_def)
  next
    case 4
    then have "iv (?r\<lparr>r_end := s\<rparr>) = iv ?r - {s..<e}" by (auto simp: iv_def)
    with 4 4(2) [folded not_le] show ?thesis using subtract_inv_shrink [OF inv len(1)]
      by (simp add: st subtract_step_def Let_def)
  next
    case 5
    then show ?thesis using subtract_inv_inside [OF inv len assms(4)] st by simp
  next
    case 6
    then have "iv ?r \<inter> {s..<e} = {}" by (auto simp: iv_def)
    with 6 6(2,4) [folded not_less] 6(3) [folded not_le] show ?thesis using subtract_inv_skip [OF inv len(1)]
      by (simp add: st subtract_step_def Let_def)
  next
    case 7
    then have "iv ?r \<inter> {s..<e} = {}" by (auto simp: iv_def)
    with 7 7(3,4) [folded not_less] 7(2) [folded not_le] show ?thesis using subtract_inv_skip [OF inv len(1)]
      by (simp add: st subtract_step_def Let_def)
  qed
qed


lemma subtract_inv_fold:
  assumes "subtract_inv rs0 s e 0 st" "length rs0 = az" "s < e" "n \<le> az"
  shows "subtract_inv rs0 s e n (fold (subtract_step az s e) [0..<n] st)"
  using assms(4)
proof (induction n)
  case 0
  then show ?case using assms(1) by simp
next
  case (Suc n)
  then show ?case using subtract_inv_step [OF Suc.IH] assms(2,3) by simp
qed

lemma covered_disjoint_nth:
  "(\<forall>k<length rs. iv (rs ! k) \<inter> D = {}) \<Longrightarrow> covered rs \<inter> D = {}"
  unfolding covered_def set_conv_nth by blast

text \<open>
  C22. Subtracting a range leaves no address of it in the array and adds none; and as long as the
  "run out of slot" message is not printed, every address outside the range stays covered.
\<close>

theorem subtract_range_correct:
  assumes "length rs = az" "start < end" "subtract_range rs az start end = (rs', err)"
  shows "length rs' = az \<and> covered rs' \<subseteq> covered rs - {start..<end} \<and>
    (\<not> err \<longrightarrow> covered rs' = covered rs - {start..<end})"
proof -
  have "subtract_inv rs start end 0 (rs, False)"
    by (auto simp: subtract_inv_def)
  from subtract_inv_fold [OF this assms(1,2), of az]
  have inv: "subtract_inv rs start end az (rs', err)"
    using assms(2) [folded not_le] assms(3) by (simp add: subtract_range_def)
  then have "length rs' = az" "covered rs' \<subseteq> covered rs"
    "\<not> err \<longrightarrow> covered rs - {start..<end} \<subseteq> covered rs'"
    "\<forall>k<length rs'. iv (rs' ! k) \<inter> {start..<end} = {}"
    using assms(1) by (simp_all add: subtract_inv_def)
  moreover from this(4) have "covered rs' \<inter> {start..<end} = {}" by (rule covered_disjoint_nth)
  ultimately show ?thesis by blast
qed

theorem subtract_range_witness:
  "let rs = [\<lparr>r_start = 10, r_end = 40\<rparr>, empty_range];
       (rs', err) = subtract_range rs 2 20 30
   in \<not> err \<and> covered rs' = covered rs - {20..<30} \<and> rs' = [\<lparr>r_start = 10, r_end = 20\<rparr>, \<lparr>r_start = 30, r_end = 40\<rparr>]"
proof -
  have eval: "subtract_range [\<lparr>r_start = 10, r_end = 40\<rparr>, empty_range] 2 20 30 =
      ([\<lparr>r_start = 10, r_end = 20\<rparr>, \<lparr>r_start = 30, r_end = 40\<rparr>], False)"
    by code_simp
  show ?thesis using subtract_range_correct [OF _ _ eval] eval by simp
qed

section \<open>Compacting and sorting\<close>

abbreviation used :: "range \<Rightarrow> bool" where
  "used r \<equiv> r_end r \<noteq> 0"

text \<open>What \<^verbatim>\<open>lib/sort.c\<close> promises: a permutation, in order whenever the comparison is a total preorder.\<close>

definition sort_contract :: "((range \<Rightarrow> range \<Rightarrow> int) \<Rightarrow> range list \<Rightarrow> range list) \<Rightarrow> bool" where
  "sort_contract lib_sort \<longleftrightarrow>
     (\<forall>cmp xs. mset (lib_sort cmp xs) = mset xs \<and>
        ((\<forall>x\<in>set xs. \<forall>y\<in>set xs. cmp x y \<le> 0 \<or> cmp y x \<le> 0) \<and>
         (\<forall>x\<in>set xs. \<forall>y\<in>set xs. \<forall>z\<in>set xs. cmp x y \<le> 0 \<longrightarrow> cmp y z \<le> 0 \<longrightarrow> cmp x z \<le> 0)
         \<longrightarrow> sorted_wrt (\<lambda>x y. cmp x y \<le> 0) (lib_sort cmp xs)))"

lemma sort_contract_perm: "sort_contract lib_sort \<Longrightarrow> mset (lib_sort cmp xs) = mset xs"
  by (simp add: sort_contract_def)

lemma sort_contract_sorted:
  assumes "sort_contract lib_sort"
    and "\<And>x y. x \<in> set xs \<Longrightarrow> y \<in> set xs \<Longrightarrow> cmp x y \<le> 0 \<or> cmp y x \<le> 0"
    and "\<And>x y z. x \<in> set xs \<Longrightarrow> y \<in> set xs \<Longrightarrow> z \<in> set xs \<Longrightarrow> cmp x y \<le> 0 \<Longrightarrow> cmp y z \<le> 0 \<Longrightarrow> cmp x z \<le> 0"
  shows "sorted_wrt (\<lambda>x y. cmp x y \<le> 0) (lib_sort cmp xs)"
  using assms unfolding sort_contract_def by blast

lemma find_last_used_Some: "find_last_used rs i j = Some k \<Longrightarrow> used (rs ! k) \<and> (\<forall>l. k < l \<longrightarrow> l \<le> j \<longrightarrow> \<not> used (rs ! l))"
  by (induction j) (auto split: if_splits simp: le_Suc_eq)

lemma find_last_used_None: "find_last_used rs i j = None \<Longrightarrow> i < l \<Longrightarrow> l \<le> j \<Longrightarrow> \<not> used (rs ! l)"
  by (induction j) (auto split: if_splits simp: le_Suc_eq)

text \<open>A compacted array: used slots first, then free ones.\<close>

definition compacted :: "range list \<Rightarrow> bool" where
  "compacted rs \<longleftrightarrow> (\<exists>n\<le>length rs. (\<forall>k<n. used (rs ! k)) \<and> (\<forall>k. n \<le> k \<longrightarrow> k < length rs \<longrightarrow> \<not> used (rs ! k)))"

lemma mset_move_used:
  assumes "i < length rs" "k < length rs" "i \<noteq> k" "\<not> used (rs ! i)"
  shows "mset (filter used (rs[i := rs ! k, k := empty_range])) = mset (filter used rs)"
proof -
  have "mset (filter used (rs[i := rs ! k, k := rs ! i])) = mset (filter used rs)"
    using mset_exchange [OF assms(1,2)] by (metis mset_filter)
  moreover have "filter used (rs[i := rs ! k, k := rs ! i, k := empty_range]) = filter used (rs[i := rs ! k, k := rs ! i])"
    using assms by (intro filter_list_update_same) (simp_all add: empty_range_def)
  ultimately show ?thesis by simp
qed

lemma compacted_end:
  assumes k: "k < length rs" "i \<le> Suc k" "\<not> i < k" and below: "\<forall>l<i. used (rs ! l)" and above: "\<forall>l. k < l \<longrightarrow> l < length rs \<longrightarrow> \<not> used (rs ! l)"
  shows "compacted rs"
proof (cases "i = k \<and> \<not> used (rs ! k)")
  case True
  then have "\<forall>l. k \<le> l \<longrightarrow> l < length rs \<longrightarrow> \<not> used (rs ! l)" using above le_neq_implies_less by blast
  then show ?thesis unfolding compacted_def using k below True by (intro exI [of _ k]) auto
next
  case False
  then have "\<forall>l<Suc k. used (rs ! l)" using k below by (auto simp: less_Suc_eq le_Suc_eq)
  then show ?thesis unfolding compacted_def using k above by (intro exI [of _ "Suc k"]) auto
qed

text \<open>Moving the last used range to the first free slot.\<close>

lemma compact_moved:
  assumes k: "k < length rs" and below: "\<forall>l<i. used (rs ! l)" and above: "\<forall>l. k < l \<longrightarrow> l < length rs \<longrightarrow> \<not> used (rs ! l)"
    and k': "i < k'" "k' \<le> k" "used (rs ! k')" "\<forall>l. k' < l \<longrightarrow> l \<le> k \<longrightarrow> \<not> used (rs ! l)"
  shows "\<forall>l<i + 1. used (rs[i := rs ! k', k' := empty_range] ! l)"
    and "\<forall>l. k' - 1 < l \<longrightarrow> l < length (rs[i := rs ! k', k' := empty_range]) \<longrightarrow> \<not> used (rs[i := rs ! k', k' := empty_range] ! l)"
proof -
  show "\<forall>l<i + 1. used (rs[i := rs ! k', k' := empty_range] ! l)" using k' k below by (auto simp: nth_list_update less_Suc_eq)
  show "\<forall>l. k' - 1 < l \<longrightarrow> l < length (rs[i := rs ! k', k' := empty_range]) \<longrightarrow> \<not> used (rs[i := rs ! k', k' := empty_range] ! l)"
  proof (intro allI impI)
    fix l
    assume "k' - 1 < l" "l < length (rs[i := rs ! k', k' := empty_range])"
    moreover from this have "l = k' \<or> k' < l" by linarith
    ultimately show "\<not> used (rs[i := rs ! k', k' := empty_range] ! l)"
      using k' above by (cases "l \<le> k") (auto simp: nth_list_update empty_range_def)
  qed
qed

lemma compact_loop_correct:
  assumes "k < length rs" "i \<le> Suc k" "\<forall>l<i. used (rs ! l)" "\<forall>l. k < l \<longrightarrow> l < length rs \<longrightarrow> \<not> used (rs ! l)"
  shows "length (compact_loop rs i k) = length rs \<and> compacted (compact_loop rs i k) \<and>
    mset (filter used (compact_loop rs i k)) = mset (filter used rs)"
  using assms
proof (induction rs i k rule: compact_loop.induct)
  case (1 rs i k)
  show ?case
  proof (cases "i < k")
    case False
    then have "compact_loop rs i k = rs" by (simp add: compact_loop.simps)
    moreover have "compacted rs" using compacted_end 1(3-) False by simp
    ultimately show ?thesis by simp
  next
    case True
    show ?thesis
    proof (cases "used (rs ! i)")
      case u: True
      then have "compact_loop rs i k = compact_loop rs (i + 1) k" using True by (subst compact_loop.simps) simp
      then show ?thesis using 1(1) [OF True u] 1(3-) True u by (simp add: less_Suc_eq)
    next
      case u: False
      show ?thesis
      proof (cases "find_last_used rs i k")
        case None
        then have "compact_loop rs i k = rs" using True u by (subst compact_loop.simps) simp
        moreover have "\<forall>l. i \<le> l \<longrightarrow> l < length rs \<longrightarrow> \<not> used (rs ! l)"
          using find_last_used_None [OF None] u 1(6) by (metis le_neq_implies_less not_le)
        then have "compacted rs" unfolding compacted_def using 1(3,5) True by (intro exI [of _ i]) auto
        ultimately show ?thesis by simp
      next
        case (Some k')
        let ?rs = "rs[i := rs ! k', k' := empty_range]"
        have k': "i < k'" "k' \<le> k" "used (rs ! k')" "\<forall>l. k' < l \<longrightarrow> l \<le> k \<longrightarrow> \<not> used (rs ! l)"
          using find_last_used_bounds [OF Some] find_last_used_Some [OF Some] by auto
        have eq: "compact_loop rs i k = compact_loop ?rs (i + 1) (k' - 1)"
          using True u Some by (subst compact_loop.simps) simp
        note moved = compact_moved [OF 1(3,5,6) k']
        have "mset (filter used ?rs) = mset (filter used rs)"
          using k' 1(3) u by (intro mset_move_used) auto
        then show ?thesis using 1(2) [OF True u Some] moved 1(3) k' eq by simp
      qed
    qed
  qed
qed


lemma count_used_bounds:
  "i + n = length rs \<Longrightarrow> i \<le> count_used rs i n \<and> count_used rs i n \<le> length rs \<and>
    (\<forall>k. i \<le> k \<longrightarrow> k < count_used rs i n \<longrightarrow> used (rs ! k)) \<and>
    (count_used rs i n < length rs \<longrightarrow> \<not> used (rs ! count_used rs i n))"
proof (induction n arbitrary: i)
  case (Suc n)
  then show ?case using Suc.IH [of "i + 1"] by (auto simp: Suc_le_eq dest: le_neq_implies_less)
qed simp

lemma count_used_compacted:
  assumes "compacted rs"
  shows "take (count_used rs 0 (length rs)) rs = filter used rs \<and>
    (\<forall>r\<in>set (drop (count_used rs 0 (length rs)) rs). \<not> used r)"
proof -
  let ?c = "count_used rs 0 (length rs)"
  obtain n where n: "n \<le> length rs" "\<forall>k<n. used (rs ! k)" "\<forall>k. n \<le> k \<longrightarrow> k < length rs \<longrightarrow> \<not> used (rs ! k)"
    using assms by (auto simp: compacted_def)
  have c: "?c \<le> length rs" "\<forall>k<?c. used (rs ! k)" "?c < length rs \<longrightarrow> \<not> used (rs ! ?c)"
    using count_used_bounds [of 0 "length rs" rs] by auto
  have "?c = n"
    using n c by (metis le_less_trans linorder_neqE_nat order.strict_implies_order order_less_le_trans order_refl)
  then have free: "\<forall>r\<in>set (drop ?c rs). \<not> used r" and full: "\<forall>r\<in>set (take ?c rs). used r"
    using n by (auto simp: in_set_conv_nth)
  have "filter used rs = filter used (take ?c rs) @ filter used (drop ?c rs)"
    by (simp flip: filter_append)
  also have "\<dots> = take ?c rs" using free full by (simp add: filter_id_conv)
  finally show ?thesis using free by simp
qed

lemma cmp_range_small:
  assumes "r_start r1 < 2 ^ 31" "r_start r2 < 2 ^ 31"
  shows "cmp_range r1 r2 = uint (r_start r1) - uint (r_start r2)"
proof -
  let ?d = "uint (r_start r1) - uint (r_start r2)"
  have b: "uint (r_start r1) < 2 ^ 31" "uint (r_start r2) < 2 ^ 31"
    using assms by (simp_all add: word_less_def)
  have "uint (r_start r1 - r_start r2) = take_bit 64 ?d"
    by (simp add: uint_word_ariths take_bit_eq_mod)
  then have "cmp_range r1 r2 = signed_take_bit 31 ?d"
    by (simp add: cmp_range_def sint_uint unsigned_ucast_eq signed_take_bit_take_bit)
  moreover have "- (2 ^ 31) \<le> ?d" "?d < 2 ^ 31"
    using b unsigned_greater_eq [of "r_start r1", where 'a = int] unsigned_greater_eq [of "r_start r2", where 'a = int]
    by linarith+
  ultimately show ?thesis by (simp add: signed_take_bit_int_eq_self)
qed

text \<open>
  Given a library sort that honours its contract, compacting and sorting keeps exactly the used
  ranges, puts them first and orders them by start address, for starts below \<open>2 ^ 31\<close>.
\<close>

theorem clean_sort_range_correct:
  assumes "sort_contract lib_sort" "length rs = az"
    and "\<forall>r\<in>set rs. used r \<longrightarrow> r_start r < 2 ^ 31"
    and "clean_sort_range lib_sort rs az = (rs', nr)"
  shows "nr = length (filter used rs) \<and> mset (take nr rs') = mset (filter used rs) \<and>
    (\<forall>r\<in>set (drop nr rs'). \<not> used r) \<and> sorted (map r_start (take nr rs')) \<and> length rs' = az"
proof -
  let ?c = "compact_loop rs 0 (az - 1)"
  have c: "length ?c = az \<and> compacted ?c \<and> mset (filter used ?c) = mset (filter used rs)"
  proof (cases "az = 0")
    case True
    then show ?thesis using assms(2) by (simp add: compact_loop.simps compacted_def)
  next
    case False
    then have "\<forall>l. az - 1 < l \<longrightarrow> l < length rs \<longrightarrow> \<not> used (rs ! l)" "az - 1 < length rs"
      using assms(2) by linarith+
    then show ?thesis using compact_loop_correct [of "az - 1" rs 0] assms(2) by blast
  qed
  let ?n = "count_used ?c 0 az" and ?u = "filter used ?c"
  have split: "take ?n ?c = ?u" "\<forall>r\<in>set (drop ?n ?c). \<not> used r"
    using count_used_compacted [of ?c] c by simp_all
  have res: "rs' = lib_sort cmp_range ?u @ drop ?n ?c" "nr = ?n"
    using assms(4) split(1) by (auto simp: clean_sort_range_def Let_def)
  have perm: "mset (lib_sort cmp_range ?u) = mset ?u" using assms(1) by (rule sort_contract_perm)
  have "?n \<le> az" using count_used_bounds [of 0 az ?c] c by simp
  then have len: "length (lib_sort cmp_range ?u) = nr"
    using perm c split(1) res(2) by (metis length_take min.absorb2 size_mset)
  have small: "\<forall>r\<in>set ?u. r_start r < 2 ^ 31"
  proof -
    have "set ?u = set (filter used rs)" using c by (intro mset_eq_setD) simp
    then show ?thesis using assms(3) by auto
  qed
  have cmp: "cmp_range x y \<le> 0 \<longleftrightarrow> r_start x \<le> r_start y" if "x \<in> set ?u" "y \<in> set ?u" for x y
    using cmp_range_small [of x y] small that by (simp add: word_le_def)
  have srt: "sorted_wrt (\<lambda>x y. cmp_range x y \<le> 0) (lib_sort cmp_range ?u)"
    using assms(1) by (rule sort_contract_sorted) (simp_all only: cmp linear order_trans)
  have "set (lib_sort cmp_range ?u) = set ?u" using perm by (rule mset_eq_setD)
  then have "sorted (map r_start (lib_sort cmp_range ?u))"
    unfolding sorted_wrt_map by (intro sorted_wrt_mono_rel [OF _ srt]) (simp add: cmp)
  moreover have "nr = length (filter used rs)" using len perm c by (metis size_mset)
  moreover have "take nr rs' = lib_sort cmp_range ?u" "drop nr rs' = drop ?n ?c" "length rs' = az"
    unfolding res(1) using len c \<open>?n \<le> az\<close> res(2) by simp_all
  ultimately show ?thesis using perm c split(2) by metis
qed

text \<open>Insertion sort, as an instance of the contract.\<close>

fun insert_by :: "('a \<Rightarrow> 'a \<Rightarrow> int) \<Rightarrow> 'a \<Rightarrow> 'a list \<Rightarrow> 'a list" where
  "insert_by cmp x [] = [x]"
| "insert_by cmp x (y # ys) = (if cmp x y \<le> 0 then x # y # ys else y # insert_by cmp x ys)"

definition insertion_sort :: "('a \<Rightarrow> 'a \<Rightarrow> int) \<Rightarrow> 'a list \<Rightarrow> 'a list" where
  "insertion_sort cmp xs = foldr (insert_by cmp) xs []"

lemma mset_insert_by [simp]: "mset (insert_by cmp x ys) = add_mset x (mset ys)"
  by (induction ys) auto

lemma mset_insertion_sort [simp]: "mset (insertion_sort cmp xs) = mset xs"
  by (induction xs) (auto simp: insertion_sort_def)

lemma set_insert_by [simp]: "set (insert_by cmp x ys) = insert x (set ys)"
  by (induction ys) auto

lemma sorted_insert_by:
  assumes "sorted_wrt (\<lambda>x y. cmp x y \<le> 0) ys"
    and total: "\<And>a b. a \<in> A \<Longrightarrow> b \<in> A \<Longrightarrow> cmp a b \<le> 0 \<or> cmp b a \<le> 0"
    and trans: "\<And>a b c. a \<in> A \<Longrightarrow> b \<in> A \<Longrightarrow> c \<in> A \<Longrightarrow> cmp a b \<le> 0 \<Longrightarrow> cmp b c \<le> 0 \<Longrightarrow> cmp a c \<le> 0"
    and "x \<in> A" "set ys \<subseteq> A"
  shows "sorted_wrt (\<lambda>x y. cmp x y \<le> 0) (insert_by cmp x ys)"
  using assms(1,5)
proof (induction ys)
  case Nil
  show ?case by simp
next
  case (Cons y ys)
  show ?case
  proof (cases "cmp x y \<le> 0")
    case True
    have "cmp x z \<le> 0" if "z \<in> set ys" for z
      using trans [of x y z] Cons.prems assms(4) True that by auto
    with True Cons.prems(1) show ?thesis by simp
  next
    case False
    then have "cmp y x \<le> 0" using total [of x y] assms(4) Cons.prems(2) by simp
    with False Cons show ?thesis by simp
  qed
qed

lemma sort_contract_insertion_sort: "sort_contract insertion_sort"
proof -
  have main: "sorted_wrt (\<lambda>x y. cmp x y \<le> 0) (insertion_sort cmp xs)"
    if total: "\<And>a b. a \<in> A \<Longrightarrow> b \<in> A \<Longrightarrow> cmp a b \<le> 0 \<or> cmp b a \<le> 0"
      and trans: "\<And>a b c. a \<in> A \<Longrightarrow> b \<in> A \<Longrightarrow> c \<in> A \<Longrightarrow> cmp a b \<le> 0 \<Longrightarrow> cmp b c \<le> 0 \<Longrightarrow> cmp a c \<le> 0"
      and sub: "set xs \<subseteq> A"
    for cmp A and xs :: "range list"
    using sub
  proof (induction xs)
    case Nil
    show ?case by (simp add: insertion_sort_def)
  next
    case (Cons x xs)
    have "set (insertion_sort cmp xs) = set xs" by (metis mset_insertion_sort set_mset_mset)
    then show ?case
      using sorted_insert_by [of cmp "insertion_sort cmp xs" A x, OF _ total trans] Cons
      by (simp add: insertion_sort_def)
  qed
  show ?thesis
    unfolding sort_contract_def
  proof (intro allI conjI impI)
    fix cmp :: "range \<Rightarrow> range \<Rightarrow> int" and xs
    show "mset (insertion_sort cmp xs) = mset xs" by simp
    assume "(\<forall>x\<in>set xs. \<forall>y\<in>set xs. cmp x y \<le> 0 \<or> cmp y x \<le> 0) \<and>
      (\<forall>x\<in>set xs. \<forall>y\<in>set xs. \<forall>z\<in>set xs. cmp x y \<le> 0 \<longrightarrow> cmp y z \<le> 0 \<longrightarrow> cmp x z \<le> 0)"
    then show "sorted_wrt (\<lambda>x y. cmp x y \<le> 0) (insertion_sort cmp xs)"
      by (intro main [OF _ _ subset_refl]) blast+
  qed
qed

theorem clean_sort_range_witness:
  "let rs = [empty_range, \<lparr>r_start = 30, r_end = 40\<rparr>, empty_range, \<lparr>r_start = 10, r_end = 20\<rparr>];
       (rs', nr) = clean_sort_range insertion_sort rs 4
   in nr = 2 \<and> sorted (map r_start (take nr rs')) \<and> take nr rs' = [\<lparr>r_start = 10, r_end = 20\<rparr>, \<lparr>r_start = 30, r_end = 40\<rparr>]"
proof -
  have eval: "clean_sort_range insertion_sort
      [empty_range, \<lparr>r_start = 30, r_end = 40\<rparr>, empty_range, \<lparr>r_start = 10, r_end = 20\<rparr>] 4 =
      ([\<lparr>r_start = 10, r_end = 20\<rparr>, \<lparr>r_start = 30, r_end = 40\<rparr>, empty_range, empty_range], 2)"
    by code_simp
  show ?thesis
    using clean_sort_range_correct [OF sort_contract_insertion_sort _ _ eval] eval
    by (simp add: empty_range_def)
qed

text \<open>
  The comparison does not order all start addresses: two ranges whose starts differ by a
  multiple of \<open>2 ^ 32\<close> compare as equal, and a start of \<open>2 ^ 31\<close> compares below 0.
\<close>

theorem cmp_range_truncates:
  "cmp_range \<lparr>r_start = s + 2 ^ 32, r_end = e\<rparr> \<lparr>r_start = s, r_end = e\<rparr> = 0 \<and>
   cmp_range \<lparr>r_start = 2 ^ 31, r_end = e\<rparr> \<lparr>r_start = 0, r_end = e\<rparr> < 0"
  by (simp add: cmp_range_def)

end
