(* ===== verification/Res_Counter.thy ===== *)
theory Res_Counter
  imports Kernel_Prelude
begin

text \<open>
  Hierarchical resource counters (\<^verbatim>\<open>res_counter.c\<close>).

  Counters live in a store indexed by identifiers (their addresses) and point to their parent. The
  loops that walk to the root are \<^theory_text>\<open>partial_function (option)\<close>: \<open>None\<close> stands for a walk that does
  not end or that runs past the root, and the theorems show that it does not happen on a well-formed
  hierarchy. All quantities are 64-bit and wrap; the counter locks make each update atomic.
  \<^verbatim>\<open>RES_COUNTER_MAX\<close>, \<^verbatim>\<open>PAGE_ALIGN\<close> and the number parsers come from headers and libraries outside the
  sources and are parameters.
\<close>

section \<open>Data and operations\<close>

type_synonym rcid = nat

record res_counter =
  usage :: u64
  max_usage :: u64
  rlimit :: u64
  soft_limit :: u64
  failcnt :: u64
  rc_parent :: "rcid option"

type_synonym rc_store = "rcid \<Rightarrow> res_counter"

definition res_counter_init :: "u64 \<Rightarrow> rc_store \<Rightarrow> rcid \<Rightarrow> rcid option \<Rightarrow> rc_store" where
  "res_counter_init rc_max s counter parent =
     s(counter := (s counter)\<lparr>rlimit := rc_max, soft_limit := rc_max, rc_parent := parent\<rparr>)"

text \<open>The flag of the result is the return value \<^verbatim>\<open>-ENOMEM\<close>.\<close>

definition res_counter_charge_locked :: "res_counter \<Rightarrow> u64 \<Rightarrow> bool \<Rightarrow> res_counter \<times> bool" where
  "res_counter_charge_locked counter val force =
     (let over = usage counter + val > rlimit counter;
          c1 = (if over then counter\<lparr>failcnt := failcnt counter + 1\<rparr> else counter)
      in if over \<and> \<not> force then (c1, True)
         else let c2 = c1\<lparr>usage := usage c1 + val\<rparr>;
                  c3 = (if usage c2 > max_usage c2 then c2\<lparr>max_usage := usage c2\<rparr> else c2)
              in (c3, over))"

definition res_counter_uncharge_locked :: "res_counter \<Rightarrow> u64 \<Rightarrow> res_counter \<times> u64" where
  "res_counter_uncharge_locked counter val =
     (let val' = (if usage counter < val then usage counter else val);
          c1 = counter\<lparr>usage := usage counter - val'\<rparr>
      in (c1, usage c1))"

text \<open>
  The first loop of \<^verbatim>\<open>__res_counter_charge\<close>: \<open>ret\<close> says that an error was recorded, \<open>fail_at\<close> is
  \<^verbatim>\<open>*limit_fail_at\<close>; the last component of the result is the loop variable \<open>c\<close> at the exit.
\<close>

partial_function (option) charge_loop ::
  "rc_store \<Rightarrow> rcid option \<Rightarrow> u64 \<Rightarrow> bool \<Rightarrow> bool \<Rightarrow> rcid option \<Rightarrow> (rc_store \<times> bool \<times> rcid option \<times> rcid option) option" where
  "charge_loop s c val force ret fail_at =
     (case c of
        None \<Rightarrow> Some (s, ret, fail_at, None)
      | Some i \<Rightarrow>
          let (k, r) = res_counter_charge_locked (s i) val force; s' = s(i := k)
          in if r \<and> \<not> ret then
               if \<not> force then Some (s', True, Some i, Some i)
               else charge_loop s' (rc_parent k) val force True (Some i)
             else charge_loop s' (rc_parent k) val force ret fail_at)"

partial_function (option) uncharge_loop ::
  "rc_store \<Rightarrow> rcid option \<Rightarrow> rcid option \<Rightarrow> u64 \<Rightarrow> rc_store option" where
  "uncharge_loop s u top_rc val =
     (if u = top_rc then Some s
      else case u of
        None \<Rightarrow> None
      | Some i \<Rightarrow>
          let k = fst (res_counter_uncharge_locked (s i) val)
          in uncharge_loop (s(i := k)) (rc_parent k) top_rc val)"

text \<open>The result: the new store, the error of the return value, and \<^verbatim>\<open>*limit_fail_at\<close>.\<close>

definition res_counter_charge_common ::
  "rc_store \<Rightarrow> rcid \<Rightarrow> u64 \<Rightarrow> bool \<Rightarrow> (rc_store \<times> errno option \<times> rcid option) option" where
  "res_counter_charge_common s counter val force =
     (case charge_loop s (Some counter) val force False None of
        None \<Rightarrow> None
      | Some (s', ret, fail_at, c) \<Rightarrow>
          if ret \<and> \<not> force
          then map_option (\<lambda>s''. (s'', Some ENOMEM, fail_at)) (uncharge_loop s' (Some counter) c val)
          else Some (s', if ret then Some ENOMEM else None, fail_at))"

definition res_counter_charge ::
  "rc_store \<Rightarrow> rcid \<Rightarrow> u64 \<Rightarrow> (rc_store \<times> errno option \<times> rcid option) option" where
  "res_counter_charge s counter val = res_counter_charge_common s counter val False"

definition res_counter_charge_nofail ::
  "rc_store \<Rightarrow> rcid \<Rightarrow> u64 \<Rightarrow> (rc_store \<times> errno option \<times> rcid option) option" where
  "res_counter_charge_nofail s counter val = res_counter_charge_common s counter val True"

text \<open>The value returned is the usage left in \<open>counter\<close> itself (0 when the walk is empty).\<close>

definition res_counter_uncharge_until ::
  "rc_store \<Rightarrow> rcid \<Rightarrow> rcid option \<Rightarrow> u64 \<Rightarrow> (rc_store \<times> u64) option" where
  "res_counter_uncharge_until s counter top_rc val =
     map_option
       (\<lambda>s'. (s', if Some counter = top_rc then 0 else snd (res_counter_uncharge_locked (s counter) val)))
       (uncharge_loop s (Some counter) top_rc val)"

definition res_counter_uncharge :: "rc_store \<Rightarrow> rcid \<Rightarrow> u64 \<Rightarrow> (rc_store \<times> u64) option" where
  "res_counter_uncharge s counter val = res_counter_uncharge_until s counter None val"

datatype res_member = RES_USAGE | RES_MAX_USAGE | RES_LIMIT | RES_FAILCNT | RES_SOFT_LIMIT

fun res_counter_member :: "res_counter \<Rightarrow> res_member \<Rightarrow> u64" where
  "res_counter_member counter RES_USAGE = usage counter"
| "res_counter_member counter RES_MAX_USAGE = max_usage counter"
| "res_counter_member counter RES_LIMIT = rlimit counter"
| "res_counter_member counter RES_FAILCNT = failcnt counter"
| "res_counter_member counter RES_SOFT_LIMIT = soft_limit counter"

definition res_counter_read_u64 :: "rc_store \<Rightarrow> rcid \<Rightarrow> res_member \<Rightarrow> u64" where
  "res_counter_read_u64 s counter member = res_counter_member (s counter) member"

text \<open>
  \<open>strtoull\<close> and \<open>memparse\<close> return the number read and the rest of the string; a string that is
  used up leaves the terminating NUL, here the empty list.
\<close>

definition res_counter_memparse_write_strategy ::
  "u64 \<Rightarrow> (u64 \<Rightarrow> u64) \<Rightarrow> (string \<Rightarrow> u64 \<times> string) \<Rightarrow> (string \<Rightarrow> u64 \<times> string) \<Rightarrow> string \<Rightarrow> u64 result" where
  "res_counter_memparse_write_strategy rc_max page_align strtoull memparse buf =
     (if buf \<noteq> [] \<and> hd buf = CHR ''-'' then
        let (res, rest) = strtoull (tl buf)
        in if res \<noteq> 1 \<or> rest \<noteq> [] then Inl EINVAL else Inr rc_max
      else
        let (res, rest) = memparse buf
        in if rest \<noteq> [] then Inl EINVAL
           else Inr (if page_align res \<ge> res then page_align res else rc_max))"

section \<open>Walks to the root\<close>

text \<open>\<open>chain s c is\<close>: following the parents from \<open>c\<close> visits exactly \<open>is\<close> and ends at a root.\<close>

fun chain :: "rc_store \<Rightarrow> rcid option \<Rightarrow> rcid list \<Rightarrow> bool" where
  "chain s c [] = (c = None)"
| "chain s c (i # is) = (c = Some i \<and> chain s (rc_parent (s i)) is)"

lemma chain_unique: "chain s c is \<Longrightarrow> chain s c js \<Longrightarrow> is = js"
proof (induction "is" arbitrary: c js)
  case Nil
  then show ?case by (cases js) auto
next
  case (Cons i "is")
  then show ?case by (cases js) auto
qed

lemma chain_suffix: "chain s c (as @ j # bs) \<Longrightarrow> chain s (Some j) (j # bs)"
  by (induction as arbitrary: c) auto

lemma chain_distinct: "chain s c is \<Longrightarrow> distinct is"
proof (induction "is" arbitrary: c)
  case (Cons i "is")
  have "i \<notin> set is"
  proof
    assume "i \<in> set is"
    then obtain as bs where "is": "is = as @ i # bs" by (metis split_list)
    with Cons.prems have "chain s (Some i) (i # as @ i # bs)" by simp
    moreover have "chain s (Some i) (i # bs)" using chain_suffix [of s c "i # as" i bs] Cons.prems "is" by simp
    ultimately have "i # as @ i # bs = i # bs" by (rule chain_unique)
    then show False by simp
  qed
  with Cons show ?case by auto
qed simp

text \<open>The walk only depends on the parent pointers.\<close>

lemma chain_cong: "(\<And>i. rc_parent (s' i) = rc_parent (s i)) \<Longrightarrow> chain s' c is = chain s c is"
  by (induction "is" arbitrary: c) auto

definition over :: "res_counter \<Rightarrow> u64 \<Rightarrow> bool" where
  "over k val \<longleftrightarrow> usage k + val > rlimit k"

definition charged :: "res_counter \<Rightarrow> u64 \<Rightarrow> res_counter" where
  "charged k val = k\<lparr>usage := usage k + val, max_usage := max (max_usage k) (usage k + val)\<rparr>"

definition uncharged :: "res_counter \<Rightarrow> u64 \<Rightarrow> res_counter" where
  "uncharged k val = k\<lparr>usage := (if usage k < val then 0 else usage k - val)\<rparr>"

definition bump_fail :: "res_counter \<Rightarrow> res_counter" where
  "bump_fail k = k\<lparr>failcnt := failcnt k + 1\<rparr>"

lemma charge_locked_ok: "\<not> over k val \<Longrightarrow> res_counter_charge_locked k val force = (charged k val, False)"
  by (simp add: res_counter_charge_locked_def over_def charged_def Let_def max_def not_less)

lemma charge_locked_over: "over k val \<Longrightarrow> res_counter_charge_locked k val False = (bump_fail k, True)"
  by (simp add: res_counter_charge_locked_def over_def bump_fail_def Let_def)

lemma charge_locked_force:
  "over k val \<Longrightarrow> res_counter_charge_locked k val True = (charged (bump_fail k) val, True)"
  by (simp add: res_counter_charge_locked_def over_def charged_def bump_fail_def Let_def max_def)

lemma uncharge_locked_eq: "res_counter_uncharge_locked k val = (uncharged k val, usage (uncharged k val))"
  by (simp add: res_counter_uncharge_locked_def uncharged_def Let_def)

lemma counter_parents [simp]:
  "rc_parent (charged k val) = rc_parent k" "rc_parent (uncharged k val) = rc_parent k"
  "rc_parent (bump_fail k) = rc_parent k"
  by (simp_all add: charged_def uncharged_def bump_fail_def)


section \<open>Effect of the loops\<close>

lemma charge_loop_simps:
  "charge_loop s None val force ret fail_at = Some (s, ret, fail_at, None)"
  "\<not> over (s i) val \<Longrightarrow> charge_loop s (Some i) val force ret fail_at =
     charge_loop (s(i := charged (s i) val)) (rc_parent (s i)) val force ret fail_at"
  "over (s i) val \<Longrightarrow> charge_loop s (Some i) val False False fail_at =
     Some (s(i := bump_fail (s i)), True, Some i, Some i)"
  "over (s i) val \<Longrightarrow> charge_loop s (Some i) val True ret fail_at =
     charge_loop (s(i := charged (bump_fail (s i)) val)) (rc_parent (s i)) val True True
       (if ret then fail_at else Some i)"
  by (subst charge_loop.simps, simp add: charge_locked_ok charge_locked_over charge_locked_force)+

lemma uncharge_loop_simps:
  "uncharge_loop s u u val = Some s"
  "Some i \<noteq> top_rc \<Longrightarrow> uncharge_loop s (Some i) top_rc val =
     uncharge_loop (s(i := uncharged (s i) val)) (rc_parent (s i)) top_rc val"
  by (subst uncharge_loop.simps, simp add: uncharge_locked_eq)+

lemma chain_upd:
  "rc_parent k = rc_parent (s i) \<Longrightarrow> chain (s(i := k)) c is = chain s c is"
  by (rule chain_cong) simp

lemma charge_loop_ok:
  "chain s c is \<Longrightarrow> \<forall>i\<in>set is. \<not> over (s i) val \<Longrightarrow>
    charge_loop s c val force ret fail_at =
      Some (\<lambda>i. if i \<in> set is then charged (s i) val else s i, ret, fail_at, None)"
proof (induction "is" arbitrary: s c)
  case Nil
  then show ?case by (simp add: charge_loop_simps)
next
  case (Cons i "is")
  have d: "i \<notin> set is" using chain_distinct [OF Cons.prems(1)] by simp
  have ch: "chain (s(i := charged (s i) val)) (rc_parent (s i)) is"
    using Cons.prems(1) by (simp add: chain_upd)
  have ok: "\<forall>j\<in>set is. \<not> over ((s(i := charged (s i) val)) j) val" using Cons.prems(2) d by auto
  have eff: "(\<lambda>k. if k \<in> set is then charged ((s(i := charged (s i) val)) k) val else (s(i := charged (s i) val)) k) =
      (\<lambda>k. if k \<in> set (i # is) then charged (s k) val else s k)"
    using d by (auto simp: fun_eq_iff)
  have "charge_loop s c val force ret fail_at =
      charge_loop (s(i := charged (s i) val)) (rc_parent (s i)) val force ret fail_at"
    using Cons.prems charge_loop_simps(2) [of s i val force ret fail_at] by simp
  then show ?case unfolding Cons.IH [OF ch ok] eff .
qed

lemma charge_loop_fail:
  "chain s c (as @ j # bs) \<Longrightarrow> \<forall>i\<in>set as. \<not> over (s i) val \<Longrightarrow> over (s j) val \<Longrightarrow>
    charge_loop s c val False False fail_at =
      Some (\<lambda>i. if i = j then bump_fail (s j) else if i \<in> set as then charged (s i) val else s i,
        True, Some j, Some j)"
proof (induction as arbitrary: s c)
  case Nil
  then show ?case by (auto simp: charge_loop_simps fun_eq_iff)
next
  case (Cons i as)
  have d: "i \<notin> set as" "i \<noteq> j" using chain_distinct [OF Cons.prems(1)] by auto
  have ch: "chain (s(i := charged (s i) val)) (rc_parent (s i)) (as @ j # bs)"
    using Cons.prems(1) by (simp add: chain_upd)
  have ok: "\<forall>k\<in>set as. \<not> over ((s(i := charged (s i) val)) k) val" "over ((s(i := charged (s i) val)) j) val"
    using Cons.prems d by auto
  have eff: "(\<lambda>k. if k = j then bump_fail ((s(i := charged (s i) val)) j)
        else if k \<in> set as then charged ((s(i := charged (s i) val)) k) val else (s(i := charged (s i) val)) k) =
      (\<lambda>k. if k = j then bump_fail (s j) else if k \<in> set (i # as) then charged (s k) val else s k)"
    using d by (auto simp: fun_eq_iff)
  have "charge_loop s c val False False fail_at =
      charge_loop (s(i := charged (s i) val)) (rc_parent (s i)) val False False fail_at"
    using Cons.prems charge_loop_simps(2) [of s i val False False fail_at] by simp
  then show ?case unfolding Cons.IH [OF ch ok] eff .
qed

lemma uncharge_loop_eq:
  "chain s c (as @ bs) \<Longrightarrow> top_rc = (case bs of [] \<Rightarrow> None | j # _ \<Rightarrow> Some j) \<Longrightarrow>
    uncharge_loop s c top_rc val = Some (\<lambda>i. if i \<in> set as then uncharged (s i) val else s i)"
proof (induction as arbitrary: s c)
  case Nil
  then show ?case by (cases bs) (auto simp: uncharge_loop_simps)
next
  case (Cons i as)
  have d: "i \<notin> set as" "i \<notin> set bs" using chain_distinct [OF Cons.prems(1)] by auto
  have ch: "chain (s(i := uncharged (s i) val)) (rc_parent (s i)) (as @ bs)"
    using Cons.prems(1) by (simp add: chain_upd)
  have "Some i \<noteq> top_rc" using d Cons.prems(2) by (cases bs) auto
  then have "uncharge_loop s c top_rc val = uncharge_loop (s(i := uncharged (s i) val)) (rc_parent (s i)) top_rc val"
    using Cons.prems(1) uncharge_loop_simps(2) [of i top_rc s val] by simp
  moreover have "(\<lambda>k. if k \<in> set as then uncharged ((s(i := uncharged (s i) val)) k) val else (s(i := uncharged (s i) val)) k) =
      (\<lambda>k. if k \<in> set (i # as) then uncharged (s k) val else s k)"
    using d by (auto simp: fun_eq_iff)
  ultimately show ?case unfolding Cons.IH [OF ch Cons.prems(2)] by simp
qed

lemma split_first_over:
  "(\<forall>i\<in>set is. \<not> over (s i) val) \<or>
   (\<exists>as j bs. is = as @ j # bs \<and> (\<forall>i\<in>set as. \<not> over (s i) val) \<and> over (s j) val)"
  using split_list_first_prop [of "is" "\<lambda>i. over (s i) val"] by blast

lemma charge_success:
  assumes "chain s (Some c) is" "\<forall>i\<in>set is. \<not> over (s i) val"
  shows "res_counter_charge s c val = Some (\<lambda>i. if i \<in> set is then charged (s i) val else s i, None, None)"
  using charge_loop_ok [OF assms] by (simp add: res_counter_charge_def res_counter_charge_common_def)

text \<open>Undoing a charge gives back the usage, also when the sum wrapped in between.\<close>

definition undone :: "res_counter \<Rightarrow> u64 \<Rightarrow> res_counter" where
  "undone k val = uncharged (charged k val) val"

lemma usage_undone: "unat (usage k) + unat val < 2 ^ 64 \<Longrightarrow> usage (undone k val) = usage k"
  by (auto simp: undone_def uncharged_def charged_def word_less_nat_alt unat_word_ariths)

lemma charge_failure:
  assumes "chain s (Some c) (as @ j # bs)" "\<forall>i\<in>set as. \<not> over (s i) val" "over (s j) val"
  shows "res_counter_charge s c val =
    Some (\<lambda>i. if i = j then bump_fail (s j) else if i \<in> set as then undone (s i) val else s i,
      Some ENOMEM, Some j)"
proof -
  let ?s = "\<lambda>i. if i = j then bump_fail (s j) else if i \<in> set as then charged (s i) val else s i"
  have ch: "chain ?s (Some c) (as @ j # bs)" using assms(1) by (subst chain_cong [of _ s]) auto
  have d: "j \<notin> set as" using chain_distinct [OF assms(1)] by auto
  have "uncharge_loop ?s (Some c) (Some j) val =
      Some (\<lambda>i. if i \<in> set as then uncharged (?s i) val else ?s i)"
    by (rule uncharge_loop_eq [OF ch]) simp
  also have "(\<lambda>i. if i \<in> set as then uncharged (?s i) val else ?s i) =
      (\<lambda>i. if i = j then bump_fail (s j) else if i \<in> set as then undone (s i) val else s i)"
    using d by (auto simp: undone_def fun_eq_iff)
  finally show ?thesis
    unfolding res_counter_charge_def res_counter_charge_common_def charge_loop_fail [OF assms] by simp
qed


section \<open>Charging is all or nothing\<close>

lemma usage_simps [simp]:
  "usage (charged k val) = usage k + val" "usage (bump_fail k) = usage k"
  "rlimit (charged k val) = rlimit k" "failcnt (bump_fail k) = failcnt k + 1"
  by (simp_all add: charged_def bump_fail_def)

text \<open>
  C13. A charge that can fail either succeeds, adding the amount to the counter and to each of its
  ancestors, none of which then exceeds its limit, or fails with ENOMEM, leaving the usage of every
  counter as it was and naming the first counter on the way to the root whose limit was hit.
\<close>

theorem res_counter_charge_all_or_nothing:
  assumes "chain s (Some c) is"
    and "\<forall>i\<in>set is. unat (usage (s i)) + unat val < 2 ^ 64"
  shows "\<exists>s' r f. res_counter_charge s c val = Some (s', r, f) \<and>
    (if r = None
     then f = None \<and> (\<forall>i. usage (s' i) = (if i \<in> set is then usage (s i) + val else usage (s i))) \<and>
          (\<forall>i\<in>set is. usage (s' i) \<le> rlimit (s' i))
     else r = Some ENOMEM \<and> (\<forall>i. usage (s' i) = usage (s i)) \<and>
          (\<exists>as j bs. is = as @ j # bs \<and> f = Some j \<and> over (s j) val \<and> (\<forall>i\<in>set as. \<not> over (s i) val) \<and>
             failcnt (s' j) = failcnt (s j) + 1))"
  using split_first_over [of "is" s val]
proof (elim disjE exE conjE)
  assume ok: "\<forall>i\<in>set is. \<not> over (s i) val"
  show ?thesis
    using ok by (simp add: charge_success [OF assms(1) ok] over_def not_less)
next
  fix as j bs
  assume "is": "is = as @ j # bs" and ok: "\<forall>i\<in>set as. \<not> over (s i) val" and ov: "over (s j) val"
  have "usage (undone (s i) val) = usage (s i)" if "i \<in> set as" for i
    using assms(2) "is" that by (intro usage_undone) auto
  then show ?thesis
    using charge_failure [OF assms(1) [unfolded "is"] ok ov] "is" ok ov by auto
qed

definition demo_counters :: rc_store where
  "demo_counters = (\<lambda>i. if i = 0 then \<lparr>usage = 10, max_usage = 10, rlimit = 20, soft_limit = 20, failcnt = 0, rc_parent = None\<rparr>
     else \<lparr>usage = 5, max_usage = 5, rlimit = 100, soft_limit = 100, failcnt = 0, rc_parent = Some 0\<rparr>)"

theorem res_counter_charge_all_or_nothing_witness:
  "\<exists>s'. res_counter_charge demo_counters 1 11 = Some (s', Some ENOMEM, Some 0) \<and>
      (\<forall>i. usage (s' i) = usage (demo_counters i))"
proof -
  have ch: "chain demo_counters (Some 1) [1, 0]" by (simp add: demo_counters_def)
  have nowrap: "\<forall>i\<in>set [1, 0]. unat (usage (demo_counters i)) + unat (11 :: u64) < 2 ^ 64"
    by (simp add: demo_counters_def)
  have "over (demo_counters 0) 11" "\<not> over (demo_counters 1) 11"
    by (simp_all add: over_def demo_counters_def)
  then obtain s' where ev: "res_counter_charge demo_counters 1 11 = Some (s', Some ENOMEM, Some 0)"
    using charge_failure [of demo_counters 1 "[1]" 0 "[]" 11] ch by simp
  from res_counter_charge_all_or_nothing [OF ch nowrap] ev show ?thesis by (metis option.inject option.distinct(1) prod.inject)
qed


section \<open>The hierarchy\<close>

definition children :: "rc_store \<Rightarrow> rcid \<Rightarrow> rcid set" where
  "children s p = {c. rc_parent (s c) = Some p}"

lemma chain_parent_in: "chain s c is \<Longrightarrow> i \<in> set is \<Longrightarrow> rc_parent (s i) = Some p \<Longrightarrow> p \<in> set is"
proof (induction "is" arbitrary: c)
  case (Cons j "is")
  show ?case
  proof (cases "i = j")
    case True
    with Cons.prems show ?thesis by (cases "is") auto
  next
    case False
    with Cons show ?thesis by auto
  qed
qed simp

lemma chain_parent_not_first:
  assumes "chain s (Some c) (c # is)" "i \<in> set (c # is)" "rc_parent (s i) = Some p"
  shows "p \<in> set is"
proof (cases "i = c")
  case True
  with assms show ?thesis by (cases "is") auto
next
  case False
  with assms show ?thesis using chain_parent_in [of s "rc_parent (s c)" "is" i p] by auto
qed

lemma chain_child:
  "chain s c is \<Longrightarrow> p \<in> set is \<Longrightarrow> c \<noteq> Some p \<Longrightarrow> \<exists>i\<in>set is. rc_parent (s i) = Some p"
proof (induction "is" arbitrary: c)
  case (Cons j "is")
  then show ?case by (cases "rc_parent (s j) = Some p") auto
qed simp

lemma chain_child_unique:
  "chain s c is \<Longrightarrow> i \<in> set is \<Longrightarrow> i' \<in> set is \<Longrightarrow> rc_parent (s i) = Some p \<Longrightarrow> rc_parent (s i') = Some p \<Longrightarrow> i = i'"
proof (induction "is" arbitrary: c)
  case (Cons j "is")
  have "\<not> (k \<in> set is \<and> rc_parent (s k) = Some p)" if "rc_parent (s j) = Some p" for k
  proof
    assume k: "k \<in> set is \<and> rc_parent (s k) = Some p"
    have "chain s (Some p) is" using Cons.prems(1) that by simp
    then obtain js where "is": "is = p # js" "chain s (Some p) (p # js)" by (cases "is") auto
    then have "p \<in> set js" using chain_parent_not_first [OF "is"(2), of k p] k by simp
    then show False using chain_distinct [OF "is"(2)] by simp
  qed
  with Cons show ?case by auto
qed simp

text \<open>How a walk changes the sum over the children of one counter.\<close>

lemma children_on_chain:
  assumes "chain s (Some c) is"
  shows "children s p \<inter> set is = {} \<or> (\<exists>i. children s p \<inter> set is = {i} \<and> p \<in> set is \<and> p \<noteq> c)"
proof (cases "children s p \<inter> set is = {}")
  case False
  then obtain i where i: "i \<in> set is" "rc_parent (s i) = Some p" by (auto simp: children_def)
  have "children s p \<inter> set is = {i}"
    using i chain_child_unique [OF assms] by (auto simp: children_def)
  moreover obtain js where js: "is = c # js" using assms i(1) by (cases "is") auto
  then have "p \<in> set js" using chain_parent_not_first [of s c js i p] assms i by simp
  moreover have "c \<notin> set js" using chain_distinct [OF assms] js by simp
  ultimately show ?thesis using js by auto
qed simp

lemma sum_children_add:
  assumes "finite A" "\<forall>c\<in>A. f' c = f c + (if c \<in> B then v else 0)"
  shows "sum f' A = sum f A + card (A \<inter> B) * (v :: nat)"
proof -
  have "sum f' A = sum f A + (\<Sum>c\<in>A. if c \<in> B then v else 0)"
    using assms(2) by (simp flip: sum.distrib)
  then show ?thesis using assms(1) by (simp add: sum.If_cases)
qed

section \<open>Charging that cannot fail\<close>

definition forced :: "res_counter \<Rightarrow> u64 \<Rightarrow> res_counter" where
  "forced k val = (if over k val then charged (bump_fail k) val else charged k val)"

lemma rc_parent_forced [simp]: "rc_parent (forced k val) = rc_parent k"
  by (simp add: forced_def)

lemma charge_loop_forced:
  "chain s c is \<Longrightarrow>
    charge_loop s c val True ret fail_at =
      Some (\<lambda>i. if i \<in> set is then forced (s i) val else s i,
        ret \<or> (\<exists>i\<in>set is. over (s i) val),
        if ret then fail_at
        else case filter (\<lambda>i. over (s i) val) is of [] \<Rightarrow> fail_at | j # _ \<Rightarrow> Some j, None)"
proof (induction "is" arbitrary: s c ret fail_at)
  case Nil
  then show ?case by (simp add: charge_loop_simps)
next
  case (Cons i "is")
  let ?s = "s(i := forced (s i) val)"
  have d: "i \<notin> set is" using chain_distinct [OF Cons.prems] by simp
  have ch: "chain ?s (rc_parent (s i)) is" using Cons.prems by (simp add: chain_upd)
  have eff: "(\<lambda>k. if k \<in> set is then forced (?s k) val else ?s k) =
      (\<lambda>k. if k \<in> set (i # is) then forced (s k) val else s k)"
    using d by (auto simp: fun_eq_iff)
  have flt: "filter (\<lambda>i. over (?s i) val) is = filter (\<lambda>i. over (s i) val) is"
    using d by (intro filter_cong) auto
  have ex: "(\<exists>i\<in>set is. over (?s i) val) = (\<exists>i\<in>set is. over (s i) val)" using d by auto
  have c: "c = Some i" using Cons.prems by simp
  show ?case
  proof (cases "over (s i) val")
    case True
    have "charge_loop s c val True ret fail_at =
        charge_loop ?s (rc_parent (s i)) val True True (if ret then fail_at else Some i)"
      using True by (simp add: c charge_loop_simps(4) forced_def)
    then show ?thesis unfolding Cons.IH [OF ch] eff using True by simp
  next
    case False
    have "charge_loop s c val True ret fail_at = charge_loop ?s (rc_parent (s i)) val True ret fail_at"
      using False by (simp add: c charge_loop_simps(2) forced_def)
    then show ?thesis unfolding Cons.IH [OF ch] eff flt ex using False by simp
  qed
qed

text \<open>
  A forced charge always goes through, on the counter and all its ancestors; it reports ENOMEM
  exactly when some limit was exceeded, and names the first counter on the way up where that happened.
\<close>

theorem res_counter_charge_nofail_correct:
  assumes "chain s (Some c) is"
  shows "\<exists>s'. res_counter_charge_nofail s c val =
      Some (s', if \<exists>i\<in>set is. over (s i) val then Some ENOMEM else None,
        case filter (\<lambda>i. over (s i) val) is of [] \<Rightarrow> None | j # _ \<Rightarrow> Some j) \<and>
    (\<forall>i. usage (s' i) = (if i \<in> set is then usage (s i) + val else usage (s i)) \<and>
         failcnt (s' i) = (if i \<in> set is \<and> over (s i) val then failcnt (s i) + 1 else failcnt (s i)))"
proof -
  have "failcnt (charged k val) = failcnt k" for k by (simp add: charged_def)
  then show ?thesis
    using charge_loop_forced [OF assms, of val False None]
    by (simp add: res_counter_charge_nofail_def res_counter_charge_common_def forced_def)
qed

theorem res_counter_charge_nofail_witness:
  "\<exists>s'. res_counter_charge_nofail demo_counters 1 11 = Some (s', Some ENOMEM, Some 0) \<and> usage (s' 0) = 21"
proof -
  have ch: "chain demo_counters (Some 1) [1, 0]" by (simp add: demo_counters_def)
  have ov: "over (demo_counters 0) 11" "\<not> over (demo_counters (Suc 0)) 11" "usage (demo_counters 0) = 10"
    by (simp_all add: over_def demo_counters_def)
  from res_counter_charge_nofail_correct [OF ch, of 11] show ?thesis
    by (auto simp: ov)
qed

section \<open>Accounts of a hierarchy\<close>

text \<open>
  What was charged to each counter directly and not given back is its own account. The usage of a counter should be
  its own account and the usage of its children together.
\<close>

type_synonym accounts = "rcid \<Rightarrow> nat"

definition balanced :: "accounts \<times> rc_store \<Rightarrow> bool" where
  "balanced = (\<lambda>(own, s). \<forall>p. finite (children s p) \<and> unat (usage (s p)) = own p + (\<Sum>c\<in>children s p. unat (usage (s c))))"

text \<open>
  Charges, also forced ones, that do not wrap around a counter, and uncharges of no more than was charged to the same
  counter. A charge that fails is not entered.
\<close>

inductive rc_step :: "accounts \<times> rc_store \<Rightarrow> accounts \<times> rc_store \<Rightarrow> bool" where
  charge: "chain s (Some c) is \<Longrightarrow> \<forall>i\<in>set is. unat (usage (s i)) + unat val < 2 ^ 64 \<Longrightarrow>
    res_counter_charge s c val = Some (s', r, f) \<Longrightarrow>
    rc_step (own, s) (if r = None then own(c := own c + unat val) else own, s')"
| charge_nofail: "chain s (Some c) is \<Longrightarrow> \<forall>i\<in>set is. unat (usage (s i)) + unat val < 2 ^ 64 \<Longrightarrow>
    res_counter_charge_nofail s c val = Some (s', r, f) \<Longrightarrow> rc_step (own, s) (own(c := own c + unat val), s')"
| uncharge: "chain s (Some c) is \<Longrightarrow> unat val \<le> own c \<Longrightarrow> res_counter_uncharge s c val = Some (s', u) \<Longrightarrow>
    rc_step (own, s) (own(c := own c - unat val), s')"

lemma balancedD:
  assumes "balanced (own, s)"
  shows "finite (children s p)" "unat (usage (s p)) = own p + (\<Sum>c\<in>children s p. unat (usage (s c)))"
  using assms unfolding balanced_def prod.case by blast+

text \<open>Of the children of a counter on the way to the root, exactly one is on the way too, unless the way starts there.\<close>

lemma card_on_chain:
  assumes ch: "chain s (Some c) is"
  shows "card (children s p \<inter> set is) = of_bool (p \<in> set is \<and> p \<noteq> c)" "c \<in> set is"
proof -
  show "c \<in> set is" using assms by (cases "is") auto
  show "card (children s p \<inter> set is) = of_bool (p \<in> set is \<and> p \<noteq> c)"
  proof (cases "p \<in> set is \<and> p \<noteq> c")
    case True
    then have "children s p \<inter> set is \<noteq> {}" using chain_child [OF ch] by (auto simp: children_def)
    then show ?thesis using children_on_chain [OF ch, of p] True by auto
  next
    case False
    then have "children s p \<inter> set is = {}" using children_on_chain [OF ch, of p] by auto
    then show ?thesis using False by auto
  qed
qed

lemma balanced_charge:
  assumes b: "balanced (own, s)" and ch: "chain s (Some c) is"
    and s': "\<forall>i. rc_parent (s' i) = rc_parent (s i) \<and> unat (usage (s' i)) = unat (usage (s i)) + (if i \<in> set is then v else 0)"
  shows "balanced (own(c := own c + v), s')"
  unfolding balanced_def prod.case
proof (intro allI conjI)
  fix p
  have same: "children s' p = children s p" using s' by (simp add: children_def)
  show "finite (children s' p)" using balancedD(1) [OF b] same by simp
  note k = card_on_chain(1) [OF ch, of p] card_on_chain(2) [OF ch]
  have "(\<Sum>c\<in>children s p. unat (usage (s' c))) = (\<Sum>c\<in>children s p. unat (usage (s c))) + card (children s p \<inter> set is) * v"
    using s' by (intro sum_children_add balancedD(1) [OF b]) auto
  then show "unat (usage (s' p)) = (own(c := own c + v)) p + (\<Sum>c\<in>children s' p. unat (usage (s' c)))"
    unfolding same k(1) using balancedD(2) [OF b, of p] s' k(2) by auto
qed

lemma balanced_uncharge:
  assumes b: "balanced (own, s)" and ch: "chain s (Some c) is" and v: "v \<le> own c"
    and s': "\<forall>i. rc_parent (s' i) = rc_parent (s i) \<and> unat (usage (s i)) = unat (usage (s' i)) + (if i \<in> set is then v else 0)"
  shows "balanced (own(c := own c - v), s')"
  unfolding balanced_def prod.case
proof (intro allI conjI)
  fix p
  have same: "children s' p = children s p" using s' by (simp add: children_def)
  show "finite (children s' p)" using balancedD(1) [OF b] same by simp
  note k = card_on_chain(1) [OF ch, of p] card_on_chain(2) [OF ch]
  have "(\<Sum>c\<in>children s p. unat (usage (s c))) = (\<Sum>c\<in>children s p. unat (usage (s' c))) + card (children s p \<inter> set is) * v"
    using s' by (intro sum_children_add balancedD(1) [OF b]) auto
  moreover have "unat (usage (s p)) = unat (usage (s' p)) + (if p \<in> set is then v else 0)" using s' by blast
  ultimately show "unat (usage (s' p)) = (own(c := own c - v)) p + (\<Sum>c\<in>children s' p. unat (usage (s' c)))"
    unfolding same k(1) using balancedD(2) [OF b, of p] k(2) v by (auto split: if_splits)
qed

text \<open>The usage grows towards the root.\<close>

lemma balanced_chain_usage:
  "balanced (own, s) \<Longrightarrow> chain s (Some c) is \<Longrightarrow> i \<in> set is \<Longrightarrow> unat (usage (s c)) \<le> unat (usage (s i))"
proof (induction "is" arbitrary: c)
  case (Cons j "is")
  show ?case
  proof (cases "rc_parent (s c)")
    case None
    with Cons.prems show ?thesis by (cases "is") auto
  next
    case (Some p)
    have "unat (usage (s c)) \<le> (\<Sum>k\<in>children s p. unat (usage (s k)))"
      using balancedD(1) [OF Cons.prems(1)] Some by (intro member_le_sum) (auto simp: children_def)
    then have "unat (usage (s c)) \<le> unat (usage (s p))" using balancedD(2) [OF Cons.prems(1), of p] by simp
    with Some Cons.prems Cons.IH [of p] show ?thesis by auto
  qed
qed simp

lemma unat_plus_no_wrap: "unat (a :: u64) + unat b < 2 ^ 64 \<Longrightarrow> unat (a + b) = unat a + unat b"
  by (simp add: unat_word_ariths)

lemma unat_uncharged:
  "unat val \<le> unat (usage k) \<Longrightarrow> unat (usage k) = unat (usage (uncharged k val)) + unat val"
  by (auto simp: uncharged_def word_less_nat_alt unat_sub word_le_nat_alt)

lemma balanced_charge_step:
  assumes b: "balanced (own, s)" and ch: "chain s (Some c) is" and w: "\<forall>i\<in>set is. unat (usage (s i)) + unat val < 2 ^ 64"
    and c: "res_counter_charge s c val = Some (s', r, f)"
  shows "balanced (if r = None then own(c := own c + unat val) else own, s')"
  using split_first_over [of "is" s val]
proof (elim disjE exE conjE)
  assume ok: "\<forall>i\<in>set is. \<not> over (s i) val"
  have s': "s' = (\<lambda>i. if i \<in> set is then charged (s i) val else s i)" "r = None" using c charge_success [OF ch ok] by simp_all
  show ?thesis
    unfolding s'(2) using balanced_charge [OF b ch, of s' "unat val"] w by (simp add: s'(1) unat_plus_no_wrap)
next
  fix as j bs
  assume f: "is = as @ j # bs" "\<forall>i\<in>set as. \<not> over (s i) val" "over (s j) val"
  have s': "s' = (\<lambda>i. if i = j then bump_fail (s j) else if i \<in> set as then undone (s i) val else s i)" "r \<noteq> None"
    using ch c charge_failure [of s c as j bs val] f by auto
  have "usage (s' i) = usage (s i)" for i
    using s'(1) f w by (auto simp: usage_undone)
  moreover have "rc_parent (s' i) = rc_parent (s i)" for i
    using s'(1) by (auto simp: undone_def)
  ultimately have "balanced (own, s') = balanced (own, s)" unfolding balanced_def prod.case children_def by presburger
  then show ?thesis using b s'(2) by auto
qed

lemma balanced_rc_step: "rc_step x y \<Longrightarrow> balanced x \<Longrightarrow> balanced y"
proof (induction rule: rc_step.induct)
  case (charge s c "is" val s' r f own)
  then show ?case by (intro balanced_charge_step)
next
  case (charge_nofail s c "is" val s' r f own)
  have "charge_loop s (Some c) val True False None = Some (\<lambda>i. if i \<in> set is then forced (s i) val else s i, \<exists>i\<in>set is. over (s i) val,
      case filter (\<lambda>i. over (s i) val) is of [] \<Rightarrow> None | j # _ \<Rightarrow> Some j, None)"
    using charge_loop_forced [OF charge_nofail.hyps(1), of val False None] by simp
  then have s': "s' = (\<lambda>i. if i \<in> set is then forced (s i) val else s i)"
    using charge_nofail.hyps(3) by (simp add: res_counter_charge_nofail_def res_counter_charge_common_def)
  show ?case
    using balanced_charge [OF charge_nofail.prems charge_nofail.hyps(1), of s' "unat val"] charge_nofail.hyps(2)
    by (simp add: s' forced_def unat_plus_no_wrap)
next
  case (uncharge s c "is" val own s' u)
  have "uncharge_loop s (Some c) None val = Some (\<lambda>i. if i \<in> set is then uncharged (s i) val else s i)"
    using uncharge_loop_eq [of s "Some c" "is" "[]" None val] uncharge.hyps(1) by simp
  then have s': "s' = (\<lambda>i. if i \<in> set is then uncharged (s i) val else s i)"
    using uncharge.hyps(3) by (simp add: res_counter_uncharge_def res_counter_uncharge_until_def)
  have "unat val \<le> unat (usage (s i))" if "i \<in> set is" for i
    using balanced_chain_usage [OF uncharge.prems uncharge.hyps(1) that] balancedD(2) [OF uncharge.prems, of c] uncharge.hyps(2) by linarith
  then show ?case
    by (intro balanced_uncharge [OF uncharge.prems uncharge.hyps(1,2)]) (simp add: s' unat_uncharged)
qed

interpretation rc: transition_system rc_step balanced
  by unfold_locales (rule balanced_rc_step)

text \<open>
  C23. Along every sequence of charges and forced charges that do not wrap around, and of uncharges of no more than was charged to the same
  counter, the usage of each counter is exactly what was charged to it and not given back plus the usages of its children.
\<close>

theorem res_counter_hierarchy: "balanced x \<Longrightarrow> rc_step\<^sup>*\<^sup>* x y \<Longrightarrow> balanced y"
  by (rule rc.reach_inv)

definition demo_pair :: rc_store where
  "demo_pair = (\<lambda>i. \<lparr>usage = (if i = 0 then 10 else if i = 1 then 5 else 0), max_usage = 10, rlimit = 20,
     soft_limit = 20, failcnt = 0, rc_parent = (if i = 1 then Some 0 else None)\<rparr>)"

definition demo_own :: accounts where
  "demo_own i = (if i = 0 \<or> i = 1 then 5 else 0)"

lemma demo_pair_charge:
  "res_counter_charge demo_pair 1 3 = Some (\<lambda>i. if i \<in> set [1, 0] then charged (demo_pair i) 3 else demo_pair i, None, None)"
  by (rule charge_success) (simp_all add: demo_pair_def over_def)

lemma demo_pair_balanced: "balanced (demo_own, demo_pair)"
proof -
  have "children demo_pair p = (if p = 0 then {1} else {})" for p
    by (auto simp: children_def demo_pair_def split: if_splits)
  then show ?thesis by (simp add: balanced_def demo_pair_def demo_own_def)
qed

theorem res_counter_hierarchy_witness:
  "balanced (demo_own(1 := 8), fst (the (res_counter_charge demo_pair 1 3)))"
proof (rule res_counter_hierarchy [OF demo_pair_balanced])
  let ?s = "fst (the (res_counter_charge demo_pair 1 3))"
  have "chain demo_pair (Some 1) [1, 0]" "\<forall>i\<in>set [1, 0]. unat (usage (demo_pair i)) + unat (3 :: u64) < 2 ^ 64"
    by (simp_all add: demo_pair_def)
  moreover have "res_counter_charge demo_pair 1 3 = Some (?s, None, None)" unfolding demo_pair_charge by simp
  ultimately have "rc_step (demo_own, demo_pair) (demo_own(1 := demo_own 1 + unat (3 :: u64)), ?s)"
    using rc_step.charge [of demo_pair 1 "[1, 0]" 3 ?s None None demo_own] unfolding if_P [OF refl] by blast
  moreover have "demo_own 1 + unat (3 :: u64) = 8" by (simp add: demo_own_def)
  ultimately show "rc_step\<^sup>*\<^sup>* (demo_own, demo_pair) (demo_own(1 := 8), ?s)" by simp
qed

end
