(* ===== verification/Id_Map.thy ===== *)
theory Id_Map
  imports Kernel_Prelude
begin

text \<open>
  Id maps of user namespaces (\<^verbatim>\<open>user_namespace.c\<close>).

  A \<open>uid_gid_map\<close> is the list of the extents below \<^verbatim>\<open>nr_extents\<close>; the array slots above it are never
  read. Ids are 32-bit words, \<open>- 1\<close> is the invalid id. The write of a map is modelled from the text
  the user passes: \<open>isspace\<close>, \<open>skip_spaces\<close> and \<open>simple_strtoul\<close> belong to the kernel's library and
  are the fields of \<open>text_lib\<close>; the capability checks, which depend on the security module, are
  fields of \<open>map_env\<close>. \<open>id_translation\<close> is the contract that the credential system calls rely on.
\<close>

section \<open>Data and operations\<close>

record uid_gid_extent =
  ext_first :: u32
  lower_first :: u32
  ext_count :: u32

type_synonym uid_gid_map = "uid_gid_extent list"

abbreviation invalid_id :: u32 where
  "invalid_id \<equiv> - 1"

definition UID_GID_MAP_MAX_EXTENTS :: nat where
  "UID_GID_MAP_MAX_EXTENTS = 5"

definition map_id_range_down :: "uid_gid_map \<Rightarrow> u32 \<Rightarrow> u32 \<Rightarrow> u32" where
  "map_id_range_down idmap i cnt =
     (let i2 = i + cnt - 1
      in case find (\<lambda>e. let first = ext_first e; last = first + ext_count e - 1
                        in i \<ge> first \<and> i \<le> last \<and> i2 \<ge> first \<and> i2 \<le> last) idmap of
           Some e \<Rightarrow> (i - ext_first e) + lower_first e
         | None \<Rightarrow> - 1)"

definition map_id_down :: "uid_gid_map \<Rightarrow> u32 \<Rightarrow> u32" where
  "map_id_down idmap i =
     (case find (\<lambda>e. let first = ext_first e; last = first + ext_count e - 1
                     in i \<ge> first \<and> i \<le> last) idmap of
        Some e \<Rightarrow> (i - ext_first e) + lower_first e
      | None \<Rightarrow> - 1)"

definition map_id_up :: "uid_gid_map \<Rightarrow> u32 \<Rightarrow> u32" where
  "map_id_up idmap i =
     (case find (\<lambda>e. let first = lower_first e; last = first + ext_count e - 1
                     in i \<ge> first \<and> i \<le> last) idmap of
        Some e \<Rightarrow> (i - lower_first e) + ext_first e
      | None \<Rightarrow> - 1)"

definition mappings_overlap :: "uid_gid_map \<Rightarrow> uid_gid_extent \<Rightarrow> bool" where
  "mappings_overlap new_map extent =
     (let upper_first = ext_first extent; lower_first' = lower_first extent;
          upper_last = upper_first + ext_count extent - 1;
          lower_last = lower_first' + ext_count extent - 1
      in list_ex (\<lambda>prev.
           let prev_upper_first = ext_first prev; prev_lower_first = lower_first prev;
               prev_upper_last = prev_upper_first + ext_count prev - 1;
               prev_lower_last = prev_lower_first + ext_count prev - 1
           in prev_upper_first \<le> upper_last \<and> prev_upper_last \<ge> upper_first \<or>
              prev_lower_first \<le> lower_last \<and> prev_lower_last \<ge> lower_first') new_map)"

text \<open>Namespaces live in a store indexed by identifiers (their addresses).\<close>

type_synonym nsid = nat

record user_namespace =
  uid_map :: uid_gid_map
  gid_map :: uid_gid_map
  projid_map :: uid_gid_map
  ns_parent :: "nsid option"
  ns_level :: nat
  ns_owner :: u32
  ns_group :: u32

type_synonym ns_store = "nsid \<Rightarrow> user_namespace"

definition make_kuid :: "user_namespace \<Rightarrow> u32 \<Rightarrow> u32" where
  "make_kuid ns uid = map_id_down (uid_map ns) uid"

definition from_kuid :: "user_namespace \<Rightarrow> u32 \<Rightarrow> u32" where
  "from_kuid targ kuid = map_id_up (uid_map targ) kuid"

definition from_kuid_munged :: "u32 \<Rightarrow> user_namespace \<Rightarrow> u32 \<Rightarrow> u32" where
  "from_kuid_munged overflowuid targ kuid =
     (let uid = from_kuid targ kuid in if uid = - 1 then overflowuid else uid)"

definition make_kgid :: "user_namespace \<Rightarrow> u32 \<Rightarrow> u32" where
  "make_kgid ns gid = map_id_down (gid_map ns) gid"

definition from_kgid :: "user_namespace \<Rightarrow> u32 \<Rightarrow> u32" where
  "from_kgid targ kgid = map_id_up (gid_map targ) kgid"

definition from_kgid_munged :: "u32 \<Rightarrow> user_namespace \<Rightarrow> u32 \<Rightarrow> u32" where
  "from_kgid_munged overflowgid targ kgid =
     (let gid = from_kgid targ kgid in if gid = - 1 then overflowgid else gid)"

definition make_kprojid :: "user_namespace \<Rightarrow> u32 \<Rightarrow> u32" where
  "make_kprojid ns projid = map_id_down (projid_map ns) projid"

definition from_kprojid :: "user_namespace \<Rightarrow> u32 \<Rightarrow> u32" where
  "from_kprojid targ kprojid = map_id_up (projid_map targ) kprojid"

definition from_kprojid_munged :: "u32 \<Rightarrow> user_namespace \<Rightarrow> u32 \<Rightarrow> u32" where
  "from_kprojid_munged overflow_projid targ kprojid =
     (let projid = from_kprojid targ kprojid in if projid = - 1 then overflow_projid else projid)"

text \<open>
  A line of \<^verbatim>\<open>/proc/<pid>/uid_map\<close>: the lower id is shown as the reader's namespace sees it, or as
  the parent does when the reader is in the namespace itself. The three show functions differ in the
  translation they use.
\<close>

definition show_lower_ns :: "ns_store \<Rightarrow> nsid \<Rightarrow> nsid \<Rightarrow> nsid" where
  "show_lower_ns nss seq_ns ns =
     (case ns_parent (nss seq_ns) of
        Some p \<Rightarrow> if seq_ns = ns then p else seq_ns
      | None \<Rightarrow> seq_ns)"

definition uid_m_show :: "ns_store \<Rightarrow> nsid \<Rightarrow> nsid \<Rightarrow> uid_gid_extent \<Rightarrow> u32 \<times> u32 \<times> u32" where
  "uid_m_show nss seq_ns ns extent =
     (ext_first extent, from_kuid (nss (show_lower_ns nss seq_ns ns)) (lower_first extent), ext_count extent)"

definition gid_m_show :: "ns_store \<Rightarrow> nsid \<Rightarrow> nsid \<Rightarrow> uid_gid_extent \<Rightarrow> u32 \<times> u32 \<times> u32" where
  "gid_m_show nss seq_ns ns extent =
     (ext_first extent, from_kgid (nss (show_lower_ns nss seq_ns ns)) (lower_first extent), ext_count extent)"

definition projid_m_show :: "ns_store \<Rightarrow> nsid \<Rightarrow> nsid \<Rightarrow> uid_gid_extent \<Rightarrow> u32 \<times> u32 \<times> u32" where
  "projid_m_show nss seq_ns ns extent =
     (ext_first extent, from_kprojid (nss (show_lower_ns nss seq_ns ns)) (lower_first extent), ext_count extent)"

definition m_start :: "uid_gid_map \<Rightarrow> nat \<Rightarrow> uid_gid_extent option" where
  "m_start idmap pos = (if pos < length idmap then Some (idmap ! pos) else None)"

subsection \<open>Writing a map\<close>

record text_lib =
  isspace :: "char \<Rightarrow> bool"
  skip_spaces :: "string \<Rightarrow> string"
  simple_strtoul :: "string \<Rightarrow> u64 \<times> string"

definition at_space :: "text_lib \<Rightarrow> string \<Rightarrow> bool" where
  "at_space lib pos \<longleftrightarrow> pos \<noteq> [] \<and> isspace lib (hd pos)"

text \<open>One line; the numbers are truncated to 32 bits when they are stored in the extent.\<close>

definition parse_extent :: "text_lib \<Rightarrow> string \<Rightarrow> uid_gid_extent result" where
  "parse_extent lib line =
     (let (n1, pos) = simple_strtoul lib (skip_spaces lib line)
      in if \<not> at_space lib pos then Inl EINVAL
      else let (n2, pos) = simple_strtoul lib (skip_spaces lib pos)
      in if \<not> at_space lib pos then Inl EINVAL
      else let (n3, pos) = simple_strtoul lib (skip_spaces lib pos)
      in if pos \<noteq> [] \<and> \<not> at_space lib pos then Inl EINVAL
      else if skip_spaces lib pos \<noteq> [] then Inl EINVAL
      else Inr \<lparr>ext_first = ucast n1, lower_first = ucast n2, ext_count = ucast n3\<rparr>)"

definition extent_ok :: "uid_gid_map \<Rightarrow> uid_gid_extent \<Rightarrow> bool" where
  "extent_ok new_map extent \<longleftrightarrow>
     \<not> (ext_first extent = - 1 \<or> lower_first extent = - 1) \<and>
     \<not> (ext_first extent + ext_count extent \<le> ext_first extent) \<and>
     \<not> (lower_first extent + ext_count extent \<le> lower_first extent) \<and>
     \<not> mappings_overlap new_map extent"

text \<open>The first line of a C string, and where the next one starts (NULL if nothing follows).\<close>

definition first_line :: "string \<Rightarrow> string" where
  "first_line pos = takeWhile (\<lambda>c. c \<noteq> CHR 0x0A) pos"

definition next_line :: "string \<Rightarrow> string option" where
  "next_line pos = (case dropWhile (\<lambda>c. c \<noteq> CHR 0x0A) pos of [] \<Rightarrow> None | [_] \<Rightarrow> None | _ # rest \<Rightarrow> Some rest)"

lemma next_line_shorter: "next_line pos = Some rest \<Longrightarrow> length rest < length pos"
proof -
  assume a: "next_line pos = Some rest"
  have "length (dropWhile (\<lambda>c. c \<noteq> CHR 0x0A) pos) \<le> length pos" by (rule length_dropWhile_le)
  with a show ?thesis by (auto simp: next_line_def split: list.splits)
qed

function parse_map :: "text_lib \<Rightarrow> string \<Rightarrow> uid_gid_map \<Rightarrow> uid_gid_map result" where
  "parse_map lib pos new_map =
     (case parse_extent lib (first_line pos) of
        Inl e \<Rightarrow> Inl e
      | Inr extent \<Rightarrow>
          if \<not> extent_ok new_map extent then Inl EINVAL
          else let new_map = new_map @ [extent]
               in if length new_map = UID_GID_MAP_MAX_EXTENTS \<and> next_line pos \<noteq> None then Inl EINVAL
                  else case next_line pos of None \<Rightarrow> Inr new_map | Some rest \<Rightarrow> parse_map lib rest new_map)"
  by pat_completeness auto

termination
  by (relation "measure (\<lambda>(lib, pos, new_map). length pos)") (auto dest: next_line_shorter)

declare parse_map.simps [simp del]

text \<open>The loop that translates the lower ids of the new map through the parent's map.\<close>

fun map_lower :: "uid_gid_map \<Rightarrow> uid_gid_map \<Rightarrow> uid_gid_map result" where
  "map_lower parent_map [] = Inr []"
| "map_lower parent_map (extent # rest) =
     (let lower = map_id_range_down parent_map (lower_first extent) (ext_count extent)
      in if lower = - 1 then Inl EPERM
         else case map_lower parent_map rest of
           Inl e \<Rightarrow> Inl e
         | Inr es \<Rightarrow> Inr (extent\<lparr>lower_first := lower\<rparr> # es))"

datatype capability = CAP_SETUID | CAP_SETGID | CAP_SYS_ADMIN

text \<open>
  What a write depends on besides its text: the ids of the opener of the file, the capability checks
  on the namespace and on its parent, and the outcomes of the allocation and of
  the copy from user memory. \<open>cap_setid\<close> is \<open>None\<close> for the value \<open>- 1\<close>, which is not \<^verbatim>\<open>cap_valid\<close>.
\<close>

record map_env =
  env_lib :: text_lib
  page_size :: nat
  page_ok :: bool
  file_sys_admin :: bool
  f_fsuid :: u32
  f_fsgid :: u32
  parent_capable :: "capability \<Rightarrow> bool"
  parent_file_capable :: "capability \<Rightarrow> bool"

definition new_idmap_permitted :: "map_env \<Rightarrow> user_namespace \<Rightarrow> capability option \<Rightarrow> uid_gid_map \<Rightarrow> bool" where
  "new_idmap_permitted env parent cap_setid new_map =
     (if length new_map = 1 \<and> ext_count (new_map ! 0) = 1 \<and>
         (cap_setid = Some CAP_SETUID \<and> make_kuid parent (lower_first (new_map ! 0)) = f_fsuid env \<or>
          cap_setid = Some CAP_SETGID \<and> make_kgid parent (lower_first (new_map ! 0)) = f_fsgid env)
      then True
      else case cap_setid of
        None \<Rightarrow> True
      | Some cap \<Rightarrow> parent_capable env cap \<and> parent_file_capable env cap)"

text \<open>
  \<open>buf\<close> is the user's buffer, \<open>None\<close> if it cannot be read; a NUL in it ends the C string. The result
  is the map after the write with the value returned (the error, or the byte count, which is also the new file position).
\<close>

definition map_write ::
  "map_env \<Rightarrow> user_namespace \<Rightarrow> string option \<Rightarrow> nat \<Rightarrow> nat \<Rightarrow> capability option \<Rightarrow> uid_gid_map \<Rightarrow> uid_gid_map \<Rightarrow>
   uid_gid_map \<times> nat result" where
  "map_write env parent buf cnt ppos cap_setid idmap parent_map =
     (if length idmap \<noteq> 0 then (idmap, Inl EPERM)
      else if cap_setid \<noteq> None \<and> \<not> file_sys_admin env then (idmap, Inl EPERM)
      else if \<not> page_ok env then (idmap, Inl ENOMEM)
      else if ppos \<noteq> 0 \<or> cnt \<ge> page_size env then (idmap, Inl EINVAL)
      else case buf of
        None \<Rightarrow> (idmap, Inl EFAULT)
      | Some bytes \<Rightarrow>
          case parse_map (env_lib env) (takeWhile (\<lambda>c. c \<noteq> CHR 0x00) (take cnt bytes)) [] of
            Inl e \<Rightarrow> (idmap, Inl e)
          | Inr new_map \<Rightarrow>
              if length new_map = 0 then (idmap, Inl EINVAL)
              else if \<not> new_idmap_permitted env parent cap_setid new_map then (idmap, Inl EPERM)
              else case map_lower parent_map new_map of
                Inl e \<Rightarrow> (idmap, Inl e)
              | Inr installed \<Rightarrow> (installed, Inr cnt))"

text \<open>The handlers of the three \<^verbatim>\<open>/proc\<close> files: only the namespace itself and its parent may write.\<close>

definition proc_uid_map_write ::
  "map_env \<Rightarrow> ns_store \<Rightarrow> nsid \<Rightarrow> nsid \<Rightarrow> string option \<Rightarrow> nat \<Rightarrow> nat \<Rightarrow> ns_store \<times> nat result" where
  "proc_uid_map_write env nss seq_ns ns buf cnt ppos =
     (case ns_parent (nss ns) of
        None \<Rightarrow> (nss, Inl EPERM)
      | Some p \<Rightarrow>
          if seq_ns \<noteq> ns \<and> seq_ns \<noteq> p then (nss, Inl EPERM)
          else let (m, r) = map_write env (nss p) buf cnt ppos (Some CAP_SETUID) (uid_map (nss ns)) (uid_map (nss p))
               in (nss(ns := (nss ns)\<lparr>uid_map := m\<rparr>), r))"

definition proc_gid_map_write ::
  "map_env \<Rightarrow> ns_store \<Rightarrow> nsid \<Rightarrow> nsid \<Rightarrow> string option \<Rightarrow> nat \<Rightarrow> nat \<Rightarrow> ns_store \<times> nat result" where
  "proc_gid_map_write env nss seq_ns ns buf cnt ppos =
     (case ns_parent (nss ns) of
        None \<Rightarrow> (nss, Inl EPERM)
      | Some p \<Rightarrow>
          if seq_ns \<noteq> ns \<and> seq_ns \<noteq> p then (nss, Inl EPERM)
          else let (m, r) = map_write env (nss p) buf cnt ppos (Some CAP_SETGID) (gid_map (nss ns)) (gid_map (nss p))
               in (nss(ns := (nss ns)\<lparr>gid_map := m\<rparr>), r))"

definition proc_projid_map_write ::
  "map_env \<Rightarrow> ns_store \<Rightarrow> nsid \<Rightarrow> nsid \<Rightarrow> string option \<Rightarrow> nat \<Rightarrow> nat \<Rightarrow> ns_store \<times> nat result" where
  "proc_projid_map_write env nss seq_ns ns buf cnt ppos =
     (case ns_parent (nss ns) of
        None \<Rightarrow> (nss, Inl EPERM)
      | Some p \<Rightarrow>
          if seq_ns \<noteq> ns \<and> seq_ns \<noteq> p then (nss, Inl EPERM)
          else let (m, r) = map_write env (nss p) buf cnt ppos None (projid_map (nss ns)) (projid_map (nss p))
               in (nss(ns := (nss ns)\<lparr>projid_map := m\<rparr>), r))"

section \<open>Well-formed maps\<close>

definition valid_extent :: "uid_gid_extent \<Rightarrow> bool" where
  "valid_extent e \<longleftrightarrow> 0 < unat (ext_count e) \<and> unat (ext_first e) + unat (ext_count e) < 2 ^ 32 \<and>
     unat (lower_first e) + unat (ext_count e) < 2 ^ 32"

definition apart :: "nat \<Rightarrow> nat \<Rightarrow> nat \<Rightarrow> nat \<Rightarrow> bool" where
  "apart a m b n \<longleftrightarrow> a + m \<le> b \<or> b + n \<le> a"

definition ext_disj :: "uid_gid_extent \<Rightarrow> uid_gid_extent \<Rightarrow> bool" where
  "ext_disj e e' \<longleftrightarrow>
     apart (unat (ext_first e)) (unat (ext_count e)) (unat (ext_first e')) (unat (ext_count e')) \<and>
     apart (unat (lower_first e)) (unat (ext_count e)) (unat (lower_first e')) (unat (ext_count e'))"

definition valid_map :: "uid_gid_map \<Rightarrow> bool" where
  "valid_map idmap \<longleftrightarrow> list_all valid_extent idmap \<and> sorted_wrt ext_disj idmap"

lemma apart_common: "apart a m b n \<Longrightarrow> a \<le> x \<Longrightarrow> x < a + m \<Longrightarrow> b \<le> x \<Longrightarrow> x < b + n \<Longrightarrow> False"
  by (auto simp: apart_def)

lemma apartI: "(\<And>x. a \<le> x \<Longrightarrow> x < a + m \<Longrightarrow> b \<le> x \<Longrightarrow> x < b + n \<Longrightarrow> False) \<Longrightarrow> 0 < m \<Longrightarrow> 0 < n \<Longrightarrow> apart a m b n"
  unfolding apart_def by (metis le_add2 le_less_trans less_add_same_cancel1 linorder_not_le nat_le_linear not_le order_refl)

lemma unat_last: "0 < unat c \<Longrightarrow> unat f + unat c < 2 ^ 32 \<Longrightarrow> unat (f + c - 1 :: u32) = unat f + unat c - 1"
proof -
  assume a: "0 < unat c" "unat f + unat c < 2 ^ 32"
  have "unat (f + c) = unat f + unat c" using a by (simp add: unat_word_ariths)
  moreover then have "1 \<le> f + c" using a by (simp add: word_le_nat_alt)
  ultimately show ?thesis by (simp add: unat_sub)
qed

lemma in_range_nat:
  assumes "0 < unat c" "unat f + unat c < 2 ^ 32"
  shows "f \<le> i \<and> i \<le> f + c - 1 \<longleftrightarrow> unat f \<le> unat i \<and> unat (i :: u32) < unat f + unat c"
  using assms unat_last [OF assms] by (auto simp: word_le_nat_alt)

lemma unat_shift:
  assumes "unat f \<le> unat i" "unat i < unat f + unat c" "unat g + unat (c :: u32) < 2 ^ 32"
  shows "unat ((i - f) + g :: u32) = unat i - unat f + unat g"
proof -
  have "unat (i - f) = unat i - unat f" using assms(1) by (simp add: unat_sub word_le_nat_alt)
  then show ?thesis using assms by (simp add: unat_word_ariths)
qed

definition in_upper :: "uid_gid_extent \<Rightarrow> u32 \<Rightarrow> bool" where
  "in_upper e i \<longleftrightarrow> unat (ext_first e) \<le> unat i \<and> unat i < unat (ext_first e) + unat (ext_count e)"

definition in_lower :: "uid_gid_extent \<Rightarrow> u32 \<Rightarrow> bool" where
  "in_lower e i \<longleftrightarrow> unat (lower_first e) \<le> unat i \<and> unat i < unat (lower_first e) + unat (ext_count e)"

lemma valid_mapD: "valid_map idmap \<Longrightarrow> e \<in> set idmap \<Longrightarrow> valid_extent e"
  by (auto simp: valid_map_def list_all_iff)

lemma valid_map_cases:
  "valid_map idmap \<Longrightarrow> e \<in> set idmap \<Longrightarrow> e' \<in> set idmap \<Longrightarrow> e = e' \<or> ext_disj e e' \<or> ext_disj e' e"
  unfolding valid_map_def by (induction idmap) (auto simp: list_all_iff)

lemma upper_unique:
  "valid_map idmap \<Longrightarrow> e \<in> set idmap \<Longrightarrow> e' \<in> set idmap \<Longrightarrow> in_upper e i \<Longrightarrow> in_upper e' i \<Longrightarrow> e = e'"
  using valid_map_cases [of idmap e e'] by (auto simp: ext_disj_def in_upper_def dest: apart_common)

lemma lower_unique:
  "valid_map idmap \<Longrightarrow> e \<in> set idmap \<Longrightarrow> e' \<in> set idmap \<Longrightarrow> in_lower e i \<Longrightarrow> in_lower e' i \<Longrightarrow> e = e'"
  using valid_map_cases [of idmap e e'] by (auto simp: ext_disj_def in_lower_def dest: apart_common)

lemma in_upper_word:
  "valid_extent e \<Longrightarrow> (ext_first e \<le> i \<and> i \<le> ext_first e + ext_count e - 1) = in_upper e i"
  unfolding valid_extent_def in_upper_def by (intro in_range_nat) auto

lemma in_lower_word:
  "valid_extent e \<Longrightarrow> (lower_first e \<le> i \<and> i \<le> lower_first e + ext_count e - 1) = in_lower e i"
  unfolding valid_extent_def in_lower_def by (intro in_range_nat) auto

lemma find_in: "find P xs = Some x \<Longrightarrow> x \<in> set xs \<and> P x"
  by (induction xs) (auto split: if_splits)

lemma find_unique:
  "x \<in> set xs \<Longrightarrow> P x \<Longrightarrow> (\<And>y. y \<in> set xs \<Longrightarrow> P y \<Longrightarrow> y = x) \<Longrightarrow> find P xs = Some x"
  using find_in [of P xs] find_None_iff [of P xs] by (metis not_None_eq)

text \<open>The two translations, described by the extent that applies.\<close>

lemma find_upper:
  assumes "valid_map idmap"
  shows "find (\<lambda>e. let first = ext_first e; last = first + ext_count e - 1 in i \<ge> first \<and> i \<le> last) idmap =
    find (\<lambda>e. in_upper e i) idmap"
  using valid_mapD [OF assms] by (intro find_cong) (auto simp: Let_def in_upper_word [symmetric])

lemma find_lower:
  assumes "valid_map idmap"
  shows "find (\<lambda>e. let first = lower_first e; last = first + ext_count e - 1 in i \<ge> first \<and> i \<le> last) idmap =
    find (\<lambda>e. in_lower e i) idmap"
  using valid_mapD [OF assms] by (intro find_cong) (auto simp: Let_def in_lower_word [symmetric])

lemma map_id_down_in:
  assumes "valid_map idmap" "e \<in> set idmap" "in_upper e i"
  shows "map_id_down idmap i = (i - ext_first e) + lower_first e"
proof -
  have "find (\<lambda>e. in_upper e i) idmap = Some e"
    using assms upper_unique [OF assms(1)] by (intro find_unique) auto
  then show ?thesis unfolding map_id_down_def find_upper [OF assms(1)] by simp
qed

lemma map_id_down_out:
  assumes "valid_map idmap" "\<And>e. e \<in> set idmap \<Longrightarrow> \<not> in_upper e i"
  shows "map_id_down idmap i = - 1"
proof -
  have "find (\<lambda>e. in_upper e i) idmap = None" using assms(2) by (auto simp: find_None_iff)
  then show ?thesis unfolding map_id_down_def find_upper [OF assms(1)] by simp
qed

lemma map_id_up_in:
  assumes "valid_map idmap" "e \<in> set idmap" "in_lower e i"
  shows "map_id_up idmap i = (i - lower_first e) + ext_first e"
proof -
  have "find (\<lambda>e. in_lower e i) idmap = Some e"
    using assms lower_unique [OF assms(1)] by (intro find_unique) auto
  then show ?thesis unfolding map_id_up_def find_lower [OF assms(1)] by simp
qed

lemma map_id_up_out:
  assumes "valid_map idmap" "\<And>e. e \<in> set idmap \<Longrightarrow> \<not> in_lower e i"
  shows "map_id_up idmap i = - 1"
proof -
  have "find (\<lambda>e. in_lower e i) idmap = None" using assms(2) by (auto simp: find_None_iff)
  then show ?thesis unfolding map_id_up_def find_lower [OF assms(1)] by simp
qed

lemma unat_invalid: "unat (- 1 :: u32) = 2 ^ 32 - 1"
  by (simp add: unsigned_minus_1_eq_mask mask_eq_exp_minus_1)

lemma shift_down:
  assumes "valid_extent e" "in_upper e i"
  shows "unat ((i - ext_first e) + lower_first e) = unat i - unat (ext_first e) + unat (lower_first e)"
  using assms by (intro unat_shift [of _ _ "ext_count e"]) (auto simp: valid_extent_def in_upper_def)

lemma shift_up:
  assumes "valid_extent e" "in_lower e i"
  shows "unat ((i - lower_first e) + ext_first e) = unat i - unat (lower_first e) + unat (ext_first e)"
  using assms by (intro unat_shift [of _ _ "ext_count e"]) (auto simp: valid_extent_def in_lower_def)

lemma in_lower_down:
  "valid_extent e \<Longrightarrow> in_upper e i \<Longrightarrow> in_lower e ((i - ext_first e) + lower_first e)"
  using shift_down [of e i] by (auto simp: in_lower_def in_upper_def)

lemma in_upper_up:
  "valid_extent e \<Longrightarrow> in_lower e i \<Longrightarrow> in_upper e ((i - lower_first e) + ext_first e)"
  using shift_up [of e i] by (auto simp: in_lower_def in_upper_def)

lemma in_valid_not_invalid:
  "valid_extent e \<Longrightarrow> in_lower e i \<Longrightarrow> i \<noteq> - 1" "valid_extent e \<Longrightarrow> in_upper e i \<Longrightarrow> i \<noteq> - 1"
  using unat_invalid by (auto simp: valid_extent_def in_lower_def in_upper_def)

text \<open>
  The contract of a pair of translations: on well-formed maps each undoes the other wherever it gives
  an id, so that ids of different users are never confused.
\<close>

locale id_translation =
  fixes down up :: "'m \<Rightarrow> u32 \<Rightarrow> u32"
    and valid :: "'m \<Rightarrow> bool"
  assumes up_down: "valid t \<Longrightarrow> down t i \<noteq> - 1 \<Longrightarrow> up t (down t i) = i"
    and down_up: "valid t \<Longrightarrow> up t k \<noteq> - 1 \<Longrightarrow> down t (up t k) = k"
    and invalid_down: "valid t \<Longrightarrow> down t (- 1) = - 1"
    and invalid_up: "valid t \<Longrightarrow> up t (- 1) = - 1"
begin

lemma down_inject: "valid t \<Longrightarrow> down t i \<noteq> - 1 \<Longrightarrow> down t i = down t j \<Longrightarrow> i = j"
  using up_down by metis

lemma up_inject: "valid t \<Longrightarrow> up t k \<noteq> - 1 \<Longrightarrow> up t k = up t l \<Longrightarrow> k = l"
  using down_up by metis

lemma up_valid_iff: "valid t \<Longrightarrow> up t k \<noteq> - 1 \<longleftrightarrow> (\<exists>i. down t i = k \<and> k \<noteq> - 1)"
  using up_down down_up invalid_down invalid_up by metis

end

interpretation idmap: id_translation map_id_down map_id_up valid_map
proof
  fix t i
  assume v: "valid_map t" and n: "map_id_down t i \<noteq> - 1"
  then obtain e where e: "e \<in> set t" "in_upper e i" using map_id_down_out by metis
  have ve: "valid_extent e" using valid_mapD [OF v e(1)] .
  show "map_id_up t (map_id_down t i) = i"
    using in_lower_down [OF ve e(2)] by (simp add: map_id_down_in [OF v e] map_id_up_in [OF v e(1)])
next
  fix t k
  assume v: "valid_map t" and n: "map_id_up t k \<noteq> - 1"
  then obtain e where e: "e \<in> set t" "in_lower e k" using map_id_up_out by metis
  have ve: "valid_extent e" using valid_mapD [OF v e(1)] .
  show "map_id_down t (map_id_up t k) = k"
    using in_upper_up [OF ve e(2)] by (simp add: map_id_up_in [OF v e] map_id_down_in [OF v e(1)])
next
  fix t
  assume v: "valid_map t"
  show "map_id_down t (- 1) = - 1" using in_valid_not_invalid(2) valid_mapD [OF v] by (intro map_id_down_out [OF v]) auto
  show "map_id_up t (- 1) = - 1" using in_valid_not_invalid(1) valid_mapD [OF v] by (intro map_id_up_out [OF v]) auto
qed

section \<open>What a write installs\<close>

lemma no_wrap: "\<not> f + c \<le> f \<Longrightarrow> 0 < unat c \<and> unat f + unat (c :: u32) < 2 ^ 32"
proof -
  assume a: "\<not> f + c \<le> f"
  have "unat f < 2 ^ 32" "unat c < 2 ^ 32" by (rule unat_u32_lt)+
  then show ?thesis using a by (auto simp: word_le_nat_alt unat_word_ariths mod_if split: if_splits)
qed

lemma extent_ok_valid: "extent_ok new_map e \<Longrightarrow> valid_extent e"
  using no_wrap [of "ext_first e" "ext_count e"] no_wrap [of "lower_first e" "ext_count e"]
  by (auto simp: extent_ok_def valid_extent_def)

lemma not_overlap_apart:
  assumes "0 < unat c" "unat f + unat c < 2 ^ 32" "0 < unat d" "unat g + unat d < 2 ^ 32"
    and "\<not> (g \<le> f + c - 1 \<and> f \<le> g + d - (1 :: u32))"
  shows "apart (unat g) (unat d) (unat f) (unat c)"
  using assms unat_last [OF assms(1,2)] unat_last [OF assms(3,4)]
  by (auto simp: word_le_nat_alt apart_def)

lemma extent_ok_disj:
  assumes "extent_ok new_map e" "prev \<in> set new_map" "valid_extent prev"
  shows "ext_disj prev e"
proof -
  have ve: "valid_extent e" using extent_ok_valid [OF assms(1)] .
  have "\<not> mappings_overlap new_map e" using assms(1) by (simp add: extent_ok_def)
  then have "\<not> (ext_first prev \<le> ext_first e + ext_count e - 1 \<and> ext_first e \<le> ext_first prev + ext_count prev - 1)"
    and "\<not> (lower_first prev \<le> lower_first e + ext_count e - 1 \<and> lower_first e \<le> lower_first prev + ext_count prev - 1)"
    using assms(2) unfolding mappings_overlap_def Let_def list_ex_iff by blast+
  then show ?thesis using ve assms(3) unfolding ext_disj_def valid_extent_def by (blast intro: not_overlap_apart)
qed

lemma valid_map_snoc: "valid_map new_map \<Longrightarrow> extent_ok new_map e \<Longrightarrow> valid_map (new_map @ [e])"
  using extent_ok_disj extent_ok_valid [of new_map e]
  by (auto simp: valid_map_def sorted_wrt_append list_all_iff)

lemma parse_map_valid: "parse_map lib pos new_map = Inr m \<Longrightarrow> valid_map new_map \<Longrightarrow> valid_map m \<and> m \<noteq> []"
proof (induction lib pos new_map rule: parse_map.induct)
  case (1 lib pos new_map)
  show ?case
    using "1.prems" "1.IH" valid_map_snoc [of new_map]
    by (subst (asm) parse_map.simps) (auto simp: Let_def split: sum.splits if_splits option.splits)
qed

lemma parse_map_length:
  "parse_map lib pos new_map = Inr m \<Longrightarrow> length new_map < UID_GID_MAP_MAX_EXTENTS \<Longrightarrow> length m \<le> UID_GID_MAP_MAX_EXTENTS"
proof (induction lib pos new_map rule: parse_map.induct)
  case (1 lib pos new_map)
  show ?case
    using "1.prems" "1.IH"
    by (subst (asm) parse_map.simps) (auto simp: Let_def split: sum.splits if_splits option.splits)
qed

lemma map_id_range_down_in:
  assumes v: "valid_map parent_map" and e: "0 < unat c" "unat l + unat c < 2 ^ 32"
    and r: "map_id_range_down parent_map l c \<noteq> - 1"
  shows "\<exists>p\<in>set parent_map. unat (ext_first p) \<le> unat l \<and> unat l + unat c \<le> unat (ext_first p) + unat (ext_count p) \<and>
    map_id_range_down parent_map l c = (l - ext_first p) + lower_first p"
proof -
  let ?P = "\<lambda>p. let first = ext_first p; last = first + ext_count p - 1
    in l \<ge> first \<and> l \<le> last \<and> l + c - 1 \<ge> first \<and> l + c - 1 \<le> last"
  obtain p where f: "find ?P parent_map = Some p" using r by (cases "find ?P parent_map") (auto simp: map_id_range_down_def)
  then have p: "p \<in> set parent_map" "?P p" using find_in [of ?P parent_map p] by auto
  then have "in_upper p l" "in_upper p (l + c - 1)"
    using in_upper_word [OF valid_mapD [OF v p(1)]] by (auto simp: Let_def)
  then have "unat (ext_first p) \<le> unat l" "unat l + unat c \<le> unat (ext_first p) + unat (ext_count p)"
    using unat_last [OF e] e by (auto simp: in_upper_def)
  with p f show ?thesis by (auto simp: map_id_range_down_def intro!: bexI [of _ p])
qed

text \<open>A translated range is the translation of each of its ids.\<close>

lemma map_id_range_down_points:
  assumes "valid_map parent_map" "0 < unat c" "unat l + unat c < 2 ^ 32" "map_id_range_down parent_map l c \<noteq> - 1"
    and "unat l \<le> unat i" "unat i < unat l + unat c"
  shows "map_id_down parent_map i = (i - l) + map_id_range_down parent_map l c"
proof -
  obtain p where p: "p \<in> set parent_map" "unat (ext_first p) \<le> unat l"
      "unat l + unat c \<le> unat (ext_first p) + unat (ext_count p)"
      "map_id_range_down parent_map l c = (l - ext_first p) + lower_first p"
    using map_id_range_down_in [OF assms(1-4)] by blast
  then have "in_upper p i" using assms(5,6) by (auto simp: in_upper_def)
  then show ?thesis using map_id_down_in [OF assms(1) p(1)] p(4) by simp
qed

lemma map_id_range_down_bound:
  assumes "valid_map parent_map" "0 < unat c" "unat l + unat c < 2 ^ 32" "map_id_range_down parent_map l c \<noteq> - 1"
  shows "unat (map_id_range_down parent_map l c) + unat c < 2 ^ 32"
proof -
  obtain p where p: "p \<in> set parent_map" "unat (ext_first p) \<le> unat l"
      "unat l + unat c \<le> unat (ext_first p) + unat (ext_count p)"
      "map_id_range_down parent_map l c = (l - ext_first p) + lower_first p"
    using map_id_range_down_in [OF assms] by blast
  have vp: "valid_extent p" using valid_mapD [OF assms(1) p(1)] .
  moreover have "in_upper p l" using p assms(2) by (auto simp: in_upper_def)
  ultimately have "unat (map_id_range_down parent_map l c) = unat l - unat (ext_first p) + unat (lower_first p)"
    unfolding p(4) by (rule shift_down)
  then show ?thesis using vp p(2,3) by (auto simp: valid_extent_def)
qed

lemma map_id_range_down_onto:
  assumes "valid_map parent_map" "0 < unat c" "unat l + unat c < 2 ^ 32" "map_id_range_down parent_map l c = k" "k \<noteq> - 1"
    and "unat k \<le> x" "x < unat k + unat c"
  shows "\<exists>i. unat l \<le> unat i \<and> unat i < unat l + unat c \<and> unat (map_id_down parent_map i) = x \<and> map_id_down parent_map i \<noteq> - 1"
proof -
  define i :: u32 where "i = of_nat (unat l + (x - unat k))"
  have small: "unat l + (x - unat k) < 2 ^ 32" using assms(3,6,7) by linarith
  then have i: "unat i = unat l + (x - unat k)" unfolding i_def by (subst unat_of_nat) simp
  then have bnd: "unat l \<le> unat i" "unat i < unat l + unat c" using assms(6,7) by linarith+
  have kb: "unat k + unat c < 2 ^ 32" using map_id_range_down_bound [OF assms(1-3)] assms(4,5) by simp
  have "map_id_down parent_map i = (i - l) + k"
    using map_id_range_down_points [OF assms(1-3) _ bnd] assms(4,5) by simp
  then have eq: "unat (map_id_down parent_map i) = x"
    using unat_shift [OF bnd kb] i assms(6) by simp
  moreover have "x < 2 ^ 32 - 1" using assms(7) kb by linarith
  ultimately have "map_id_down parent_map i \<noteq> - 1" using unat_invalid by force
  with bnd eq show ?thesis by blast
qed

lemma lower_apart:
  assumes v: "valid_map parent_map" and 1: "0 < unat c" "unat l + unat c < 2 ^ 32"
    and 2: "0 < unat d" "unat m + unat d < 2 ^ 32" and ap: "apart (unat l) (unat c) (unat m) (unat d)"
    and n: "map_id_range_down parent_map l c \<noteq> - 1" "map_id_range_down parent_map m d \<noteq> - 1"
  shows "apart (unat (map_id_range_down parent_map l c)) (unat c) (unat (map_id_range_down parent_map m d)) (unat d)"
proof (rule apartI [OF _ 1(1) 2(1)])
  fix x
  assume x: "unat (map_id_range_down parent_map l c) \<le> x" "x < unat (map_id_range_down parent_map l c) + unat c"
    "unat (map_id_range_down parent_map m d) \<le> x" "x < unat (map_id_range_down parent_map m d) + unat d"
  obtain i where i: "unat l \<le> unat i" "unat i < unat l + unat c" "unat (map_id_down parent_map i) = x" "map_id_down parent_map i \<noteq> - 1"
    using map_id_range_down_onto [OF v 1 refl n(1) x(1,2)] by blast
  obtain j where j: "unat m \<le> unat j" "unat j < unat m + unat d" "unat (map_id_down parent_map j) = x"
    using map_id_range_down_onto [OF v 2 refl n(2) x(3,4)] by blast
  have "map_id_down parent_map i = map_id_down parent_map j" using i(3) j(3) by (simp add: word_unat_eq_iff)
  then have "i = j" using idmap.down_inject [OF v i(4)] by blast
  then show False using apart_common [OF ap i(1,2)] j(1,2) by simp
qed

definition lowered :: "uid_gid_map \<Rightarrow> uid_gid_extent \<Rightarrow> uid_gid_extent" where
  "lowered parent_map e = e\<lparr>lower_first := map_id_range_down parent_map (lower_first e) (ext_count e)\<rparr>"

lemma map_lower_eq:
  "map_lower parent_map m = Inr es \<Longrightarrow> es = map (lowered parent_map) m \<and> (\<forall>e\<in>set es. lower_first e \<noteq> - 1)"
  by (induction m arbitrary: es) (auto simp: lowered_def Let_def split: if_splits sum.splits)

lemma lowered_simps [simp]:
  "ext_first (lowered parent_map e) = ext_first e" "ext_count (lowered parent_map e) = ext_count e"
  "lower_first (lowered parent_map e) = map_id_range_down parent_map (lower_first e) (ext_count e)"
  by (simp_all add: lowered_def)

lemma lowered_disj:
  assumes "valid_map parent_map" "valid_extent e" "valid_extent e'" "ext_disj e e'"
    "lower_first (lowered parent_map e) \<noteq> - 1" "lower_first (lowered parent_map e') \<noteq> - 1"
  shows "ext_disj (lowered parent_map e) (lowered parent_map e')"
  using assms lower_apart [OF assms(1)] by (simp add: ext_disj_def valid_extent_def)

lemma lowered_valid:
  "valid_map parent_map \<Longrightarrow> valid_extent e \<Longrightarrow> lower_first (lowered parent_map e) \<noteq> - 1 \<Longrightarrow> valid_extent (lowered parent_map e)"
  using map_id_range_down_bound [of parent_map "ext_count e" "lower_first e"] by (simp add: valid_extent_def)

lemma map_lower_valid:
  assumes p: "valid_map parent_map" and m: "valid_map m" and r: "map_lower parent_map m = Inr es"
  shows "valid_map es"
proof -
  have es: "es = map (lowered parent_map) m" and n: "\<And>e. e \<in> set m \<Longrightarrow> lower_first (lowered parent_map e) \<noteq> - 1"
    using map_lower_eq [OF r] by auto
  have "sorted_wrt (\<lambda>e e'. ext_disj (lowered parent_map e) (lowered parent_map e')) m"
  proof (rule sorted_wrt_mono_rel [of m ext_disj])
    show "sorted_wrt ext_disj m" using m by (simp add: valid_map_def)
    show "ext_disj (lowered parent_map e) (lowered parent_map e')" if "e \<in> set m" "e' \<in> set m" "ext_disj e e'" for e e'
      using lowered_disj [OF p _ _ that(3)] valid_mapD [OF m] n that by blast
  qed
  then show ?thesis
    using n valid_mapD [OF m] lowered_valid [OF p] by (auto simp: valid_map_def es list_all_iff sorted_wrt_map)
qed

lemma map_lower_compose:
  assumes p: "valid_map parent_map" and m: "valid_map m" and r: "map_lower parent_map m = Inr es"
  shows "map_id_down es i = map_id_down parent_map (map_id_down m i)"
proof (cases "\<exists>e\<in>set m. in_upper e i")
  case True
  then obtain e where e: "e \<in> set m" "in_upper e i" by blast
  have es: "lowered parent_map e \<in> set es" "lower_first (lowered parent_map e) \<noteq> - 1"
    using map_lower_eq [OF r] e(1) by auto
  have ve: "valid_extent e" using valid_mapD [OF m e(1)] .
  have "map_id_down es i = (i - ext_first e) + map_id_range_down parent_map (lower_first e) (ext_count e)"
    using map_id_down_in [OF map_lower_valid [OF assms] es(1)] e(2) by (simp add: in_upper_def)
  moreover have "map_id_down m i = (i - ext_first e) + lower_first e" by (rule map_id_down_in [OF m e])
  moreover have "map_id_down parent_map ((i - ext_first e) + lower_first e) =
      (i - ext_first e) + map_id_range_down parent_map (lower_first e) (ext_count e)"
    using map_id_range_down_points [OF p _ _ es(2) [simplified], of "(i - ext_first e) + lower_first e"]
      in_lower_down [OF ve e(2)] ve by (simp add: valid_extent_def in_lower_def)
  ultimately show ?thesis by simp
next
  case False
  then have "map_id_down m i = - 1" using map_id_down_out [OF m] by blast
  moreover have "map_id_down es i = - 1"
    using False map_lower_eq [OF r] by (intro map_id_down_out [OF map_lower_valid [OF assms]]) (auto simp: in_upper_def)
  ultimately show ?thesis using idmap.invalid_down [OF p] by simp
qed

lemma map_write_Inr:
  assumes "map_write env parent buf cnt ppos cap_setid idmap parent_map = (m, Inr n)"
  shows "idmap = [] \<and> (\<exists>bytes tmap. buf = Some bytes \<and>
    parse_map (env_lib env) (takeWhile (\<lambda>c. c \<noteq> CHR 0x00) (take cnt bytes)) [] = Inr tmap \<and>
    new_idmap_permitted env parent cap_setid tmap \<and> map_lower parent_map tmap = Inr m)"
  using assms by (auto simp: map_write_def split: if_splits option.splits sum.splits)

lemma map_write_Inl:
  "map_write env parent buf cnt ppos cap_setid idmap parent_map = (m, Inl e) \<Longrightarrow> m = idmap"
  by (auto simp: map_write_def split: if_splits option.splits sum.splits)

lemma valid_map_Nil [simp]: "valid_map []"
  by (simp add: valid_map_def)

text \<open>
  C6. A successful write to an id map replaces an empty map by one that is well formed (at most five
  non-empty extents, none of which wraps, pairwise disjoint on both sides) and that sends each id to
  where the parent namespace's map sends the lower id given in the text: a namespace never reaches a
  kernel id that its parent cannot reach.
\<close>

theorem map_write_correct:
  assumes "valid_map parent_map"
    and "map_write env parent buf cnt ppos cap_setid idmap parent_map = (m, Inr n)"
  shows "idmap = [] \<and> m \<noteq> [] \<and> length m \<le> UID_GID_MAP_MAX_EXTENTS \<and> valid_map m \<and>
    (\<exists>bytes tmap. buf = Some bytes \<and>
      parse_map (env_lib env) (takeWhile (\<lambda>c. c \<noteq> CHR 0x00) (take cnt bytes)) [] = Inr tmap \<and>
      (\<forall>i. map_id_down m i = map_id_down parent_map (map_id_down tmap i)))"
proof -
  obtain bytes tmap where w: "idmap = []" "buf = Some bytes"
      "parse_map (env_lib env) (takeWhile (\<lambda>c. c \<noteq> CHR 0x00) (take cnt bytes)) [] = Inr tmap" "map_lower parent_map tmap = Inr m"
    using map_write_Inr [OF assms(2)] by blast
  have tmap: "valid_map tmap" "tmap \<noteq> []" using parse_map_valid [OF w(3)] by simp_all
  have "length tmap \<le> UID_GID_MAP_MAX_EXTENTS"
    using parse_map_length [OF w(3)] by (simp add: UID_GID_MAP_MAX_EXTENTS_def)
  then have "length m \<le> UID_GID_MAP_MAX_EXTENTS" "m \<noteq> []" using map_lower_eq [OF w(4)] tmap(2) by simp_all
  with w map_lower_valid [OF assms(1) tmap(1) w(4)] map_lower_compose [OF assms(1) tmap(1) w(4)] show ?thesis by blast
qed

text \<open>A library for the examples: blanks are spaces, numbers are decimal.\<close>

fun digits :: "u64 \<Rightarrow> string \<Rightarrow> u64 \<times> string" where
  "digits acc [] = (acc, [])"
| "digits acc (c # cs) =
     (if 48 \<le> (of_char c :: nat) \<and> (of_char c :: nat) \<le> 57 then digits (10 * acc + of_nat (of_char c - 48)) cs else (acc, c # cs))"

definition demo_lib :: text_lib where
  "demo_lib = \<lparr>isspace = (\<lambda>c. c = CHR '' ''), skip_spaces = dropWhile (\<lambda>c. c = CHR '' ''), simple_strtoul = digits 0\<rparr>"

definition demo_env :: map_env where
  "demo_env = \<lparr>env_lib = demo_lib, page_size = 4096, page_ok = True, file_sys_admin = True, f_fsuid = 1000, f_fsgid = 1000,
     parent_capable = (\<lambda>_. True), parent_file_capable = (\<lambda>_. True)\<rparr>"

definition demo_parent :: user_namespace where
  "demo_parent = \<lparr>uid_map = [\<lparr>ext_first = 0, lower_first = 0, ext_count = 4294967295\<rparr>],
     gid_map = [\<lparr>ext_first = 0, lower_first = 0, ext_count = 4294967295\<rparr>], projid_map = [],
     ns_parent = None, ns_level = 0, ns_owner = 0, ns_group = 0\<rparr>"

theorem map_write_correct_witness:
  "\<exists>m. map_write demo_env demo_parent (Some ''0 1000 1'') 8 0 (Some CAP_SETUID) [] (uid_map demo_parent) = (m, Inr 8) \<and>
    valid_map m \<and> map_id_down m 0 = 1000"
proof -
  have v: "valid_map (uid_map demo_parent)" by (simp add: demo_parent_def valid_map_def valid_extent_def)
  have ev: "map_write demo_env demo_parent (Some ''0 1000 1'') 8 0 (Some CAP_SETUID) [] (uid_map demo_parent) =
      ([\<lparr>ext_first = 0, lower_first = 1000, ext_count = 1\<rparr>], Inr 8)"
    by code_simp
  show ?thesis using map_write_correct [OF v ev] ev by (auto simp: map_id_down_def)
qed

text \<open>
  C24. Translating an id of a namespace to the kernel's and back gives the id again, and conversely, for
  users, groups and projects alike, whenever the translation is defined.
\<close>

theorem id_translation_roundtrip:
  assumes "valid_map (uid_map ns)" "valid_map (gid_map ns)" "valid_map (projid_map ns)"
  shows "(make_kuid ns i \<noteq> - 1 \<longrightarrow> from_kuid ns (make_kuid ns i) = i) \<and>
    (from_kuid ns k \<noteq> - 1 \<longrightarrow> make_kuid ns (from_kuid ns k) = k) \<and>
    (make_kgid ns i \<noteq> - 1 \<longrightarrow> from_kgid ns (make_kgid ns i) = i) \<and>
    (from_kgid ns k \<noteq> - 1 \<longrightarrow> make_kgid ns (from_kgid ns k) = k) \<and>
    (make_kprojid ns i \<noteq> - 1 \<longrightarrow> from_kprojid ns (make_kprojid ns i) = i) \<and>
    (from_kprojid ns k \<noteq> - 1 \<longrightarrow> make_kprojid ns (from_kprojid ns k) = k)"
  using assms idmap.up_down idmap.down_up
  by (simp add: make_kuid_def from_kuid_def make_kgid_def from_kgid_def make_kprojid_def from_kprojid_def)

theorem id_translation_roundtrip_witness:
  "from_kuid demo_parent (make_kuid demo_parent 1000) = 1000 \<and> make_kgid demo_parent (from_kgid demo_parent 7) = 7"
proof -
  have "valid_map (uid_map demo_parent)" "valid_map (gid_map demo_parent)" "valid_map (projid_map demo_parent)"
    by (simp_all add: demo_parent_def valid_map_def valid_extent_def)
  note rt = id_translation_roundtrip [OF this]
  have "make_kuid demo_parent 1000 = 1000" "from_kgid demo_parent 7 = 7" by code_simp+
  then show ?thesis using rt [of 1000 7] by simp
qed

text \<open>
  A write that fails leaves the map as it was, and a map that has been written once refuses every
  later write with EPERM.
\<close>

theorem map_write_error:
  "((\<exists>e. snd (map_write env parent buf cnt ppos cap_setid idmap parent_map) = Inl e) \<longrightarrow>
      fst (map_write env parent buf cnt ppos cap_setid idmap parent_map) = idmap) \<and>
   (idmap \<noteq> [] \<longrightarrow> map_write env parent buf cnt ppos cap_setid idmap parent_map = (idmap, Inl EPERM))"
proof (intro conjI)
  show "(\<exists>e. snd (map_write env parent buf cnt ppos cap_setid idmap parent_map) = Inl e) \<longrightarrow>
      fst (map_write env parent buf cnt ppos cap_setid idmap parent_map) = idmap"
    using map_write_Inl by (metis prod.collapse)
  show "idmap \<noteq> [] \<longrightarrow> map_write env parent buf cnt ppos cap_setid idmap parent_map = (idmap, Inl EPERM)"
    by (simp add: map_write_def)
qed

theorem map_write_error_witness:
  "fst (map_write demo_env demo_parent (Some ''0 0'') 3 0 (Some CAP_SETUID) [] (uid_map demo_parent)) = [] \<and>
   map_write demo_env demo_parent (Some ''0 1000 1'') 8 0 (Some CAP_SETUID) (uid_map demo_parent) (uid_map demo_parent) =
     (uid_map demo_parent, Inl EPERM)"
proof -
  have "snd (map_write demo_env demo_parent (Some ''0 0'') 3 0 (Some CAP_SETUID) [] (uid_map demo_parent)) = Inl EINVAL"
    by code_simp
  moreover have "uid_map demo_parent \<noteq> []" by (simp add: demo_parent_def)
  ultimately show ?thesis using map_write_error by blast
qed

end
