(* ===== verification/Credentials.thy ===== *)
theory Credentials
  imports Id_Map
begin

text \<open>
  Task credentials (\<^verbatim>\<open>cred.c\<close>), the system calls that change user and group ids (\<^verbatim>\<open>sys.c\<close>) and the
  creation of user namespaces (\<^verbatim>\<open>user_namespace.c\<close>).

  Credentials are values: \<^verbatim>\<open>prepare_creds\<close> copies them and \<^verbatim>\<open>commit_creds\<close> installs the copy, so the
  reference counts and the key rings of the C structure have no counterpart here. A task has its real
  credentials and, while it acts for somebody else, overriding ones. A \<^verbatim>\<open>user_struct\<close> is named by its
  uid. The security module, the capability checks, the allocators and the constants of the headers are
  the fields of \<open>id_env\<close>. A system call returns \<open>None\<close> where the kernel stops in a \<^verbatim>\<open>BUG_ON\<close> (or would
  walk the namespaces for ever), otherwise the new state and the error, if any.
\<close>

section \<open>Data\<close>

record cred =
  uid :: u32
  gid :: u32
  suid :: u32
  sgid :: u32
  euid :: u32
  egid :: u32
  fsuid :: u32
  fsgid :: u32
  securebits :: u32
  cap_inheritable :: u64
  cap_permitted :: u64
  cap_effective :: u64
  cap_bset :: u64
  user :: u32
  user_ns :: nsid
  group_info :: "u32 list"

record cred_state =
  real_cred :: cred
  override :: "cred option"
  pdeath_signal :: nat
  mm_dumpable :: "nat option"
  nproc_exceeded :: bool
  processes :: "u32 \<Rightarrow> int"

datatype setid_kind = LSM_SETID_ID | LSM_SETID_RE | LSM_SETID_RES | LSM_SETID_FS

record id_env =
  ns_capable :: "nsid \<Rightarrow> capability \<Rightarrow> bool"
  mem_ok :: bool
  alloc_uid_ok :: bool
  rlimit_nproc :: nat
  fix_setuid :: "cred \<Rightarrow> cred \<Rightarrow> setid_kind \<Rightarrow> cred result"
  cap_issubset :: "u64 \<Rightarrow> u64 \<Rightarrow> bool"
  suid_dumpable :: nat
  SECUREBITS_DEFAULT :: u32
  CAP_EMPTY_SET :: u64
  CAP_FULL_SET :: u64
  overflowuid :: u32
  overflowgid :: u32

text \<open>\<^verbatim>\<open>task->cred\<close>, the credentials the task acts with.\<close>

definition current_cred :: "cred_state \<Rightarrow> cred" where
  "current_cred st = (case override st of None \<Rightarrow> real_cred st | Some c \<Rightarrow> c)"

abbreviation (input) init_user_ns :: nsid where
  "init_user_ns \<equiv> 0"

abbreviation (input) INIT_USER :: u32 where
  "INIT_USER \<equiv> 0"

section \<open>Installing credentials\<close>

definition prepare_creds :: "id_env \<Rightarrow> cred_state \<Rightarrow> cred option" where
  "prepare_creds env st = (if mem_ok env then Some (current_cred st) else None)"

text \<open>The walk from the subset's namespace to the initial one.\<close>

partial_function (option) owned_by_ancestor :: "ns_store \<Rightarrow> nsid \<Rightarrow> u32 \<Rightarrow> nsid \<Rightarrow> bool option" where
  "owned_by_ancestor nss set_ns set_euid subset_ns =
     (if subset_ns = init_user_ns then Some False
      else if Some set_ns = ns_parent (nss subset_ns) \<and> ns_owner (nss subset_ns) = set_euid then Some True
      else Option.bind (ns_parent (nss subset_ns)) (\<lambda>p. owned_by_ancestor nss set_ns set_euid p))"

definition cred_cap_issubset :: "id_env \<Rightarrow> ns_store \<Rightarrow> cred \<Rightarrow> cred \<Rightarrow> bool option" where
  "cred_cap_issubset env nss setc subc =
     (if user_ns setc = user_ns subc then Some (cap_issubset env (cap_permitted subc) (cap_permitted setc))
      else owned_by_ancestor nss (user_ns setc) (euid setc) (user_ns subc))"

text \<open>
  \<^verbatim>\<open>BUG_ON(task->cred != old)\<close> is the first test. The dumpability test stops at the first difference,
  so the capabilities are only compared when the four ids agree.
\<close>

definition commit_creds :: "id_env \<Rightarrow> ns_store \<Rightarrow> cred_state \<Rightarrow> cred \<Rightarrow> cred_state option" where
  "commit_creds env nss st new =
     (let old = real_cred st
      in if override st \<noteq> None then None
         else case (if euid old \<noteq> euid new \<or> egid old \<noteq> egid new \<or> fsuid old \<noteq> fsuid new \<or> fsgid old \<noteq> fsgid new
                    then Some True
                    else map_option Not (cred_cap_issubset env nss old new)) of
           None \<Rightarrow> None
         | Some changed \<Rightarrow>
             let st1 = (if changed
                   then st\<lparr>mm_dumpable := map_option (\<lambda>_. suid_dumpable env) (mm_dumpable st), pdeath_signal := 0\<rparr>
                   else st);
                 st2 = (if user new \<noteq> user old
                   then st1\<lparr>processes := (processes st1)(user new := processes st1 (user new) + 1)\<rparr> else st1);
                 st3 = st2\<lparr>real_cred := new, override := None\<rparr>;
                 st4 = (if user new \<noteq> user old
                   then st3\<lparr>processes := (processes st3)(user old := processes st3 (user old) - 1)\<rparr> else st3)
             in Some st4)"

definition override_creds :: "cred_state \<Rightarrow> cred \<Rightarrow> cred_state \<times> cred" where
  "override_creds st new = (st\<lparr>override := Some new\<rparr>, current_cred st)"

text \<open>The argument is what \<^verbatim>\<open>override_creds\<close> returned: the outer override, or none.\<close>

definition revert_creds :: "cred_state \<Rightarrow> cred option \<Rightarrow> cred_state" where
  "revert_creds st old = st\<lparr>override := old\<rparr>"

text \<open>\<open>init_cred\<close> is the first task's credentials; a kernel service may start from them or from a task's.\<close>

definition prepare_kernel_cred :: "id_env \<Rightarrow> cred \<Rightarrow> cred_state option \<Rightarrow> cred option" where
  "prepare_kernel_cred env init_cred daemon =
     (if \<not> mem_ok env then None
      else Some (case daemon of None \<Rightarrow> init_cred | Some st \<Rightarrow> real_cred st))"

definition set_create_files_as :: "cred \<Rightarrow> u32 \<Rightarrow> u32 \<Rightarrow> cred" where
  "set_create_files_as new i_uid i_gid = new\<lparr>fsuid := i_uid, fsgid := i_gid\<rparr>"

section \<open>The set-id system calls\<close>

abbreviation fails :: "cred_state \<Rightarrow> errno \<Rightarrow> (cred_state \<times> errno option) option" where
  "fails st e \<equiv> Some (st, Some e)"

definition commits :: "id_env \<Rightarrow> ns_store \<Rightarrow> cred_state \<Rightarrow> cred \<Rightarrow> (cred_state \<times> errno option) option" where
  "commits env nss st new = map_option (\<lambda>st'. (st', None)) (commit_creds env nss st new)"

definition setregid :: "id_env \<Rightarrow> ns_store \<Rightarrow> cred_state \<Rightarrow> u32 \<Rightarrow> u32 \<Rightarrow> (cred_state \<times> errno option) option" where
  "setregid env nss st rg eg =
     (let old = current_cred st; ns = nss (user_ns old); krgid = make_kgid ns rg; kegid = make_kgid ns eg
      in if rg \<noteq> - 1 \<and> krgid = - 1 then fails st EINVAL
      else if eg \<noteq> - 1 \<and> kegid = - 1 then fails st EINVAL
      else case prepare_creds env st of
        None \<Rightarrow> fails st ENOMEM
      | Some new \<Rightarrow>
          if rg \<noteq> - 1 \<and> \<not> (gid old = krgid \<or> egid old = krgid \<or> ns_capable env (user_ns old) CAP_SETGID)
          then fails st EPERM
          else let new = (if rg \<noteq> - 1 then new\<lparr>gid := krgid\<rparr> else new)
          in if eg \<noteq> - 1 \<and> \<not> (gid old = kegid \<or> egid old = kegid \<or> sgid old = kegid \<or>
                 ns_capable env (user_ns old) CAP_SETGID)
          then fails st EPERM
          else let new = (if eg \<noteq> - 1 then new\<lparr>egid := kegid\<rparr> else new);
                   new = (if rg \<noteq> - 1 \<or> (eg \<noteq> - 1 \<and> kegid \<noteq> gid old) then new\<lparr>sgid := egid new\<rparr> else new);
                   new = new\<lparr>fsgid := egid new\<rparr>
          in commits env nss st new)"

definition setgid :: "id_env \<Rightarrow> ns_store \<Rightarrow> cred_state \<Rightarrow> u32 \<Rightarrow> (cred_state \<times> errno option) option" where
  "setgid env nss st g =
     (let old = current_cred st; kgid = make_kgid (nss (user_ns old)) g
      in if kgid = - 1 then fails st EINVAL
      else case prepare_creds env st of
        None \<Rightarrow> fails st ENOMEM
      | Some new \<Rightarrow>
          if ns_capable env (user_ns old) CAP_SETGID
          then commits env nss st (new\<lparr>gid := kgid, egid := kgid, sgid := kgid, fsgid := kgid\<rparr>)
          else if kgid = gid old \<or> kgid = sgid old
          then commits env nss st (new\<lparr>egid := kgid, fsgid := kgid\<rparr>)
          else fails st EPERM)"

definition set_user :: "id_env \<Rightarrow> cred_state \<Rightarrow> cred \<Rightarrow> (cred_state \<times> cred) result" where
  "set_user env st new =
     (if \<not> alloc_uid_ok env then Inl EAGAIN
      else Inr (st\<lparr>nproc_exceeded := processes st (uid new) \<ge> int (rlimit_nproc env) \<and> uid new \<noteq> INIT_USER\<rparr>,
                new\<lparr>user := uid new\<rparr>))"

text \<open>
  The end of the three calls that set the real uid: the hook of the security module, which may change
  the new credentials, then the commit. An error after \<^verbatim>\<open>set_user\<close> leaves its flag changed.
\<close>

definition fix_and_commit ::
  "id_env \<Rightarrow> ns_store \<Rightarrow> cred_state \<Rightarrow> cred \<Rightarrow> cred \<Rightarrow> setid_kind \<Rightarrow> (cred_state \<times> errno option) option" where
  "fix_and_commit env nss st new old kind =
     (case fix_setuid env new old kind of Inl e \<Rightarrow> fails st e | Inr new' \<Rightarrow> commits env nss st new')"

definition setreuid :: "id_env \<Rightarrow> ns_store \<Rightarrow> cred_state \<Rightarrow> u32 \<Rightarrow> u32 \<Rightarrow> (cred_state \<times> errno option) option" where
  "setreuid env nss st ru eu =
     (let old = current_cred st; ns = nss (user_ns old); kruid = make_kuid ns ru; keuid = make_kuid ns eu
      in if ru \<noteq> - 1 \<and> kruid = - 1 then fails st EINVAL
      else if eu \<noteq> - 1 \<and> keuid = - 1 then fails st EINVAL
      else case prepare_creds env st of
        None \<Rightarrow> fails st ENOMEM
      | Some new \<Rightarrow>
          let new = (if ru \<noteq> - 1 then new\<lparr>uid := kruid\<rparr> else new)
          in if ru \<noteq> - 1 \<and> uid old \<noteq> kruid \<and> euid old \<noteq> kruid \<and> \<not> ns_capable env (user_ns old) CAP_SETUID
          then fails st EPERM
          else let new = (if eu \<noteq> - 1 then new\<lparr>euid := keuid\<rparr> else new)
          in if eu \<noteq> - 1 \<and> uid old \<noteq> keuid \<and> euid old \<noteq> keuid \<and> suid old \<noteq> keuid \<and>
                \<not> ns_capable env (user_ns old) CAP_SETUID
          then fails st EPERM
          else case (if uid new \<noteq> uid old then set_user env st new else Inr (st, new)) of
            Inl e \<Rightarrow> fails st e
          | Inr (st, new) \<Rightarrow>
              let new = (if ru \<noteq> - 1 \<or> (eu \<noteq> - 1 \<and> keuid \<noteq> uid old) then new\<lparr>suid := euid new\<rparr> else new);
                  new = new\<lparr>fsuid := euid new\<rparr>
              in fix_and_commit env nss st new old LSM_SETID_RE)"

definition setuid :: "id_env \<Rightarrow> ns_store \<Rightarrow> cred_state \<Rightarrow> u32 \<Rightarrow> (cred_state \<times> errno option) option" where
  "setuid env nss st u =
     (let old = current_cred st; kuid = make_kuid (nss (user_ns old)) u
      in if kuid = - 1 then fails st EINVAL
      else case prepare_creds env st of
        None \<Rightarrow> fails st ENOMEM
      | Some new \<Rightarrow>
          case (if ns_capable env (user_ns old) CAP_SETUID
                then let new = new\<lparr>uid := kuid, suid := kuid\<rparr>
                     in if kuid \<noteq> uid old then set_user env st new else Inr (st, new)
                else if kuid \<noteq> uid old \<and> kuid \<noteq> suid new then Inl EPERM
                else Inr (st, new)) of
            Inl e \<Rightarrow> fails st e
          | Inr (st, new) \<Rightarrow>
              fix_and_commit env nss st (new\<lparr>euid := kuid, fsuid := kuid\<rparr>) old LSM_SETID_ID)"

definition setresuid ::
  "id_env \<Rightarrow> ns_store \<Rightarrow> cred_state \<Rightarrow> u32 \<Rightarrow> u32 \<Rightarrow> u32 \<Rightarrow> (cred_state \<times> errno option) option" where
  "setresuid env nss st ru eu su =
     (let old = current_cred st; ns = nss (user_ns old);
          kruid = make_kuid ns ru; keuid = make_kuid ns eu; ksuid = make_kuid ns su
      in if ru \<noteq> - 1 \<and> kruid = - 1 then fails st EINVAL
      else if eu \<noteq> - 1 \<and> keuid = - 1 then fails st EINVAL
      else if su \<noteq> - 1 \<and> ksuid = - 1 then fails st EINVAL
      else case prepare_creds env st of
        None \<Rightarrow> fails st ENOMEM
      | Some new \<Rightarrow>
          if \<not> ns_capable env (user_ns old) CAP_SETUID \<and>
             (ru \<noteq> - 1 \<and> kruid \<noteq> uid old \<and> kruid \<noteq> euid old \<and> kruid \<noteq> suid old \<or>
              eu \<noteq> - 1 \<and> keuid \<noteq> uid old \<and> keuid \<noteq> euid old \<and> keuid \<noteq> suid old \<or>
              su \<noteq> - 1 \<and> ksuid \<noteq> uid old \<and> ksuid \<noteq> euid old \<and> ksuid \<noteq> suid old)
          then fails st EPERM
          else case (if ru \<noteq> - 1
                     then let new = new\<lparr>uid := kruid\<rparr>
                          in if kruid \<noteq> uid old then set_user env st new else Inr (st, new)
                     else Inr (st, new)) of
            Inl e \<Rightarrow> fails st e
          | Inr (st, new) \<Rightarrow>
              let new = (if eu \<noteq> - 1 then new\<lparr>euid := keuid\<rparr> else new);
                  new = (if su \<noteq> - 1 then new\<lparr>suid := ksuid\<rparr> else new);
                  new = new\<lparr>fsuid := euid new\<rparr>
              in fix_and_commit env nss st new old LSM_SETID_RES)"

text \<open>The three values written to user memory; the stores themselves are left out.\<close>

definition getresuid :: "id_env \<Rightarrow> ns_store \<Rightarrow> cred_state \<Rightarrow> u32 \<times> u32 \<times> u32" where
  "getresuid env nss st =
     (let c = current_cred st; ns = nss (user_ns c)
      in (from_kuid_munged (overflowuid env) ns (uid c), from_kuid_munged (overflowuid env) ns (euid c),
          from_kuid_munged (overflowuid env) ns (suid c)))"

definition setresgid ::
  "id_env \<Rightarrow> ns_store \<Rightarrow> cred_state \<Rightarrow> u32 \<Rightarrow> u32 \<Rightarrow> u32 \<Rightarrow> (cred_state \<times> errno option) option" where
  "setresgid env nss st rg eg sg =
     (let old = current_cred st; ns = nss (user_ns old);
          krgid = make_kgid ns rg; kegid = make_kgid ns eg; ksgid = make_kgid ns sg
      in if rg \<noteq> - 1 \<and> krgid = - 1 then fails st EINVAL
      else if eg \<noteq> - 1 \<and> kegid = - 1 then fails st EINVAL
      else if sg \<noteq> - 1 \<and> ksgid = - 1 then fails st EINVAL
      else case prepare_creds env st of
        None \<Rightarrow> fails st ENOMEM
      | Some new \<Rightarrow>
          if \<not> ns_capable env (user_ns old) CAP_SETGID \<and>
             (rg \<noteq> - 1 \<and> krgid \<noteq> gid old \<and> krgid \<noteq> egid old \<and> krgid \<noteq> sgid old \<or>
              eg \<noteq> - 1 \<and> kegid \<noteq> gid old \<and> kegid \<noteq> egid old \<and> kegid \<noteq> sgid old \<or>
              sg \<noteq> - 1 \<and> ksgid \<noteq> gid old \<and> ksgid \<noteq> egid old \<and> ksgid \<noteq> sgid old)
          then fails st EPERM
          else let new = (if rg \<noteq> - 1 then new\<lparr>gid := krgid\<rparr> else new);
                   new = (if eg \<noteq> - 1 then new\<lparr>egid := kegid\<rparr> else new);
                   new = (if sg \<noteq> - 1 then new\<lparr>sgid := ksgid\<rparr> else new);
                   new = new\<lparr>fsgid := egid new\<rparr>
               in commits env nss st new)"

definition getresgid :: "id_env \<Rightarrow> ns_store \<Rightarrow> cred_state \<Rightarrow> u32 \<times> u32 \<times> u32" where
  "getresgid env nss st =
     (let c = current_cred st; ns = nss (user_ns c)
      in (from_kgid_munged (overflowgid env) ns (gid c), from_kgid_munged (overflowgid env) ns (egid c),
          from_kgid_munged (overflowgid env) ns (sgid c)))"

text \<open>These two return the old id, never an error.\<close>

definition setfsuid :: "id_env \<Rightarrow> ns_store \<Rightarrow> cred_state \<Rightarrow> u32 \<Rightarrow> (cred_state \<times> u32) option" where
  "setfsuid env nss st u =
     (let old = current_cred st; ns = nss (user_ns old);
          old_fsuid = from_kuid_munged (overflowuid env) ns (fsuid old); kuid = make_kuid ns u
      in if kuid = - 1 then Some (st, old_fsuid)
      else case prepare_creds env st of
        None \<Rightarrow> Some (st, old_fsuid)
      | Some new \<Rightarrow>
          if (kuid = uid old \<or> kuid = euid old \<or> kuid = suid old \<or> kuid = fsuid old \<or>
              ns_capable env (user_ns old) CAP_SETUID) \<and> kuid \<noteq> fsuid old
          then case fix_setuid env (new\<lparr>fsuid := kuid\<rparr>) old LSM_SETID_FS of
              Inl e \<Rightarrow> Some (st, old_fsuid)
            | Inr new' \<Rightarrow> map_option (\<lambda>st'. (st', old_fsuid)) (commit_creds env nss st new')
          else Some (st, old_fsuid))"

definition setfsgid :: "id_env \<Rightarrow> ns_store \<Rightarrow> cred_state \<Rightarrow> u32 \<Rightarrow> (cred_state \<times> u32) option" where
  "setfsgid env nss st g =
     (let old = current_cred st; ns = nss (user_ns old);
          old_fsgid = from_kgid_munged (overflowgid env) ns (fsgid old); kgid = make_kgid ns g
      in if kgid = - 1 then Some (st, old_fsgid)
      else case prepare_creds env st of
        None \<Rightarrow> Some (st, old_fsgid)
      | Some new \<Rightarrow>
          if (kgid = gid old \<or> kgid = egid old \<or> kgid = sgid old \<or> kgid = fsgid old \<or>
              ns_capable env (user_ns old) CAP_SETGID) \<and> kgid \<noteq> fsgid old
          then map_option (\<lambda>st'. (st', old_fsgid)) (commit_creds env nss st (new\<lparr>fsgid := kgid\<rparr>))
          else Some (st, old_fsgid))"

section \<open>User namespaces\<close>

definition set_cred_user_ns :: "id_env \<Rightarrow> cred \<Rightarrow> nsid \<Rightarrow> cred" where
  "set_cred_user_ns env c ns =
     c\<lparr>securebits := SECUREBITS_DEFAULT env, cap_inheritable := CAP_EMPTY_SET env, cap_permitted := CAP_FULL_SET env,
       cap_effective := CAP_FULL_SET env, cap_bset := CAP_FULL_SET env, user_ns := ns\<rparr>"

text \<open>
  \<open>chrooted\<close> is \<^verbatim>\<open>current_chrooted()\<close>; \<open>fresh\<close> is the address of the zeroed namespace that the allocator
  returns, and \<open>inum\<close> the outcome of \<^verbatim>\<open>proc_alloc_inum\<close>.
\<close>

definition create_user_ns ::
  "id_env \<Rightarrow> ns_store \<Rightarrow> bool \<Rightarrow> nsid option \<Rightarrow> errno option \<Rightarrow> cred \<Rightarrow> (ns_store \<times> cred) result" where
  "create_user_ns env nss chrooted fresh inum new =
     (let parent_ns = user_ns new; owner = euid new; group = egid new
      in if ns_level (nss parent_ns) > 32 then Inl EUSERS
      else if chrooted then Inl EPERM
      else if from_kuid (nss parent_ns) owner = - 1 \<or> from_kgid (nss parent_ns) group = - 1 then Inl EPERM
      else case fresh of
        None \<Rightarrow> Inl ENOMEM
      | Some ns \<Rightarrow>
          case inum of
            Some e \<Rightarrow> Inl e
          | None \<Rightarrow>
              Inr (nss(ns := \<lparr>uid_map = [], gid_map = [], projid_map = [], ns_parent = Some parent_ns,
                         ns_level = ns_level (nss parent_ns) + 1, ns_owner = owner, ns_group = group\<rparr>),
                   set_cred_user_ns env new ns))"

definition unshare_userns ::
  "id_env \<Rightarrow> ns_store \<Rightarrow> bool \<Rightarrow> nsid option \<Rightarrow> errno option \<Rightarrow> bool \<Rightarrow> cred_state \<Rightarrow> (ns_store \<times> cred option) result" where
  "unshare_userns env nss chrooted fresh inum newuser st =
     (if \<not> newuser then Inr (nss, None)
      else case prepare_creds env st of
        None \<Rightarrow> Inl ENOMEM
      | Some c \<Rightarrow>
          (case create_user_ns env nss chrooted fresh inum c of
             Inl e \<Rightarrow> Inl e
           | Inr (nss', new_cred) \<Rightarrow> Inr (nss', Some new_cred)))"

text \<open>\<open>mm_users\<close> and \<open>fs_users\<close> count the users of the task's memory and file-system state.\<close>

definition userns_install ::
  "id_env \<Rightarrow> ns_store \<Rightarrow> nat \<Rightarrow> nat \<Rightarrow> cred_state \<Rightarrow> nsid \<Rightarrow> (cred_state \<times> errno option) option" where
  "userns_install env nss mm_users fs_users st ns =
     (if ns = user_ns (current_cred st) then fails st EINVAL
      else if mm_users > 1 then fails st EINVAL
      else if fs_users \<noteq> 1 then fails st EINVAL
      else if \<not> ns_capable env ns CAP_SYS_ADMIN then fails st EPERM
      else case prepare_creds env st of
        None \<Rightarrow> fails st ENOMEM
      | Some c \<Rightarrow> commits env nss st (set_cred_user_ns env c ns))"

text \<open>The credentials of a new process: shared with the parent for a thread, a copy otherwise
  (the configuration without key rings).\<close>

definition copy_creds ::
  "id_env \<Rightarrow> ns_store \<Rightarrow> bool \<Rightarrow> nsid option \<Rightarrow> errno option \<Rightarrow> bool \<Rightarrow> bool \<Rightarrow> cred_state \<Rightarrow>
   (ns_store \<times> cred \<times> (u32 \<Rightarrow> int)) result" where
  "copy_creds env nss chrooted fresh inum clone_thread clone_newuser st =
     (let c = current_cred st
      in if clone_thread then Inr (nss, c, (processes st)(user c := processes st (user c) + 1))
      else case prepare_creds env st of
        None \<Rightarrow> Inl ENOMEM
      | Some new \<Rightarrow>
          case (if clone_newuser then create_user_ns env nss chrooted fresh inum new else Inr (nss, new)) of
            Inl e \<Rightarrow> Inl e
          | Inr (nss', new') \<Rightarrow> Inr (nss', new', (processes st)(user new' := processes st (user new') + 1)))"

section \<open>What the calls can change\<close>

definition uids :: "cred \<Rightarrow> u32 set" where
  "uids c = {uid c, euid c, suid c, fsuid c}"

definition gids :: "cred \<Rightarrow> u32 set" where
  "gids c = {gid c, egid c, sgid c, fsgid c}"

text \<open>The hook updates the capability sets of the new credentials; ids and namespace are not its business.\<close>

definition lsm_keeps_ids :: "id_env \<Rightarrow> bool" where
  "lsm_keeps_ids env \<longleftrightarrow> (\<forall>new old kind new'. fix_setuid env new old kind = Inr new' \<longrightarrow>
     uid new' = uid new \<and> euid new' = euid new \<and> suid new' = suid new \<and> fsuid new' = fsuid new \<and>
     gid new' = gid new \<and> egid new' = egid new \<and> sgid new' = sgid new \<and> fsgid new' = fsgid new \<and>
     user new' = user new \<and> user_ns new' = user_ns new \<and> group_info new' = group_info new)"

text \<open>\<open>confined\<close>: the ids of the new credentials all come from the old ones.\<close>

definition confined :: "cred \<Rightarrow> cred \<Rightarrow> bool" where
  "confined old new \<longleftrightarrow> uids new \<subseteq> uids old \<and> gids new \<subseteq> gids old \<and> user_ns new = user_ns old"

lemma confined_refl [simp]: "confined c c"
  by (simp add: confined_def)

lemma commit_creds_Some:
  assumes "commit_creds env nss st new = Some st'"
  shows "real_cred st' = new \<and> override st' = None \<and> override st = None \<and> nproc_exceeded st' = nproc_exceeded st"
  using assms by (auto simp: commit_creds_def Let_def split: if_splits option.splits)

lemma commits_Some:
  "commits env nss st new = Some (st', r) \<longleftrightarrow> commit_creds env nss st new = Some st' \<and> r = None"
  by (auto simp: commits_def)

lemma current_cred_real [simp]: "override st = None \<Longrightarrow> current_cred st = real_cred st"
  by (simp add: current_cred_def)

lemma prepare_creds_Some [simp]: "prepare_creds env st = Some c \<longleftrightarrow> mem_ok env \<and> c = current_cred st"
  by (auto simp: prepare_creds_def)

lemma prepare_creds_ok: "mem_ok env \<Longrightarrow> prepare_creds env st = Some (current_cred st)"
  by (simp add: prepare_creds_def)

lemma set_user_Inr:
  "set_user env st new = Inr (st', new') \<Longrightarrow>
    real_cred st' = real_cred st \<and> override st' = override st \<and> new' = new\<lparr>user := uid new\<rparr>"
  by (auto simp: set_user_def split: if_splits)

text \<open>The outcome of a call, for a task that has not overridden its credentials: either nothing was
  installed, or credentials within the permitted ids were.\<close>

definition harmless :: "cred_state \<Rightarrow> cred_state \<Rightarrow> bool" where
  "harmless st st' \<longleftrightarrow> override st' = None \<and> confined (real_cred st) (real_cred st')"

lemma harmless_same: "override st = None \<Longrightarrow> harmless st st"
  by (simp add: harmless_def)

lemma harmless_commits:
  "commits env nss st new = Some (st', r) \<Longrightarrow> confined (real_cred st) new \<Longrightarrow> harmless st st'"
  using commit_creds_Some [of env nss st new st'] by (simp add: harmless_def commits_Some)

lemma harmless_fix_and_commit:
  assumes "fix_and_commit env nss st1 new old kind = Some (st', r)" "lsm_keeps_ids env"
    and "real_cred st1 = real_cred st" "override st1 = None" "confined (real_cred st) new"
  shows "harmless st st'"
proof (cases "fix_setuid env new old kind")
  case (Inl e)
  with assms show ?thesis by (auto simp: fix_and_commit_def harmless_def)
next
  case (Inr new')
  then have "confined (real_cred st) new'"
    using assms(2,5) by (auto simp: lsm_keeps_ids_def confined_def uids_def gids_def)
  with Inr assms(1,3) harmless_commits [of env nss st1 new' st' r] show ?thesis
    by (simp add: fix_and_commit_def harmless_def)
qed

lemmas setid_splits = if_splits option.splits sum.splits prod.splits

lemma setregid_harmless:
  assumes "setregid env nss st rg eg = Some (st', r)" "override st = None"
    "\<not> ns_capable env (user_ns (real_cred st)) CAP_SETGID"
  shows "harmless st st'"
  using assms
  by (auto simp: setregid_def Let_def harmless_same confined_def uids_def gids_def
      split: setid_splits elim!: harmless_commits)

lemma setgid_harmless:
  assumes "setgid env nss st g = Some (st', r)" "override st = None"
    "\<not> ns_capable env (user_ns (real_cred st)) CAP_SETGID"
  shows "harmless st st'"
  using assms
  by (auto simp: setgid_def Let_def harmless_same confined_def uids_def gids_def
      split: setid_splits elim!: harmless_commits)

lemma setresgid_harmless:
  assumes "setresgid env nss st rg eg sg = Some (st', r)" "override st = None"
    "\<not> ns_capable env (user_ns (real_cred st)) CAP_SETGID"
  shows "harmless st st'"
  using assms
  by (auto simp: setresgid_def Let_def harmless_same confined_def uids_def gids_def
      split: setid_splits elim!: harmless_commits)

lemma setfsgid_harmless:
  assumes "setfsgid env nss st g = Some (st', r)" "override st = None"
    "\<not> ns_capable env (user_ns (real_cred st)) CAP_SETGID"
  shows "harmless st st'"
  using assms
  by (auto simp: setfsgid_def Let_def harmless_def confined_def uids_def gids_def
      split: setid_splits dest!: commit_creds_Some)

lemma setreuid_harmless:
  assumes "setreuid env nss st ru eu = Some (st', r)" "override st = None" "lsm_keeps_ids env"
    "\<not> ns_capable env (user_ns (real_cred st)) CAP_SETUID"
  shows "harmless st st'"
  using assms
  by (auto simp: setreuid_def set_user_def Let_def harmless_same confined_def uids_def gids_def
      split: setid_splits elim!: harmless_fix_and_commit)

lemma setuid_harmless:
  assumes "setuid env nss st u = Some (st', r)" "override st = None" "lsm_keeps_ids env"
    "\<not> ns_capable env (user_ns (real_cred st)) CAP_SETUID"
  shows "harmless st st'"
  using assms
  by (auto simp: setuid_def set_user_def Let_def harmless_same confined_def uids_def gids_def
      split: setid_splits elim!: harmless_fix_and_commit)

lemma setresuid_harmless:
  assumes "setresuid env nss st ru eu su = Some (st', r)" "override st = None" "lsm_keeps_ids env"
    "\<not> ns_capable env (user_ns (real_cred st)) CAP_SETUID"
  shows "harmless st st'"
  using assms
  by (auto simp: setresuid_def set_user_def Let_def harmless_same confined_def uids_def gids_def
      split: setid_splits elim!: harmless_fix_and_commit)

lemma setfsuid_harmless:
  assumes "setfsuid env nss st u = Some (st', r)" "override st = None" "lsm_keeps_ids env"
    "\<not> ns_capable env (user_ns (real_cred st)) CAP_SETUID"
  shows "harmless st st'"
proof (cases "st' = st")
  case True
  with assms(2) show ?thesis by (simp add: harmless_same)
next
  case False
  then obtain kuid new' where k: "kuid \<in> uids (real_cred st)" "commit_creds env nss st new' = Some st'"
      "fix_setuid env ((real_cred st)\<lparr>fsuid := kuid\<rparr>) (real_cred st) LSM_SETID_FS = Inr new'"
    using assms by (auto simp: setfsuid_def Let_def uids_def split: setid_splits)
  have "confined (real_cred st) ((real_cred st)\<lparr>fsuid := kuid\<rparr>)"
    using k(1) by (auto simp: confined_def uids_def gids_def)
  then have "confined (real_cred st) new'"
    using assms(3) k(3) by (auto simp: lsm_keeps_ids_def confined_def uids_def gids_def)
  with commit_creds_Some [OF k(2)] show ?thesis by (simp add: harmless_def)
qed

section \<open>Runs of set-id calls\<close>

datatype setid_op =
    Setregid u32 u32 | Setgid u32 | Setreuid u32 u32 | Setuid u32 | Setresuid u32 u32 u32
  | Setresgid u32 u32 u32 | Setfsuid u32 | Setfsgid u32

definition after :: "cred_state \<Rightarrow> (cred_state \<times> errno option) option \<Rightarrow> cred_state" where
  "after st r = (case r of None \<Rightarrow> st | Some (st', _) \<Rightarrow> st')"

definition no_error :: "(cred_state \<times> u32) option \<Rightarrow> (cred_state \<times> errno option) option" where
  "no_error r = map_option (\<lambda>(st', _). (st', None)) r"

primrec setid_call :: "id_env \<Rightarrow> ns_store \<Rightarrow> cred_state \<Rightarrow> setid_op \<Rightarrow> (cred_state \<times> errno option) option" where
  "setid_call env nss st (Setregid rg eg) = setregid env nss st rg eg"
| "setid_call env nss st (Setgid g) = setgid env nss st g"
| "setid_call env nss st (Setreuid ru eu) = setreuid env nss st ru eu"
| "setid_call env nss st (Setuid u) = setuid env nss st u"
| "setid_call env nss st (Setresuid ru eu su) = setresuid env nss st ru eu su"
| "setid_call env nss st (Setresgid rg eg sg) = setresgid env nss st rg eg sg"
| "setid_call env nss st (Setfsuid u) = no_error (setfsuid env nss st u)"
| "setid_call env nss st (Setfsgid g) = no_error (setfsgid env nss st g)"

definition setid_step :: "id_env \<Rightarrow> ns_store \<Rightarrow> cred_state \<Rightarrow> setid_op \<Rightarrow> cred_state" where
  "setid_step env nss st oper = after st (setid_call env nss st oper)"

lemma no_error_Some: "no_error x = Some (st', r) \<longleftrightarrow> r = None \<and> (\<exists>i. x = Some (st', i))"
  by (auto simp: no_error_def)

lemma after_harmless:
  "override st = None \<Longrightarrow> (\<And>st' r. x = Some (st', r) \<Longrightarrow> harmless st st') \<Longrightarrow> harmless st (after st x)"
  by (auto simp: after_def harmless_same split: option.splits)

definition unprivileged :: "id_env \<Rightarrow> nsid \<Rightarrow> bool" where
  "unprivileged env n \<longleftrightarrow> \<not> ns_capable env n CAP_SETUID \<and> \<not> ns_capable env n CAP_SETGID \<and> lsm_keeps_ids env"

lemma setid_step_harmless:
  assumes "unprivileged env (user_ns (real_cred st))" "override st = None"
  shows "harmless st (setid_step env nss st oper)"
  using assms unfolding unprivileged_def setid_step_def
  by (cases oper) (auto simp: no_error_Some intro!: after_harmless intro: setregid_harmless setgid_harmless
      setreuid_harmless setuid_harmless setresuid_harmless setresgid_harmless setfsuid_harmless setfsgid_harmless)

text \<open>The invariant of a task without capabilities: its ids stay within those of \<open>c\<close>.\<close>

definition within :: "id_env \<Rightarrow> cred \<Rightarrow> cred_state \<Rightarrow> bool" where
  "within env c st \<longleftrightarrow> (unprivileged env (user_ns c) \<longrightarrow> override st = None \<and> confined c (real_cred st))"

interpretation setid: step_system "setid_step env nss" "within env c" for env nss c
proof
  fix st oper
  assume w: "within env c st"
  show "within env c (setid_step env nss st oper)"
    unfolding within_def
  proof
    assume u: "unprivileged env (user_ns c)"
    with w have c: "override st = None" "confined c (real_cred st)" by (simp_all add: within_def)
    then have "harmless st (setid_step env nss st oper)"
      using u by (intro setid_step_harmless) (simp_all add: confined_def)
    with c show "override (setid_step env nss st oper) = None \<and> confined c (real_cred (setid_step env nss st oper))"
      by (auto simp: harmless_def confined_def)
  qed
qed

text \<open>
  C7. A task that holds neither CAP_SETUID nor CAP_SETGID in its user namespace never obtains, by any
  sequence of the eight set-id system calls, a user or group id that it did not start with.
\<close>

theorem setid_unprivileged_confined:
  assumes "unprivileged env (user_ns (real_cred st))" "override st = None"
  shows "uids (real_cred (foldl (setid_step env nss) st ops)) \<subseteq> uids (real_cred st) \<and>
    gids (real_cred (foldl (setid_step env nss) st ops)) \<subseteq> gids (real_cred st)"
proof -
  have "within env (real_cred st) st" using assms(2) by (simp add: within_def)
  then have "within env (real_cred st) (foldl (setid_step env nss) st ops)" by (rule setid.run_inv)
  then show ?thesis using assms(1) by (simp add: within_def confined_def)
qed

definition demo_cred :: cred where
  "demo_cred = \<lparr>uid = 1000, gid = 100, suid = 1001, sgid = 101, euid = 1001, egid = 101, fsuid = 1001, fsgid = 101,
     securebits = 0, cap_inheritable = 0, cap_permitted = 0, cap_effective = 0, cap_bset = 0, user = 1000, user_ns = 0,
     group_info = [100]\<rparr>"

definition demo_state :: cred_state where
  "demo_state = \<lparr>real_cred = demo_cred, override = None, pdeath_signal = 9, mm_dumpable = Some 1, nproc_exceeded = False,
     processes = (\<lambda>u. if u = 1000 then 3 else 0)\<rparr>"

definition demo_idenv :: id_env where
  "demo_idenv = \<lparr>ns_capable = (\<lambda>_ _. False), mem_ok = True, alloc_uid_ok = True, rlimit_nproc = 100,
     fix_setuid = (\<lambda>new old kind. Inr (new\<lparr>cap_effective := 0\<rparr>)), cap_issubset = (\<lambda>a b. a = 0 \<or> a = b), suid_dumpable = 0,
     SECUREBITS_DEFAULT = 0, CAP_EMPTY_SET = 0, CAP_FULL_SET = 63, overflowuid = 65534, overflowgid = 65534\<rparr>"

lemma demo_unprivileged: "unprivileged demo_idenv n"
  by (auto simp: unprivileged_def demo_idenv_def lsm_keeps_ids_def)

theorem setid_unprivileged_confined_witness:
  "uid (real_cred (setid_step demo_idenv (\<lambda>_. demo_parent) demo_state (Setreuid 1001 1000))) = 1001 \<and>
   uids (real_cred (foldl (setid_step demo_idenv (\<lambda>_. demo_parent)) demo_state [Setreuid 1001 1000, Setuid 0])) \<subseteq> {1000, 1001}"
proof -
  have "uids (real_cred (foldl (setid_step demo_idenv (\<lambda>_. demo_parent)) demo_state [Setreuid 1001 1000, Setuid 0])) \<subseteq>
      uids (real_cred demo_state)"
    by (rule setid_unprivileged_confined [OF demo_unprivileged, THEN conjunct1]) (simp add: demo_state_def)
  moreover have "uids (real_cred demo_state) = {1000, 1001}" by (auto simp: demo_state_def demo_cred_def uids_def)
  moreover have "uid (real_cred (setid_step demo_idenv (\<lambda>_. demo_parent) demo_state (Setreuid 1001 1000))) = 1001"
    by code_simp
  ultimately show ?thesis by simp
qed

section \<open>Giving up privileges\<close>

lemma setuid_privileged:
  assumes "setuid env nss st u = Some (st', None)" "override st = None" "lsm_keeps_ids env"
    "ns_capable env (user_ns (real_cred st)) CAP_SETUID"
  shows "uids (real_cred st') = {make_kuid (nss (user_ns (real_cred st))) u} \<and>
    user_ns (real_cred st') = user_ns (real_cred st) \<and> override st' = None"
  using assms
  by (auto simp: setuid_def fix_and_commit_def set_user_def Let_def uids_def lsm_keeps_ids_def commits_Some
      split: setid_splits dest!: commit_creds_Some)

text \<open>
  When a task with CAP_SETUID gives itself the uid \<open>u\<close> by setuid, and from then on has no set-id
  capability in its namespace, all four of its uids stay \<open>u\<close> whatever set-id calls it makes: the drop of
  privileges cannot be undone.
\<close>

theorem setuid_drop_is_permanent:
  assumes "setuid env nss st u = Some (st', None)" "override st = None" "lsm_keeps_ids env"
    and "ns_capable env (user_ns (real_cred st)) CAP_SETUID"
    and "unprivileged env' (user_ns (real_cred st))"
  shows "uids (real_cred (foldl (setid_step env' nss) st' ops)) = {make_kuid (nss (user_ns (real_cred st))) u}"
proof -
  have st': "uids (real_cred st') = {make_kuid (nss (user_ns (real_cred st))) u}"
      "user_ns (real_cred st') = user_ns (real_cred st)" "override st' = None"
    using setuid_privileged [OF assms(1-4)] by simp_all
  have "within env' (real_cred st') st'" using st'(3) by (simp add: within_def)
  then have "within env' (real_cred st') (foldl (setid_step env' nss) st' ops)" by (rule setid.run_inv)
  then have "uids (real_cred (foldl (setid_step env' nss) st' ops)) \<subseteq> uids (real_cred st')"
    using assms(5) st'(2) by (simp add: within_def confined_def)
  then show ?thesis using st'(1) by (auto simp: uids_def)
qed

theorem setuid_drop_is_permanent_witness:
  "\<exists>st'. setuid (demo_idenv\<lparr>ns_capable := \<lambda>_ _. True\<rparr>) (\<lambda>_. demo_parent) demo_state 7 = Some (st', None) \<and>
     uids (real_cred (foldl (setid_step demo_idenv (\<lambda>_. demo_parent)) st' [Setresuid 0 0 0, Setuid 1000])) = {7}"
proof -
  let ?env = "demo_idenv\<lparr>ns_capable := \<lambda>_ _. True\<rparr>"
  have n: "setuid ?env (\<lambda>_. demo_parent) demo_state 7 \<noteq> None" by code_simp
  have r: "map_option snd (setuid ?env (\<lambda>_. demo_parent) demo_state 7) = Some None" by code_simp
  from n r obtain st' where st': "setuid ?env (\<lambda>_. demo_parent) demo_state 7 = Some (st', None)" by auto
  have "lsm_keeps_ids ?env" using demo_unprivileged by (auto simp: unprivileged_def lsm_keeps_ids_def)
  then have "uids (real_cred (foldl (setid_step demo_idenv (\<lambda>_. demo_parent)) st' [Setresuid 0 0 0, Setuid 1000])) =
      {make_kuid demo_parent 7}"
    by (intro setuid_drop_is_permanent [OF st']) (simp_all add: demo_state_def demo_unprivileged)
  moreover have "make_kuid demo_parent 7 = 7" by code_simp
  ultimately show ?thesis using st' by simp
qed

section \<open>Errors and effects\<close>

definition keeps_creds :: "cred_state \<Rightarrow> cred_state \<Rightarrow> bool" where
  "keeps_creds st st' \<longleftrightarrow> real_cred st' = real_cred st \<and> override st' = override st \<and> pdeath_signal st' = pdeath_signal st \<and>
     mm_dumpable st' = mm_dumpable st \<and> processes st' = processes st"

lemma keeps_creds_refl [simp]: "keeps_creds st st"
  by (simp add: keeps_creds_def)

lemma keeps_creds_nproc [simp]: "keeps_creds st (st\<lparr>nproc_exceeded := b\<rparr>)"
  by (simp add: keeps_creds_def)

lemma fix_and_commit_error: "fix_and_commit env nss st new old kind = Some (st', Some e) \<Longrightarrow> st' = st"
  by (auto simp: fix_and_commit_def commits_Some split: sum.splits)

lemma set_gid_errors:
  "setregid env nss st rg eg = Some (st', Some e) \<Longrightarrow> st' = st"
  "setgid env nss st rg = Some (st', Some e) \<Longrightarrow> st' = st"
  "setresgid env nss st rg eg sg = Some (st', Some e) \<Longrightarrow> st' = st"
  by (simp_all add: setregid_def setgid_def setresgid_def commits_Some Let_def split: setid_splits)

lemma setreuid_error: "setreuid env nss st ru eu = Some (st', Some e) \<Longrightarrow> keeps_creds st st'"
  by (auto simp: setreuid_def set_user_def Let_def split: setid_splits dest!: fix_and_commit_error)

lemma setuid_error: "setuid env nss st u = Some (st', Some e) \<Longrightarrow> keeps_creds st st'"
  by (auto simp: setuid_def set_user_def Let_def split: setid_splits dest!: fix_and_commit_error)

lemma setresuid_error: "setresuid env nss st ru eu su = Some (st', Some e) \<Longrightarrow> keeps_creds st st'"
  by (auto simp: setresuid_def set_user_def Let_def split: setid_splits dest!: fix_and_commit_error)

text \<open>
  A set-id call that reports an error installs nothing: the task keeps its credentials, and all
  that can differ afterwards is the flag that records an excess of processes.
\<close>

theorem setid_error_keeps_credentials:
  "setid_call env nss st oper = Some (st', Some e) \<Longrightarrow>
    real_cred st' = real_cred st \<and> override st' = override st \<and> pdeath_signal st' = pdeath_signal st \<and>
    mm_dumpable st' = mm_dumpable st \<and> processes st' = processes st"
  unfolding keeps_creds_def [symmetric]
  by (cases oper) (auto simp: no_error_Some dest: set_gid_errors setreuid_error setuid_error setresuid_error)

theorem setid_error_keeps_credentials_witness:
  "\<exists>st'. setid_call demo_idenv (\<lambda>_. demo_parent) demo_state (Setuid 0) = Some (st', Some EPERM) \<and>
     real_cred st' = demo_cred"
proof -
  have n: "setid_call demo_idenv (\<lambda>_. demo_parent) demo_state (Setuid 0) \<noteq> None" by code_simp
  have r: "map_option snd (setid_call demo_idenv (\<lambda>_. demo_parent) demo_state (Setuid 0)) = Some (Some EPERM)" by code_simp
  from n r obtain st' where "setid_call demo_idenv (\<lambda>_. demo_parent) demo_state (Setuid 0) = Some (st', Some EPERM)" by auto
  with setid_error_keeps_credentials [OF this] show ?thesis by (simp add: demo_state_def)
qed

text \<open>Namespaces from which the walk to the initial one ends.\<close>

inductive rooted :: "ns_store \<Rightarrow> nsid \<Rightarrow> bool" for nss where
  root: "rooted nss init_user_ns"
| parent: "ns_parent (nss n) = Some p \<Longrightarrow> rooted nss p \<Longrightarrow> rooted nss n"

lemma owned_by_ancestor_returns: "rooted nss n \<Longrightarrow> \<exists>b. owned_by_ancestor nss set_ns set_euid n = Some b"
proof (induction rule: rooted.induct)
  case root
  show ?case by (subst owned_by_ancestor.simps) (auto intro: exI [of _ False])
next
  case (parent n p)
  then show ?case by (subst owned_by_ancestor.simps) auto
qed

lemma cred_cap_issubset_returns: "rooted nss (user_ns new) \<Longrightarrow> \<exists>b. cred_cap_issubset env nss old new = Some b"
  using owned_by_ancestor_returns [of nss "user_ns new"] by (auto simp: cred_cap_issubset_def)

text \<open>
  Committing credentials returns, installs them as both the real and the acting credentials, moves
  the task from its old user's process count to the new one's, and makes the task undumpable, clearing
  its parent-death signal, exactly when an effective or file-system id changed or the permitted
  capabilities are not covered by the old credentials.
\<close>

theorem commit_creds_effect:
  assumes "override st = None" "rooted nss (user_ns new)"
  shows "\<exists>st'. commit_creds env nss st new = Some st' \<and> real_cred st' = new \<and> current_cred st' = new \<and>
    (\<forall>u. processes st' u = processes st u +
       (if u = user new then 1 else 0) - (if u = user (real_cred st) then 1 else 0)) \<and>
    (let old = real_cred st;
         changed = (euid old \<noteq> euid new \<or> egid old \<noteq> egid new \<or> fsuid old \<noteq> fsuid new \<or> fsgid old \<noteq> fsgid new \<or>
           cred_cap_issubset env nss old new = Some False)
     in pdeath_signal st' = (if changed then 0 else pdeath_signal st) \<and>
        mm_dumpable st' = (if changed then map_option (\<lambda>_. suid_dumpable env) (mm_dumpable st) else mm_dumpable st))"
proof -
  obtain b where "cred_cap_issubset env nss (real_cred st) new = Some b"
    using cred_cap_issubset_returns [OF assms(2)] by blast
  then show ?thesis using assms(1) by (cases b) (auto simp: commit_creds_def current_cred_def Let_def)
qed

theorem commit_creds_effect_witness:
  "\<exists>st'. commit_creds demo_idenv (\<lambda>_. demo_parent) demo_state (demo_cred\<lparr>uid := 5, user := 5, fsuid := 5\<rparr>) = Some st' \<and>
     processes st' 5 = 1 \<and> processes st' 1000 = 2 \<and> mm_dumpable st' = Some 0 \<and> pdeath_signal st' = 0"
proof -
  let ?new = "demo_cred\<lparr>uid := 5, user := 5, fsuid := 5\<rparr>"
  have o: "override demo_state = None" by (simp add: demo_state_def)
  have r: "rooted (\<lambda>_. demo_parent) (user_ns ?new)" by (simp add: demo_cred_def rooted.root)
  from commit_creds_effect [OF o r, of demo_idenv] show ?thesis
    by (auto simp: demo_state_def demo_cred_def demo_idenv_def Let_def)
qed

section \<open>Setting and reading back\<close>

definition lsm_accepts :: "id_env \<Rightarrow> bool" where
  "lsm_accepts env \<longleftrightarrow> (\<forall>new old kind. \<exists>new'. fix_setuid env new old kind = Inr new')"

lemma commits_returns:
  assumes "override st = None" "rooted nss (user_ns new)"
  shows "\<exists>st'. commits env nss st new = Some (st', None) \<and> real_cred st' = new \<and> override st' = None"
proof -
  obtain b where b: "cred_cap_issubset env nss (real_cred st) new = Some b"
    using cred_cap_issubset_returns [OF assms(2)] by blast
  then have "commit_creds env nss st new \<noteq> None"
    using assms(1) by (cases b) (auto simp: commit_creds_def Let_def)
  then obtain st' where "commit_creds env nss st new = Some st'" by blast
  with commit_creds_Some [OF this] show ?thesis by (auto simp: commits_def)
qed

lemma fix_and_commit_returns:
  assumes "override st = None" "rooted nss (user_ns new)" "lsm_accepts env" "lsm_keeps_ids env"
  shows "\<exists>st'. fix_and_commit env nss st new old kind = Some (st', None) \<and> override st' = None \<and>
    uid (real_cred st') = uid new \<and> euid (real_cred st') = euid new \<and> suid (real_cred st') = suid new \<and>
    fsuid (real_cred st') = fsuid new \<and> user_ns (real_cred st') = user_ns new"
proof -
  obtain new' where n: "fix_setuid env new old kind = Inr new'" using assms(3) unfolding lsm_accepts_def by blast
  then have ids: "uid new' = uid new \<and> euid new' = euid new \<and> suid new' = suid new \<and> fsuid new' = fsuid new \<and> user_ns new' = user_ns new"
    using assms(4) unfolding lsm_keeps_ids_def by blast
  with commits_returns [OF assms(1), of nss new' env] assms(2) n show ?thesis by (auto simp: fix_and_commit_def)
qed

lemma from_make_kuid:
  "valid_map (uid_map ns) \<Longrightarrow> make_kuid ns i \<noteq> - 1 \<Longrightarrow> from_kuid_munged ovf ns (make_kuid ns i) = i"
  using idmap.up_down [of "uid_map ns" i] idmap.invalid_down [of "uid_map ns"]
  by (auto simp: from_kuid_munged_def from_kuid_def make_kuid_def Let_def)

lemma make_kuid_valid: "valid_map (uid_map ns) \<Longrightarrow> make_kuid ns i \<noteq> - 1 \<Longrightarrow> i \<noteq> - 1"
  using idmap.invalid_down by (auto simp: make_kuid_def)

text \<open>
  A task that may choose its uids sets the three of them with setresuid, and getresuid then reads
  back exactly the ids it asked for, in the terms of its own namespace.
\<close>

theorem setresuid_getresuid:
  assumes "override st = None" "rooted nss (user_ns (real_cred st))" "valid_map (uid_map (nss (user_ns (real_cred st))))"
    and "lsm_accepts env" "lsm_keeps_ids env" "mem_ok env" "alloc_uid_ok env"
    and "ns_capable env (user_ns (real_cred st)) CAP_SETUID \<or>
      (\<forall>i\<in>{ru, eu, su}. make_kuid (nss (user_ns (real_cred st))) i \<in> {uid (real_cred st), euid (real_cred st), suid (real_cred st)})"
    and "\<forall>i\<in>{ru, eu, su}. make_kuid (nss (user_ns (real_cred st))) i \<noteq> - 1"
  shows "\<exists>st'. setresuid env nss st ru eu su = Some (st', None) \<and> getresuid env nss st' = (ru, eu, su)"
proof -
  let ?c = "real_cred st"
  let ?k = "make_kuid (nss (user_ns ?c))"
  have n: "?k ru \<noteq> - 1" "?k eu \<noteq> - 1" "?k su \<noteq> - 1" using assms(9) by auto
  then have i: "ru \<noteq> - 1" "eu \<noteq> - 1" "su \<noteq> - 1" using make_kuid_valid [OF assms(3)] by auto
  have ok: "\<not> (\<not> ns_capable env (user_ns ?c) CAP_SETUID \<and>
      (?k ru \<noteq> uid ?c \<and> ?k ru \<noteq> euid ?c \<and> ?k ru \<noteq> suid ?c \<or> ?k eu \<noteq> uid ?c \<and> ?k eu \<noteq> euid ?c \<and> ?k eu \<noteq> suid ?c \<or>
       ?k su \<noteq> uid ?c \<and> ?k su \<noteq> euid ?c \<and> ?k su \<noteq> suid ?c))"
    using assms(8) by auto
  define st1 where "st1 = (if ?k ru \<noteq> uid ?c then fst (projr (set_user env st (?c\<lparr>uid := ?k ru\<rparr>))) else st)"
  define new where "new = (if ?k ru \<noteq> uid ?c then ?c\<lparr>uid := ?k ru, user := ?k ru\<rparr> else ?c\<lparr>uid := ?k ru\<rparr>)
    \<lparr>euid := ?k eu, suid := ?k su, fsuid := ?k eu\<rparr>"
  have new: "override st1 = None" "user_ns new = user_ns ?c" "uid new = ?k ru" "euid new = ?k eu" "suid new = ?k su"
    using assms(1,7) by (simp_all add: st1_def new_def set_user_def)
  have call: "setresuid env nss st ru eu su = fix_and_commit env nss st1 new ?c LSM_SETID_RES"
    using assms(1,6,7) n i ok
    by (auto simp: setresuid_def set_user_def prepare_creds_ok st1_def new_def Let_def)
  have "rooted nss (user_ns new)" using new(2) assms(2) by simp
  then obtain st' where st': "fix_and_commit env nss st1 new ?c LSM_SETID_RES = Some (st', None)" "override st' = None"
      "uid (real_cred st') = ?k ru" "euid (real_cred st') = ?k eu" "suid (real_cred st') = ?k su" "user_ns (real_cred st') = user_ns ?c"
    using fix_and_commit_returns [OF new(1) _ assms(4,5)] new(2-5) by metis
  then show ?thesis using call n from_make_kuid [OF assms(3)] by (simp add: getresuid_def Let_def)
qed

theorem setresuid_getresuid_witness:
  "\<exists>st'. setresuid demo_idenv (\<lambda>_. demo_parent) demo_state 1001 1000 1000 = Some (st', None) \<and>
     getresuid demo_idenv (\<lambda>_. demo_parent) st' = (1001, 1000, 1000)"
proof (rule setresuid_getresuid)
  show "valid_map (uid_map demo_parent)" by (simp add: demo_parent_def valid_map_def valid_extent_def)
  show "lsm_keeps_ids demo_idenv" using demo_unprivileged by (simp add: unprivileged_def)
  show "lsm_accepts demo_idenv" by (simp add: lsm_accepts_def demo_idenv_def)
  have k: "make_kuid demo_parent 1001 = 1001" "make_kuid demo_parent 1000 = 1000" by code_simp+
  show "ns_capable demo_idenv (user_ns (real_cred demo_state)) CAP_SETUID \<or>
      (\<forall>i\<in>{1001, 1000, 1000}. make_kuid demo_parent i \<in> {uid (real_cred demo_state), euid (real_cred demo_state), suid (real_cred demo_state)})"
    using k by (simp add: demo_state_def demo_cred_def)
  show "\<forall>i\<in>{1001, 1000, 1000}. make_kuid demo_parent i \<noteq> - 1" using k by simp
qed (simp_all add: demo_state_def demo_cred_def demo_idenv_def rooted.root)

end
