(* ===== verification/User_Ns.thy ===== *)
theory User_Ns
  imports Credentials
begin

text \<open>
  The tree of user namespaces: creation of namespaces (\<^verbatim>\<open>create_user_ns\<close>) and the writes of their id maps
  (\<^verbatim>\<open>proc_uid_map_write\<close> and its two siblings) as the steps of one system, and the invariant that they keep.
\<close>

section \<open>The invariant\<close>

text \<open>
  The invariant of the namespace store: every map is well formed, and whatever a namespace maps, its
  parent can reach as well.
\<close>

definition reaches :: "uid_gid_map \<Rightarrow> uid_gid_map \<Rightarrow> bool" where
  "reaches child parent \<longleftrightarrow> (\<forall>i. map_id_down child i \<noteq> - 1 \<longrightarrow> (\<exists>j. map_id_down parent j = map_id_down child i))"

definition maps_ok :: "(user_namespace \<Rightarrow> uid_gid_map) \<Rightarrow> ns_store \<Rightarrow> bool" where
  "maps_ok sel nss \<longleftrightarrow> (\<forall>n. valid_map (sel (nss n)) \<and>
     (\<forall>p. ns_parent (nss n) = Some p \<longrightarrow> reaches (sel (nss n)) (sel (nss p)) \<and> (sel (nss n) \<noteq> [] \<longrightarrow> sel (nss p) \<noteq> [])))"

definition ns_inv :: "ns_store \<Rightarrow> bool" where
  "ns_inv nss \<longleftrightarrow> maps_ok uid_map nss \<and> maps_ok gid_map nss \<and> maps_ok projid_map nss"

lemma map_id_down_Nil [simp]: "map_id_down [] i = - 1"
  by (simp add: map_id_down_def)

lemma reaches_Nil [simp]: "reaches [] parent"
  by (simp add: reaches_def)

lemma valid_map_ok: "maps_ok sel nss \<Longrightarrow> valid_map (sel (nss n))"
  by (simp add: maps_ok_def)

lemma maps_ok_cong:
  assumes "maps_ok sel nss" "\<And>n. sel (nss' n) = sel (nss n)" "\<And>n. ns_parent (nss' n) = ns_parent (nss n)"
  shows "maps_ok sel nss'"
  using assms by (simp add: maps_ok_def)

lemma map_lower_Nil: "map_lower [] m = Inr es \<Longrightarrow> m = []"
  by (cases m) (auto simp: map_id_range_down_def Let_def split: if_splits)

lemma map_write_installs:
  assumes "map_write env parent buf cnt ppos cap idmap parent_map = (m, Inr k)" "valid_map parent_map"
  shows "idmap = [] \<and> parent_map \<noteq> [] \<and> valid_map m \<and> reaches m parent_map"
proof -
  obtain bytes tmap where w: "idmap = []"
      "parse_map (env_lib env) (takeWhile (\<lambda>c. c \<noteq> CHR 0x00) (take cnt bytes)) [] = Inr tmap" "map_lower parent_map tmap = Inr m"
    using map_write_Inr [OF assms(1)] by blast
  have t: "valid_map tmap" "tmap \<noteq> []" using parse_map_valid [OF w(2)] by simp_all
  have "parent_map \<noteq> []" using t(2) w(3) map_lower_Nil by blast
  with w(1) map_lower_valid [OF assms(2) t(1) w(3)] map_lower_compose [OF assms(2) t(1) w(3)] show ?thesis
    by (auto simp: reaches_def)
qed

text \<open>One lemma for the three files: the write changes the map \<open>sel\<close> of one namespace.\<close>

lemma maps_ok_write:
  assumes ok: "maps_ok sel nss" and p: "ns_parent (nss ns) = Some p"
    and w: "map_write env (nss p) buf cnt ppos cap (sel (nss ns)) (sel (nss p)) = (m, r)"
    and nss': "sel (nss' ns) = m" "\<And>n. n \<noteq> ns \<Longrightarrow> sel (nss' n) = sel (nss n)"
    and par: "\<And>n. ns_parent (nss' n) = ns_parent (nss n)"
  shows "maps_ok sel nss'"
proof (cases r)
  case (Inl e)
  then have "m = sel (nss ns)" using w map_write_Inl by blast
  then have "sel (nss' n) = sel (nss n)" for n using nss' by (cases "n = ns") auto
  then show ?thesis using maps_ok_cong [OF ok] par by blast
next
  case (Inr k)
  have i: "sel (nss ns) = []" "sel (nss p) \<noteq> []" "valid_map m" "reaches m (sel (nss p))"
    using map_write_installs [OF w [unfolded Inr] valid_map_ok [OF ok]] by auto
  then have pn: "p \<noteq> ns" by auto
  show ?thesis
    unfolding maps_ok_def
  proof (intro allI conjI impI)
    fix n q
    show "valid_map (sel (nss' n))" using nss' i(3) valid_map_ok [OF ok] by (cases "n = ns") auto
    assume q: "ns_parent (nss' n) = Some q"
    have child: "n \<noteq> ns \<Longrightarrow> q = ns \<Longrightarrow> sel (nss n) = []" using ok q par i(1) by (auto simp: maps_ok_def)
    show "reaches (sel (nss' n)) (sel (nss' q))"
      using ok q par nss' p pn i(4) child by (cases "n = ns"; cases "q = ns") (auto simp: maps_ok_def)
    assume "sel (nss' n) \<noteq> []"
    then show "sel (nss' q) \<noteq> []"
      using ok q par nss' p pn i(2) child by (cases "n = ns"; cases "q = ns") (auto simp: maps_ok_def)
  qed
qed

lemma maps_ok_create:
  assumes ok: "maps_ok sel nss" and "sel (nss' ns) = []" "\<And>n. n \<noteq> ns \<Longrightarrow> nss' n = nss n"
    and fresh: "\<And>n. ns_parent (nss n) \<noteq> Some ns"
  shows "maps_ok sel nss'"
  unfolding maps_ok_def
proof (intro allI conjI impI)
  fix n q
  show "valid_map (sel (nss' n))" using assms(2,3) valid_map_ok [OF ok] by (cases "n = ns") auto
  assume q: "ns_parent (nss' n) = Some q"
  have old: "nss' n = nss n \<and> nss' q = nss q" if n: "n \<noteq> ns"
  proof -
    have "q \<noteq> ns" using fresh [of n] assms(3) [OF n] q by auto
    then show ?thesis using assms(3) n by blast
  qed
  show "reaches (sel (nss' n)) (sel (nss' q))"
    using ok assms(2) old q by (cases "n = ns") (auto simp: maps_ok_def)
  assume "sel (nss' n) \<noteq> []"
  then show "sel (nss' q) \<noteq> []"
    using ok assms(2) old q by (cases "n = ns") (auto simp: maps_ok_def)
qed

section \<open>The system\<close>

inductive ns_step :: "ns_store \<Rightarrow> ns_store \<Rightarrow> bool" where
  write_uid: "ns_step nss (fst (proc_uid_map_write env nss seq_ns ns buf cnt ppos))"
| write_gid: "ns_step nss (fst (proc_gid_map_write env nss seq_ns ns buf cnt ppos))"
| write_projid: "ns_step nss (fst (proc_projid_map_write env nss seq_ns ns buf cnt ppos))"
| create: "create_user_ns env nss chrooted (Some ns) inum c = Inr (nss', c') \<Longrightarrow>
    (\<And>n. ns_parent (nss n) \<noteq> Some ns) \<Longrightarrow> ns_step nss nss'"

lemma ns_inv_write_uid: "ns_inv nss \<Longrightarrow> ns_inv (fst (proc_uid_map_write env nss seq_ns ns buf cnt ppos))"
proof -
  assume inv: "ns_inv nss"
  show ?thesis
  proof (cases "\<exists>p. ns_parent (nss ns) = Some p \<and> (seq_ns = ns \<or> seq_ns = p)")
    case True
    then obtain p where p: "ns_parent (nss ns) = Some p" "seq_ns = ns \<or> seq_ns = p" by blast
    obtain m r where w: "map_write env (nss p) buf cnt ppos (Some CAP_SETUID) (uid_map (nss ns)) (uid_map (nss p)) = (m, r)" by fastforce
    let ?nss = "nss(ns := (nss ns)\<lparr>uid_map := m\<rparr>)"
    have "fst (proc_uid_map_write env nss seq_ns ns buf cnt ppos) = ?nss"
      using p w by (auto simp: proc_uid_map_write_def)
    moreover have "maps_ok uid_map ?nss"
      by (rule maps_ok_write [OF _ p(1) w]) (use inv in \<open>simp_all add: ns_inv_def\<close>)
    moreover have "maps_ok gid_map ?nss" "maps_ok projid_map ?nss"
      using inv by (auto simp: ns_inv_def intro!: maps_ok_cong [of _ nss ?nss])
    ultimately show ?thesis by (simp add: ns_inv_def)
  next
    case False
    then show ?thesis using inv by (auto simp: proc_uid_map_write_def split: option.splits)
  qed
qed

lemma ns_inv_write_gid: "ns_inv nss \<Longrightarrow> ns_inv (fst (proc_gid_map_write env nss seq_ns ns buf cnt ppos))"
proof -
  assume inv: "ns_inv nss"
  show ?thesis
  proof (cases "\<exists>p. ns_parent (nss ns) = Some p \<and> (seq_ns = ns \<or> seq_ns = p)")
    case True
    then obtain p where p: "ns_parent (nss ns) = Some p" "seq_ns = ns \<or> seq_ns = p" by blast
    obtain m r where w: "map_write env (nss p) buf cnt ppos (Some CAP_SETGID) (gid_map (nss ns)) (gid_map (nss p)) = (m, r)" by fastforce
    let ?nss = "nss(ns := (nss ns)\<lparr>gid_map := m\<rparr>)"
    have "fst (proc_gid_map_write env nss seq_ns ns buf cnt ppos) = ?nss"
      using p w by (auto simp: proc_gid_map_write_def)
    moreover have "maps_ok gid_map ?nss"
      by (rule maps_ok_write [OF _ p(1) w]) (use inv in \<open>simp_all add: ns_inv_def\<close>)
    moreover have "maps_ok uid_map ?nss" "maps_ok projid_map ?nss"
      using inv by (auto simp: ns_inv_def intro!: maps_ok_cong [of _ nss ?nss])
    ultimately show ?thesis by (simp add: ns_inv_def)
  next
    case False
    then show ?thesis using inv by (auto simp: proc_gid_map_write_def split: option.splits)
  qed
qed

lemma ns_inv_write_projid: "ns_inv nss \<Longrightarrow> ns_inv (fst (proc_projid_map_write env nss seq_ns ns buf cnt ppos))"
proof -
  assume inv: "ns_inv nss"
  show ?thesis
  proof (cases "\<exists>p. ns_parent (nss ns) = Some p \<and> (seq_ns = ns \<or> seq_ns = p)")
    case True
    then obtain p where p: "ns_parent (nss ns) = Some p" "seq_ns = ns \<or> seq_ns = p" by blast
    obtain m r where w: "map_write env (nss p) buf cnt ppos None (projid_map (nss ns)) (projid_map (nss p)) = (m, r)" by fastforce
    let ?nss = "nss(ns := (nss ns)\<lparr>projid_map := m\<rparr>)"
    have "fst (proc_projid_map_write env nss seq_ns ns buf cnt ppos) = ?nss"
      using p w by (auto simp: proc_projid_map_write_def)
    moreover have "maps_ok projid_map ?nss"
      by (rule maps_ok_write [OF _ p(1) w]) (use inv in \<open>simp_all add: ns_inv_def\<close>)
    moreover have "maps_ok uid_map ?nss" "maps_ok gid_map ?nss"
      using inv by (auto simp: ns_inv_def intro!: maps_ok_cong [of _ nss ?nss])
    ultimately show ?thesis by (simp add: ns_inv_def)
  next
    case False
    then show ?thesis using inv by (auto simp: proc_projid_map_write_def split: option.splits)
  qed
qed

lemma ns_inv_create:
  assumes "create_user_ns env nss chrooted (Some ns) inum c = Inr (nss', c')" "\<And>n. ns_parent (nss n) \<noteq> Some ns" "ns_inv nss"
  shows "ns_inv nss'"
proof -
  have "uid_map (nss' ns) = []" "gid_map (nss' ns) = []" "projid_map (nss' ns) = []" "\<And>n. n \<noteq> ns \<Longrightarrow> nss' n = nss n"
    using assms(1) by (auto simp: create_user_ns_def Let_def split: if_splits option.splits)
  then show ?thesis using assms(2,3) maps_ok_create [of _ nss nss' ns] by (simp add: ns_inv_def)
qed

interpretation ns: transition_system ns_step ns_inv
proof
  fix nss nss'
  assume "ns_step nss nss'" "ns_inv nss"
  then show "ns_inv nss'"
    by (induction rule: ns_step.induct)
      (auto intro: ns_inv_write_uid ns_inv_write_gid ns_inv_write_projid ns_inv_create)
qed

text \<open>
  C17. Whatever namespaces are created and whatever is written to their id maps, every map stays well
  formed, and each kernel user, group or project id that a namespace can name can be named in its
  parent as well.
\<close>

theorem user_namespaces_nested:
  assumes "ns_inv nss0" "ns_step\<^sup>*\<^sup>* nss0 nss" "ns_parent (nss n) = Some p"
  shows "valid_map (uid_map (nss n)) \<and> valid_map (gid_map (nss n)) \<and> valid_map (projid_map (nss n)) \<and>
    (make_kuid (nss n) i \<noteq> - 1 \<longrightarrow> (\<exists>j. make_kuid (nss p) j = make_kuid (nss n) i)) \<and>
    (make_kgid (nss n) i \<noteq> - 1 \<longrightarrow> (\<exists>j. make_kgid (nss p) j = make_kgid (nss n) i)) \<and>
    (make_kprojid (nss n) i \<noteq> - 1 \<longrightarrow> (\<exists>j. make_kprojid (nss p) j = make_kprojid (nss n) i))"
proof -
  have inv: "ns_inv nss" by (rule ns.reach_inv [OF assms(2,1)])
  then have v: "valid_map (uid_map (nss n))" "valid_map (gid_map (nss n))" "valid_map (projid_map (nss n))"
    by (auto simp: ns_inv_def maps_ok_def)
  have "reaches (uid_map (nss n)) (uid_map (nss p))" "reaches (gid_map (nss n)) (gid_map (nss p))"
      "reaches (projid_map (nss n)) (projid_map (nss p))"
    using inv assms(3) by (auto simp: ns_inv_def maps_ok_def)
  with v show ?thesis by (auto simp: make_kuid_def make_kgid_def make_kprojid_def reaches_def)
qed

text \<open>The initial namespace maps everything to itself; a child then takes user 1000 as its root.\<close>

definition demo_ns :: ns_store where
  "demo_ns = (\<lambda>n. if n = 0 then demo_parent else demo_parent\<lparr>uid_map := [], gid_map := []\<rparr>)"

definition demo_ns_child :: ns_store where
  "demo_ns_child = (case create_user_ns demo_idenv demo_ns False (Some 1) None demo_cred of Inr (nss', _) \<Rightarrow> nss' | Inl _ \<Rightarrow> demo_ns)"

lemma demo_ns_inv: "ns_inv demo_ns"
  by (auto simp: ns_inv_def maps_ok_def demo_ns_def demo_parent_def valid_map_def valid_extent_def)

theorem user_namespaces_nested_witness:
  "\<exists>j. make_kuid (demo_ns_child 0) j =
     make_kuid (fst (proc_uid_map_write demo_env demo_ns_child 0 1 (Some ''0 1000 1'') 8 0) 1) 0"
proof -
  let ?nss = "fst (proc_uid_map_write demo_env demo_ns_child 0 1 (Some ''0 1000 1'') 8 0)"
  have c: "create_user_ns demo_idenv demo_ns False (Some 1) None demo_cred = Inr (demo_ns_child, set_cred_user_ns demo_idenv demo_cred 1)"
  proof -
    have "from_kuid demo_parent 1001 = 1001" "from_kgid demo_parent 101 = 101" by code_simp+
    then show ?thesis
      by (simp add: demo_ns_child_def create_user_ns_def demo_ns_def demo_cred_def Let_def) (simp add: demo_parent_def)
  qed
  have "ns_step demo_ns demo_ns_child"
    by (rule ns_step.create [OF c]) (simp add: demo_ns_def demo_parent_def)
  moreover have "ns_step demo_ns_child ?nss" by (rule ns_step.write_uid)
  ultimately have r: "ns_step\<^sup>*\<^sup>* demo_ns ?nss" by auto
  have p: "ns_parent (?nss 1) = Some 0" by code_simp
  have k: "make_kuid (?nss 1) 0 = 1000" by code_simp
  have "\<exists>j. make_kuid (?nss 0) j = make_kuid (?nss 1) 0"
    using user_namespaces_nested [OF demo_ns_inv r p, of 0] k by simp
  moreover have "?nss 0 = demo_ns_child 0" by (simp add: proc_uid_map_write_def Let_def split: option.splits prod.splits)
  ultimately show ?thesis by metis
qed

end
