(* ===== verification/Group_Lists.thy ===== *)
theory Group_Lists
  imports Credentials
begin

text \<open>
  Supplementary groups (\<^verbatim>\<open>groups.c\<close>).

  A group list is the list of the gids in its blocks, in the order \<^verbatim>\<open>GROUP_AT\<close> reads them. The Shell sort
  and the binary search work on indices; all of them are below \<^verbatim>\<open>NGROUPS_MAX\<close>, so the sums of the C code
  do not wrap and indices are naturals. Memory appears in \<open>groups_alloc\<close> and \<open>groups_free\<close>: the heap is
  the set of pages in use, and the page allocator is a parameter. \<open>group_membership\<close> is the contract
  between the sort and the search.
\<close>

section \<open>Allocation\<close>

datatype blocks = Small_block | Pages "nat list"

record group_struct =
  ngroups :: nat
  nblocks :: nat
  gblocks :: blocks

text \<open>
  The loop that gets the pages: \<open>get_page i\<close> is the page the allocator returns for block \<open>i\<close>. The flag
  tells whether all requests succeeded; the pages got so far are returned in any case.
\<close>

function alloc_blocks :: "(nat \<Rightarrow> nat option) \<Rightarrow> nat \<Rightarrow> nat \<Rightarrow> nat list \<Rightarrow> nat list \<times> bool" where
  "alloc_blocks get_page nb i got =
     (if i < nb then
        case get_page i of
          None \<Rightarrow> (got, False)
        | Some b \<Rightarrow> alloc_blocks get_page nb (i + 1) (got @ [b])
      else (got, True))"
  by pat_completeness auto

termination
  by (relation "measure (\<lambda>(_, nb, i, _). nb - i)") auto

declare alloc_blocks.simps [simp del]

definition free_pages :: "nat list \<Rightarrow> nat set \<Rightarrow> nat set" where
  "free_pages ps heap = foldr (\<lambda>p h. h - {p}) ps heap"

definition groups_alloc ::
  "nat \<Rightarrow> nat \<Rightarrow> bool \<Rightarrow> (nat \<Rightarrow> nat option) \<Rightarrow> nat set \<Rightarrow> nat \<Rightarrow> nat set \<times> group_struct option" where
  "groups_alloc NGROUPS_PER_BLOCK NGROUPS_SMALL kmalloc_ok get_page heap gidsetsize =
     (let nb = (gidsetsize + NGROUPS_PER_BLOCK - 1) div NGROUPS_PER_BLOCK;
          nb = (if nb = 0 then 1 else nb)
      in if \<not> kmalloc_ok then (heap, None)
         else if gidsetsize \<le> NGROUPS_SMALL then (heap, Some \<lparr>ngroups = gidsetsize, nblocks = nb, gblocks = Small_block\<rparr>)
         else let (got, ok) = alloc_blocks get_page nb 0 []
              in if ok then (heap \<union> set got, Some \<lparr>ngroups = gidsetsize, nblocks = nb, gblocks = Pages got\<rparr>)
                 else (free_pages got (heap \<union> set got), None))"

definition groups_free :: "nat set \<Rightarrow> group_struct \<Rightarrow> nat set" where
  "groups_free heap gi = (case gblocks gi of Small_block \<Rightarrow> heap | Pages ps \<Rightarrow> free_pages (take (nblocks gi) ps) heap)"

section \<open>Sorting and searching\<close>

function stride_up :: "nat \<Rightarrow> nat \<Rightarrow> nat" where
  "stride_up gidsetsize stride = (if stride < gidsetsize then stride_up gidsetsize (3 * stride + 1) else stride)"
  by pat_completeness auto

termination
  by (relation "measure (\<lambda>(n, s). n - s)") auto

text \<open>
  The inner loop moves larger elements up by \<open>stride\<close>. Its variable \<open>left\<close> is always \<open>right - stride\<close>, so
  the test \<^verbatim>\<open>left >= 0\<close> is \<open>stride \<le> right\<close>. A stride of 0 does not occur; the first test only makes the
  function total.
\<close>

function shift_loop :: "nat \<Rightarrow> u32 \<Rightarrow> u32 list \<Rightarrow> nat \<Rightarrow> u32 list" where
  "shift_loop stride tmp xs right =
     (if 0 < stride \<and> stride \<le> right \<and> xs ! (right - stride) > tmp
      then shift_loop stride tmp (xs[right := xs ! (right - stride)]) (right - stride)
      else xs[right := tmp])"
  by pat_completeness auto

termination
  by (relation "measure (\<lambda>(_, _, _, right). right)") auto

definition sort_pass :: "nat \<Rightarrow> u32 list \<Rightarrow> u32 list" where
  "sort_pass stride xs =
     fold (\<lambda>base ys. shift_loop stride (ys ! (base + stride)) ys (base + stride)) [0..<length xs - stride] xs"

function sort_passes :: "nat \<Rightarrow> u32 list \<Rightarrow> u32 list" where
  "sort_passes stride xs = (if stride \<noteq> 0 then sort_passes (stride div 3) (sort_pass stride xs) else xs)"
  by pat_completeness auto

termination
  by (relation "measure (\<lambda>(stride, _). stride)") auto

declare stride_up.simps [simp del] shift_loop.simps [simp del] sort_passes.simps [simp del]

definition groups_sort :: "u32 list \<Rightarrow> u32 list" where
  "groups_sort xs = sort_passes (stride_up (length xs) 1 div 3) xs"

function search_loop :: "u32 list \<Rightarrow> u32 \<Rightarrow> nat \<Rightarrow> nat \<Rightarrow> bool" where
  "search_loop xs grp left right =
     (if left < right then
        let mid = (left + right) div 2
        in if grp > xs ! mid then search_loop xs grp (mid + 1) right
           else if grp < xs ! mid then search_loop xs grp left mid
           else True
      else False)"
  by pat_completeness auto

termination
  by (relation "measure (\<lambda>(_, _, left, right). right - left)") auto

declare search_loop.simps [simp del]

text \<open>A NULL group list, here \<open>None\<close>, has no members.\<close>

definition groups_search :: "u32 list option \<Rightarrow> u32 \<Rightarrow> bool" where
  "groups_search gi grp = (case gi of None \<Rightarrow> False | Some xs \<Rightarrow> search_loop xs grp 0 (length xs))"

section \<open>System calls\<close>

text \<open>User memory is a list of words; \<open>None\<close> is an address that faults.\<close>

fun groups_from_user :: "user_namespace \<Rightarrow> u32 option list \<Rightarrow> u32 list result" where
  "groups_from_user ns [] = Inr []"
| "groups_from_user ns (None # rest) = Inl EFAULT"
| "groups_from_user ns (Some g # rest) =
     (let kgid = make_kgid ns g
      in if kgid = - 1 then Inl EINVAL
         else case groups_from_user ns rest of Inl e \<Rightarrow> Inl e | Inr ks \<Rightarrow> Inr (kgid # ks))"

text \<open>\<open>put_ok\<close> says whether the store of the i-th gid succeeds.\<close>

definition groups_to_user :: "u32 \<Rightarrow> user_namespace \<Rightarrow> (nat \<Rightarrow> bool) \<Rightarrow> u32 list \<Rightarrow> u32 list result" where
  "groups_to_user ovf ns put_ok xs =
     (if \<forall>i<length xs. put_ok i then Inr (map (from_kgid_munged ovf ns) xs) else Inl EFAULT)"

definition set_groups :: "cred \<Rightarrow> u32 list \<Rightarrow> cred" where
  "set_groups new gi = new\<lparr>group_info := groups_sort gi\<rparr>"

definition set_current_groups ::
  "id_env \<Rightarrow> ns_store \<Rightarrow> cred_state \<Rightarrow> u32 list \<Rightarrow> (cred_state \<times> errno option) option" where
  "set_current_groups env nss st gi =
     (case prepare_creds env st of
        None \<Rightarrow> fails st ENOMEM
      | Some new \<Rightarrow> commits env nss st (set_groups new gi))"

definition NGROUPS_MAX :: int where
  "NGROUPS_MAX = 65536"

text \<open>The first result is the number of groups; the second what has been written to the user's array.\<close>

definition getgroups :: "id_env \<Rightarrow> ns_store \<Rightarrow> (nat \<Rightarrow> bool) \<Rightarrow> cred_state \<Rightarrow> int \<Rightarrow> (nat \<times> u32 list) result" where
  "getgroups env nss put_ok st gidsetsize =
     (let c = current_cred st; i = length (group_info c)
      in if gidsetsize < 0 then Inl EINVAL
         else if gidsetsize \<noteq> 0 then
           if int i > gidsetsize then Inl EINVAL
           else case groups_to_user (overflowgid env) (nss (user_ns c)) put_ok (group_info c) of
             Inl e \<Rightarrow> Inl EFAULT
           | Inr out \<Rightarrow> Inr (i, out)
         else Inr (i, []))"

text \<open>
  The size is an int that the range check reads as unsigned, so a negative one is too large as well.
  \<open>alloc_ok\<close> is the outcome of \<^verbatim>\<open>groups_alloc\<close>. What lies beyond the list of the user cannot be read.
\<close>

definition setgroups ::
  "id_env \<Rightarrow> ns_store \<Rightarrow> bool \<Rightarrow> cred_state \<Rightarrow> int \<Rightarrow> u32 option list \<Rightarrow> (cred_state \<times> errno option) option" where
  "setgroups env nss alloc_ok st gidsetsize grouplist =
     (let c = current_cred st
      in if \<not> ns_capable env (user_ns c) CAP_SETGID then fails st EPERM
         else if gidsetsize mod 2 ^ 32 > NGROUPS_MAX then fails st EINVAL
         else if \<not> alloc_ok then fails st ENOMEM
         else case groups_from_user (nss (user_ns c)) (take (nat gidsetsize) grouplist @ replicate (nat gidsetsize - length grouplist) None) of
           Inl e \<Rightarrow> fails st e
         | Inr gi \<Rightarrow> set_current_groups env nss st gi)"

definition in_group_p :: "cred_state \<Rightarrow> u32 \<Rightarrow> bool" where
  "in_group_p st grp = (if grp \<noteq> fsgid (current_cred st) then groups_search (Some (group_info (current_cred st))) grp else True)"

definition in_egroup_p :: "cred_state \<Rightarrow> u32 \<Rightarrow> bool" where
  "in_egroup_p st grp = (if grp \<noteq> egid (current_cred st) then groups_search (Some (group_info (current_cred st))) grp else True)"

section \<open>The sort\<close>

lemma length_shift_loop [simp]: "length (shift_loop stride tmp xs right) = length xs"
  by (induction stride tmp xs right rule: shift_loop.induct) (subst shift_loop.simps, simp)

lemma mset_shift_loop:
  "right < length xs \<Longrightarrow> mset (shift_loop stride tmp xs right) = mset (xs[right := tmp])"
proof (induction stride tmp xs right rule: shift_loop.induct)
  case (1 stride tmp xs right)
  show ?case
  proof (cases "0 < stride \<and> stride \<le> right \<and> xs ! (right - stride) > tmp")
    case True
    let ?l = "right - stride"
    have l: "?l < length xs" "?l \<noteq> right" using True "1.prems" by auto
    have "mset (shift_loop stride tmp xs right) = mset (xs[right := xs ! ?l, ?l := tmp])"
      using True "1.IH" [OF True] l by (subst shift_loop.simps) simp
    also have "xs[right := xs ! ?l, ?l := tmp] =
        (xs[right := tmp])[?l := (xs[right := tmp]) ! right, right := (xs[right := tmp]) ! ?l]"
      using l "1.prems" by (intro nth_equalityI) (auto simp: nth_list_update)
    also have "mset \<dots> = mset (xs[right := tmp])"
      using l "1.prems" by (intro mset_exchange) simp_all
    finally show ?thesis .
  next
    case False
    then have "shift_loop stride tmp xs right = xs[right := tmp]" by (subst shift_loop.simps) (rule if_not_P)
    then show ?thesis by simp
  qed
qed

lemma fold_shift:
  assumes "\<forall>base\<in>set bs. base + stride < length xs"
  shows "mset (fold (\<lambda>base ys. shift_loop stride (ys ! (base + stride)) ys (base + stride)) bs xs) = mset xs"
  using assms
proof (induction bs arbitrary: xs)
  case (Cons b bs)
  then have "mset (shift_loop stride (xs ! (b + stride)) xs (b + stride)) = mset xs" by (simp add: mset_shift_loop)
  with Cons show ?case by simp
qed simp

lemma mset_sort_pass: "mset (sort_pass stride xs) = mset xs"
  unfolding sort_pass_def by (rule fold_shift) auto

lemma mset_sort_passes: "mset (sort_passes stride xs) = mset xs"
  by (induction stride xs rule: sort_passes.induct) (subst sort_passes.simps, simp add: mset_sort_pass)

text \<open>With stride 1 the inner loop inserts into the sorted part below.\<close>

lemma shift_loop_insert:
  "sorted as \<Longrightarrow> shift_loop 1 tmp (as @ x # bs) (length as) =
     filter (\<lambda>a. a \<le> tmp) as @ tmp # filter (\<lambda>a. a > tmp) as @ bs"
proof (induction as arbitrary: x bs rule: rev_induct)
  case Nil
  show ?case by (subst shift_loop.simps) simp
next
  case (snoc a as)
  show ?case
  proof (cases "a > tmp")
    case True
    have upd: "((as @ [a]) @ x # bs)[length (as @ [a]) := a] = as @ a # a # bs"
      by (simp add: list_update_append)
    have nth: "((as @ [a]) @ x # bs) ! (length (as @ [a]) - 1) = a" by (simp add: nth_append)
    have "shift_loop 1 tmp ((as @ [a]) @ x # bs) (length (as @ [a])) = shift_loop 1 tmp (as @ a # a # bs) (length as)"
      using True upd nth by (subst shift_loop.simps) simp
    also have "\<dots> = filter (\<lambda>a. a \<le> tmp) as @ tmp # filter (\<lambda>a. a > tmp) as @ a # bs"
      using snoc by (simp add: sorted_append)
    finally show ?thesis using True by simp
  next
    case False
    then have le: "\<forall>y\<in>set (as @ [a]). y \<le> tmp" using snoc.prems by (auto simp: sorted_append)
    then have "filter (\<lambda>a. a \<le> tmp) (as @ [a]) = as @ [a]" "filter (\<lambda>a. a > tmp) (as @ [a]) = []"
      by (simp_all add: filter_id_conv filter_empty_conv not_less)
    then show ?thesis using False by (subst shift_loop.simps) (simp add: nth_append list_update_append)
  qed
qed

lemma sorted_insert_filter:
  "sorted (as :: u32 list) \<Longrightarrow> sorted (filter (\<lambda>a. a \<le> tmp) as @ tmp # filter (\<lambda>a. a > tmp) as)"
  by (auto simp: sorted_append sorted_wrt_filter)

lemma shift_loop_step:
  assumes "sorted (take r xs)" "r < length xs"
  shows "sorted (take (Suc r) (shift_loop 1 (xs ! r) xs r))"
proof -
  let ?L = "filter (\<lambda>a. a \<le> xs ! r) (take r xs) @ xs ! r # filter (\<lambda>a. a > xs ! r) (take r xs)"
  have "shift_loop 1 (xs ! r) xs r = shift_loop 1 (xs ! r) (take r xs @ xs ! r # drop (Suc r) xs) (length (take r xs))"
    using assms(2) by (simp add: id_take_nth_drop [symmetric])
  also have "\<dots> = filter (\<lambda>a. a \<le> xs ! r) (take r xs) @ xs ! r # filter (\<lambda>a. a > xs ! r) (take r xs) @ drop (Suc r) xs"
    by (rule shift_loop_insert [OF assms(1)])
  finally have eq: "shift_loop 1 (xs ! r) xs r = ?L @ drop (Suc r) xs" by simp
  have "length ?L = Suc r"
    using sum_length_filter_compl [of "\<lambda>a. a \<le> xs ! r" "take r xs"] assms(2) by (simp add: not_le)
  then have "take (Suc r) (shift_loop 1 (xs ! r) xs r) = ?L" unfolding eq by (simp only: append_eq_conv_conj [symmetric] take_append) simp
  then show ?thesis using sorted_insert_filter [OF assms(1)] by simp
qed

lemma length_fold_shift [simp]:
  "length (fold (\<lambda>base ys. shift_loop stride (ys ! (base + stride)) ys (base + stride)) bs xs) = length xs"
  by (induction bs arbitrary: xs) simp_all

lemma sorted_sort_pass_1: "sorted (sort_pass 1 xs)"
proof (cases "xs = []")
  case False
  have part: "sorted (take (Suc n) (fold (\<lambda>base ys. shift_loop 1 (ys ! (base + 1)) ys (base + 1)) [0..<n] xs))" if "n < length xs" for n
    using that
  proof (induction n)
    case 0
    show ?case by (cases xs) simp_all
  next
    case (Suc n)
    let ?ys = "fold (\<lambda>base ys. shift_loop 1 (ys ! (base + 1)) ys (base + 1)) [0..<n] xs"
    have "length ?ys = length xs" by (rule length_fold_shift)
    with Suc shift_loop_step [of "Suc n" ?ys] show ?case by simp
  qed
  have "sorted (take (Suc (length xs - 1)) (sort_pass 1 xs))"
    unfolding sort_pass_def by (rule part) (use False in simp)
  moreover have "length (sort_pass 1 xs) = length xs" unfolding sort_pass_def by (rule length_fold_shift)
  then have "take (Suc (length xs - 1)) (sort_pass 1 xs) = sort_pass 1 xs" using False by (simp del: One_nat_def)
  ultimately show ?thesis by (simp only:)
qed (simp add: sort_pass_def)

text \<open>The strides are 1, 4, 13, ...: dividing by three walks down to 1, and the pass with stride 1 comes last.\<close>

inductive stride_seq :: "nat \<Rightarrow> bool" where
  one: "stride_seq 1"
| up: "stride_seq s \<Longrightarrow> stride_seq (3 * s + 1)"

lemma stride_seq_up: "stride_seq s \<Longrightarrow> stride_seq (stride_up n s)"
proof (induction n s rule: stride_up.induct)
  case (1 n s)
  then show ?case using stride_seq.up [OF "1.prems"] by (subst stride_up.simps) simp
qed

lemma stride_up_ge: "n \<le> stride_up n s"
  by (induction n s rule: stride_up.induct) (subst stride_up.simps, simp)

lemma sorted_sort_passes: "stride_seq s \<Longrightarrow> sorted (sort_passes s xs)"
proof (induction arbitrary: xs rule: stride_seq.induct)
  case one
  have "sort_passes 1 xs = sort_pass 1 xs" by (subst sort_passes.simps, subst sort_passes.simps) simp
  then show ?case using sorted_sort_pass_1 [of xs] by (simp only:)
next
  case (up s)
  have "(3 * s + 1) div 3 = s" by simp
  with up show ?case by (subst sort_passes.simps) (simp del: One_nat_def)
qed

lemma sorted_groups_sort: "sorted (groups_sort xs)"
proof -
  have "stride_seq (stride_up (length xs) 1)" by (rule stride_seq_up [OF stride_seq.one])
  then show ?thesis
  proof (cases rule: stride_seq.cases)
    case one
    then have "length xs \<le> 1" using stride_up_ge [of "length xs" 1] by simp
    then have "sorted xs" by (cases xs) auto
    then show ?thesis using one by (simp add: groups_sort_def sort_passes.simps)
  next
    case (up s)
    then have "stride_up (length xs) 1 div 3 = s" by simp
    then show ?thesis using up by (simp add: groups_sort_def sorted_sort_passes del: One_nat_def)
  qed
qed

lemma mset_groups_sort: "mset (groups_sort xs) = mset xs"
  by (simp add: groups_sort_def mset_sort_passes)

lemma search_loop_correct:
  "sorted xs \<Longrightarrow> right \<le> length xs \<Longrightarrow>
    search_loop xs grp left right \<longleftrightarrow> (\<exists>i. left \<le> i \<and> i < right \<and> xs ! i = grp)"
proof (induction xs grp left right rule: search_loop.induct)
  case (1 xs grp left right)
  show ?case
  proof (cases "left < right")
    case True
    let ?m = "(left + right) div 2"
    have m: "left \<le> ?m" "?m < right" using True by auto
    consider "grp > xs ! ?m" | "grp < xs ! ?m" | "grp = xs ! ?m" by (meson linorder_cases)
    then show ?thesis
    proof cases
      case 1
      have gt: "?m + 1 \<le> i" if "i < right" "xs ! i = grp" for i
        using sorted_nth_mono [OF "1.prems"(1), of i ?m] that 1 m "1.prems"(2) by (cases "i \<le> ?m") auto
      have "left \<le> i" if "?m + 1 \<le> i" for i using m that by linarith
      with gt have "(\<exists>i. left \<le> i \<and> i < right \<and> xs ! i = grp) = (\<exists>i. ?m + 1 \<le> i \<and> i < right \<and> xs ! i = grp)"
        by blast
      then show ?thesis using "1.IH"(1) [OF True refl] 1 True "1.prems"
        by (subst search_loop.simps) (simp add: Let_def)
    next
      case 2
      have lt: "i < ?m" if "left \<le> i" "i < right" "xs ! i = grp" for i
        using sorted_nth_mono [OF "1.prems"(1), of ?m i] that 2 "1.prems"(2) by (cases "?m \<le> i") auto
      have "i < right" if "i < ?m" for i using m that by linarith
      with lt have "(\<exists>i. left \<le> i \<and> i < right \<and> xs ! i = grp) = (\<exists>i. left \<le> i \<and> i < ?m \<and> xs ! i = grp)"
        by blast
      moreover have "\<not> xs ! ?m < grp" using 2 by simp
      ultimately show ?thesis using "1.IH"(2) [OF True refl] 2 True "1.prems" m
        by (subst search_loop.simps) (simp add: Let_def)
    next
      case 3
      then show ?thesis using True m by (subst search_loop.simps) (auto simp: Let_def)
    qed
  qed (subst search_loop.simps, auto)
qed

lemma groups_search_correct: "sorted xs \<Longrightarrow> groups_search (Some xs) grp \<longleftrightarrow> grp \<in> set xs"
  by (auto simp: groups_search_def search_loop_correct in_set_conv_nth)

text \<open>The contract of a membership test over lists that are prepared once and searched often.\<close>

locale group_membership =
  fixes prepare :: "u32 list \<Rightarrow> u32 list"
    and search :: "u32 list option \<Rightarrow> u32 \<Rightarrow> bool"
    and ready :: "u32 list \<Rightarrow> bool"
  assumes ready_prepare: "ready (prepare xs)"
    and mset_prepare: "mset (prepare xs) = mset xs"
    and search_ready: "ready xs \<Longrightarrow> search (Some xs) g \<longleftrightarrow> g \<in> set xs"
    and search_null: "\<not> search None g"
begin

lemma search_prepare: "search (Some (prepare xs)) g \<longleftrightarrow> g \<in> set xs"
  using search_ready [OF ready_prepare] mset_eq_setD [OF mset_prepare] by simp

lemma length_prepare: "length (prepare xs) = length xs"
  using mset_eq_length [OF mset_prepare] .

end

interpretation gm: group_membership groups_sort groups_search sorted
  by unfold_locales (simp_all add: sorted_groups_sort mset_groups_sort groups_search_correct, simp add: groups_search_def)

text \<open>
  C25. The Shell sort returns its argument's elements in ascending order, and the binary search on the
  result finds exactly the gids of the unsorted list.
\<close>

theorem groups_sort_search:
  "sorted (groups_sort xs) \<and> mset (groups_sort xs) = mset xs \<and>
   (groups_search (Some (groups_sort xs)) grp \<longleftrightarrow> grp \<in> set xs)"
  using gm.ready_prepare gm.mset_prepare gm.search_prepare by blast

section \<open>Setting and reading the groups\<close>

lemma groups_from_user_Inr:
  "groups_from_user ns us = Inr ks \<longleftrightarrow>
    (\<exists>gs. us = map Some gs \<and> ks = map (make_kgid ns) gs \<and> (\<forall>g\<in>set gs. make_kgid ns g \<noteq> - 1))"
proof (induction ns us arbitrary: ks rule: groups_from_user.induct)
  case (3 ns g rest)
  show ?case (is "?l = ?r")
  proof
    assume ?l
    then obtain ks' where ks': "make_kgid ns g \<noteq> - 1" "groups_from_user ns rest = Inr ks'" "ks = make_kgid ns g # ks'"
      by (auto simp: Let_def split: if_splits sum.splits)
    with 3 obtain gs where "rest = map Some gs" "ks' = map (make_kgid ns) gs" "\<forall>g\<in>set gs. make_kgid ns g \<noteq> - 1" by metis
    with ks' show ?r by (intro exI [of _ "g # gs"]) simp
  next
    assume ?r
    then obtain gs where gs: "Some g # rest = map Some gs" "ks = map (make_kgid ns) gs" "\<forall>g\<in>set gs. make_kgid ns g \<noteq> - 1"
      by (elim exE conjE) (rule that)
    then obtain gs' where gs': "gs = g # gs'" "rest = map Some gs'" by (cases gs) auto
    have "groups_from_user ns rest = Inr (map (make_kgid ns) gs')"
      using gs gs' "3" [OF refl, of "map (make_kgid ns) gs'"] by auto
    with gs gs'(1) show ?l by (simp add: Let_def)
  qed
qed auto

lemma from_make_kgid:
  "valid_map (gid_map ns) \<Longrightarrow> make_kgid ns i \<noteq> - 1 \<Longrightarrow> from_kgid_munged ovf ns (make_kgid ns i) = i"
  using idmap.up_down [of "gid_map ns" i] idmap.invalid_down [of "gid_map ns"]
  by (auto simp: from_kgid_munged_def from_kgid_def make_kgid_def Let_def)

text \<open>
  When setgroups installs a list of groups, getgroups returns the same groups (in some order, with
  their multiplicities), and the task is in a group exactly if it is its file-system gid or was in the
  list.
\<close>

theorem setgroups_getgroups:
  assumes "override st = None" "rooted nss (user_ns (real_cred st))" "valid_map (gid_map (nss (user_ns (real_cred st))))"
    and "ns_capable env (user_ns (real_cred st)) CAP_SETGID" "mem_ok env"
    and "\<forall>g\<in>set gs. make_kgid (nss (user_ns (real_cred st))) g \<noteq> - 1" "length gs \<le> 65536"
  shows "\<exists>st'. setgroups env nss True st (int (length gs)) (map Some gs) = Some (st', None) \<and>
    (\<exists>out. getgroups env nss (\<lambda>_. True) st' (int (length gs)) = Inr (length gs, out) \<and> mset out = mset gs) \<and>
    (\<forall>g. make_kgid (nss (user_ns (real_cred st))) g \<noteq> - 1 \<longrightarrow>
       in_group_p st' (make_kgid (nss (user_ns (real_cred st))) g) \<longleftrightarrow>
         make_kgid (nss (user_ns (real_cred st))) g = fsgid (real_cred st) \<or> g \<in> set gs)"
proof -
  let ?ns = "nss (user_ns (real_cred st))"
  let ?ks = "map (make_kgid ?ns) gs"
  let ?new = "set_groups (real_cred st) ?ks"
  have from_user: "groups_from_user ?ns (map Some gs) = Inr ?ks" using assms(6) groups_from_user_Inr by blast
  have "rooted nss (user_ns ?new)" using assms(2) by (simp add: set_groups_def)
  then obtain st' where st': "commits env nss st ?new = Some (st', None)" "real_cred st' = ?new" "override st' = None"
    using commits_returns [OF assms(1)] by blast
  have small: "int (length gs) mod 2 ^ 32 \<le> NGROUPS_MAX" using assms(7) by (simp add: NGROUPS_MAX_def)
  have call: "setgroups env nss True st (int (length gs)) (map Some gs) = Some (st', None)"
    using assms(1,4,5) from_user st'(1) small
    by (simp add: setgroups_def set_current_groups_def prepare_creds_ok Let_def)
  have gi: "group_info ?new = groups_sort ?ks" "user_ns ?new = user_ns (real_cred st)" "fsgid ?new = fsgid (real_cred st)"
    by (simp_all add: set_groups_def)
  have "map (from_kgid_munged (overflowgid env) ?ns) ?ks = gs"
    using assms(6) from_make_kgid [OF assms(3)] by (simp add: map_idI)
  then have "mset (map (from_kgid_munged (overflowgid env) ?ns) (groups_sort ?ks)) = mset gs"
    using gm.mset_prepare [of ?ks] by (metis mset_map)
  moreover have "getgroups env nss (\<lambda>_. True) st' (int (length gs)) =
      Inr (length gs, map (from_kgid_munged (overflowgid env) ?ns) (groups_sort ?ks)) \<or> gs = []"
    using st'(2,3) gi gm.length_prepare [of ?ks] by (simp add: getgroups_def groups_to_user_def Let_def)
  moreover have "gs = [] \<Longrightarrow> getgroups env nss (\<lambda>_. True) st' (int (length gs)) = Inr (length gs, [])"
    using st'(2,3) gi gm.length_prepare [of ?ks] by (simp add: getgroups_def Let_def)
  ultimately have get: "\<exists>out. getgroups env nss (\<lambda>_. True) st' (int (length gs)) = Inr (length gs, out) \<and> mset out = mset gs"
    by (cases "gs = []") auto
  have "make_kgid ?ns g \<in> set ?ks \<longleftrightarrow> g \<in> set gs" if "make_kgid ?ns g \<noteq> - 1" for g
    using idmap.down_inject [OF assms(3), of g] that by (auto simp: make_kgid_def)
  then show ?thesis using call get st'(2,3) gi gm.search_prepare [of ?ks] by (auto simp: in_group_p_def)
qed

definition demo_gids :: "u32 list" where
  "demo_gids = [30, 10, 20]"

theorem setgroups_getgroups_witness:
  "\<exists>st'. setgroups (demo_idenv\<lparr>ns_capable := \<lambda>_ _. True\<rparr>) (\<lambda>_. demo_parent) True demo_state
       (int (length demo_gids)) (map Some demo_gids) = Some (st', None) \<and> in_group_p st' 20"
proof -
  let ?env = "demo_idenv\<lparr>ns_capable := \<lambda>_ _. True\<rparr>"
  have k: "make_kgid demo_parent 30 = 30" "make_kgid demo_parent 10 = 10" "make_kgid demo_parent 20 = 20" by code_simp+
  have v: "valid_map (gid_map demo_parent)" by (simp add: demo_parent_def valid_map_def valid_extent_def)
  have g: "\<forall>g\<in>set demo_gids. make_kgid demo_parent g \<noteq> - 1" using k by (simp add: demo_gids_def)
  have "override demo_state = None" "rooted (\<lambda>_. demo_parent) (user_ns (real_cred demo_state))" "length demo_gids \<le> 65536"
      "ns_capable ?env (user_ns (real_cred demo_state)) CAP_SETGID" "mem_ok ?env"
    by (simp_all add: demo_state_def demo_cred_def demo_idenv_def demo_gids_def rooted.root)
  note setgroups_getgroups [where nss = "\<lambda>_. demo_parent", OF this(1,2) v this(4,5) g this(3)]
  then obtain st' where st': "setgroups ?env (\<lambda>_. demo_parent) True demo_state (int (length demo_gids)) (map Some demo_gids) = Some (st', None)"
      "\<forall>g. make_kgid demo_parent g \<noteq> - 1 \<longrightarrow>
       in_group_p st' (make_kgid demo_parent g) \<longleftrightarrow> make_kgid demo_parent g = fsgid (real_cred demo_state) \<or> g \<in> set demo_gids"
    by blast
  from st'(2) [rule_format, of 20] have "in_group_p st' 20" using k(3) by (simp add: demo_gids_def)
  with st'(1) show ?thesis by blast
qed

section \<open>No page is lost\<close>

lemma free_pages_eq: "free_pages ps heap = heap - set ps"
  unfolding free_pages_def by (induction ps) auto

lemma alloc_blocks_eq:
  "alloc_blocks get_page nb i got = (ps, ok) \<Longrightarrow> \<exists>new. ps = got @ new \<and> (ok \<longrightarrow> length new = nb - i) \<and>
    set new \<subseteq> {p. \<exists>j. get_page j = Some p}"
proof (induction get_page nb i got rule: alloc_blocks.induct)
  case (1 get_page nb i got)
  show ?case
  proof (cases "i < nb")
    case True
    show ?thesis
    proof (cases "get_page i")
      case None
      with True "1.prems" show ?thesis by (subst (asm) alloc_blocks.simps) auto
    next
      case (Some b)
      then have "alloc_blocks get_page nb (i + 1) (got @ [b]) = (ps, ok)"
        using True "1.prems" by (subst (asm) alloc_blocks.simps) simp
      from "1.IH" [OF True Some this] obtain new where "ps = (got @ [b]) @ new" "ok \<longrightarrow> length new = nb - (i + 1)"
          "set new \<subseteq> {p. \<exists>j. get_page j = Some p}" by blast
      with Some True show ?thesis by (intro exI [of _ "b # new"]) auto
    qed
  next
    case False
    with "1.prems" show ?thesis by (subst (asm) alloc_blocks.simps) auto
  qed
qed

text \<open>
  An allocation of a group list that fails gives back every page it had obtained, and freeing a
  list that was allocated gives back exactly the pages that were taken for it.
\<close>

theorem groups_alloc_free:
  assumes "\<forall>i p. get_page i = Some p \<longrightarrow> p \<notin> heap"
  shows "case groups_alloc per_block small kmalloc_ok get_page heap gidsetsize of
      (heap', None) \<Rightarrow> heap' = heap
    | (heap', Some gi) \<Rightarrow> ngroups gi = gidsetsize \<and> heap \<subseteq> heap' \<and> groups_free heap' gi = heap"
proof -
  define got ok where "got nb = fst (alloc_blocks get_page nb 0 [])" and "ok nb = snd (alloc_blocks get_page nb 0 [])" for nb
  then have g: "alloc_blocks get_page nb 0 [] = (got nb, ok nb)" for nb by simp
  have fresh: "set (got nb) \<inter> heap = {}" and len: "ok nb \<Longrightarrow> length (got nb) = nb" for nb
    using alloc_blocks_eq [OF g [of nb]] assms by auto
  have giveback: "heap \<union> set (got nb) - set (got nb) = heap" for nb using fresh [of nb] by blast
  define n where "n = (let nb = (gidsetsize + per_block - 1) div per_block in if nb = 0 then 1 else nb)"
  have "groups_alloc per_block small kmalloc_ok get_page heap gidsetsize =
      (if \<not> kmalloc_ok then (heap, None)
       else if gidsetsize \<le> small then (heap, Some \<lparr>ngroups = gidsetsize, nblocks = n, gblocks = Small_block\<rparr>)
       else if ok n then (heap \<union> set (got n), Some \<lparr>ngroups = gidsetsize, nblocks = n, gblocks = Pages (got n)\<rparr>)
       else (heap, None))"
    by (simp add: groups_alloc_def n_def g free_pages_eq giveback Let_def)
  then show ?thesis using len [of n] giveback [of n] by (simp add: groups_free_def free_pages_eq)
qed

theorem groups_alloc_free_witness:
  "\<exists>gi. groups_alloc 2 3 True (\<lambda>i. Some (100 + i)) {1, 2} 5 = ({1, 2} \<union> set [100, 101, 102], Some gi) \<and>
     groups_free ({1, 2} \<union> set [100, 101, 102]) gi = {1, 2}"
proof -
  have a: "alloc_blocks (\<lambda>i. Some (100 + i)) 3 0 [] = ([100, 101, 102], True)" by (simp add: alloc_blocks.simps)
  have ev: "groups_alloc 2 3 True (\<lambda>i. Some (100 + i)) {1, 2} 5 =
      ({1, 2} \<union> set [100, 101, 102], Some \<lparr>ngroups = 5, nblocks = 3, gblocks = Pages [100, 101, 102]\<rparr>)"
    using a by (simp add: groups_alloc_def Let_def)
  have "\<forall>i p. Some (100 + i) = Some p \<longrightarrow> p \<notin> {1, 2 :: nat}" by auto
  from groups_alloc_free [OF this, where per_block = 2 and small = 3 and kmalloc_ok = True and gidsetsize = 5] ev show ?thesis by (simp only: prod.case option.case) blast
qed

end
