(* ===== verification/Semaphore.thy ===== *)
theory Semaphore
  imports Kernel_Prelude
begin

text \<open>
  Counting semaphores (\<^verbatim>\<open>locking/semaphore.c\<close>).

  Each section of the code under \<^verbatim>\<open>sem->lock\<close> is one atomic operation on the semaphore: the calls up to
  the point where they return or sleep (\<open>down\<close> and its variants, \<open>down_trylock\<close>, \<open>up\<close>), and the part of
  \<^verbatim>\<open>__down_common\<close> from one return of \<^verbatim>\<open>schedule_timeout\<close> to the next sleep (\<open>down_resume\<close>). A waiter is
  named by its task; its \<^verbatim>\<open>up\<close> flag is a field of the semaphore's state here. The interleaving of tasks is
  the step relation \<open>sem_step\<close>, in which the scheduler chooses who runs, how much of a timeout is left and
  whether a signal is pending, within what the scheduler documents.
\<close>

section \<open>Operations\<close>

type_synonym task = nat

datatype task_mode = TASK_UNINTERRUPTIBLE | TASK_INTERRUPTIBLE | TASK_KILLABLE

record semaphore =
  sem_count :: u32
  sem_wait_list :: "task list"
  waiter_up :: "task \<Rightarrow> bool"
  list_broken :: bool

text \<open>
  Deleting an entry that is not on the list would corrupt it; \<open>list_broken\<close> records that.
\<close>

definition list_del :: "task \<Rightarrow> semaphore \<Rightarrow> semaphore" where
  "list_del t sem = sem\<lparr>sem_wait_list := remove1 t (sem_wait_list sem),
     list_broken := list_broken sem \<or> t \<notin> set (sem_wait_list sem)\<rparr>"

text \<open>What a section ends with: the call returns (0 or an error), or the task sleeps with a timeout.\<close>

datatype outcome = Returns "errno option" | Sleeps int

text \<open>The head of the loop of \<^verbatim>\<open>__down_common\<close>; \<open>pending\<close> is \<^verbatim>\<open>signal_pending_state(state, task)\<close>.\<close>

definition down_loop :: "semaphore \<Rightarrow> task \<Rightarrow> bool \<Rightarrow> int \<Rightarrow> semaphore \<times> outcome" where
  "down_loop sem t pending timeout =
     (if pending then (list_del t sem, Returns (Some EINTR))
      else if timeout \<le> 0 then (list_del t sem, Returns (Some ETIME))
      else (sem, Sleeps timeout))"

definition down_common :: "semaphore \<Rightarrow> task \<Rightarrow> bool \<Rightarrow> int \<Rightarrow> semaphore \<times> outcome" where
  "down_common sem t pending timeout =
     down_loop (sem\<lparr>sem_wait_list := sem_wait_list sem @ [t], waiter_up := (waiter_up sem)(t := False)\<rparr>) t pending timeout"

definition down_resume :: "semaphore \<Rightarrow> task \<Rightarrow> bool \<Rightarrow> int \<Rightarrow> semaphore \<times> outcome" where
  "down_resume sem t pending timeout =
     (if waiter_up sem t then (sem, Returns None) else down_loop sem t pending timeout)"

definition down_timeout :: "semaphore \<Rightarrow> task \<Rightarrow> bool \<Rightarrow> int \<Rightarrow> semaphore \<times> outcome" where
  "down_timeout sem t pending jiffies =
     (if sem_count sem > 0 then (sem\<lparr>sem_count := sem_count sem - 1\<rparr>, Returns None)
      else down_common sem t pending jiffies)"

text \<open>\<open>forever\<close> is \<^verbatim>\<open>MAX_SCHEDULE_TIMEOUT\<close>.\<close>

definition down :: "int \<Rightarrow> semaphore \<Rightarrow> task \<Rightarrow> bool \<Rightarrow> semaphore \<times> outcome" where
  "down forever sem t pending =
     (if sem_count sem > 0 then (sem\<lparr>sem_count := sem_count sem - 1\<rparr>, Returns None)
      else down_common sem t pending forever)"

definition down_interruptible :: "int \<Rightarrow> semaphore \<Rightarrow> task \<Rightarrow> bool \<Rightarrow> semaphore \<times> outcome" where
  "down_interruptible forever sem t pending =
     (if sem_count sem > 0 then (sem\<lparr>sem_count := sem_count sem - 1\<rparr>, Returns None)
      else down_common sem t pending forever)"

definition down_killable :: "int \<Rightarrow> semaphore \<Rightarrow> task \<Rightarrow> bool \<Rightarrow> semaphore \<times> outcome" where
  "down_killable forever sem t pending =
     (if sem_count sem > 0 then (sem\<lparr>sem_count := sem_count sem - 1\<rparr>, Returns None)
      else down_common sem t pending forever)"

text \<open>The result is \<^verbatim>\<open>count < 0\<close>: true when the semaphore was not acquired.\<close>

definition down_trylock :: "semaphore \<Rightarrow> semaphore \<times> bool" where
  "down_trylock sem =
     (let count = sint (sem_count sem - 1)
      in (if count \<ge> 0 then sem\<lparr>sem_count := sem_count sem - 1\<rparr> else sem, count < 0))"

definition up_waiter :: "semaphore \<Rightarrow> semaphore" where
  "up_waiter sem =
     (let t = hd (sem_wait_list sem)
      in (list_del t sem)\<lparr>waiter_up := (waiter_up sem)(t := True)\<rparr>)"

definition up :: "semaphore \<Rightarrow> semaphore" where
  "up sem = (if sem_wait_list sem = [] then sem\<lparr>sem_count := sem_count sem + 1\<rparr> else up_waiter sem)"

section \<open>The system of tasks\<close>

text \<open>
  A task is outside the semaphore code or asleep in it. \<open>acquired\<close> counts the calls that returned with
  the semaphore, \<open>released\<close> the calls of \<open>up\<close>; both only record history.
\<close>

datatype sem_pc = Outside | Asleep task_mode int

record sem_sys =
  sem :: semaphore
  pc :: "task \<Rightarrow> sem_pc"
  acquired :: nat
  released :: nat

definition finish :: "sem_sys \<Rightarrow> task \<Rightarrow> task_mode \<Rightarrow> semaphore \<times> outcome \<Rightarrow> sem_sys" where
  "finish s t mode r =
     (case r of
        (sm, Returns None) \<Rightarrow> s\<lparr>sem := sm, pc := (pc s)(t := Outside), acquired := acquired s + 1\<rparr>
      | (sm, Returns (Some e)) \<Rightarrow> s\<lparr>sem := sm, pc := (pc s)(t := Outside)\<rparr>
      | (sm, Sleeps timeout) \<Rightarrow> s\<lparr>sem := sm, pc := (pc s)(t := Asleep mode timeout)\<rparr>)"

text \<open>
  Documented behaviour of the scheduler: signals do not disturb an uninterruptible sleep, and the
  timeout \<open>forever\<close> is handed back unchanged.
\<close>

definition signal_ok :: "task_mode \<Rightarrow> bool \<Rightarrow> bool" where
  "signal_ok mode pending \<longleftrightarrow> (mode = TASK_UNINTERRUPTIBLE \<longrightarrow> \<not> pending)"

definition timeout_ok :: "int \<Rightarrow> int \<Rightarrow> int \<Rightarrow> bool" where
  "timeout_ok forever timeout left \<longleftrightarrow> (timeout = forever \<longrightarrow> left = forever)"

inductive sem_step :: "int \<Rightarrow> sem_sys \<Rightarrow> sem_sys \<Rightarrow> bool" for forever where
  down: "pc s t = Outside \<Longrightarrow> signal_ok TASK_UNINTERRUPTIBLE pending \<Longrightarrow>
    sem_step forever s (finish s t TASK_UNINTERRUPTIBLE (down forever (sem s) t pending))"
| down_interruptible: "pc s t = Outside \<Longrightarrow> signal_ok TASK_INTERRUPTIBLE pending \<Longrightarrow>
    sem_step forever s (finish s t TASK_INTERRUPTIBLE (down_interruptible forever (sem s) t pending))"
| down_killable: "pc s t = Outside \<Longrightarrow> signal_ok TASK_KILLABLE pending \<Longrightarrow>
    sem_step forever s (finish s t TASK_KILLABLE (down_killable forever (sem s) t pending))"
| down_timeout: "pc s t = Outside \<Longrightarrow> signal_ok TASK_UNINTERRUPTIBLE pending \<Longrightarrow>
    sem_step forever s (finish s t TASK_UNINTERRUPTIBLE (down_timeout (sem s) t pending jiffies))"
| trylock: "pc s t = Outside \<Longrightarrow> down_trylock (sem s) = (sm, failed) \<Longrightarrow>
    sem_step forever s (s\<lparr>sem := sm, acquired := (if failed then acquired s else acquired s + 1)\<rparr>)"
| resume: "pc s t = Asleep mode timeout \<Longrightarrow> signal_ok mode pending \<Longrightarrow> timeout_ok forever timeout left \<Longrightarrow>
    sem_step forever s (finish s t mode (down_resume (sem s) t pending left))"
| up: "sem_step forever s (s\<lparr>sem := up (sem s), released := released s + 1\<rparr>)"

definition sem_init :: "u32 \<Rightarrow> sem_sys" where
  "sem_init n = \<lparr>sem = \<lparr>sem_count = n, sem_wait_list = [], waiter_up = (\<lambda>_. False), list_broken = False\<rparr>,
     pc = (\<lambda>_. Outside), acquired = 0, released = 0\<rparr>"

section \<open>The invariant\<close>

text \<open>
  The tasks that have been handed the semaphore but have not run yet.
\<close>

definition granted :: "sem_sys \<Rightarrow> task set" where
  "granted s = {t. pc s t \<noteq> Outside \<and> waiter_up (sem s) t}"

definition queue_ok :: "sem_sys \<Rightarrow> bool" where
  "queue_ok s \<longleftrightarrow> distinct (sem_wait_list (sem s)) \<and> \<not> list_broken (sem s) \<and>
     (\<forall>t. t \<in> set (sem_wait_list (sem s)) \<longleftrightarrow> pc s t \<noteq> Outside \<and> \<not> waiter_up (sem s) t) \<and>
     (sem_wait_list (sem s) \<noteq> [] \<longrightarrow> sem_count (sem s) = 0)"

text \<open>Tokens are neither lost nor made, as long as the count stays within an int.\<close>

definition tokens_ok :: "nat \<Rightarrow> sem_sys \<Rightarrow> bool" where
  "tokens_ok n s \<longleftrightarrow> finite (granted s) \<and>
     (n + released s < 2 ^ 31 \<longrightarrow> unat (sem_count (sem s)) + acquired s + card (granted s) = n + released s)"

definition sem_inv :: "nat \<Rightarrow> sem_sys \<Rightarrow> bool" where
  "sem_inv n s \<longleftrightarrow> queue_ok s \<and> tokens_ok n s"

lemma finish_simps:
  "finish s t mode (sm, Returns None) = s\<lparr>sem := sm, pc := (pc s)(t := Outside), acquired := acquired s + 1\<rparr>"
  "finish s t mode (sm, Returns (Some e)) = s\<lparr>sem := sm, pc := (pc s)(t := Outside)\<rparr>"
  "finish s t mode (sm, Sleeps d) = s\<lparr>sem := sm, pc := (pc s)(t := Asleep mode d)\<rparr>"
  by (simp_all add: finish_def)

lemma unat_dec: "0 < c \<Longrightarrow> unat (c - 1 :: u32) = unat c - 1"
  by (metis unat_minus_one word_neq_0_conv)

lemma not_waiting: "queue_ok s \<Longrightarrow> pc s t = Outside \<Longrightarrow> t \<notin> set (sem_wait_list (sem s)) \<and> t \<notin> granted s"
  by (auto simp: queue_ok_def granted_def)

lemma tokens_ok_cong:
  assumes "tokens_ok n s" "granted s' = granted s" "released s' = released s" "acquired s' = acquired s"
    "sem_count (sem s') = sem_count (sem s)"
  shows "tokens_ok n s'"
  using assms by (simp add: tokens_ok_def)

lemma take_token_inv:
  assumes inv: "sem_inv n s" and c: "sem_count (sem s) > 0"
    and s': "sem s' = (sem s)\<lparr>sem_count := sem_count (sem s) - 1\<rparr>" "pc s' = pc s" "acquired s' = acquired s + 1" "released s' = released s"
  shows "sem_inv n s'"
proof -
  have g: "granted s' = granted s" using s' by (simp add: granted_def)
  have "sem_wait_list (sem s) = []" using inv c by (auto simp: sem_inv_def queue_ok_def)
  then have "queue_ok s'" using inv s' by (simp add: sem_inv_def queue_ok_def)
  moreover have "0 < unat (sem_count (sem s))" using c by (simp add: word_less_nat_alt)
  then have "tokens_ok n s'" using inv s' g unat_dec [OF c] by (simp add: sem_inv_def tokens_ok_def)
  ultimately show ?thesis by (simp add: sem_inv_def)
qed

lemma fast_path_inv:
  assumes "sem_inv n s" "pc s t = Outside" "sem_count (sem s) > 0"
  shows "sem_inv n (finish s t mode ((sem s)\<lparr>sem_count := sem_count (sem s) - 1\<rparr>, Returns None))"
  using assms by (intro take_token_inv [OF assms(1,3)]) (auto simp: finish_simps fun_upd_idem)

lemma remove1_append_new: "t \<notin> set xs \<Longrightarrow> remove1 t (xs @ [t]) = xs"
  by (simp add: remove1_append)

lemma down_common_inv:
  assumes inv: "sem_inv n s" and t: "pc s t = Outside" and c: "sem_count (sem s) = 0"
  shows "sem_inv n (finish s t mode (down_common (sem s) t pending timeout))"
proof -
  let ?s = "finish s t mode (down_common (sem s) t pending timeout)"
  have q: "queue_ok s" using inv by (simp add: sem_inv_def)
  have nt: "t \<notin> set (sem_wait_list (sem s))" using not_waiting [OF q t] by simp
  have "granted ?s = granted s"
    using t by (auto simp: granted_def down_common_def down_loop_def list_del_def finish_simps)
  moreover have "released ?s = released s \<and> acquired ?s = acquired s \<and> sem_count (sem ?s) = sem_count (sem s)"
    by (simp add: down_common_def down_loop_def list_del_def finish_simps)
  ultimately have "tokens_ok n ?s" using inv by (auto simp: sem_inv_def elim!: tokens_ok_cong)
  moreover have "queue_ok ?s"
    using q t nt c
    by (auto simp: queue_ok_def down_common_def down_loop_def list_del_def finish_simps remove1_append_new)
  ultimately show ?thesis by (simp add: sem_inv_def)
qed

lemma down_calls_inv:
  assumes "sem_inv n s" "pc s t = Outside"
  shows "sem_inv n (finish s t mode (down forever (sem s) t pending))"
    and "sem_inv n (finish s t mode (down_interruptible forever (sem s) t pending))"
    and "sem_inv n (finish s t mode (down_killable forever (sem s) t pending))"
    and "sem_inv n (finish s t mode (down_timeout (sem s) t pending jiffies))"
  using fast_path_inv [OF assms] down_common_inv [OF assms]
  by (auto simp: down_def down_interruptible_def down_killable_def down_timeout_def word_neq_0_conv [symmetric])

lemma down_resume_inv:
  assumes inv: "sem_inv n s" and t: "pc s t \<noteq> Outside"
  shows "sem_inv n (finish s t mode (down_resume (sem s) t pending left))"
proof (cases "waiter_up (sem s) t")
  case True
  let ?s = "s\<lparr>pc := (pc s)(t := Outside), acquired := acquired s + 1\<rparr>"
  have mem: "t \<in> granted s" using t True by (simp add: granted_def)
  have g: "granted ?s = granted s - {t}" by (auto simp: granted_def)
  have fin: "finite (granted s)" using inv by (simp add: sem_inv_def tokens_ok_def)
  then have "card (granted s) = card (granted s - {t}) + 1" using mem card_Suc_Diff1 by fastforce
  then have "tokens_ok n ?s" using inv fin unfolding sem_inv_def tokens_ok_def g by auto
  moreover have "queue_ok ?s" using inv True by (auto simp: sem_inv_def queue_ok_def)
  ultimately show ?thesis using True by (simp add: down_resume_def finish_simps sem_inv_def)
next
  case False
  let ?s = "finish s t mode (down_loop (sem s) t pending left)"
  have q: "queue_ok s" using inv by (simp add: sem_inv_def)
  then have mem: "t \<in> set (sem_wait_list (sem s))" using t False by (simp add: queue_ok_def)
  have "granted ?s = granted s" using False t by (auto simp: granted_def down_loop_def list_del_def finish_simps)
  moreover have "released ?s = released s \<and> acquired ?s = acquired s \<and> sem_count (sem ?s) = sem_count (sem s)"
    by (simp add: down_loop_def list_del_def finish_simps)
  ultimately have "tokens_ok n ?s" using inv by (auto simp: sem_inv_def elim!: tokens_ok_cong)
  moreover have "queue_ok ?s"
    using q t mem False by (auto simp: queue_ok_def down_loop_def list_del_def finish_simps)
  ultimately show ?thesis using False by (simp add: down_resume_def sem_inv_def)
qed

lemma trylock_inv:
  assumes inv: "sem_inv n s" and r: "down_trylock (sem s) = (sm, failed)"
  shows "sem_inv n (s\<lparr>sem := sm, acquired := (if failed then acquired s else acquired s + 1)\<rparr>)"
proof (cases "sint (sem_count (sem s) - 1) \<ge> 0")
  case True
  have "sem_count (sem s) \<noteq> 0" using True by auto
  then have "sem_count (sem s) > 0" by (simp add: word_neq_0_conv)
  then show ?thesis
    using r True by (intro take_token_inv [OF inv]) (auto simp: down_trylock_def Let_def)
next
  case False
  then have "sm = sem s" "failed" using r by (auto simp: down_trylock_def Let_def)
  moreover have "sem_inv n (s\<lparr>sem := sem s, acquired := acquired s\<rparr>)" using inv by simp
  ultimately show ?thesis by simp
qed

lemma up_inv:
  assumes inv: "sem_inv n s"
  shows "sem_inv n (s\<lparr>sem := up (sem s), released := released s + 1\<rparr>)"
proof (cases "sem_wait_list (sem s)")
  case Nil
  let ?s = "s\<lparr>sem := (sem s)\<lparr>sem_count := sem_count (sem s) + 1\<rparr>, released := released s + 1\<rparr>"
  have g: "granted ?s = granted s" by (simp add: granted_def)
  have "unat (sem_count (sem s) + 1) = unat (sem_count (sem s)) + 1" if "unat (sem_count (sem s)) < 2 ^ 31"
    using that by (simp add: unat_word_ariths)
  then have "tokens_ok n ?s" using inv unfolding sem_inv_def tokens_ok_def g by auto
  moreover have "queue_ok ?s" using inv Nil by (auto simp: sem_inv_def queue_ok_def)
  ultimately show ?thesis using Nil by (simp add: up_def sem_inv_def)
next
  case (Cons t ts)
  let ?s = "s\<lparr>sem := up_waiter (sem s), released := released s + 1\<rparr>"
  have q: "queue_ok s" using inv by (simp add: sem_inv_def)
  then have t: "pc s t \<noteq> Outside" "\<not> waiter_up (sem s) t" "t \<notin> set ts" "sem_count (sem s) = 0"
    using Cons by (auto simp: queue_ok_def)
  have g: "granted ?s = insert t (granted s)"
    using t Cons by (auto simp: granted_def up_waiter_def list_del_def Let_def)
  have "t \<notin> granted s" "finite (granted s)" using t inv by (simp_all add: granted_def sem_inv_def tokens_ok_def)
  moreover have "sem_count (sem ?s) = sem_count (sem s)" by (simp add: up_waiter_def list_del_def Let_def)
  ultimately have "tokens_ok n ?s" using inv unfolding sem_inv_def tokens_ok_def g by auto
  moreover have "queue_ok ?s"
    using q t Cons by (auto simp: queue_ok_def up_waiter_def list_del_def Let_def)
  ultimately show ?thesis using Cons by (simp add: up_def sem_inv_def)
qed

interpretation sem: transition_system "sem_step forever" "sem_inv n" for forever n
proof
  fix s s'
  assume "sem_step forever s s'" "sem_inv n s"
  then show "sem_inv n s'"
    by (induction rule: sem_step.induct)
      (simp_all add: down_calls_inv down_resume_inv trylock_inv up_inv [simplified])
qed

lemma sem_init_inv: "sem_inv (unat n) (sem_init n)"
  by (simp add: sem_inv_def queue_ok_def tokens_ok_def granted_def sem_init_def)

text \<open>
  C18. Along every interleaving of the semaphore operations, nobody waits while the count is positive,
  the list holds exactly the sleeping tasks that have not been granted the semaphore and is never
  corrupted, and the calls that acquired the semaphore, the grants still to be picked up and the count
  add up to the initial count and the releases (as long as these fit an int).
\<close>

theorem semaphore_safe:
  assumes "(sem_step forever)\<^sup>*\<^sup>* (sem_init n) s"
  shows "(sem_wait_list (sem s) \<noteq> [] \<longrightarrow> sem_count (sem s) = 0) \<and> \<not> list_broken (sem s) \<and>
    (\<forall>t. t \<in> set (sem_wait_list (sem s)) \<longleftrightarrow> pc s t \<noteq> Outside \<and> \<not> waiter_up (sem s) t) \<and>
    (unat n + released s < 2 ^ 31 \<longrightarrow>
       unat (sem_count (sem s)) + acquired s + card (granted s) = unat n + released s)"
proof -
  have "sem_inv (unat n) s" by (rule sem.reach_inv [OF assms sem_init_inv])
  then show ?thesis by (simp add: sem_inv_def queue_ok_def tokens_ok_def)
qed

theorem semaphore_safe_witness:
  "\<exists>s. (sem_step 100)\<^sup>*\<^sup>* (sem_init 1) s \<and> sem_wait_list (sem s) = [2] \<and> sem_count (sem s) = 0 \<and> acquired s = 1"
proof -
  define s1 where "s1 = finish (sem_init 1) 1 TASK_UNINTERRUPTIBLE (down 100 (sem (sem_init 1)) 1 False)"
  define s2 where "s2 = finish s1 2 TASK_UNINTERRUPTIBLE (down 100 (sem s1) 2 False)"
  have s1: "sem_count (sem s1) = 0" "sem_wait_list (sem s1) = []" "pc s1 = (\<lambda>_. Outside)" "acquired s1 = 1"
    by (simp_all add: s1_def sem_init_def down_def finish_simps fun_upd_idem)
  have s2: "sem_wait_list (sem s2) = [2]" "acquired s2 = 1"
    using s1 by (simp_all add: s2_def down_def down_common_def down_loop_def finish_simps)
  have "sem_step 100 (sem_init 1) s1"
    unfolding s1_def by (rule sem_step.down) (simp_all add: sem_init_def signal_ok_def)
  moreover have "sem_step 100 s1 s2"
    unfolding s2_def by (rule sem_step.down) (simp_all add: s1(3) signal_ok_def)
  ultimately have r: "(sem_step 100)\<^sup>*\<^sup>* (sem_init 1) s2" by auto
  from semaphore_safe [OF r] s2 have "sem_count (sem s2) = 0" by simp
  with s2 r show ?thesis by blast
qed

section \<open>What the calls return\<close>

text \<open>
  \<open>down\<close> cannot fail: each of its sections returns with the semaphore or goes back to sleep for ever.
  The interruptible calls fail only with EINTR and only on a signal, the call with a timeout only with
  ETIME, and a trylock fails only if the count is zero (or beyond an int).
\<close>

theorem down_results:
  assumes "0 < forever"
  shows "snd (down forever sm t False) \<in> {Returns None, Sleeps forever} \<and>
    snd (down_resume sm t False forever) \<in> {Returns None, Sleeps forever} \<and>
    snd (down_interruptible forever sm t pending) \<in> {Returns None, Sleeps forever} \<union> (if pending then {Returns (Some EINTR)} else {}) \<and>
    snd (down_killable forever sm t pending) \<in> {Returns None, Sleeps forever} \<union> (if pending then {Returns (Some EINTR)} else {}) \<and>
    snd (down_timeout sm t False jiffies) \<in> {Returns None} \<union> (if jiffies \<le> 0 then {Returns (Some ETIME)} else {Sleeps jiffies}) \<and>
    (snd (down_trylock sm) \<longleftrightarrow> sem_count sm = 0 \<or> 2 ^ 31 < unat (sem_count sm))"
proof -
  have "sint (c - 1 :: u32) < 0 \<longleftrightarrow> c = 0 \<or> 2 ^ 31 < unat c" for c
  proof (cases "c = 0")
    case False
    then have "unat (c - 1) = unat c - 1" "0 < unat c" using unat_dec [of c] by (simp_all add: word_neq_0_conv unat_gt_0)
    then have eq: "sint (c - 1) = (if unat c - 1 < 2 ^ 31 then int (unat c - 1) else int (unat c - 1) - 2 ^ 32)" and pos: "0 < unat c"
      unfolding sint_cases [of "c - 1"] by simp_all
    show ?thesis
    proof (cases "unat c - 1 < 2 ^ 31")
      case True
      then have "sint (c - 1) = int (unat c - 1)" using eq by (simp only: if_True)
      then have "0 \<le> sint (c - 1)" by (simp only: of_nat_0_le_iff)
      with True False pos show ?thesis by linarith
    next
      case large: False
      then have "sint (c - 1) = int (unat c - 1) - 2 ^ 32" using eq by (simp only: if_False)
      moreover have "unat c - 1 < 2 ^ 32" using unat_u32_lt [of c] by linarith
      then have "int (unat c - 1) < 2 ^ 32" by (metis of_nat_less_iff of_nat_numeral of_nat_power)
      ultimately show ?thesis using large pos by linarith
    qed
  qed simp
  then show ?thesis using assms
    by (auto simp: down_def down_interruptible_def down_killable_def down_timeout_def down_trylock_def
        down_common_def down_loop_def down_resume_def Let_def)
qed

theorem down_results_witness:
  "snd (down 100 \<lparr>sem_count = 0, sem_wait_list = [3], waiter_up = (\<lambda>_. False), list_broken = False\<rparr> 4 False) \<in> {Returns None, Sleeps 100}"
  using down_results [of 100] by simp

section \<open>The order of the waiters\<close>

text \<open>\<open>ahead a l\<close> are the tasks of a list before \<open>a\<close>. New waiters come behind \<open>a\<close>, and others may only leave.\<close>

definition ahead :: "task \<Rightarrow> task list \<Rightarrow> task set" where
  "ahead a l = set (takeWhile (\<lambda>t. t \<noteq> a) l)"

lemma ahead_append: "a \<in> set l \<Longrightarrow> ahead a (l @ ts) = ahead a l"
  by (simp add: ahead_def takeWhile_append1 [of a])

lemma ahead_remove1: "a \<noteq> t \<Longrightarrow> ahead a (remove1 t l) \<subseteq> ahead a l"
  by (induction l) (auto simp: ahead_def)

lemma ahead_head: "a \<in> set ts \<Longrightarrow> t \<noteq> a \<Longrightarrow> ahead a (t # ts) = insert t (ahead a ts)"
  by (simp add: ahead_def)

text \<open>What a step does to the tasks ahead of one that waits before and after it: only those can be granted the semaphore.\<close>

definition keeps_order :: "task \<Rightarrow> sem_sys \<Rightarrow> sem_sys \<Rightarrow> bool" where
  "keeps_order a s s' \<longleftrightarrow>
     ahead a (sem_wait_list (sem s')) \<subseteq> ahead a (sem_wait_list (sem s)) \<and> granted s' \<subseteq> granted s \<union> ahead a (sem_wait_list (sem s))"

lemma down_common_order:
  assumes q: "queue_ok s" and t: "pc s t = Outside" and a: "a \<in> set (sem_wait_list (sem s))"
  shows "keeps_order a s (finish s t mode (down_common (sem s) t pending timeout))"
proof -
  have "t \<notin> set (sem_wait_list (sem s))" using not_waiting [OF q t] by simp
  then have "ahead a (sem_wait_list (sem (finish s t mode (down_common (sem s) t pending timeout)))) = ahead a (sem_wait_list (sem s))"
    using ahead_append [OF a] by (simp add: down_common_def down_loop_def list_del_def finish_simps remove1_append_new)
  moreover have "granted (finish s t mode (down_common (sem s) t pending timeout)) \<subseteq> granted s"
    using t by (auto simp: granted_def down_common_def down_loop_def list_del_def finish_simps split: if_splits)
  ultimately show ?thesis by (auto simp: keeps_order_def)
qed

lemma resume_order:
  assumes q: "queue_ok s" and t: "pc s t \<noteq> Outside"
    and a: "a \<in> set (sem_wait_list (sem (finish s t mode (down_resume (sem s) t pending left))))"
  shows "keeps_order a s (finish s t mode (down_resume (sem s) t pending left))"
proof -
  have "ahead a (remove1 t (sem_wait_list (sem s))) \<subseteq> ahead a (sem_wait_list (sem s))" if "a \<in> set (remove1 t (sem_wait_list (sem s)))"
    using that q ahead_remove1 by (auto simp: queue_ok_def)
  then have "ahead a (sem_wait_list (sem (finish s t mode (down_resume (sem s) t pending left)))) \<subseteq> ahead a (sem_wait_list (sem s))"
    using a by (auto simp: down_resume_def down_loop_def list_del_def finish_simps split: if_splits)
  moreover have "granted (finish s t mode (down_resume (sem s) t pending left)) \<subseteq> granted s"
    using t by (auto simp: granted_def down_resume_def down_loop_def list_del_def finish_simps split: if_splits)
  ultimately show ?thesis by (auto simp: keeps_order_def)
qed

lemma up_order:
  assumes q: "queue_ok s" and l: "sem_wait_list (sem s) = t # ts"
  shows "sem_wait_list (up (sem s)) = ts" "granted (s\<lparr>sem := up (sem s), released := n\<rparr>) = insert t (granted s)"
proof -
  show "sem_wait_list (up (sem s)) = ts" using l by (simp add: up_def up_waiter_def list_del_def Let_def)
  have "pc s t \<noteq> Outside" using q l by (auto simp: queue_ok_def)
  then show "granted (s\<lparr>sem := up (sem s), released := n\<rparr>) = insert t (granted s)"
    using l by (auto simp: granted_def up_def up_waiter_def list_del_def Let_def)
qed

lemma step_order:
  assumes "sem_step forever s s'" and q: "queue_ok s" and a: "a \<in> set (sem_wait_list (sem s))" and a': "a \<in> set (sem_wait_list (sem s'))"
  shows "keeps_order a s s'"
proof -
  have c: "sem_count (sem s) = 0" using q a by (auto simp: queue_ok_def)
  have same: "keeps_order a s s" by (auto simp: keeps_order_def)
  from assms(1) show ?thesis
  proof cases
    case (trylock t sm failed)
    then show ?thesis using c same by (auto simp: down_trylock_def Let_def)
  next
    case (resume t mode timeout pending left)
    then show ?thesis using resume_order [OF q, of t a mode pending left] a' by simp
  next
    case up
    obtain t ts where l: "sem_wait_list (sem s) = t # ts" using a by (cases "sem_wait_list (sem s)") auto
    have "a \<in> set ts" "a \<noteq> t" using a' up up_order(1) [OF q l] q l by (auto simp: queue_ok_def)
    then show ?thesis
      using up up_order(1) [OF q l] up_order(2) [OF q l, of "released s + 1"] ahead_head [of a ts t] l by (auto simp: keeps_order_def)
  qed (use down_common_order [OF q _ a] c in \<open>auto simp: down_def down_interruptible_def down_killable_def down_timeout_def\<close>)
qed

text \<open>
  C26. The semaphore is handed out in the order in which tasks began to wait. Take a task that waits in a reachable state and
  another that is then outside; as long as the first keeps waiting, whatever all the tasks do, the second is not granted
  the semaphore. Meanwhile the count is 0, so that no call gets it without waiting; a release hands it to the task at
  the head of the list, which is not the second one, and the call of that task returns with the semaphore the next time
  it runs, even if its timeout has expired or a signal has arrived.
\<close>

theorem semaphore_fifo:
  assumes "(sem_step forever)\<^sup>*\<^sup>* (sem_init n) s0" "a \<in> set (sem_wait_list (sem s0))" "pc s0 b = Outside"
    and "(\<lambda>s s'. sem_step forever s s' \<and> a \<in> set (sem_wait_list (sem s')))\<^sup>*\<^sup>* s0 s"
  shows "b \<notin> granted s \<and> sem_count (sem s) = 0 \<and>
    (\<exists>t ts. sem_wait_list (sem s) = t # ts \<and> t \<noteq> b \<and> sem_wait_list (up (sem s)) = ts \<and>
       granted (s\<lparr>sem := up (sem s), released := released s + 1\<rparr>) = insert t (granted s) \<and>
       down_resume (up (sem s)) t pending left = (up (sem s), Returns None))"
proof -
  from assms(4) have ord: "sem_inv (unat n) s \<and> a \<in> set (sem_wait_list (sem s)) \<and> b \<notin> granted s \<and> b \<notin> ahead a (sem_wait_list (sem s))"
  proof (induction rule: rtranclp_induct)
    case base
    have inv: "sem_inv (unat n) s0" by (rule sem.reach_inv [OF assms(1) sem_init_inv])
    then have "b \<notin> set (sem_wait_list (sem s0))" "b \<notin> granted s0" using not_waiting [of s0 b] assms(3) by (simp_all add: sem_inv_def)
    then show ?case using inv assms(2) by (auto simp: ahead_def dest: set_takeWhileD)
  next
    case (step s s')
    then have "keeps_order a s s'" using step_order [of forever s s' a] by (simp add: sem_inv_def)
    then show ?case using step sem.step_inv [of forever s s' "unat n"] by (auto simp: keeps_order_def)
  qed
  then obtain t ts where l: "sem_wait_list (sem s) = t # ts" by (cases "sem_wait_list (sem s)") auto
  have q: "queue_ok s" using ord by (simp add: sem_inv_def)
  have "a \<noteq> b" using sem.reach_inv [OF assms(1) sem_init_inv] assms(2,3) by (auto simp: sem_inv_def queue_ok_def)
  then have "t \<noteq> b" using ord l by (auto simp: ahead_def)
  moreover have "down_resume (up (sem s)) t pending left = (up (sem s), Returns None)"
    using l by (simp add: up_def up_waiter_def list_del_def down_resume_def Let_def)
  moreover have "sem_count (sem s) = 0" using q l by (simp add: queue_ok_def)
  ultimately show ?thesis using ord up_order [OF q l] l by auto
qed

text \<open>Task 1 has the only token, task 2 waits, and task 3 comes later.\<close>

theorem semaphore_fifo_witness:
  "\<exists>s. (sem_step 100)\<^sup>*\<^sup>* (sem_init 1) s \<and> sem_wait_list (sem s) = [2, 3] \<and> 3 \<notin> granted s \<and>
     2 \<in> granted (s\<lparr>sem := up (sem s), released := released s + 1\<rparr>) \<and> down_resume (up (sem s)) 2 True 0 = (up (sem s), Returns None)"
proof -
  define s1 where "s1 = finish (sem_init 1) 1 TASK_UNINTERRUPTIBLE (down 100 (sem (sem_init 1)) 1 False)"
  define s2 where "s2 = finish s1 2 TASK_UNINTERRUPTIBLE (down 100 (sem s1) 2 False)"
  define s3 where "s3 = finish s2 3 TASK_INTERRUPTIBLE (down_interruptible 100 (sem s2) 3 False)"
  note eval = sem_init_def down_def down_interruptible_def down_common_def down_loop_def finish_simps
  have s: "sem_wait_list (sem s2) = [2]" "sem_wait_list (sem s3) = [2, 3]" "pc (sem_init 1) 1 = Outside" "pc s1 2 = Outside" "pc s2 3 = Outside"
    by (simp_all add: s1_def s2_def s3_def eval)
  have st: "sem_step 100 (sem_init 1) s1" "sem_step 100 s1 s2" "sem_step 100 s2 s3"
    unfolding s1_def s2_def s3_def
    by (rule sem_step.down sem_step.down_interruptible, use s in \<open>simp_all add: s1_def s2_def signal_ok_def\<close>)+
  have r: "(sem_step 100)\<^sup>*\<^sup>* (sem_init 1) s2" using st(1,2) by auto
  have "(\<lambda>s s'. sem_step 100 s s' \<and> 2 \<in> set (sem_wait_list (sem s')))\<^sup>*\<^sup>* s2 s3" using st(3) s(2) by (intro r_into_rtranclp) simp
  from semaphore_fifo [OF r _ s(5) this, of True 0] s(1,2) show ?thesis using r st(3) by (intro exI [of _ s3]) auto
qed

end
