(* ===== verification/Rwsem.thy ===== *)
theory Rwsem
  imports Kernel_Prelude
begin

text \<open>
  Reader/writer semaphores, spinlock implementation (\<^verbatim>\<open>locking/rwsem-spinlock.c\<close>).

  \<open>activity\<close> is the number of active readers, or \<open>- 1\<close> for a writer; it counts tasks, so the 32 bits of the
  C variable are enough and it is an integer here. The wait list holds the waiting tasks with the type of
  lock they want. The sections under \<^verbatim>\<open>sem->wait_lock\<close> are functions of the semaphore that also give the
  readers whose lock was granted (their \<^verbatim>\<open>waiter.task\<close> is cleared) and the tasks that were woken. The
  step relation \<open>rw_step\<close> interleaves them for any number of tasks, with spurious wake-ups.
\<close>

section \<open>Operations\<close>

type_synonym task = nat

datatype rwsem_waiter_type = RWSEM_WAITING_FOR_WRITE | RWSEM_WAITING_FOR_READ

record rw_semaphore =
  activity :: int
  wait_list :: "(task \<times> rwsem_waiter_type) list"

text \<open>\<open>got_lock\<close> is the outcome of \<^verbatim>\<open>raw_spin_trylock_irqsave\<close>.\<close>

definition rwsem_is_locked :: "bool \<Rightarrow> rw_semaphore \<Rightarrow> bool" where
  "rwsem_is_locked got_lock sem = (if got_lock then activity sem \<noteq> 0 else True)"

definition init_rwsem :: rw_semaphore where
  "init_rwsem = \<lparr>activity = 0, wait_list = []\<rparr>"

text \<open>The loop that grants read locks to the front of the queue: the granted tasks and the rest.\<close>

fun grant_readers :: "(task \<times> rwsem_waiter_type) list \<Rightarrow> task list \<times> (task \<times> rwsem_waiter_type) list" where
  "grant_readers [] = ([], [])"
| "grant_readers ((t, ty) # rest) =
     (case rest of
        [] \<Rightarrow> ([t], [])
      | (_, ty') # _ \<Rightarrow>
          if ty' \<noteq> RWSEM_WAITING_FOR_WRITE
          then let (ts, rest') = grant_readers rest in (t # ts, rest')
          else ([t], rest))"

text \<open>The result: the semaphore, the readers granted the lock, the tasks woken.\<close>

definition rwsem_do_wake :: "rw_semaphore \<Rightarrow> bool \<Rightarrow> rw_semaphore \<times> task list \<times> task list" where
  "rwsem_do_wake sem wakewrite =
     (let (t, ty) = hd (wait_list sem)
      in if ty = RWSEM_WAITING_FOR_WRITE then (sem, [], if wakewrite then [t] else [])
         else let (ts, rest) = grant_readers (wait_list sem)
              in (sem\<lparr>wait_list := rest, activity := activity sem + int (length ts)\<rparr>, ts, ts))"

definition rwsem_wake_one_writer :: "rw_semaphore \<Rightarrow> rw_semaphore \<times> task list \<times> task list" where
  "rwsem_wake_one_writer sem = (sem, [], [fst (hd (wait_list sem))])"

text \<open>The flag says whether the lock was granted at once.\<close>

definition down_read :: "rw_semaphore \<Rightarrow> task \<Rightarrow> rw_semaphore \<times> bool" where
  "down_read sem t =
     (if activity sem \<ge> 0 \<and> wait_list sem = [] then (sem\<lparr>activity := activity sem + 1\<rparr>, True)
      else (sem\<lparr>wait_list := wait_list sem @ [(t, RWSEM_WAITING_FOR_READ)]\<rparr>, False))"

definition down_read_trylock :: "rw_semaphore \<Rightarrow> rw_semaphore \<times> bool" where
  "down_read_trylock sem =
     (if activity sem \<ge> 0 \<and> wait_list sem = [] then (sem\<lparr>activity := activity sem + 1\<rparr>, True) else (sem, False))"

text \<open>
  One turn of the loop of \<^verbatim>\<open>__down_write_nested\<close>: the writer takes the lock if nobody holds it, whatever its
  place in the queue, or sleeps.
\<close>

definition down_write_loop :: "rw_semaphore \<Rightarrow> task \<Rightarrow> rw_semaphore \<times> bool" where
  "down_write_loop sem t =
     (if activity sem = 0
      then (sem\<lparr>activity := - 1, wait_list := remove1 (t, RWSEM_WAITING_FOR_WRITE) (wait_list sem)\<rparr>, True)
      else (sem, False))"

definition down_write_nested :: "rw_semaphore \<Rightarrow> task \<Rightarrow> rw_semaphore \<times> bool" where
  "down_write_nested sem t =
     down_write_loop (sem\<lparr>wait_list := wait_list sem @ [(t, RWSEM_WAITING_FOR_WRITE)]\<rparr>) t"

definition down_write :: "rw_semaphore \<Rightarrow> task \<Rightarrow> rw_semaphore \<times> bool" where
  "down_write sem t = down_write_nested sem t"

definition down_write_trylock :: "rw_semaphore \<Rightarrow> rw_semaphore \<times> bool" where
  "down_write_trylock sem = (if activity sem = 0 then (sem\<lparr>activity := - 1\<rparr>, True) else (sem, False))"

definition up_read :: "rw_semaphore \<Rightarrow> rw_semaphore \<times> task list \<times> task list" where
  "up_read sem =
     (let sem = sem\<lparr>activity := activity sem - 1\<rparr>
      in if activity sem = 0 \<and> wait_list sem \<noteq> [] then rwsem_wake_one_writer sem else (sem, [], []))"

definition up_write :: "rw_semaphore \<Rightarrow> rw_semaphore \<times> task list \<times> task list" where
  "up_write sem =
     (let sem = sem\<lparr>activity := 0\<rparr>
      in if wait_list sem \<noteq> [] then rwsem_do_wake sem True else (sem, [], []))"

definition downgrade_write :: "rw_semaphore \<Rightarrow> rw_semaphore \<times> task list \<times> task list" where
  "downgrade_write sem =
     (let sem = sem\<lparr>activity := 1\<rparr>
      in if wait_list sem \<noteq> [] then rwsem_do_wake sem False else (sem, [], []))"

section \<open>The system of tasks\<close>

text \<open>\<open>Read_granted\<close>: the lock has been given to a waiting reader that has not run yet.\<close>

datatype rw_pc = Free | Reading | Writing | Wait_read | Read_granted | Wait_write

record rw_sys =
  rwsem :: rw_semaphore
  pc :: "task \<Rightarrow> rw_pc"
  awake :: "task \<Rightarrow> bool"

definition after_read :: "rw_sys \<Rightarrow> task \<Rightarrow> rw_semaphore \<times> bool \<Rightarrow> rw_sys" where
  "after_read s t r =
     (case r of (sem, ok) \<Rightarrow>
        s\<lparr>rwsem := sem, pc := (pc s)(t := if ok then Reading else Wait_read), awake := (awake s)(t := ok)\<rparr>)"

definition after_write :: "rw_sys \<Rightarrow> task \<Rightarrow> rw_semaphore \<times> bool \<Rightarrow> rw_sys" where
  "after_write s t r =
     (case r of (sem, ok) \<Rightarrow>
        s\<lparr>rwsem := sem, pc := (pc s)(t := if ok then Writing else Wait_write), awake := (awake s)(t := ok)\<rparr>)"

definition try_result :: "rw_sys \<Rightarrow> task \<Rightarrow> rw_pc \<Rightarrow> rw_semaphore \<times> bool \<Rightarrow> rw_sys" where
  "try_result s t p r = (case r of (sem, ok) \<Rightarrow> if ok then s\<lparr>rwsem := sem, pc := (pc s)(t := p)\<rparr> else s)"

definition after_release :: "rw_sys \<Rightarrow> task \<Rightarrow> rw_pc \<Rightarrow> rw_semaphore \<times> task list \<times> task list \<Rightarrow> rw_sys" where
  "after_release s t p r =
     (case r of (sem, granted, woken) \<Rightarrow>
        s\<lparr>rwsem := sem, pc := (\<lambda>u. if u \<in> set granted then Read_granted else if u = t then p else pc s u),
          awake := (\<lambda>u. u \<in> set woken \<or> awake s u)\<rparr>)"

inductive rw_step :: "rw_sys \<Rightarrow> rw_sys \<Rightarrow> bool" where
  down_read: "pc s t = Free \<Longrightarrow> rw_step s (after_read s t (down_read (rwsem s) t))"
| read_granted: "pc s t = Read_granted \<Longrightarrow> awake s t \<Longrightarrow> rw_step s (s\<lparr>pc := (pc s)(t := Reading)\<rparr>)"
| read_again: "pc s t = Wait_read \<Longrightarrow> awake s t \<Longrightarrow> rw_step s (s\<lparr>awake := (awake s)(t := False)\<rparr>)"
| down_write: "pc s t = Free \<Longrightarrow> rw_step s (after_write s t (down_write (rwsem s) t))"
| write_again: "pc s t = Wait_write \<Longrightarrow> awake s t \<Longrightarrow> rw_step s (after_write s t (down_write_loop (rwsem s) t))"
| read_trylock: "pc s t = Free \<Longrightarrow> rw_step s (try_result s t Reading (down_read_trylock (rwsem s)))"
| write_trylock: "pc s t = Free \<Longrightarrow> rw_step s (try_result s t Writing (down_write_trylock (rwsem s)))"
| up_read: "pc s t = Reading \<Longrightarrow> rw_step s (after_release s t Free (up_read (rwsem s)))"
| up_write: "pc s t = Writing \<Longrightarrow> rw_step s (after_release s t Free (up_write (rwsem s)))"
| downgrade: "pc s t = Writing \<Longrightarrow> rw_step s (after_release s t Reading (downgrade_write (rwsem s)))"
| spurious: "rw_step s (s\<lparr>awake := (awake s)(t := True)\<rparr>)"

definition rw_init :: rw_sys where
  "rw_init = \<lparr>rwsem = init_rwsem, pc = (\<lambda>_. Free), awake = (\<lambda>_. True)\<rparr>"

section \<open>The invariant\<close>

definition readers :: "rw_sys \<Rightarrow> task set" where
  "readers s = {t. pc s t = Reading \<or> pc s t = Read_granted}"

definition writers :: "rw_sys \<Rightarrow> task set" where
  "writers s = {t. pc s t = Writing}"

text \<open>\<open>activity\<close> counts the holders, of which there is one writer or any number of readers.\<close>

definition holders_ok :: "rw_sys \<Rightarrow> bool" where
  "holders_ok s \<longleftrightarrow>
     (activity (rwsem s) = - 1 \<and> readers s = {} \<and> (\<exists>t. writers s = {t})) \<or>
     (writers s = {} \<and> finite (readers s) \<and> activity (rwsem s) = int (card (readers s)))"

text \<open>The list holds the waiting tasks, each once.\<close>

definition list_ok :: "rw_sys \<Rightarrow> bool" where
  "list_ok s \<longleftrightarrow> distinct (map fst (wait_list (rwsem s))) \<and>
     (\<forall>t. ((t, RWSEM_WAITING_FOR_READ) \<in> set (wait_list (rwsem s)) \<longleftrightarrow> pc s t = Wait_read) \<and>
          ((t, RWSEM_WAITING_FOR_WRITE) \<in> set (wait_list (rwsem s)) \<longleftrightarrow> pc s t = Wait_write))"

text \<open>When no writer holds the lock, the queue is led by a writer; when nobody does, that writer is awake.\<close>

definition front_ok :: "rw_sys \<Rightarrow> bool" where
  "front_ok s \<longleftrightarrow>
     (activity (rwsem s) \<ge> 0 \<and> wait_list (rwsem s) \<noteq> [] \<longrightarrow> snd (hd (wait_list (rwsem s))) = RWSEM_WAITING_FOR_WRITE) \<and>
     (activity (rwsem s) = 0 \<and> wait_list (rwsem s) \<noteq> [] \<longrightarrow> awake s (fst (hd (wait_list (rwsem s))))) \<and>
     (\<forall>t. pc s t = Read_granted \<longrightarrow> awake s t)"

definition rw_inv :: "rw_sys \<Rightarrow> bool" where
  "rw_inv s \<longleftrightarrow> holders_ok s \<and> list_ok s \<and> front_ok s"

lemma free_not_listed: "list_ok s \<Longrightarrow> pc s t \<noteq> Wait_read \<Longrightarrow> pc s t \<noteq> Wait_write \<Longrightarrow> t \<notin> fst ` set (wait_list (rwsem s))"
proof
  assume ok: "list_ok s" and n: "pc s t \<noteq> Wait_read" "pc s t \<noteq> Wait_write" and "t \<in> fst ` set (wait_list (rwsem s))"
  then obtain ty where "(t, ty) \<in> set (wait_list (rwsem s))" by auto
  with ok n show False by (cases ty) (auto simp: list_ok_def)
qed

lemma activity_nonneg:
  "holders_ok s \<Longrightarrow> activity (rwsem s) \<ge> 0 \<Longrightarrow> writers s = {} \<and> finite (readers s) \<and> activity (rwsem s) = int (card (readers s))"
  by (auto simp: holders_ok_def)

lemma activity_writing: "holders_ok s \<Longrightarrow> pc s t = Writing \<Longrightarrow> activity (rwsem s) = - 1 \<and> readers s = {} \<and> writers s = {t}"
proof -
  assume h: "holders_ok s" and "pc s t = Writing"
  then have t: "t \<in> writers s" by (simp add: writers_def)
  with h obtain u where "activity (rwsem s) = - 1" "readers s = {}" "writers s = {u}" by (auto simp: holders_ok_def)
  with t show ?thesis by auto
qed

lemma activity_reading:
  "holders_ok s \<Longrightarrow> t \<in> readers s \<Longrightarrow> writers s = {} \<and> finite (readers s) \<and> activity (rwsem s) = int (card (readers s))"
  by (auto simp: holders_ok_def)

lemma read_acquire_inv:
  assumes inv: "rw_inv s" and t: "pc s t = Free" and a: "activity (rwsem s) \<ge> 0" "wait_list (rwsem s) = []"
    and s': "rwsem s' = (rwsem s)\<lparr>activity := activity (rwsem s) + 1\<rparr>" "pc s' = (pc s)(t := Reading)"
      "\<And>u. u \<noteq> t \<Longrightarrow> awake s' u = awake s u"
  shows "rw_inv s'"
proof -
  have h: "writers s = {}" "finite (readers s)" "activity (rwsem s) = int (card (readers s))"
    using inv activity_nonneg [OF _ a(1)] by (auto simp: rw_inv_def)
  have "t \<notin> readers s" "readers s' = insert t (readers s)" "writers s' = writers s"
    using t s' by (auto simp: readers_def writers_def)
  then have "holders_ok s'" using h s'(1) by (simp add: holders_ok_def)
  moreover have "list_ok s'" using inv t a s' by (auto simp: rw_inv_def list_ok_def)
  moreover have "front_ok s'" using inv a s' by (auto simp: rw_inv_def front_ok_def)
  ultimately show ?thesis by (simp add: rw_inv_def)
qed

text \<open>Steps that leave the holders alone.\<close>

lemma holders_cong:
  assumes "holders_ok s" "readers s' = readers s" "writers s' = writers s" "activity (rwsem s') = activity (rwsem s)"
  shows "holders_ok s'"
  using assms by (simp add: holders_ok_def)

lemma enqueue_read_inv:
  assumes inv: "rw_inv s" and t: "pc s t = Free" and a: "\<not> (activity (rwsem s) \<ge> 0 \<and> wait_list (rwsem s) = [])"
  shows "rw_inv (s\<lparr>rwsem := (rwsem s)\<lparr>wait_list := wait_list (rwsem s) @ [(t, RWSEM_WAITING_FOR_READ)]\<rparr>,
    pc := (pc s)(t := Wait_read), awake := (awake s)(t := False)\<rparr>)" (is "rw_inv ?s")
proof -
  have nl: "t \<notin> fst ` set (wait_list (rwsem s))" using free_not_listed [of s t] inv t by (simp add: rw_inv_def)
  have "readers ?s = readers s" "writers ?s = writers s" using t by (auto simp: readers_def writers_def)
  then have "holders_ok ?s" using inv by (auto simp: rw_inv_def elim!: holders_cong)
  moreover have "list_ok ?s" using inv t nl by (auto simp: rw_inv_def list_ok_def)
  moreover have "front_ok ?s"
    using inv a nl by (cases "wait_list (rwsem s)") (auto simp: rw_inv_def front_ok_def)
  ultimately show ?thesis by (simp add: rw_inv_def)
qed

lemma enqueue_write_inv:
  assumes inv: "rw_inv s" and t: "pc s t = Free" and a: "activity (rwsem s) \<noteq> 0"
  shows "rw_inv (s\<lparr>rwsem := (rwsem s)\<lparr>wait_list := wait_list (rwsem s) @ [(t, RWSEM_WAITING_FOR_WRITE)]\<rparr>,
    pc := (pc s)(t := Wait_write), awake := (awake s)(t := False)\<rparr>)" (is "rw_inv ?s")
proof -
  have nl: "t \<notin> fst ` set (wait_list (rwsem s))" using free_not_listed [of s t] inv t by (simp add: rw_inv_def)
  have "readers ?s = readers s" "writers ?s = writers s" using t by (auto simp: readers_def writers_def)
  then have "holders_ok ?s" using inv by (auto simp: rw_inv_def elim!: holders_cong)
  moreover have "list_ok ?s" using inv t nl by (auto simp: rw_inv_def list_ok_def)
  moreover have "front_ok ?s"
    using inv a nl by (cases "wait_list (rwsem s)") (auto simp: rw_inv_def front_ok_def)
  ultimately show ?thesis by (simp add: rw_inv_def)
qed

lemma distinct_fst_remove1: "distinct (map fst xs) \<Longrightarrow> distinct (map fst (remove1 x xs))"
  by (induction xs) (auto dest: subsetD [OF set_remove1_subset])

lemma write_acquire_inv:
  assumes inv: "rw_inv s" and t: "pc s t = Free \<or> pc s t = Wait_write" and a: "activity (rwsem s) = 0"
    and s': "rwsem s' = (rwsem s)\<lparr>activity := - 1, wait_list := remove1 (t, RWSEM_WAITING_FOR_WRITE) (wait_list (rwsem s))\<rparr>"
      "pc s' = (pc s)(t := Writing)" "\<And>u. u \<noteq> t \<Longrightarrow> awake s' u = awake s u"
  shows "rw_inv s'"
proof -
  have h: "writers s = {}" "readers s = {}"
    using inv activity_nonneg [of s] a by (auto simp: rw_inv_def)
  have "readers s' = {}" "writers s' = {t}" using h t s'(2) by (auto simp: readers_def writers_def split: if_splits)
  then have "holders_ok s'" using s'(1) by (simp add: holders_ok_def)
  moreover have d: "distinct (wait_list (rwsem s))" using inv by (auto simp: rw_inv_def list_ok_def distinct_map)
  have "list_ok s'"
    using inv t s'(1,2) d by (auto simp: rw_inv_def list_ok_def distinct_fst_remove1 set_remove1_eq)
  moreover have "front_ok s'" using inv s' by (auto simp: rw_inv_def front_ok_def)
  ultimately show ?thesis by (simp add: rw_inv_def)
qed

lemma down_write_loop_inv:
  assumes inv: "rw_inv s" and t: "pc s t = Wait_write"
  shows "rw_inv (after_write s t (down_write_loop (rwsem s) t))"
proof (cases "activity (rwsem s) = 0")
  case True
  then show ?thesis
    using t by (intro write_acquire_inv [OF inv, of t]) (auto simp: after_write_def down_write_loop_def)
next
  case False
  have "holders_ok (s\<lparr>awake := (awake s)(t := False)\<rparr>)"
    by (rule holders_cong [of s]) (use inv in \<open>simp_all add: rw_inv_def readers_def writers_def\<close>)
  then have "rw_inv (s\<lparr>awake := (awake s)(t := False)\<rparr>)"
    using inv False t by (auto simp: rw_inv_def list_ok_def front_ok_def)
  then show ?thesis using False t by (simp add: after_write_def down_write_loop_def fun_upd_idem)
qed

lemma down_write_inv:
  assumes inv: "rw_inv s" and t: "pc s t = Free"
  shows "rw_inv (after_write s t (down_write (rwsem s) t))"
proof (cases "activity (rwsem s) = 0")
  case True
  have "(t, RWSEM_WAITING_FOR_WRITE) \<notin> set (wait_list (rwsem s))" using inv t by (auto simp: rw_inv_def list_ok_def)
  then show ?thesis
    using True t
    by (intro write_acquire_inv [OF inv, of t])
      (auto simp: after_write_def down_write_def down_write_nested_def down_write_loop_def remove1_append remove1_idem)
next
  case False
  then show ?thesis
    using enqueue_write_inv [OF inv t False]
    by (simp add: after_write_def down_write_def down_write_nested_def down_write_loop_def)
qed

lemma down_read_inv:
  assumes "rw_inv s" "pc s t = Free"
  shows "rw_inv (after_read s t (down_read (rwsem s) t))"
  using enqueue_read_inv [OF assms] read_acquire_inv [OF assms]
  by (auto simp: after_read_def down_read_def)

lemma trylocks_inv:
  assumes inv: "rw_inv s" and t: "pc s t = Free"
  shows "rw_inv (try_result s t Reading (down_read_trylock (rwsem s)))"
    and "rw_inv (try_result s t Writing (down_write_trylock (rwsem s)))"
proof -
  show "rw_inv (try_result s t Reading (down_read_trylock (rwsem s)))"
    using inv read_acquire_inv [OF assms] by (auto simp: try_result_def down_read_trylock_def)
  have "(t, RWSEM_WAITING_FOR_WRITE) \<notin> set (wait_list (rwsem s))" using inv t by (auto simp: rw_inv_def list_ok_def)
  then show "rw_inv (try_result s t Writing (down_write_trylock (rwsem s)))"
    using inv t write_acquire_inv [OF inv, of t]
    by (auto simp: try_result_def down_write_trylock_def remove1_idem)
qed

lemma grant_readers_eq:
  "xs \<noteq> [] \<Longrightarrow> snd (hd xs) = RWSEM_WAITING_FOR_READ \<Longrightarrow> grant_readers xs = (ts, rest) \<Longrightarrow>
    xs = map (\<lambda>t. (t, RWSEM_WAITING_FOR_READ)) ts @ rest \<and> ts \<noteq> [] \<and>
    (rest \<noteq> [] \<longrightarrow> snd (hd rest) = RWSEM_WAITING_FOR_WRITE)"
proof (induction xs arbitrary: ts rest rule: grant_readers.induct)
  case (2 t ty xs)
  show ?case
  proof (cases xs)
    case Nil
    with 2 show ?thesis by auto
  next
    case (Cons x ys)
    obtain u ty' where x: "x = (u, ty')" by (cases x)
    show ?thesis
    proof (cases "ty' = RWSEM_WAITING_FOR_WRITE")
      case True
      with 2 Cons x show ?thesis by auto
    next
      case False
      then have r: "ty' = RWSEM_WAITING_FOR_READ" by (cases ty') auto
      obtain ts' rest' where g: "grant_readers xs = (ts', rest')" by fastforce
      with 2 Cons x False have "ts = t # ts'" "rest = rest'" by auto
      moreover have "xs = map (\<lambda>t. (t, RWSEM_WAITING_FOR_READ)) ts' @ rest' \<and> ts' \<noteq> [] \<and>
          (rest' \<noteq> [] \<longrightarrow> snd (hd rest') = RWSEM_WAITING_FOR_WRITE)"
        using "2.IH" [OF Cons x [symmetric] _ _ _ g] False r Cons x by simp
      ultimately show ?thesis using "2.prems" by auto
    qed
  qed
qed simp

lemma up_read_inv:
  assumes inv: "rw_inv s" and t: "pc s t = Reading"
  shows "rw_inv (after_release s t Free (up_read (rwsem s)))" (is "rw_inv ?s")
proof -
  let ?l = "wait_list (rwsem s)"
  have mem: "t \<in> readers s" using t by (simp add: readers_def)
  have h: "writers s = {}" "finite (readers s)" "activity (rwsem s) = int (card (readers s))"
    using activity_reading [OF _ mem] inv by (auto simp: rw_inv_def)
  have c: "card (readers s) = card (readers s - {t}) + 1" using h(2) mem card_Suc_Diff1 by fastforce
  have pcs: "pc ?s = (pc s)(t := Free)" "wait_list (rwsem ?s) = ?l" "activity (rwsem ?s) = activity (rwsem s) - 1"
    by (auto simp: after_release_def up_read_def rwsem_wake_one_writer_def Let_def fun_eq_iff)
  have "readers ?s = readers s - {t}" "writers ?s = {}" using pcs(1) h(1) by (auto simp: readers_def writers_def)
  then have "holders_ok ?s" using h c pcs(3) by (simp add: holders_ok_def)
  moreover have "list_ok ?s" using inv t pcs by (auto simp: rw_inv_def list_ok_def)
  moreover have "awake ?s u" if "awake s u \<or> activity (rwsem s) - 1 = 0 \<and> ?l \<noteq> [] \<and> u = fst (hd ?l)" for u
    using that by (auto simp: after_release_def up_read_def rwsem_wake_one_writer_def Let_def)
  then have "front_ok ?s" using inv h(3) c pcs by (auto simp: rw_inv_def front_ok_def)
  ultimately show ?thesis by (simp add: rw_inv_def)
qed

text \<open>A writer that leaves (\<open>b = 0\<close>) or becomes a reader (\<open>b = 1\<close>), with a queue led by a writer or empty.\<close>

lemma writer_leaves_inv:
  assumes inv: "rw_inv s" and t: "pc s t = Writing" and b: "b = 0 \<and> p = Free \<or> b = 1 \<and> p = Reading"
    and l: "wait_list (rwsem s) = [] \<or> snd (hd (wait_list (rwsem s))) = RWSEM_WAITING_FOR_WRITE"
    and w: "b = 0 \<longrightarrow> wait_list (rwsem s) \<noteq> [] \<longrightarrow> fst (hd (wait_list (rwsem s))) \<in> set woken"
  shows "rw_inv (after_release s t p ((rwsem s)\<lparr>activity := b\<rparr>, [], woken))" (is "rw_inv ?s")
proof -
  have h: "readers s = {}" "writers s = {t}" using activity_writing [OF _ t] inv by (auto simp: rw_inv_def)
  have "readers ?s = (if b = 0 then {} else {t})" "writers ?s = {}"
    using h b by (auto simp: after_release_def readers_def writers_def)
  then have "holders_ok ?s" using b by (auto simp: holders_ok_def after_release_def)
  moreover have "list_ok ?s" using inv t b by (auto simp: rw_inv_def list_ok_def after_release_def)
  moreover have "front_ok ?s" using inv l w b by (auto simp: rw_inv_def front_ok_def after_release_def)
  ultimately show ?thesis by (simp add: rw_inv_def)
qed

text \<open>The same with readers at the front of the queue, who are all granted the lock.\<close>

lemma writer_grants_inv:
  assumes inv: "rw_inv s" and t: "pc s t = Writing" and b: "b = 0 \<and> p = Free \<or> b = 1 \<and> p = Reading"
    and l: "wait_list (rwsem s) = map (\<lambda>t. (t, RWSEM_WAITING_FOR_READ)) ts @ rest" "ts \<noteq> []"
      "rest \<noteq> [] \<longrightarrow> snd (hd rest) = RWSEM_WAITING_FOR_WRITE"
  shows "rw_inv (after_release s t p ((rwsem s)\<lparr>activity := b + int (length ts), wait_list := rest\<rparr>, ts, ts))" (is "rw_inv ?s")
proof -
  have h: "readers s = {}" "writers s = {t}" using activity_writing [OF _ t] inv by (auto simp: rw_inv_def)
  have ok: "list_ok s" using inv by (simp add: rw_inv_def)
  then have d: "distinct (ts @ map fst rest)" unfolding list_ok_def l(1) by (simp add: comp_def)
  have wr: "pc s u = Wait_read" if "u \<in> set ts" for u using ok that l(1) by (auto simp: list_ok_def)
  then have nt: "t \<notin> set ts" using t by auto
  have "readers ?s = (if b = 0 then set ts else insert t (set ts))" "writers ?s = {}"
    using h b nt by (auto simp: after_release_def readers_def writers_def)
  moreover have "card (set ts) = length ts" using d by (simp add: distinct_card)
  ultimately have "holders_ok ?s" using b nt by (auto simp: holders_ok_def after_release_def)
  moreover have "list_ok ?s"
    unfolding list_ok_def
  proof (intro conjI allI)
    show "distinct (map fst (wait_list (rwsem ?s)))" using d by (simp add: after_release_def)
    fix u
    have r: "u \<notin> set ts" if "(u, ty) \<in> set rest" for ty using d that by force
    have "((u, RWSEM_WAITING_FOR_READ) \<in> set rest \<or> u \<in> set ts) = (pc s u = Wait_read)"
      and "((u, RWSEM_WAITING_FOR_WRITE) \<in> set rest) = (pc s u = Wait_write)"
      using ok unfolding list_ok_def l(1) by auto
    then show "((u, RWSEM_WAITING_FOR_READ) \<in> set (wait_list (rwsem ?s))) = (pc ?s u = Wait_read)"
      and "((u, RWSEM_WAITING_FOR_WRITE) \<in> set (wait_list (rwsem ?s))) = (pc ?s u = Wait_write)"
      using t b r wr by (auto simp: after_release_def)
  qed
  moreover have "front_ok ?s" using inv l(2,3) b by (auto simp: rw_inv_def front_ok_def after_release_def)
  ultimately show ?thesis by (simp add: rw_inv_def)
qed

lemma do_wake_inv:
  assumes inv: "rw_inv s" and t: "pc s t = Writing" and b: "b = 0 \<and> p = Free \<or> b = 1 \<and> p = Reading"
    and ne: "wait_list (rwsem s) \<noteq> []"
  shows "rw_inv (after_release s t p (rwsem_do_wake ((rwsem s)\<lparr>activity := b\<rparr>) (b = 0)))"
proof (cases "snd (hd (wait_list (rwsem s))) = RWSEM_WAITING_FOR_WRITE")
  case True
  then have "rwsem_do_wake ((rwsem s)\<lparr>activity := b\<rparr>) (b = 0) =
      ((rwsem s)\<lparr>activity := b\<rparr>, [], if b = 0 then [fst (hd (wait_list (rwsem s)))] else [])"
    by (auto simp: rwsem_do_wake_def split: prod.splits)
  then show ?thesis using writer_leaves_inv [OF inv t b] True by simp
next
  case False
  then have rd: "snd (hd (wait_list (rwsem s))) = RWSEM_WAITING_FOR_READ"
    by (cases "snd (hd (wait_list (rwsem s)))") auto
  obtain ts rest where g: "grant_readers (wait_list (rwsem s)) = (ts, rest)" by fastforce
  have "rwsem_do_wake ((rwsem s)\<lparr>activity := b\<rparr>) (b = 0) =
      ((rwsem s)\<lparr>activity := b + int (length ts), wait_list := rest\<rparr>, ts, ts)"
    using rd g by (auto simp: rwsem_do_wake_def split: prod.splits)
  then show ?thesis using writer_grants_inv [OF inv t b] grant_readers_eq [OF ne rd g] by simp
qed

lemma release_write_inv:
  assumes "rw_inv s" "pc s t = Writing"
  shows "rw_inv (after_release s t Free (up_write (rwsem s)))"
    and "rw_inv (after_release s t Reading (downgrade_write (rwsem s)))"
proof -
  show "rw_inv (after_release s t Free (up_write (rwsem s)))"
    using do_wake_inv [OF assms, of 0 Free] writer_leaves_inv [OF assms, of 0 Free "[]"]
    by (cases "wait_list (rwsem s) = []") (simp_all add: up_write_def Let_def)
  show "rw_inv (after_release s t Reading (downgrade_write (rwsem s)))"
    using do_wake_inv [OF assms, of 1 Reading] writer_leaves_inv [OF assms, of 1 Reading "[]"]
    by (cases "wait_list (rwsem s) = []") (simp_all add: downgrade_write_def Let_def)
qed

lemma wake_steps_inv:
  "rw_inv s \<Longrightarrow> pc s t = Read_granted \<Longrightarrow> rw_inv (s\<lparr>pc := (pc s)(t := Reading)\<rparr>)"
  "rw_inv s \<Longrightarrow> rw_inv (s\<lparr>awake := (awake s)(t := True)\<rparr>)"
proof -
  assume inv: "rw_inv s" and t: "pc s t = Read_granted"
  have "holders_ok (s\<lparr>pc := (pc s)(t := Reading)\<rparr>)"
    by (rule holders_cong [of s]) (use inv t in \<open>auto simp: rw_inv_def readers_def writers_def\<close>)
  then show "rw_inv (s\<lparr>pc := (pc s)(t := Reading)\<rparr>)"
    using inv t by (auto simp: rw_inv_def list_ok_def front_ok_def)
next
  assume inv: "rw_inv s"
  have "holders_ok (s\<lparr>awake := (awake s)(t := True)\<rparr>)"
    by (rule holders_cong [of s]) (use inv in \<open>simp_all add: rw_inv_def readers_def writers_def\<close>)
  then show "rw_inv (s\<lparr>awake := (awake s)(t := True)\<rparr>)"
    using inv by (auto simp: rw_inv_def list_ok_def front_ok_def)
qed

lemma read_again_inv:
  assumes inv: "rw_inv s" and t: "pc s t = Wait_read"
  shows "rw_inv (s\<lparr>awake := (awake s)(t := False)\<rparr>)"
proof -
  let ?l = "wait_list (rwsem s)"
  have "holders_ok (s\<lparr>awake := (awake s)(t := False)\<rparr>)"
    by (rule holders_cong [of s]) (use inv in \<open>simp_all add: rw_inv_def readers_def writers_def\<close>)
  moreover have "t \<noteq> fst (hd ?l)" if "activity (rwsem s) = 0" "?l \<noteq> []"
  proof -
    have "snd (hd ?l) = RWSEM_WAITING_FOR_WRITE" using inv that by (auto simp: rw_inv_def front_ok_def)
    then have "(fst (hd ?l), RWSEM_WAITING_FOR_WRITE) \<in> set ?l" using that(2) by (metis hd_in_set prod.collapse)
    then have "pc s (fst (hd ?l)) = Wait_write" using inv by (auto simp: rw_inv_def list_ok_def)
    with t show ?thesis by auto
  qed
  ultimately show ?thesis using inv t by (auto simp: rw_inv_def list_ok_def front_ok_def)
qed

interpretation rw: transition_system rw_step rw_inv
proof
  fix s s'
  assume "rw_step s s'" "rw_inv s"
  then show "rw_inv s'"
    by (induction rule: rw_step.induct)
      (simp_all add: down_read_inv down_write_inv down_write_loop_inv trylocks_inv up_read_inv release_write_inv
        wake_steps_inv read_again_inv)
qed

lemma rw_init_inv: "rw_inv rw_init"
  by (simp add: rw_inv_def holders_ok_def list_ok_def front_ok_def rw_init_def init_rwsem_def readers_def writers_def)

text \<open>
  C2. In every reachable state of a reader/writer semaphore at most one task holds it for writing, no task
  holds it for reading at the same time, and the activity counter is the number of readers that hold
  it or have been granted it, or -1 exactly when a writer holds it.
\<close>

theorem rwsem_exclusion:
  assumes "rw_step\<^sup>*\<^sup>* rw_init s"
  shows "(pc s t = Writing \<longrightarrow> (\<forall>u. u \<noteq> t \<longrightarrow> pc s u \<notin> {Reading, Writing, Read_granted})) \<and>
    (activity (rwsem s) = - 1 \<longleftrightarrow> (\<exists>u. pc s u = Writing)) \<and>
    (activity (rwsem s) \<noteq> - 1 \<longrightarrow> activity (rwsem s) = int (card {u. pc s u = Reading \<or> pc s u = Read_granted}))"
proof -
  have h: "holders_ok s" using rw.reach_inv [OF assms rw_init_inv] by (simp add: rw_inv_def)
  have "pc s u \<notin> {Reading, Writing, Read_granted}" if "pc s t = Writing" "u \<noteq> t" for u
    using activity_writing [OF h that(1)] that(2) by (auto simp: readers_def writers_def)
  moreover have "activity (rwsem s) = - 1 \<longleftrightarrow> (\<exists>u. pc s u = Writing)"
    using h activity_writing [OF h] by (auto simp: holders_ok_def writers_def)
  moreover have "activity (rwsem s) \<noteq> - 1 \<longrightarrow> activity (rwsem s) = int (card {u. pc s u = Reading \<or> pc s u = Read_granted})"
    using h by (auto simp: holders_ok_def readers_def)
  ultimately show ?thesis by blast
qed

text \<open>A reader and a waiting writer.\<close>

definition demo_rw :: rw_sys where
  "demo_rw = after_write (after_read rw_init 1 (down_read init_rwsem 1)) 2 (down_write (rwsem (after_read rw_init 1 (down_read init_rwsem 1))) 2)"

lemma demo_rw_reachable: "rw_step\<^sup>*\<^sup>* rw_init demo_rw"
proof -
  let ?s = "after_read rw_init 1 (down_read init_rwsem 1)"
  have "rw_step rw_init ?s" using rw_step.down_read [of rw_init 1] by (simp add: rw_init_def)
  moreover have "pc ?s 2 = Free" by (simp add: after_read_def rw_init_def down_read_def init_rwsem_def)
  then have "rw_step ?s demo_rw" unfolding demo_rw_def by (rule rw_step.down_write)
  ultimately show ?thesis by auto
qed

lemma demo_rw_eval:
  "pc demo_rw 1 = Reading" "pc demo_rw 2 = Wait_write" "activity (rwsem demo_rw) = 1" "wait_list (rwsem demo_rw) = [(2, RWSEM_WAITING_FOR_WRITE)]"
  by (simp_all add: demo_rw_def after_write_def after_read_def rw_init_def down_read_def init_rwsem_def
      down_write_def down_write_nested_def down_write_loop_def)

theorem rwsem_exclusion_witness:
  "activity (rwsem demo_rw) = int (card {u. pc demo_rw u = Reading \<or> pc demo_rw u = Read_granted}) \<and> activity (rwsem demo_rw) = 1"
  using rwsem_exclusion [OF demo_rw_reachable] demo_rw_eval(3) by simp

text \<open>
  C19. No wake-up is lost: whenever a task waits in a reachable state, some task holds the lock (or has
  been granted it and is awake), or the task at the head of the queue is a writer that is awake and
  obtains the lock if it runs next.
\<close>

theorem rwsem_no_lost_wakeup:
  assumes "rw_step\<^sup>*\<^sup>* rw_init s" "pc s w \<in> {Wait_read, Wait_write}"
  shows "(\<exists>u. pc s u \<in> {Reading, Writing}) \<or> (\<exists>u. pc s u = Read_granted \<and> awake s u) \<or>
    (\<exists>u rest. wait_list (rwsem s) = (u, RWSEM_WAITING_FOR_WRITE) # rest \<and> pc s u = Wait_write \<and> awake s u \<and>
       pc (after_write s u (down_write_loop (rwsem s) u)) u = Writing)"
proof -
  let ?l = "wait_list (rwsem s)"
  have inv: "holders_ok s" "list_ok s" "front_ok s"
    using rw.reach_inv [OF assms(1) rw_init_inv] by (simp_all add: rw_inv_def)
  have ne: "?l \<noteq> []" using assms(2) inv(2) by (auto simp: list_ok_def)
  show ?thesis
  proof (cases "activity (rwsem s) = 0")
    case False
    then have "readers s \<noteq> {} \<or> writers s \<noteq> {}" using inv(1) by (auto simp: holders_ok_def)
    then show ?thesis using inv(3) by (auto simp: readers_def writers_def front_ok_def)
  next
    case True
    let ?u = "fst (hd ?l)"
    have "snd (hd ?l) = RWSEM_WAITING_FOR_WRITE" "awake s ?u" using inv(3) True ne by (auto simp: front_ok_def)
    then have l: "?l = (?u, RWSEM_WAITING_FOR_WRITE) # tl ?l" using ne by (metis list.collapse prod.collapse)
    then have "(?u, RWSEM_WAITING_FOR_WRITE) \<in> set ?l" by (metis list.set_intros(1))
    then have "pc s ?u = Wait_write" using inv(2) by (auto simp: list_ok_def)
    moreover have "pc (after_write s ?u (down_write_loop (rwsem s) ?u)) ?u = Writing"
      using True by (simp add: after_write_def down_write_loop_def)
    ultimately show ?thesis using \<open>awake s ?u\<close> l by blast
  qed
qed

text \<open>The reader of the example releases the lock: the writer at the head of the queue is woken.\<close>

theorem rwsem_no_lost_wakeup_witness:
  "\<exists>s. rw_step\<^sup>*\<^sup>* rw_init s \<and> wait_list (rwsem s) = [(2, RWSEM_WAITING_FOR_WRITE)] \<and> awake s 2 \<and>
     pc (after_write s 2 (down_write_loop (rwsem s) 2)) 2 = Writing"
proof -
  define s where "s = after_release demo_rw 1 Free (up_read (rwsem demo_rw))"
  have "rw_step demo_rw s" unfolding s_def by (rule rw_step.up_read) (rule demo_rw_eval(1))
  with demo_rw_reachable have r: "rw_step\<^sup>*\<^sup>* rw_init s" by (rule rtranclp.rtrancl_into_rtrancl)
  have w: "wait_list (rwsem s) = [(2, RWSEM_WAITING_FOR_WRITE)]" "pc s = (pc demo_rw)(1 := Free)"
    by (auto simp: s_def after_release_def up_read_def rwsem_wake_one_writer_def demo_rw_eval Let_def)
  have "pc s u \<notin> {Reading, Writing, Read_granted}" for u
    unfolding w(2) by (simp add: demo_rw_def after_write_def after_read_def rw_init_def down_read_def init_rwsem_def
        down_write_def down_write_nested_def down_write_loop_def)
  moreover have "pc s 2 \<in> {Wait_read, Wait_write}" using w(2) demo_rw_eval(2) by simp
  ultimately show ?thesis using rwsem_no_lost_wakeup [OF r, of 2] r w(1) by auto
qed

end
