(* ===== verification/Completion.thy ===== *)
theory Completion
  imports Semaphore
begin

text \<open>
  Wait queues (\<^verbatim>\<open>sched/wait.c\<close>, the wake-up) and completions (\<^verbatim>\<open>sched/completion.c\<close>).

  The sections of \<^verbatim>\<open>do_wait_for_common\<close> under the queue's lock are \<open>wait_enter\<close> (up to the first sleep) and
  \<open>wait_resume\<close> (from one return of the sleep to the next). \<open>done\<close> is an unsigned int and wraps. A task is
  asleep or awake; a wake-up succeeds on a sleeping task only. The step relation \<open>co_step\<close> interleaves
  waiters and completers, with spurious wake-ups, timeouts and signals.
\<close>

section \<open>Wait queues\<close>

text \<open>
  Entries are tasks with their exclusive flag, in queue order; \<open>wakes t\<close> is the result of the entry's wake
  function. The result is the list of the tasks woken.
\<close>

fun wake_up_common :: "(task \<Rightarrow> bool) \<Rightarrow> int \<Rightarrow> (task \<times> bool) list \<Rightarrow> task list" where
  "wake_up_common wakes nr_exclusive [] = []"
| "wake_up_common wakes nr_exclusive ((t, excl) # rest) =
     (if wakes t then
        if excl then
          if nr_exclusive - 1 = 0 then [t] else t # wake_up_common wakes (nr_exclusive - 1) rest
        else t # wake_up_common wakes nr_exclusive rest
      else wake_up_common wakes nr_exclusive rest)"

definition wake_up_locked :: "(task \<Rightarrow> bool) \<Rightarrow> int \<Rightarrow> (task \<times> bool) list \<Rightarrow> task list" where
  "wake_up_locked wakes nr q = wake_up_common wakes nr q"

lemma wake_up_subset: "set (wake_up_common wakes nr q) \<subseteq> {t. wakes t \<and> t \<in> fst ` set q}"
  by (induction wakes nr q rule: wake_up_common.induct) (auto split: if_splits)

lemma wake_up_all: "nr \<le> 0 \<Longrightarrow> wake_up_common wakes nr q = filter wakes (map fst q)"
  by (induction wakes nr q rule: wake_up_common.induct) auto

lemma wake_up_one:
  "\<forall>(t, excl) \<in> set q. excl \<Longrightarrow> wake_up_common wakes 1 q = (case filter wakes (map fst q) of [] \<Rightarrow> [] | t # _ \<Rightarrow> [t])"
  by (induction q) auto

section \<open>Completions\<close>

record completion =
  done_count :: u32
  wait_queue :: "task list"
  asleep :: "task \<Rightarrow> bool"

text \<open>All waiters of a completion are exclusive.\<close>

definition wake :: "int \<Rightarrow> completion \<Rightarrow> completion" where
  "wake nr x =
     (let woken = wake_up_locked (asleep x) nr (map (\<lambda>t. (t, True)) (wait_queue x))
      in x\<lparr>asleep := (\<lambda>t. asleep x t \<and> t \<notin> set woken)\<rparr>)"

definition complete :: "completion \<Rightarrow> completion" where
  "complete x = wake 1 (x\<lparr>done_count := done_count x + 1\<rparr>)"

definition UINT_MAX :: u32 where
  "UINT_MAX = - 1"

definition complete_all :: "completion \<Rightarrow> completion" where
  "complete_all x = wake 0 (x\<lparr>done_count := done_count x + UINT_MAX div 2\<rparr>)"

datatype wait_outcome = Value int | Waits int

text \<open>\<open>timeout ?: 1\<close>\<close>

definition at_least_1 :: "int \<Rightarrow> int" where
  "at_least_1 timeout = (if timeout = 0 then 1 else timeout)"

text \<open>What follows the loop: leave the queue and take the completion if there is one.\<close>

definition wait_leave :: "completion \<Rightarrow> task \<Rightarrow> int \<Rightarrow> completion \<times> wait_outcome" where
  "wait_leave x t timeout =
     (let x = x\<lparr>wait_queue := remove1 t (wait_queue x)\<rparr>
      in if done_count x = 0 then (x, Value timeout)
         else (x\<lparr>done_count := done_count x - 1\<rparr>, Value (at_least_1 timeout)))"

abbreviation (input) ERESTARTSYS_val :: int where
  "ERESTARTSYS_val \<equiv> 512"

definition wait_turn :: "completion \<Rightarrow> task \<Rightarrow> bool \<Rightarrow> int \<Rightarrow> completion \<times> wait_outcome" where
  "wait_turn x t pending timeout =
     (if pending then wait_leave x t (- ERESTARTSYS_val)
      else (x\<lparr>asleep := (asleep x)(t := True)\<rparr>, Waits timeout))"

definition wait_enter :: "completion \<Rightarrow> task \<Rightarrow> bool \<Rightarrow> int \<Rightarrow> completion \<times> wait_outcome" where
  "wait_enter x t pending timeout =
     (if done_count x = 0 then wait_turn (x\<lparr>wait_queue := wait_queue x @ [t]\<rparr>) t pending timeout
      else (x\<lparr>done_count := done_count x - 1\<rparr>, Value (at_least_1 timeout)))"

definition wait_resume :: "completion \<Rightarrow> task \<Rightarrow> bool \<Rightarrow> int \<Rightarrow> completion \<times> wait_outcome" where
  "wait_resume x t pending timeout =
     (if done_count x = 0 \<and> timeout \<noteq> 0 then wait_turn x t pending timeout else wait_leave x t timeout)"

text \<open>
  The public calls, up to their first sleep. They differ in the state and the timeout they pass (which
  decide what \<open>pending\<close> and the time left can be), and in what they make of the value: the interruptible
  and killable ones without a timeout return \<open>- 512\<close> or 0.
\<close>

definition wait_for_completion :: "int \<Rightarrow> completion \<Rightarrow> task \<Rightarrow> bool \<Rightarrow> completion \<times> wait_outcome" where
  "wait_for_completion forever x t pending = wait_enter x t pending forever"

definition wait_for_completion_timeout :: "completion \<Rightarrow> task \<Rightarrow> bool \<Rightarrow> int \<Rightarrow> completion \<times> wait_outcome" where
  "wait_for_completion_timeout x t pending timeout = wait_enter x t pending timeout"

definition wait_for_completion_io :: "int \<Rightarrow> completion \<Rightarrow> task \<Rightarrow> bool \<Rightarrow> completion \<times> wait_outcome" where
  "wait_for_completion_io forever x t pending = wait_enter x t pending forever"

definition wait_for_completion_io_timeout :: "completion \<Rightarrow> task \<Rightarrow> bool \<Rightarrow> int \<Rightarrow> completion \<times> wait_outcome" where
  "wait_for_completion_io_timeout x t pending timeout = wait_enter x t pending timeout"

definition interruptible_result :: "completion \<times> wait_outcome \<Rightarrow> completion \<times> wait_outcome" where
  "interruptible_result r =
     (case r of (x, Value v) \<Rightarrow> (x, Value (if v = - ERESTARTSYS_val then v else 0)) | (x, Waits d) \<Rightarrow> (x, Waits d))"

definition wait_for_completion_interruptible :: "int \<Rightarrow> completion \<Rightarrow> task \<Rightarrow> bool \<Rightarrow> completion \<times> wait_outcome" where
  "wait_for_completion_interruptible forever x t pending = interruptible_result (wait_enter x t pending forever)"

definition wait_for_completion_interruptible_timeout ::
  "completion \<Rightarrow> task \<Rightarrow> bool \<Rightarrow> int \<Rightarrow> completion \<times> wait_outcome" where
  "wait_for_completion_interruptible_timeout x t pending timeout = wait_enter x t pending timeout"

definition wait_for_completion_killable :: "int \<Rightarrow> completion \<Rightarrow> task \<Rightarrow> bool \<Rightarrow> completion \<times> wait_outcome" where
  "wait_for_completion_killable forever x t pending = interruptible_result (wait_enter x t pending forever)"

definition wait_for_completion_killable_timeout ::
  "completion \<Rightarrow> task \<Rightarrow> bool \<Rightarrow> int \<Rightarrow> completion \<times> wait_outcome" where
  "wait_for_completion_killable_timeout x t pending timeout = wait_enter x t pending timeout"

definition try_wait_for_completion :: "completion \<Rightarrow> completion \<times> bool" where
  "try_wait_for_completion x =
     (if done_count x = 0 then (x, False) else (x\<lparr>done_count := done_count x - 1\<rparr>, True))"

definition completion_done :: "completion \<Rightarrow> bool" where
  "completion_done x = (if done_count x = 0 then False else True)"

section \<open>The system of tasks\<close>

text \<open>
  \<open>taken\<close> counts the waits that ended with a completion, \<open>given\<close> what the completers added to \<open>done\<close>.
\<close>

datatype co_pc = Out | Waiting task_mode int | Got int

record co_sys =
  co :: completion
  cpc :: "task \<Rightarrow> co_pc"
  taken :: nat
  given :: nat

definition co_finish :: "co_sys \<Rightarrow> task \<Rightarrow> task_mode \<Rightarrow> completion \<times> wait_outcome \<Rightarrow> co_sys" where
  "co_finish s t mode r =
     (case r of
        (x, Value v) \<Rightarrow> s\<lparr>co := x, cpc := (cpc s)(t := Got v), taken := taken s + (if v > 0 then 1 else 0)\<rparr>
      | (x, Waits timeout) \<Rightarrow> s\<lparr>co := x, cpc := (cpc s)(t := Waiting mode timeout)\<rparr>)"

inductive co_step :: "co_sys \<Rightarrow> co_sys \<Rightarrow> bool" where
  enter: "cpc s t = Out \<Longrightarrow> signal_ok mode pending \<Longrightarrow> 0 \<le> timeout \<Longrightarrow>
    co_step s (co_finish s t mode (wait_enter (co s) t pending timeout))"
| resume: "cpc s t = Waiting mode timeout \<Longrightarrow> \<not> asleep (co s) t \<Longrightarrow> signal_ok mode pending \<Longrightarrow> 0 \<le> left \<Longrightarrow>
    co_step s (co_finish s t mode (wait_resume (co s) t pending left))"
| again: "cpc s t = Got v \<Longrightarrow> co_step s (s\<lparr>cpc := (cpc s)(t := Out)\<rparr>)"
| try_wait: "try_wait_for_completion (co s) = (x, ok) \<Longrightarrow>
    co_step s (s\<lparr>co := x, taken := taken s + (if ok then 1 else 0)\<rparr>)"
| complete: "co_step s (s\<lparr>co := complete (co s), given := given s + 1\<rparr>)"
| complete_all: "co_step s (s\<lparr>co := complete_all (co s), given := given s + unat (UINT_MAX div 2)\<rparr>)"
| spurious: "co_step s (s\<lparr>co := (co s)\<lparr>asleep := (asleep (co s))(t := False)\<rparr>\<rparr>)"

definition co_init :: co_sys where
  "co_init = \<lparr>co = \<lparr>done_count = 0, wait_queue = [], asleep = (\<lambda>_. False)\<rparr>, cpc = (\<lambda>_. Out), taken = 0, given = 0\<rparr>"

section \<open>The invariant\<close>

definition is_waiting :: "co_pc \<Rightarrow> bool" where
  "is_waiting p = (case p of Waiting _ _ \<Rightarrow> True | _ \<Rightarrow> False)"

definition awake_waiters :: "completion \<Rightarrow> task list" where
  "awake_waiters x = filter (\<lambda>t. \<not> asleep x t) (wait_queue x)"

text \<open>
  Enough waiters are awake to take the completions that are there, or all of them are; and what was
  given has been taken or is still in \<open>done\<close>.
\<close>

definition co_inv :: "co_sys \<Rightarrow> bool" where
  "co_inv s \<longleftrightarrow> distinct (wait_queue (co s)) \<and> (\<forall>t. t \<in> set (wait_queue (co s)) \<longleftrightarrow> is_waiting (cpc s t)) \<and>
     (unat (done_count (co s)) \<le> length (awake_waiters (co s)) \<or> (\<forall>t\<in>set (wait_queue (co s)). \<not> asleep (co s) t)) \<and>
     done_count (co s) + of_nat (taken s) = of_nat (given s)"

lemma is_waiting_simps [simp]:
  "is_waiting (Waiting m d)" "\<not> is_waiting Out" "\<not> is_waiting (Got v)"
  by (simp_all add: is_waiting_def)

lemma wake_one_queue:
  "wake_up_locked f 1 (map (\<lambda>t. (t, True)) q) = (case filter f q of [] \<Rightarrow> [] | t # _ \<Rightarrow> [t])"
  using wake_up_one [of "map (\<lambda>t. (t, True)) q" f] by (auto simp: wake_up_locked_def comp_def)

lemma wake_all_queue: "wake_up_locked f 0 (map (\<lambda>t. (t, True)) q) = filter f q"
  using wake_up_all [of 0 f "map (\<lambda>t. (t, True)) q"] by (simp add: wake_up_locked_def comp_def)

definition enough_awake :: "completion \<Rightarrow> bool" where
  "enough_awake x \<longleftrightarrow> unat (done_count x) \<le> length (awake_waiters x) \<or> (\<forall>t\<in>set (wait_queue x). \<not> asleep x t)"

lemma unat_inc_le: "unat (c + 1 :: u32) \<le> unat c + 1"
  using unat_u32_lt [of c] by (simp add: unat_word_ariths)

lemma complete_enough:
  assumes "enough_awake x" "distinct (wait_queue x)"
  shows "enough_awake (complete x)"
proof (cases "filter (asleep x) (wait_queue x)")
  case Nil
  then have "\<forall>t\<in>set (wait_queue x). \<not> asleep x t" by (simp add: filter_empty_conv)
  then show ?thesis by (simp add: enough_awake_def complete_def wake_def Let_def)
next
  case (Cons t ts)
  then have t: "t \<in> set (wait_queue x)" "asleep x t" by (auto dest!: arg_cong [of _ _ set])
  have w: "wake_up_locked (asleep x) 1 (map (\<lambda>t. (t, True)) (wait_queue x)) = [t]" using Cons by (simp add: wake_one_queue)
  have "{u. \<not> (asleep x u \<and> u \<noteq> t)} \<inter> set (wait_queue x) = insert t ({u. \<not> asleep x u} \<inter> set (wait_queue x))" using t by auto
  then have "length (awake_waiters (complete x)) = length (awake_waiters x) + 1"
    using t assms(2) w by (simp add: awake_waiters_def complete_def wake_def distinct_length_filter)
  moreover have "unat (done_count (complete x)) \<le> unat (done_count x) + 1"
    using unat_inc_le by (simp add: complete_def wake_def Let_def)
  moreover have "unat (done_count x) \<le> length (awake_waiters x)" using assms(1) t by (auto simp: enough_awake_def)
  ultimately show ?thesis by (simp add: enough_awake_def)
qed

lemma complete_all_enough: "enough_awake (complete_all x)"
  by (simp add: enough_awake_def complete_all_def wake_def wake_all_queue Let_def)

lemma take_enough: "enough_awake x \<Longrightarrow> done_count x \<noteq> 0 \<Longrightarrow> enough_awake (x\<lparr>done_count := done_count x - 1\<rparr>)"
  using unat_dec [of "done_count x"] by (auto simp: enough_awake_def awake_waiters_def word_neq_0_conv)

lemma leave_enough:
  assumes "enough_awake x" "t \<in> set (wait_queue x)" "\<not> asleep x t"
  shows "enough_awake (fst (wait_leave x t timeout))"
proof (cases "done_count x = 0")
  case True
  then show ?thesis by (simp add: enough_awake_def wait_leave_def Let_def)
next
  case False
  then have "unat (done_count x - 1) = unat (done_count x) - 1" "0 < unat (done_count x)"
    using unat_dec [of "done_count x"] by (simp_all add: word_neq_0_conv unat_gt_0)
  moreover have "length (filter (\<lambda>t. \<not> asleep x t) (remove1 t (wait_queue x))) = length (awake_waiters x) - 1"
    using assms(2,3) by (simp add: awake_waiters_def filter_remove1 length_remove1)
  moreover have "t \<in> set (awake_waiters x)" using assms(2,3) by (simp add: awake_waiters_def)
  then have "0 < length (awake_waiters x)" by (auto simp: length_greater_0_conv)
  ultimately show ?thesis
    using assms(1) False set_remove1_subset [of t "wait_queue x"]
    by (auto simp: enough_awake_def wait_leave_def awake_waiters_def Let_def)
qed

lemma co_inv_alt:
  "co_inv s \<longleftrightarrow> distinct (wait_queue (co s)) \<and> (\<forall>t. t \<in> set (wait_queue (co s)) \<longleftrightarrow> is_waiting (cpc s t)) \<and>
     enough_awake (co s) \<and> done_count (co s) + of_nat (taken s) = of_nat (given s)"
  by (simp add: co_inv_def enough_awake_def)

lemma co_leave_inv:
  assumes inv: "co_inv s" and t: "is_waiting (cpc s t)" "\<not> asleep (co s) t"
    and v: "done_count (co s) = 0 \<longrightarrow> timeout \<le> 0" "done_count (co s) \<noteq> 0 \<longrightarrow> 0 \<le> timeout"
  shows "co_inv (co_finish s t mode (wait_leave (co s) t timeout))" (is "co_inv ?s")
proof -
  have mem: "t \<in> set (wait_queue (co s))" using inv t by (simp add: co_inv_def)
  have "co ?s = fst (wait_leave (co s) t timeout)" by (simp add: co_finish_def wait_leave_def Let_def)
  then have "enough_awake (co ?s)" using leave_enough [OF _ mem t(2)] inv by (simp add: co_inv_alt)
  moreover have q: "wait_queue (co ?s) = remove1 t (wait_queue (co s))"
    by (simp add: co_finish_def wait_leave_def Let_def)
  have "is_waiting (cpc ?s u) \<longleftrightarrow> u \<noteq> t \<and> is_waiting (cpc s u)" for u
    by (simp add: co_finish_def wait_leave_def Let_def)
  then have "\<forall>u. u \<in> set (wait_queue (co ?s)) \<longleftrightarrow> is_waiting (cpc ?s u)" "distinct (wait_queue (co ?s))"
    using inv q by (auto simp: co_inv_def)
  moreover have "done_count (co ?s) + of_nat (taken ?s) = of_nat (given ?s)"
    using inv v by (auto simp: co_inv_def co_finish_def wait_leave_def at_least_1_def Let_def algebra_simps)
  ultimately show ?thesis by (simp add: co_inv_alt)
qed

lemma co_turn_inv:
  assumes d: "distinct (wait_queue x)" "t \<in> set (wait_queue x)" "done_count x = 0"
    and w: "\<forall>u. u \<noteq> t \<longrightarrow> (u \<in> set (wait_queue x) \<longleftrightarrow> is_waiting (cpc s u))"
    and g: "of_nat (taken s) = (of_nat (given s) :: u32)"
  shows "co_inv (co_finish s t mode (wait_turn x t pending timeout))"
  using assms by (auto simp: co_inv_alt enough_awake_def co_finish_def wait_turn_def wait_leave_def Let_def)

lemma co_enter_inv:
  assumes inv: "co_inv s" and t: "cpc s t = Out" and n: "0 \<le> timeout"
  shows "co_inv (co_finish s t mode (wait_enter (co s) t pending timeout))"
proof (cases "done_count (co s) = 0")
  case True
  have nt: "t \<notin> set (wait_queue (co s))" using inv t by (simp add: co_inv_def)
  have "co_inv (co_finish s t mode (wait_turn ((co s)\<lparr>wait_queue := wait_queue (co s) @ [t]\<rparr>) t pending timeout))"
    by (rule co_turn_inv) (use inv True nt in \<open>auto simp: co_inv_def\<close>)
  with True show ?thesis by (simp add: wait_enter_def)
next
  case False
  have "enough_awake ((co s)\<lparr>done_count := done_count (co s) - 1\<rparr>)"
    using inv False by (intro take_enough) (simp_all add: co_inv_alt)
  moreover have "0 < at_least_1 timeout" using n by (simp add: at_least_1_def)
  moreover have "\<forall>u. u \<in> set (wait_queue (co s)) \<longleftrightarrow> is_waiting (((cpc s)(t := Got (at_least_1 timeout))) u)"
    using inv t by (simp add: co_inv_def)
  ultimately show ?thesis
    using inv False by (simp add: co_inv_alt co_finish_def wait_enter_def algebra_simps)
qed

lemma co_resume_inv:
  assumes inv: "co_inv s" and t: "cpc s t = Waiting mode d" "\<not> asleep (co s) t" and n: "0 \<le> left"
  shows "co_inv (co_finish s t mode (wait_resume (co s) t pending left))"
proof (cases "done_count (co s) = 0 \<and> left \<noteq> 0")
  case True
  have "co_inv (co_finish s t mode (wait_turn (co s) t pending left))"
    by (rule co_turn_inv) (use inv True t in \<open>auto simp: co_inv_def\<close>)
  with True show ?thesis by (simp add: wait_resume_def)
next
  case False
  then have "co_inv (co_finish s t mode (wait_leave (co s) t left))"
    using n t by (intro co_leave_inv [OF inv]) auto
  with False show ?thesis by (simp only: wait_resume_def if_False)
qed

lemma wake_queue [simp]: "wait_queue (wake nr x) = wait_queue x" "done_count (wake nr x) = done_count x"
  by (simp_all add: wake_def Let_def)

lemma co_complete_inv:
  assumes "co_inv s"
  shows "co_inv (s\<lparr>co := complete (co s), given := given s + 1\<rparr>)"
    and "co_inv (s\<lparr>co := complete_all (co s), given := given s + unat (UINT_MAX div 2)\<rparr>)"
proof -
  have "enough_awake (complete (co s))" using assms by (intro complete_enough) (simp_all add: co_inv_alt)
  then show "co_inv (s\<lparr>co := complete (co s), given := given s + 1\<rparr>)"
    using assms by (simp add: co_inv_alt) (simp add: complete_def algebra_simps)
  show "co_inv (s\<lparr>co := complete_all (co s), given := given s + unat (UINT_MAX div 2)\<rparr>)"
    using assms complete_all_enough [of "co s"] by (simp add: co_inv_alt) (simp add: complete_all_def algebra_simps)
qed

lemma co_spurious_inv:
  assumes "co_inv s"
  shows "co_inv (s\<lparr>co := (co s)\<lparr>asleep := (asleep (co s))(t := False)\<rparr>\<rparr>)"
proof -
  let ?x = "(co s)\<lparr>asleep := (asleep (co s))(t := False)\<rparr>"
  have "length (awake_waiters (co s)) \<le> length (awake_waiters ?x)"
    unfolding awake_waiters_def by (simp add: length_filter_conv_card card_mono Collect_mono_iff)
  then have "enough_awake ?x" using assms by (auto simp: co_inv_alt enough_awake_def)
  then show ?thesis using assms by (simp add: co_inv_alt)
qed

interpretation co: transition_system co_step co_inv
proof
  fix s s'
  assume "co_step s s'" "co_inv s"
  then show "co_inv s'"
  proof (induction rule: co_step.induct)
    case (again s t v)
    then show ?case by (auto simp: co_inv_alt)
  next
    case (try_wait s x ok)
    show ?case
    proof (cases "done_count (co s) = 0")
      case True
      then have "x = co s" "\<not> ok" using try_wait.hyps by (simp_all add: try_wait_for_completion_def)
      with try_wait.prems show ?thesis by (simp add: co_inv_alt)
    next
      case False
      then have "x = (co s)\<lparr>done_count := done_count (co s) - 1\<rparr>" "ok"
        using try_wait.hyps by (simp_all add: try_wait_for_completion_def)
      with try_wait.prems False take_enough [of "co s"] show ?thesis by (simp add: co_inv_alt algebra_simps)
    qed
  next
    case (resume s t mode timeout pending left)
    then show ?case by (intro co_resume_inv)
  qed (simp_all only: co_enter_inv co_complete_inv co_spurious_inv)
qed

lemma co_init_inv: "co_inv co_init"
  by (simp add: co_inv_def co_init_def)

text \<open>
  C20. In every reachable state of a completion, what the completers have given is what the waiters have
  taken plus the counter (modulo its width), and if the counter is positive while tasks wait, then a
  waiting task is awake and takes a completion if it runs next, whatever signals or timeouts arrive.
\<close>

theorem completion_no_lost_wakeup:
  assumes "co_step\<^sup>*\<^sup>* co_init s"
  shows "done_count (co s) + of_nat (taken s) = of_nat (given s) \<and>
    (done_count (co s) \<noteq> 0 \<and> wait_queue (co s) \<noteq> [] \<longrightarrow>
      (\<exists>t\<in>set (wait_queue (co s)). \<not> asleep (co s) t \<and>
         (\<forall>pending left. 0 \<le> left \<longrightarrow> (\<exists>x v. wait_resume (co s) t pending left = (x, Value v) \<and> 0 < v \<and>
            done_count x = done_count (co s) - 1 \<and> t \<notin> set (wait_queue x)))))"
proof -
  have inv: "co_inv s" by (rule co.reach_inv [OF assms co_init_inv])
  have "\<exists>t\<in>set (wait_queue (co s)). \<not> asleep (co s) t" if "done_count (co s) \<noteq> 0" "wait_queue (co s) \<noteq> []"
  proof -
    have "0 < unat (done_count (co s))" using that(1) by (simp add: unat_gt_0)
    then have "0 < length (awake_waiters (co s)) \<or> (\<forall>t\<in>set (wait_queue (co s)). \<not> asleep (co s) t)"
      using inv by (auto simp: co_inv_def)
    then show ?thesis
      using that(2) by (auto simp: awake_waiters_def filter_empty_conv ex_in_conv)
  qed
  moreover have "\<exists>x v. wait_resume (co s) t pending left = (x, Value v) \<and> 0 < v \<and>
      done_count x = done_count (co s) - 1 \<and> t \<notin> set (wait_queue x)"
    if "done_count (co s) \<noteq> 0" "0 \<le> left" for t pending left
    using that inv by (auto simp: wait_resume_def wait_leave_def at_least_1_def co_inv_def Let_def)
  ultimately show ?thesis using inv by (simp add: co_inv_def)
qed

definition demo_co :: co_sys where
  "demo_co = (let s = co_finish co_init 1 TASK_UNINTERRUPTIBLE (wait_enter (co co_init) 1 False 10)
     in s\<lparr>co := complete (co s), given := given s + 1\<rparr>)"

lemma demo_co_reachable: "co_step\<^sup>*\<^sup>* co_init demo_co"
proof -
  let ?s = "co_finish co_init 1 TASK_UNINTERRUPTIBLE (wait_enter (co co_init) 1 False 10)"
  have "co_step co_init ?s" by (rule co_step.enter) (simp_all add: co_init_def signal_ok_def)
  moreover have "co_step ?s demo_co" unfolding demo_co_def Let_def by (rule co_step.complete)
  ultimately show ?thesis by auto
qed

theorem completion_no_lost_wakeup_witness:
  "done_count (co demo_co) = 1 \<and> (\<exists>t\<in>set (wait_queue (co demo_co)). \<not> asleep (co demo_co) t)"
proof -
  have "done_count (co demo_co) = 1" "wait_queue (co demo_co) = [1]"
    by (simp_all add: demo_co_def co_init_def co_finish_def wait_enter_def wait_turn_def complete_def)
  with completion_no_lost_wakeup [OF demo_co_reachable] show ?thesis by auto
qed

text \<open>
  A wait that is interrupted or times out has taken nothing, and one that has taken a completion
  returns a positive value; so the result tells the caller exactly whether a completion was consumed.
\<close>

theorem wait_result_exact:
  assumes "0 \<le> timeout" "t \<notin> set (wait_queue x)"
  shows "(\<forall>x' v. wait_enter x t pending timeout = (x', Value v) \<longrightarrow>
      done_count x' = (if 0 < v then done_count x - 1 else done_count x) \<and> (0 < v \<longleftrightarrow> done_count x \<noteq> 0)) \<and>
    (\<forall>x' v. wait_resume x t pending timeout = (x', Value v) \<longrightarrow>
      done_count x' = (if 0 < v then done_count x - 1 else done_count x) \<and> (0 < v \<longleftrightarrow> done_count x \<noteq> 0) \<and>
      (v = 0 \<longrightarrow> timeout = 0) \<and> (v < 0 \<longrightarrow> pending))"
  using assms
  by (auto simp: wait_enter_def wait_resume_def wait_turn_def wait_leave_def at_least_1_def Let_def split: if_splits)

theorem wait_result_exact_witness:
  "\<exists>x'. wait_enter \<lparr>done_count = 0, wait_queue = [], asleep = (\<lambda>_. False)\<rparr> 1 True 10 = (x', Value (- 512)) \<and> done_count x' = 0"
proof -
  let ?x = "\<lparr>done_count = 0, wait_queue = [], asleep = (\<lambda>_. False)\<rparr> :: completion"
  have ev: "wait_enter ?x 1 True 10 = (?x, Value (- 512))"
    by (simp add: wait_enter_def wait_turn_def wait_leave_def)
  have "0 \<le> (10 :: int)" "(1 :: task) \<notin> set (wait_queue ?x)" by simp_all
  from wait_result_exact [OF this, of True] ev show ?thesis by simp
qed

text \<open>
  The counter is not protected against overflow: two calls of \<open>complete\<close> and two of \<open>complete_all\<close> on a
  fresh completion leave it at zero, so that a later waiter blocks although everything was completed.
\<close>

theorem complete_all_overflow:
  "done_count (complete_all (complete_all (complete (complete x)))) = done_count x"
proof -
  have "UINT_MAX div 2 + UINT_MAX div 2 + 2 = (0 :: u32)" by (simp add: UINT_MAX_def)
  then have "d + 1 + 1 + UINT_MAX div 2 + UINT_MAX div 2 = d" for d :: u32
    by (metis (no_types, opaque_lifting) add.assoc add.commute add.right_neutral one_add_one)
  then show ?thesis by (simp add: complete_def complete_all_def)
qed

end
