(* ===== verification/Cpu_Deadline.thy ===== *)
theory Cpu_Deadline
  imports Kernel_Prelude
begin

text \<open>
  The deadline scheduler's CPU heap (\<^verbatim>\<open>sched/cpudeadline.c\<close>): a max-heap of the earliest deadlines of the
  CPUs, with an index from CPUs to heap positions.

  Arrays are functions from indices; \<^verbatim>\<open>IDX_INVALID\<close> is \<open>None\<close>. Deadlines are 64-bit words compared by
  \<open>dl_time_before\<close>, which reads the difference as a signed number. CPU masks are sets of CPUs; the choice
  of a CPU from a mask (\<^verbatim>\<open>cpumask_any\<close>) is a parameter. What the heap stands for is the map \<open>deadlines\<close>
  from CPUs to deadlines; \<open>cpudl_set\<close> is proved to implement an update of that map.
\<close>

section \<open>Data and operations\<close>

record array_item =
  dl :: u64
  item_cpu :: nat

record cpudl =
  heap_size :: nat
  cpu_to_idx :: "nat \<Rightarrow> nat option"
  elements :: "nat \<Rightarrow> array_item"
  free_cpus :: "nat set"

definition parent :: "nat \<Rightarrow> nat" where
  "parent i = (i - 1) div 2"

definition left_child :: "nat \<Rightarrow> nat" where
  "left_child i = 2 * i + 1"

definition right_child :: "nat \<Rightarrow> nat" where
  "right_child i = 2 * i + 2"

definition dl_time_before :: "u64 \<Rightarrow> u64 \<Rightarrow> bool" where
  "dl_time_before a b \<longleftrightarrow> sint (a - b) < 0"

definition cpudl_exchange :: "cpudl \<Rightarrow> nat \<Rightarrow> nat \<Rightarrow> cpudl" where
  "cpudl_exchange cp a b =
     (let cpu_a = item_cpu (elements cp a); cpu_b = item_cpu (elements cp b)
      in cp\<lparr>elements := (elements cp)(a := elements cp b, b := elements cp a),
            cpu_to_idx := (cpu_to_idx cp)(cpu_a := cpu_to_idx cp cpu_b, cpu_b := cpu_to_idx cp cpu_a)\<rparr>)"

text \<open>The index of the largest of a node and its children.\<close>

definition largest_of :: "cpudl \<Rightarrow> nat \<Rightarrow> nat" where
  "largest_of cp idx =
     (let l = left_child idx; r = right_child idx;
          largest = (if l < heap_size cp \<and> dl_time_before (dl (elements cp idx)) (dl (elements cp l)) then l else idx)
      in if r < heap_size cp \<and> dl_time_before (dl (elements cp largest)) (dl (elements cp r)) then r else largest)"

lemma largest_of_cases:
  "largest_of cp idx = idx \<or>
   (largest_of cp idx \<in> {left_child idx, right_child idx} \<and> largest_of cp idx < heap_size cp)"
  by (auto simp: largest_of_def Let_def)

lemma heap_size_exchange [simp]: "heap_size (cpudl_exchange cp a b) = heap_size cp"
  by (simp add: cpudl_exchange_def Let_def)

function cpudl_heapify :: "cpudl \<Rightarrow> nat \<Rightarrow> cpudl" where
  "cpudl_heapify cp idx =
     (let largest = largest_of cp idx
      in if largest = idx then cp else cpudl_heapify (cpudl_exchange cp largest idx) largest)"
  by pat_completeness auto

termination
proof (relation "measure (\<lambda>(cp, idx). heap_size cp - idx)")
  fix cp idx largest
  assume "largest = largest_of cp idx" "largest \<noteq> idx"
  with largest_of_cases [of cp idx] have "idx < largest" "largest < heap_size cp"
    by (auto simp: left_child_def right_child_def)
  then show "((cpudl_exchange cp largest idx, largest), (cp, idx)) \<in> measure (\<lambda>(cp, idx). heap_size cp - idx)" by simp
qed simp

declare cpudl_heapify.simps [simp del]

text \<open>The loop that moves an entry towards the root; its result includes where the entry ended up.\<close>

function sift_up :: "cpudl \<Rightarrow> nat \<Rightarrow> cpudl \<times> nat" where
  "sift_up cp idx =
     (if idx > 0 \<and> dl_time_before (dl (elements cp (parent idx))) (dl (elements cp idx))
      then sift_up (cpudl_exchange cp idx (parent idx)) (parent idx)
      else (cp, idx))"
  by pat_completeness auto

termination
  by (relation "measure (\<lambda>(cp, idx). idx)") (auto simp: parent_def)

declare sift_up.simps [simp del]

definition set_dl :: "cpudl \<Rightarrow> nat \<Rightarrow> u64 \<Rightarrow> cpudl" where
  "set_dl cp idx d = cp\<lparr>elements := (elements cp)(idx := (elements cp idx)\<lparr>dl := d\<rparr>)\<rparr>"

definition cpudl_change_key :: "cpudl \<Rightarrow> nat \<Rightarrow> u64 \<Rightarrow> cpudl" where
  "cpudl_change_key cp idx new_dl =
     (if dl_time_before new_dl (dl (elements cp idx)) then cpudl_heapify (set_dl cp idx new_dl) idx
      else fst (sift_up (set_dl cp idx new_dl) idx))"

definition cpudl_maximum :: "cpudl \<Rightarrow> nat" where
  "cpudl_maximum cp = item_cpu (elements cp 0)"

text \<open>
  \<open>later_mask\<close> tells whether the caller passed a mask; the result is the CPU chosen, if any, and the
  mask. \<^verbatim>\<open>cpumask_and\<close> returns whether the intersection is non-empty.
\<close>

definition cpudl_find ::
  "(nat set \<Rightarrow> nat) \<Rightarrow> nat set \<Rightarrow> cpudl \<Rightarrow> nat set \<Rightarrow> u64 \<Rightarrow> bool \<Rightarrow> nat option \<times> nat set" where
  "cpudl_find cpumask_any cpu_active_mask cp cpus_allowed deadline later_mask =
     (let free = free_cpus cp \<inter> cpus_allowed; m1 = (if later_mask then free else {});
          active = free \<inter> cpu_active_mask; m2 = (if later_mask \<and> free \<noteq> {} then active else m1)
      in if later_mask \<and> free \<noteq> {} \<and> active \<noteq> {} then (Some (cpumask_any active), active)
         else if cpudl_maximum cp \<in> cpus_allowed \<and> dl_time_before deadline (dl (elements cp 0))
         then (Some (cpudl_maximum cp), if later_mask then insert (cpudl_maximum cp) m2 else m2)
         else (None, m2))"

definition cpudl_remove :: "cpudl \<Rightarrow> nat \<Rightarrow> nat \<Rightarrow> cpudl" where
  "cpudl_remove cp cpu old_idx =
     (let last = elements cp (heap_size cp - 1); new_cpu = item_cpu last;
          cp1 = cp\<lparr>elements := (elements cp)(old_idx := last), heap_size := heap_size cp - 1,
            cpu_to_idx := (cpu_to_idx cp)(new_cpu := Some old_idx, cpu := None)\<rparr>;
          (cp2, idx) = sift_up cp1 old_idx;
          cp3 = cp2\<lparr>free_cpus := insert cpu (free_cpus cp2)\<rparr>
      in cpudl_heapify cp3 idx)"

definition cpudl_set :: "cpudl \<Rightarrow> nat \<Rightarrow> u64 \<Rightarrow> bool \<Rightarrow> cpudl" where
  "cpudl_set cp cpu d is_valid =
     (case cpu_to_idx cp cpu of
        None \<Rightarrow>
          if \<not> is_valid then cp
          else let n = heap_size cp;
                   cp1 = cp\<lparr>heap_size := n + 1, elements := (elements cp)(n := \<lparr>dl = 0, item_cpu = cpu\<rparr>),
                     cpu_to_idx := (cpu_to_idx cp)(cpu := Some n)\<rparr>;
                   cp2 = cpudl_change_key cp1 n d
               in cp2\<lparr>free_cpus := free_cpus cp2 - {cpu}\<rparr>
      | Some old_idx \<Rightarrow> if \<not> is_valid then cpudl_remove cp cpu old_idx else cpudl_change_key cp old_idx d)"

text \<open>\<open>alloc_ok\<close> is the outcome of the allocation of the mask.\<close>

definition cpudl_init :: "bool \<Rightarrow> cpudl result" where
  "cpudl_init alloc_ok =
     (if \<not> alloc_ok then Inl ENOMEM
      else Inr \<lparr>heap_size = 0, cpu_to_idx = (\<lambda>_. None), elements = (\<lambda>_. \<lparr>dl = 0, item_cpu = 0\<rparr>), free_cpus = UNIV\<rparr>)"

section \<open>The heap\<close>

text \<open>Deadlines below \<open>2^63\<close> are compared as numbers.\<close>

definition key :: "cpudl \<Rightarrow> nat \<Rightarrow> nat" where
  "key cp i = unat (dl (elements cp i))"

definition small :: "u64 \<Rightarrow> bool" where
  "small d \<longleftrightarrow> unat d < 2 ^ 63"

lemma dl_time_before_small:
  assumes "small a" "small b"
  shows "dl_time_before a b \<longleftrightarrow> unat a < unat b"
proof (cases "unat a < unat b")
  case True
  then have "unat (a - b) = unat a + 2 ^ 64 - unat b" by (simp add: unat_sub_if')
  then have "\<not> unat (a - b) < 2 ^ 63" using assms True by (simp add: small_def)
  moreover have "int (unat (a - b)) < 2 ^ 64" using unat_u64_lt [of "a - b"] by (metis of_nat_less_iff of_nat_numeral of_nat_power)
  ultimately show ?thesis using True by (simp only: dl_time_before_def sint_cases) simp
next
  case False
  then have "unat (a - b) = unat a - unat b" by (simp add: unat_sub word_le_nat_alt)
  then have "unat (a - b) < 2 ^ 63" using assms by (simp add: small_def)
  then have "0 \<le> sint (a - b)" by (simp add: sint_cases)
  then show ?thesis using False by (simp add: dl_time_before_def)
qed

definition items_ok :: "cpudl \<Rightarrow> bool" where
  "items_ok cp \<longleftrightarrow> (\<forall>i<heap_size cp. cpu_to_idx cp (item_cpu (elements cp i)) = Some i) \<and>
     (\<forall>c i. cpu_to_idx cp c = Some i \<longrightarrow> i < heap_size cp \<and> item_cpu (elements cp i) = c)"

definition smalls :: "cpudl \<Rightarrow> bool" where
  "smalls cp \<longleftrightarrow> (\<forall>i<heap_size cp. small (dl (elements cp i)))"

text \<open>What the structure represents: the deadline of each CPU that has one.\<close>

definition deadlines :: "cpudl \<Rightarrow> nat \<rightharpoonup> u64" where
  "deadlines cp c = map_option (\<lambda>i. dl (elements cp i)) (cpu_to_idx cp c)"

definition heap_ok :: "cpudl \<Rightarrow> bool" where
  "heap_ok cp \<longleftrightarrow> (\<forall>i. 0 < i \<and> i < heap_size cp \<longrightarrow> key cp i \<le> key cp (parent i))"

text \<open>A heap with one entry out of place: too large for its parent, or too small for its children.\<close>

definition grand_ok :: "cpudl \<Rightarrow> nat \<Rightarrow> bool" where
  "grand_ok cp idx \<longleftrightarrow> (0 < idx \<longrightarrow> (\<forall>c. 0 < c \<and> c < heap_size cp \<and> parent c = idx \<longrightarrow> key cp c \<le> key cp (parent idx)))"

definition up_ok :: "cpudl \<Rightarrow> nat \<Rightarrow> bool" where
  "up_ok cp idx \<longleftrightarrow> (\<forall>i. 0 < i \<and> i < heap_size cp \<and> i \<noteq> idx \<longrightarrow> key cp i \<le> key cp (parent i)) \<and> grand_ok cp idx"

definition down_ok :: "cpudl \<Rightarrow> nat \<Rightarrow> bool" where
  "down_ok cp idx \<longleftrightarrow> (\<forall>i. 0 < i \<and> i < heap_size cp \<and> parent i \<noteq> idx \<longrightarrow> key cp i \<le> key cp (parent i)) \<and> grand_ok cp idx"

lemma parent_less: "0 < i \<Longrightarrow> parent i < i"
  by (auto simp: parent_def)

lemma child_iff: "0 < c \<Longrightarrow> parent c = idx \<longleftrightarrow> c = left_child idx \<or> c = right_child idx"
  by (auto simp: parent_def left_child_def right_child_def)

lemma key_exchange:
  "key (cpudl_exchange cp a b) i = (if i = b then key cp a else if i = a then key cp b else key cp i)"
  by (simp add: key_def cpudl_exchange_def Let_def)

lemma before_key:
  "smalls cp \<Longrightarrow> i < heap_size cp \<Longrightarrow> j < heap_size cp \<Longrightarrow>
    dl_time_before (dl (elements cp i)) (dl (elements cp j)) \<longleftrightarrow> key cp i < key cp j"
  by (simp add: smalls_def dl_time_before_small key_def)

definition same_map :: "cpudl \<Rightarrow> cpudl \<Rightarrow> bool" where
  "same_map cp cp' \<longleftrightarrow> heap_size cp' = heap_size cp \<and> free_cpus cp' = free_cpus cp \<and> items_ok cp' \<and> smalls cp' \<and>
     deadlines cp' = deadlines cp"

lemma same_map_trans: "same_map a b \<Longrightarrow> same_map b c \<Longrightarrow> same_map a c"
  by (simp add: same_map_def)

lemma items_inject:
  "items_ok cp \<Longrightarrow> i < heap_size cp \<Longrightarrow> j < heap_size cp \<Longrightarrow> item_cpu (elements cp i) = item_cpu (elements cp j) \<Longrightarrow> i = j"
  unfolding items_ok_def by (metis option.inject)

lemma exchange_same_map:
  assumes ok: "items_ok cp" and sm: "smalls cp" and ab: "a < heap_size cp" "b < heap_size cp" "a \<noteq> b"
  shows "same_map cp (cpudl_exchange cp a b)"
proof -
  let ?cp = "cpudl_exchange cp a b"
  let ?ca = "item_cpu (elements cp a)" and ?cb = "item_cpu (elements cp b)"
  have ne: "?ca \<noteq> ?cb" using items_inject [OF ok ab(1,2)] ab(3) by blast
  have ia: "cpu_to_idx cp ?ca = Some a" "cpu_to_idx cp ?cb = Some b" using ok ab by (auto simp: items_ok_def)
  have el: "elements ?cp = (elements cp)(a := elements cp b, b := elements cp a)"
    and ix: "cpu_to_idx ?cp = (cpu_to_idx cp)(?ca := Some b, ?cb := Some a)"
    using ia by (simp_all add: cpudl_exchange_def Let_def)
  have other: "i \<noteq> a \<and> i \<noteq> b" if "cpu_to_idx cp c = Some i" "c \<noteq> ?ca" "c \<noteq> ?cb" for c i
    using ok that by (auto simp: items_ok_def)
  have "cpu_to_idx ?cp (item_cpu (elements ?cp i)) = Some i" if "i < heap_size cp" for i
  proof (cases "i = a \<or> i = b")
    case True
    then show ?thesis using el ix ne ab(3) by auto
  next
    case False
    then have "item_cpu (elements cp i) \<noteq> ?ca" "item_cpu (elements cp i) \<noteq> ?cb"
      using items_inject [OF ok that] ab by blast+
    then show ?thesis using False el ix ok that by (simp add: items_ok_def)
  qed
  moreover have "i < heap_size cp \<and> item_cpu (elements ?cp i) = c" if "cpu_to_idx ?cp c = Some i" for c i
  proof (cases "c = ?ca \<or> c = ?cb")
    case True
    then show ?thesis using that ab el ix ne by (auto split: if_splits)
  next
    case False
    then have "cpu_to_idx cp c = Some i" using that ix by simp
    then show ?thesis using False other [of c i] el ok by (simp add: items_ok_def)
  qed
  ultimately have "items_ok ?cp" by (simp add: items_ok_def)
  moreover have "deadlines ?cp c = deadlines cp c" for c
    using other [of c] ia ne ab(3) by (cases "cpu_to_idx cp c") (auto simp: deadlines_def el ix)
  moreover have "smalls ?cp" using sm ab el by (simp add: smalls_def)
  ultimately show ?thesis by (auto simp: same_map_def cpudl_exchange_def Let_def)
qed

text \<open>Moving up.\<close>

lemma exchange_up_ok:
  assumes up: "up_ok cp idx" and i: "0 < idx" "idx < heap_size cp" and lt: "key cp (parent idx) < key cp idx"
  shows "up_ok (cpudl_exchange cp idx (parent idx)) (parent idx)"
proof -
  let ?p = "parent idx" and ?cp = "cpudl_exchange cp idx (parent idx)"
  have p: "?p < idx" using parent_less [OF i(1)] .
  have up1: "key cp i \<le> key cp (parent i)" if "0 < i" "i < heap_size cp" "i \<noteq> idx" for i using up that by (simp add: up_ok_def)
  have g: "key cp c \<le> key cp ?p" if "0 < c" "c < heap_size cp" "parent c = idx" for c
    using up i(1) that by (simp add: up_ok_def grand_ok_def)
  have "key ?cp j \<le> key ?cp (parent j)" if j: "0 < j" "j < heap_size cp" "j \<noteq> ?p" for j
  proof (cases "j = idx")
    case True
    then show ?thesis using lt p by (simp add: key_exchange)
  next
    case False
    then show ?thesis using up1 [OF j(1,2) False] g [OF j(1,2)] lt j by (auto simp: key_exchange)
  qed
  moreover have "key ?cp c \<le> key ?cp (parent ?p)" if "0 < ?p" "0 < c" "c < heap_size cp" "parent c = ?p" for c
  proof -
    have pp: "parent ?p < ?p" using parent_less [OF that(1)] .
    have "key cp ?p \<le> key cp (parent ?p)" using up1 [OF that(1)] p i by simp
    moreover have "c \<noteq> ?p" using parent_less [OF that(2)] that(4) by auto
    ultimately show ?thesis using up1 [OF that(2,3)] that(4) pp p by (cases "c = idx") (auto simp: key_exchange)
  qed
  ultimately show ?thesis by (simp add: up_ok_def grand_ok_def)
qed

lemma sift_up_correct:
  "up_ok cp idx \<Longrightarrow> items_ok cp \<Longrightarrow> smalls cp \<Longrightarrow> idx < heap_size cp \<Longrightarrow>
    heap_ok (fst (sift_up cp idx)) \<and> same_map cp (fst (sift_up cp idx))"
proof (induction cp idx rule: sift_up.induct)
  case (1 cp idx)
  show ?case
  proof (cases "idx > 0 \<and> dl_time_before (dl (elements cp (parent idx))) (dl (elements cp idx))")
    case True
    let ?cp = "cpudl_exchange cp idx (parent idx)"
    have p: "parent idx < idx" "parent idx < heap_size cp" using parent_less [of idx] True "1.prems"(4) by auto
    then have lt: "key cp (parent idx) < key cp idx" using True before_key [OF "1.prems"(3)] "1.prems"(4) by simp
    have sm: "same_map cp ?cp" using exchange_same_map [OF "1.prems"(2,3,4) p(2)] p(1) by simp
    have "heap_ok (fst (sift_up ?cp (parent idx))) \<and> same_map ?cp (fst (sift_up ?cp (parent idx)))"
      using "1.IH" [OF True] exchange_up_ok [OF "1.prems"(1) _ "1.prems"(4) lt] sm p(2) True by (simp add: same_map_def)
    moreover have "sift_up cp idx = sift_up ?cp (parent idx)" using True by (subst sift_up.simps) simp
    ultimately show ?thesis using same_map_trans [OF sm] by simp
  next
    case False
    then have eq: "sift_up cp idx = (cp, idx)" by (subst sift_up.simps) (rule if_not_P)
    have "key cp idx \<le> key cp (parent idx)" if "0 < idx"
      using False that before_key [OF "1.prems"(3)] "1.prems"(4) parent_less [OF that] by simp
    then have "heap_ok cp" using "1.prems"(1) by (auto simp: heap_ok_def up_ok_def)
    then show ?thesis using eq "1.prems"(2,3) by (simp add: same_map_def)
  qed
qed

text \<open>Moving down.\<close>

lemma largest_of_idx:
  assumes "smalls cp" "largest_of cp idx = idx" "idx < heap_size cp" "0 < c" "c < heap_size cp" "parent c = idx"
  shows "key cp c \<le> key cp idx"
proof -
  have "c = left_child idx \<or> c = right_child idx" using assms(4,6) child_iff by simp
  moreover have "left_child idx \<noteq> idx" "right_child idx \<noteq> idx" by (simp_all add: left_child_def right_child_def)
  ultimately show ?thesis
    using assms(2,3,5) before_key [OF assms(1)] by (auto simp: largest_of_def Let_def split: if_splits)
qed

lemma largest_of_child:
  assumes "smalls cp" "largest_of cp idx \<noteq> idx" "idx < heap_size cp"
  defines "m \<equiv> largest_of cp idx"
  shows "m < heap_size cp \<and> 0 < m \<and> parent m = idx \<and> key cp idx < key cp m \<and>
    (\<forall>c. 0 < c \<and> c < heap_size cp \<and> parent c = idx \<longrightarrow> key cp c \<le> key cp m)"
proof -
  have m: "m < heap_size cp" "m = left_child idx \<or> m = right_child idx"
    using largest_of_cases [of cp idx] assms(2) by (auto simp: m_def)
  then have "0 < m" by (auto simp: left_child_def right_child_def)
  then have "parent m = idx" using child_iff m(2) by simp
  moreover have lr: "left_child idx \<noteq> idx" "right_child idx \<noteq> idx" "left_child idx \<noteq> right_child idx"
    by (simp_all add: left_child_def right_child_def)
  have "key cp idx < key cp m"
    using assms(2,3) before_key [OF assms(1)] lr by (auto simp: m_def largest_of_def Let_def split: if_splits)
  moreover have "key cp c \<le> key cp m" if "0 < c" "c < heap_size cp" "parent c = idx" for c
  proof -
    have "c = left_child idx \<or> c = right_child idx" using that(1,3) child_iff by simp
    then show ?thesis using that(2) assms(2,3) before_key [OF assms(1)] lr
      by (auto simp: m_def largest_of_def Let_def split: if_splits)
  qed
  ultimately show ?thesis using m(1) \<open>0 < m\<close> by blast
qed

lemma exchange_down_ok:
  assumes down: "down_ok cp idx" and m: "m < heap_size cp" "0 < m" "parent m = idx" "key cp idx < key cp m"
    and max: "\<And>c. 0 < c \<Longrightarrow> c < heap_size cp \<Longrightarrow> parent c = idx \<Longrightarrow> key cp c \<le> key cp m"
  shows "down_ok (cpudl_exchange cp m idx) m"
proof -
  let ?cp = "cpudl_exchange cp m idx"
  have im: "idx < m" using parent_less [OF m(2)] m(3) by simp
  have down1: "key cp i \<le> key cp (parent i)" if "0 < i" "i < heap_size cp" "parent i \<noteq> idx" for i
    using down that by (simp add: down_ok_def)
  have g: "key cp m \<le> key cp (parent idx)" if "0 < idx" using down that m by (simp add: down_ok_def grand_ok_def)
  have "key ?cp j \<le> key ?cp (parent j)" if j: "0 < j" "j < heap_size cp" "parent j \<noteq> m" for j
  proof -
    consider "j = idx" | "j = m" | "parent j = idx" "j \<noteq> m" | "j \<noteq> idx" "j \<noteq> m" "parent j \<noteq> idx" by blast
    then show ?thesis
    proof cases
      case 1
      then have "parent j \<noteq> idx" using parent_less [OF j(1)] by simp
      then show ?thesis using 1 j(1,3) g im by (simp add: key_exchange)
    next
      case 2
      then show ?thesis using m im by (simp add: key_exchange)
    next
      case 3
      then have "j \<noteq> idx" using parent_less [OF j(1)] by simp
      then show ?thesis using 3 max [OF j(1,2)] by (simp add: key_exchange)
    next
      case 4
      then show ?thesis using down1 [OF j(1,2)] j(3) by (simp add: key_exchange)
    qed
  qed
  moreover have "key ?cp c \<le> key ?cp (parent m)" if "0 < c" "c < heap_size cp" "parent c = m" for c
  proof -
    have "c \<noteq> m" "c \<noteq> idx" using that(1,3) parent_less [of c] im by auto
    then show ?thesis using down1 [OF that(1,2)] that(3) m(3) im by (simp add: key_exchange)
  qed
  ultimately show ?thesis by (simp add: down_ok_def grand_ok_def)
qed

lemma heapify_correct:
  "down_ok cp idx \<Longrightarrow> items_ok cp \<Longrightarrow> smalls cp \<Longrightarrow> idx < heap_size cp \<Longrightarrow>
    heap_ok (cpudl_heapify cp idx) \<and> same_map cp (cpudl_heapify cp idx)"
proof (induction cp idx rule: cpudl_heapify.induct)
  case (1 cp idx)
  let ?m = "largest_of cp idx"
  show ?case
  proof (cases "?m = idx")
    case True
    have "key cp i \<le> key cp (parent i)" if "0 < i" "i < heap_size cp" for i
      using largest_of_idx [OF "1.prems"(3) True "1.prems"(4) that] "1.prems"(1) that by (cases "parent i = idx") (auto simp: down_ok_def)
    then have "heap_ok cp" by (simp add: heap_ok_def)
    then show ?thesis using True "1.prems"(2,3) by (subst (1 2) cpudl_heapify.simps) (simp add: same_map_def)
  next
    case False
    let ?cp = "cpudl_exchange cp ?m idx"
    have m: "?m < heap_size cp" "0 < ?m" "parent ?m = idx" "key cp idx < key cp ?m"
        "\<And>c. 0 < c \<Longrightarrow> c < heap_size cp \<Longrightarrow> parent c = idx \<Longrightarrow> key cp c \<le> key cp ?m"
      using largest_of_child [OF "1.prems"(3) False "1.prems"(4)] by auto
    have sm: "same_map cp ?cp" using exchange_same_map [OF "1.prems"(2,3) m(1) "1.prems"(4) False] .
    have "heap_ok (cpudl_heapify ?cp ?m) \<and> same_map ?cp (cpudl_heapify ?cp ?m)"
    proof (rule "1.IH" [OF refl False])
      show "down_ok ?cp ?m" by (rule exchange_down_ok [OF "1.prems"(1) m])
    qed (use sm m(1) in \<open>simp_all add: same_map_def\<close>)
    moreover have "cpudl_heapify cp idx = cpudl_heapify ?cp ?m" using False by (subst cpudl_heapify.simps) (simp add: Let_def)
    ultimately show ?thesis using same_map_trans [OF sm] by simp
  qed
qed

lemma heap_down_ok: "heap_ok cp \<Longrightarrow> idx < heap_size cp \<Longrightarrow> down_ok cp idx"
  unfolding heap_ok_def down_ok_def grand_ok_def using le_trans by blast

lemma heapify_heap:
  assumes "heap_ok cp" "items_ok cp" "smalls cp"
  shows "heap_ok (cpudl_heapify cp idx) \<and> same_map cp (cpudl_heapify cp idx)"
proof (cases "idx < heap_size cp")
  case True
  then show ?thesis using heapify_correct assms heap_down_ok by blast
next
  case False
  then have "largest_of cp idx = idx" by (simp add: largest_of_def left_child_def right_child_def Let_def)
  then have "cpudl_heapify cp idx = cp" by (subst cpudl_heapify.simps) simp
  then show ?thesis using assms by (simp add: same_map_def)
qed

section \<open>Operations on a well-formed structure\<close>

text \<open>The CPUs with no entry are exactly the free ones.\<close>

definition cpudl_inv :: "cpudl \<Rightarrow> bool" where
  "cpudl_inv cp \<longleftrightarrow> items_ok cp \<and> smalls cp \<and> heap_ok cp \<and> free_cpus cp = - dom (deadlines cp)"

lemma set_dl_fields [simp]:
  "heap_size (set_dl cp idx d) = heap_size cp" "free_cpus (set_dl cp idx d) = free_cpus cp"
  by (simp_all add: set_dl_def)

lemma key_set_dl: "key (set_dl cp idx d) i = (if i = idx then unat d else key cp i)"
  by (simp add: key_def set_dl_def)

lemma set_dl_facts:
  assumes "items_ok cp" "smalls cp" "idx < heap_size cp" "small d"
  shows "items_ok (set_dl cp idx d)" "smalls (set_dl cp idx d)"
    and "deadlines (set_dl cp idx d) = (deadlines cp)(item_cpu (elements cp idx) \<mapsto> d)"
proof -
  show "items_ok (set_dl cp idx d)" using assms(1) by (auto simp: items_ok_def set_dl_def)
  show "smalls (set_dl cp idx d)" using assms(2,4) by (auto simp: smalls_def set_dl_def)
  show "deadlines (set_dl cp idx d) = (deadlines cp)(item_cpu (elements cp idx) \<mapsto> d)"
  proof
    fix c
    have "cpu_to_idx cp c = Some idx \<longleftrightarrow> c = item_cpu (elements cp idx)" using assms(1,3) by (auto simp: items_ok_def)
    then show "deadlines (set_dl cp idx d) c = ((deadlines cp)(item_cpu (elements cp idx) \<mapsto> d)) c"
      by (cases "cpu_to_idx cp c") (auto simp: deadlines_def set_dl_def)
  qed
qed

lemma set_dl_up:
  assumes "heap_ok cp" "key cp idx \<le> unat d"
  shows "up_ok (set_dl cp idx d) idx"
proof -
  have h: "key cp i \<le> key cp (parent i)" if "0 < i" "i < heap_size cp" for i using assms(1) that by (simp add: heap_ok_def)
  have "key (set_dl cp idx d) i \<le> key (set_dl cp idx d) (parent i)" if "0 < i" "i < heap_size cp" "i \<noteq> idx" for i
    using h [OF that(1,2)] that(3) assms(2) by (auto simp: key_set_dl)
  moreover have "key (set_dl cp idx d) c \<le> key (set_dl cp idx d) (parent idx)"
    if "0 < idx" "idx < heap_size cp" "0 < c" "c < heap_size cp" "parent c = idx" for c
  proof -
    have "c \<noteq> idx" "parent idx \<noteq> idx" using parent_less [OF that(3)] parent_less [OF that(1)] that(5) by auto
    then show ?thesis using h [OF that(3,4)] h [OF that(1,2)] that(5) by (simp add: key_set_dl)
  qed
  moreover have "idx < heap_size cp" if "0 < c" "c < heap_size cp" "parent c = idx" for c
    using parent_less [OF that(1)] that by simp
  ultimately show ?thesis by (auto simp: up_ok_def grand_ok_def)
qed

lemma set_dl_down:
  assumes "heap_ok cp" "unat d \<le> key cp idx" "idx < heap_size cp"
  shows "down_ok (set_dl cp idx d) idx"
proof -
  have h: "key cp i \<le> key cp (parent i)" if "0 < i" "i < heap_size cp" for i using assms(1) that by (simp add: heap_ok_def)
  have "key (set_dl cp idx d) i \<le> key (set_dl cp idx d) (parent i)" if "0 < i" "i < heap_size cp" "parent i \<noteq> idx" for i
    using h [OF that(1,2)] that(3) assms(2) by (auto simp: key_set_dl)
  moreover have "key (set_dl cp idx d) c \<le> key (set_dl cp idx d) (parent idx)"
    if "0 < idx" "0 < c" "c < heap_size cp" "parent c = idx" for c
  proof -
    have "c \<noteq> idx" "parent idx \<noteq> idx" using parent_less [OF that(2)] parent_less [OF that(1)] that(4) by auto
    then show ?thesis using h [OF that(2,3)] h [OF that(1) assms(3)] that(4) by (simp add: key_set_dl)
  qed
  ultimately show ?thesis by (auto simp: down_ok_def grand_ok_def)
qed

lemma change_key_correct:
  assumes "heap_ok cp" "items_ok cp" "smalls cp" "idx < heap_size cp" "small d"
  shows "heap_ok (cpudl_change_key cp idx d) \<and> same_map (set_dl cp idx d) (cpudl_change_key cp idx d)"
proof (cases "dl_time_before d (dl (elements cp idx))")
  case True
  then have "unat d \<le> key cp idx" using assms by (simp add: dl_time_before_small smalls_def key_def)
  then have "down_ok (set_dl cp idx d) idx" using set_dl_down assms by blast
  then show ?thesis using True heapify_correct set_dl_facts(1,2) [OF assms(2-5)] assms(4) by (simp add: cpudl_change_key_def)
next
  case False
  then have "key cp idx \<le> unat d" using assms by (simp add: dl_time_before_small smalls_def key_def)
  then have "up_ok (set_dl cp idx d) idx" using set_dl_up assms by blast
  then show ?thesis using False sift_up_correct set_dl_facts(1,2) [OF assms(2-5)] assms(4) by (simp add: cpudl_change_key_def)
qed

lemma dom_deadlines: "deadlines cp c = None \<longleftrightarrow> cpu_to_idx cp c = None"
  by (simp add: deadlines_def)

lemma free_cpus_update [simp]:
  "items_ok (cp\<lparr>free_cpus := f\<rparr>) = items_ok cp" "smalls (cp\<lparr>free_cpus := f\<rparr>) = smalls cp"
  "heap_ok (cp\<lparr>free_cpus := f\<rparr>) = heap_ok cp" "deadlines (cp\<lparr>free_cpus := f\<rparr>) = deadlines cp"
  "down_ok (cp\<lparr>free_cpus := f\<rparr>) i = down_ok cp i"
  by (simp_all add: items_ok_def smalls_def heap_ok_def deadlines_def fun_eq_iff key_def down_ok_def grand_ok_def)

lemma cpudl_update_correct:
  assumes inv: "cpudl_inv cp" and old: "cpu_to_idx cp cpu = Some old_idx" and d: "small d"
  shows "cpudl_inv (cpudl_change_key cp old_idx d) \<and> deadlines (cpudl_change_key cp old_idx d) = (deadlines cp)(cpu \<mapsto> d)"
proof -
  have i: "old_idx < heap_size cp" "item_cpu (elements cp old_idx) = cpu" using inv old by (auto simp: cpudl_inv_def items_ok_def)
  have ok: "items_ok cp" "smalls cp" "heap_ok cp" "free_cpus cp = - dom (deadlines cp)" using inv by (simp_all add: cpudl_inv_def)
  have "cpu \<in> dom (deadlines cp)" using old by (simp add: deadlines_def domIff)
  then show ?thesis using change_key_correct [OF ok(3,1,2) i(1) d] set_dl_facts(3) [OF ok(1,2) i(1) d] ok(4) i(2)
    by (auto simp: cpudl_inv_def same_map_def)
qed

text \<open>A CPU that gets its first entry is appended with deadline 0 and moved to its place.\<close>

definition push_zero :: "cpudl \<Rightarrow> nat \<Rightarrow> cpudl" where
  "push_zero cp cpu = cp\<lparr>heap_size := heap_size cp + 1, elements := (elements cp)(heap_size cp := \<lparr>dl = 0, item_cpu = cpu\<rparr>),
     cpu_to_idx := (cpu_to_idx cp)(cpu := Some (heap_size cp))\<rparr>"

lemma push_zero_facts:
  assumes ok: "items_ok cp" "smalls cp" "heap_ok cp" and new: "cpu_to_idx cp cpu = None"
  shows "items_ok (push_zero cp cpu)" "smalls (push_zero cp cpu)" "heap_ok (push_zero cp cpu)"
    and "deadlines (push_zero cp cpu) = (deadlines cp)(cpu \<mapsto> 0)"
proof -
  have ne: "item_cpu (elements cp i) \<noteq> cpu" if "i < heap_size cp" for i using ok(1) new that by (auto simp: items_ok_def)
  show "items_ok (push_zero cp cpu)" using ok(1) ne by (auto simp: items_ok_def push_zero_def less_Suc_eq)
  show "smalls (push_zero cp cpu)" using ok(2) by (auto simp: smalls_def push_zero_def small_def less_Suc_eq)
  show "deadlines (push_zero cp cpu) = (deadlines cp)(cpu \<mapsto> 0)"
    using ok(1) by (fastforce simp: deadlines_def push_zero_def items_ok_def fun_eq_iff intro: option.map_cong)
  have "key (push_zero cp cpu) i \<le> key (push_zero cp cpu) (parent i)" if "0 < i" "i < heap_size cp + 1" for i
    using ok(3) that parent_less [OF that(1)] by (cases "i = heap_size cp") (auto simp: heap_ok_def key_def push_zero_def)
  then show "heap_ok (push_zero cp cpu)" by (simp add: heap_ok_def push_zero_def)
qed

lemma cpudl_insert_correct:
  assumes inv: "cpudl_inv cp" and new: "cpu_to_idx cp cpu = None" and d: "small d"
  shows "cpudl_inv (cpudl_set cp cpu d True) \<and> deadlines (cpudl_set cp cpu d True) = (deadlines cp)(cpu \<mapsto> d)"
proof -
  let ?n = "heap_size cp" and ?cp = "push_zero cp cpu"
  have ok: "items_ok cp" "smalls cp" "heap_ok cp" "free_cpus cp = - dom (deadlines cp)" using inv by (simp_all add: cpudl_inv_def)
  note p = push_zero_facts [OF ok(1-3) new]
  have n: "?n < heap_size ?cp" "item_cpu (elements ?cp ?n) = cpu" "free_cpus ?cp = free_cpus cp" by (simp_all add: push_zero_def)
  have eq: "cpudl_set cp cpu d True = (cpudl_change_key ?cp ?n d)\<lparr>free_cpus := free_cpus (cpudl_change_key ?cp ?n d) - {cpu}\<rparr>"
    using new by (simp add: cpudl_set_def push_zero_def Let_def)
  have "deadlines (cpudl_change_key ?cp ?n d) = (deadlines cp)(cpu \<mapsto> d)"
      "free_cpus (cpudl_change_key ?cp ?n d) = free_cpus cp"
    using change_key_correct [OF p(3,1,2) n(1) d] set_dl_facts(3) [OF p(1,2) n(1) d] n(2,3) p(4) by (simp_all add: same_map_def)
  moreover have "items_ok (cpudl_change_key ?cp ?n d)" "smalls (cpudl_change_key ?cp ?n d)" "heap_ok (cpudl_change_key ?cp ?n d)"
    using change_key_correct [OF p(3,1,2) n(1) d] by (simp_all add: same_map_def)
  ultimately show ?thesis using ok(4) by (auto simp: eq cpudl_inv_def)
qed

text \<open>Removal puts the last entry in the place of the removed one.\<close>

definition pull_last :: "cpudl \<Rightarrow> nat \<Rightarrow> nat \<Rightarrow> cpudl" where
  "pull_last cp cpu old_idx = cp\<lparr>elements := (elements cp)(old_idx := elements cp (heap_size cp - 1)), heap_size := heap_size cp - 1,
     cpu_to_idx := (cpu_to_idx cp)(item_cpu (elements cp (heap_size cp - 1)) := Some old_idx, cpu := None)\<rparr>"

lemma heap_size_pull_last [simp]: "heap_size (pull_last cp cpu i) = heap_size cp - 1"
  by (simp add: pull_last_def)

lemma key_pull_last: "key (pull_last cp cpu old_idx) i = key cp (if i = old_idx then heap_size cp - 1 else i)"
  by (simp add: key_def pull_last_def)

lemma cpudl_remove_eq:
  "cpudl_remove cp cpu old_idx =
     (let (cp2, idx) = sift_up (pull_last cp cpu old_idx) old_idx
      in cpudl_heapify (cp2\<lparr>free_cpus := insert cpu (free_cpus cp2)\<rparr>) idx)"
  by (simp add: cpudl_remove_def pull_last_def Let_def)

text \<open>The CPUs whose entries do not move when the last entry takes the place of a removed one.\<close>

lemma pull_last_frame:
  assumes ok: "items_ok cp" and old: "cpu_to_idx cp cpu = Some old_idx" and cl: "cl = item_cpu (elements cp (heap_size cp - 1))"
  shows "old_idx < heap_size cp" "item_cpu (elements cp old_idx) = cpu" "cpu_to_idx cp cl = Some (heap_size cp - 1)"
    and "cl = cpu \<longleftrightarrow> old_idx = heap_size cp - 1"
    and "cpu_to_idx cp c = Some i \<Longrightarrow> c \<noteq> cpu \<Longrightarrow> c \<noteq> cl \<Longrightarrow> i < heap_size cp - 1 \<and> i \<noteq> old_idx \<and> item_cpu (elements cp i) = c"
proof -
  show i: "old_idx < heap_size cp" "item_cpu (elements cp old_idx) = cpu" using ok old by (auto simp: items_ok_def)
  then show l: "cpu_to_idx cp cl = Some (heap_size cp - 1)" using ok cl by (simp add: items_ok_def)
  show "cl = cpu \<longleftrightarrow> old_idx = heap_size cp - 1"
  proof
    assume "cl = cpu"
    then have "Some (heap_size cp - 1) = Some old_idx" using l old by metis
    then show "old_idx = heap_size cp - 1" by simp
  qed (use i(2) cl in simp)
  assume c: "cpu_to_idx cp c = Some i" "c \<noteq> cpu" "c \<noteq> cl"
  then have "i < heap_size cp" "item_cpu (elements cp i) = c" using ok by (auto simp: items_ok_def)
  then show "i < heap_size cp - 1 \<and> i \<noteq> old_idx \<and> item_cpu (elements cp i) = c" using c(2,3) i(2) cl by (cases "i = heap_size cp - 1") auto
qed

lemma pull_last_items:
  assumes ok: "items_ok cp" and old: "cpu_to_idx cp cpu = Some old_idx"
  shows "items_ok (pull_last cp cpu old_idx)"
proof -
  let ?l = "heap_size cp - 1" let ?cl = "item_cpu (elements cp ?l)"
  note fr = pull_last_frame [OF ok old refl]
  have "cpu_to_idx (pull_last cp cpu old_idx) (item_cpu (elements (pull_last cp cpu old_idx) i)) = Some i" if "i < ?l" for i
  proof (cases "i = old_idx")
    case True
    then show ?thesis using fr(4) that by (simp add: pull_last_def)
  next
    case False
    have ih: "i < heap_size cp" using that by simp
    have "item_cpu (elements cp i) \<noteq> cpu" using items_inject [OF ok ih fr(1)] False fr(2) by auto
    moreover have "item_cpu (elements cp i) \<noteq> ?cl" using items_inject [OF ok ih, of ?l] that by auto
    moreover note False
    ultimately show ?thesis using ok ih by (simp add: pull_last_def items_ok_def)
  qed
  moreover have "i < ?l \<and> item_cpu (elements (pull_last cp cpu old_idx) i) = c"
    if "cpu_to_idx (pull_last cp cpu old_idx) c = Some i" for c i
  proof -
    have c: "c \<noteq> cpu" using that by (auto simp: pull_last_def)
    show ?thesis
    proof (cases "c = ?cl")
      case True
      then show ?thesis using that c fr(1,4) by (simp add: pull_last_def)
    next
      case False
      then show ?thesis using that c fr(5) [of c i] by (simp add: pull_last_def)
    qed
  qed
  ultimately show ?thesis by (simp add: items_ok_def)
qed

lemma pull_last_facts:
  assumes ok: "items_ok cp" "smalls cp" and old: "cpu_to_idx cp cpu = Some old_idx"
  shows "items_ok (pull_last cp cpu old_idx)" "smalls (pull_last cp cpu old_idx)"
    and "deadlines (pull_last cp cpu old_idx) = (deadlines cp)(cpu := None)"
proof -
  note fr = pull_last_frame [OF ok(1) old refl]
  show "items_ok (pull_last cp cpu old_idx)" by (rule pull_last_items [OF ok(1) old])
  show "smalls (pull_last cp cpu old_idx)" using ok(2) fr(1) by (auto simp: smalls_def pull_last_def)
  show "deadlines (pull_last cp cpu old_idx) = (deadlines cp)(cpu := None)"
  proof
    fix c
    show "deadlines (pull_last cp cpu old_idx) c = ((deadlines cp)(cpu := None)) c"
    proof (cases "c = cpu \<or> c = item_cpu (elements cp (heap_size cp - 1))")
      case True
      then show ?thesis using fr(3) by (auto simp: deadlines_def pull_last_def)
    next
      case False
      then show ?thesis using fr(5) [of c] by (cases "cpu_to_idx cp c") (auto simp: deadlines_def pull_last_def)
    qed
  qed
qed

lemma pull_last_heap:
  fixes cp :: cpudl and cpu :: nat
  assumes h: "heap_ok cp" and i: "old_idx < heap_size cp - 1"
  defines "cp' \<equiv> pull_last cp cpu old_idx"
  shows "if 0 < old_idx \<and> key cp' (parent old_idx) < key cp' old_idx then up_ok cp' old_idx else down_ok cp' old_idx"
proof -
  have hp: "key cp j \<le> key cp (parent j)" if "0 < j" "j < heap_size cp" for j using h that by (simp add: heap_ok_def)
  have away: "key cp' j \<le> key cp' (parent j)" if "0 < j" "j < heap_size cp'" "j \<noteq> old_idx" "parent j \<noteq> old_idx" for j
    using hp [OF that(1)] that(2-4) by (simp add: cp'_def key_pull_last)
  have below: "key cp' c \<le> key cp' (parent old_idx)" if "0 < old_idx" "0 < c" "c < heap_size cp'" "parent c = old_idx" for c
  proof -
    have "c \<noteq> old_idx" "parent old_idx \<noteq> old_idx" using parent_less [OF that(1)] parent_less [OF that(2)] that(4) by auto
    moreover have "key cp c \<le> key cp old_idx" using hp [OF that(2)] that(3,4) by (simp add: cp'_def)
    moreover have "key cp old_idx \<le> key cp (parent old_idx)" using hp [OF that(1)] i by simp
    ultimately show ?thesis by (simp add: cp'_def key_pull_last)
  qed
  then have g: "grand_ok cp' old_idx" by (simp add: grand_ok_def)
  show ?thesis
  proof (cases "0 < old_idx \<and> key cp' (parent old_idx) < key cp' old_idx")
    case True
    have "key cp' j \<le> key cp' (parent j)" if "0 < j" "j < heap_size cp'" "j \<noteq> old_idx" for j
      using away [OF that] below [OF _ that(1,2)] True by (cases "parent j = old_idx") auto
    then show ?thesis using True g by (simp add: up_ok_def)
  next
    case False
    have "key cp' j \<le> key cp' (parent j)" if "0 < j" "j < heap_size cp'" "parent j \<noteq> old_idx" for j
      using away [OF that(1,2) _ that(3)] False that(1) by (cases "j = old_idx") auto
    then show ?thesis using False g by (auto simp: down_ok_def)
  qed
qed

lemma sift_up_stay:
  assumes "\<not> (0 < idx \<and> dl_time_before (dl (elements cp (parent idx))) (dl (elements cp idx)))"
  shows "sift_up cp idx = (cp, idx)"
  using assms by (subst sift_up.simps) (rule if_not_P)

lemma cpudl_remove_heap:
  assumes inv: "cpudl_inv cp" and old: "cpu_to_idx cp cpu = Some old_idx"
  defines "cp' \<equiv> pull_last cp cpu old_idx"
  shows "heap_ok (cpudl_remove cp cpu old_idx) \<and>
    same_map (cp'\<lparr>free_cpus := insert cpu (free_cpus cp)\<rparr>) (cpudl_remove cp cpu old_idx)"
proof -
  have ok: "items_ok cp" "smalls cp" "heap_ok cp" using inv by (simp_all add: cpudl_inv_def)
  note p = pull_last_facts [OF ok(1,2) old, folded cp'_def]
  have f: "free_cpus cp' = free_cpus cp" "heap_size cp' = heap_size cp - 1" by (simp_all add: cp'_def pull_last_def)
  have i: "old_idx < heap_size cp" using ok(1) old by (auto simp: items_ok_def)
  show ?thesis
  proof (cases "0 < old_idx \<and> dl_time_before (dl (elements cp' (parent old_idx))) (dl (elements cp' old_idx))")
    case True
    let ?s = "sift_up cp' old_idx"
    have "old_idx \<noteq> heap_size cp - 1"
    proof
      assume "old_idx = heap_size cp - 1"
      then have "elements cp' = elements cp" by (simp add: cp'_def pull_last_def)
      then have "key cp (parent old_idx) < key cp old_idx"
        using True before_key [OF ok(2) _ i, of "parent old_idx"] parent_less [of old_idx] i by simp
      then show False using ok(3) True i by (auto simp: heap_ok_def dest: leD)
    qed
    then have l: "old_idx < heap_size cp'" using i f by simp
    moreover have "parent old_idx < heap_size cp'" using parent_less [of old_idx] True l by simp
    ultimately have "up_ok cp' old_idx"
      using pull_last_heap [OF ok(3), of old_idx cpu] True before_key [OF p(2)] f(2) by (auto simp: cp'_def split: if_splits)
    then have s: "heap_ok (fst ?s)" "same_map cp' (fst ?s)" using sift_up_correct p(1,2) l by auto
    let ?cp = "(fst ?s)\<lparr>free_cpus := insert cpu (free_cpus (fst ?s))\<rparr>"
    have "cpudl_remove cp cpu old_idx = cpudl_heapify ?cp (snd ?s)"
      by (simp add: cpudl_remove_eq cp'_def case_prod_beta)
    then show ?thesis using heapify_heap [of ?cp "snd ?s"] s f(1) by (simp add: same_map_def)
  next
    case False
    let ?cp = "cp'\<lparr>free_cpus := insert cpu (free_cpus cp)\<rparr>"
    have eq: "cpudl_remove cp cpu old_idx = cpudl_heapify ?cp old_idx"
      using sift_up_stay [OF False] f(1) by (simp add: cpudl_remove_eq flip: cp'_def)
    show ?thesis
    proof (cases "old_idx = heap_size cp - 1")
      case True
      then have "elements cp' = elements cp" by (simp add: cp'_def pull_last_def)
      then have "heap_ok cp'" using ok(3) f(2) unfolding heap_ok_def key_def by auto
      then show ?thesis using eq heapify_heap [of ?cp old_idx] p(1,2) by simp
    next
      case ne: False
      then have l: "old_idx < heap_size cp'" using i f by simp
      then have "\<not> (0 < old_idx \<and> key cp' (parent old_idx) < key cp' old_idx)"
        using False before_key [OF p(2) _ l, of "parent old_idx"] parent_less [of old_idx] by auto
      then have "down_ok cp' old_idx" using pull_last_heap [OF ok(3), of old_idx cpu] l f(2) by (simp add: cp'_def split: if_splits)
      then show ?thesis using eq heapify_correct [of ?cp old_idx] p(1,2) l by simp
    qed
  qed
qed

lemma cpudl_remove_correct:
  assumes inv: "cpudl_inv cp" and old: "cpu_to_idx cp cpu = Some old_idx"
  shows "cpudl_inv (cpudl_remove cp cpu old_idx) \<and> deadlines (cpudl_remove cp cpu old_idx) = (deadlines cp)(cpu := None)"
proof -
  have ok: "items_ok cp" "smalls cp" "free_cpus cp = - dom (deadlines cp)" using inv by (simp_all add: cpudl_inv_def)
  show ?thesis using cpudl_remove_heap [OF inv old] pull_last_facts(3) [OF ok(1,2) old] ok(3)
    by (auto simp: cpudl_inv_def same_map_def)
qed

lemma cpudl_set_invalid:
  "cpudl_inv cp \<Longrightarrow> cpudl_inv (cpudl_set cp cpu d False) \<and> deadlines (cpudl_set cp cpu d False) = (deadlines cp)(cpu := None)"
proof (cases "cpu_to_idx cp cpu")
  case None
  then have "deadlines cp cpu = None" by (simp add: dom_deadlines)
  moreover assume "cpudl_inv cp"
  ultimately show ?thesis using None by (simp add: cpudl_set_def fun_upd_idem)
next
  case (Some i)
  moreover assume "cpudl_inv cp"
  ultimately show ?thesis using cpudl_remove_correct by (simp add: cpudl_set_def)
qed

lemma cpudl_set_valid:
  assumes "cpudl_inv cp" "small d"
  shows "cpudl_inv (cpudl_set cp cpu d True) \<and> deadlines (cpudl_set cp cpu d True) = (deadlines cp)(cpu \<mapsto> d)"
proof (cases "cpu_to_idx cp cpu")
  case None
  then show ?thesis using cpudl_insert_correct assms by blast
next
  case (Some i)
  then show ?thesis using cpudl_update_correct [OF assms(1) Some assms(2)] by (simp add: cpudl_set_def)
qed

lemma cpudl_init_inv: "cpudl_init True = Inr cp \<Longrightarrow> cpudl_inv cp \<and> deadlines cp = Map.empty"
  by (auto simp: cpudl_init_def cpudl_inv_def items_ok_def smalls_def heap_ok_def deadlines_def)

text \<open>The root of the heap bounds every deadline.\<close>

lemma heap_root: "heap_ok cp \<Longrightarrow> i < heap_size cp \<Longrightarrow> key cp i \<le> key cp 0"
proof (induction i rule: less_induct)
  case (less i)
  show ?case
  proof (cases "i = 0")
    case False
    then have "key cp (parent i) \<le> key cp 0" using less parent_less [of i] by simp
    moreover have "key cp i \<le> key cp (parent i)" using less.prems False by (simp add: heap_ok_def)
    ultimately show ?thesis by simp
  qed simp
qed

lemma maximum_latest:
  assumes "cpudl_inv cp" "deadlines cp c = Some d"
  shows "\<exists>dm. deadlines cp (cpudl_maximum cp) = Some dm \<and> dm = dl (elements cp 0) \<and> d \<le> dm"
proof -
  from assms(2) obtain i where i: "cpu_to_idx cp c = Some i" "d = dl (elements cp i)" by (auto simp: deadlines_def)
  have ok: "items_ok cp" "heap_ok cp" using assms(1) by (simp_all add: cpudl_inv_def)
  then have n: "i < heap_size cp" using i(1) by (auto simp: items_ok_def)
  then have "0 < heap_size cp" by simp
  then have "cpu_to_idx cp (cpudl_maximum cp) = Some 0" using ok(1) by (simp add: items_ok_def cpudl_maximum_def)
  then show ?thesis using heap_root [OF ok(2) n] i(2) by (simp add: deadlines_def key_def word_le_nat_alt)
qed

section \<open>Runs\<close>

text \<open>A call of \<^verbatim>\<open>cpudl_set\<close>, and what it does to the map from CPUs to their deadlines.\<close>

definition cpudl_call :: "cpudl \<Rightarrow> nat \<times> u64 \<times> bool \<Rightarrow> cpudl" where
  "cpudl_call cp = (\<lambda>(cpu, d, is_valid). cpudl_set cp cpu d is_valid)"

definition map_call :: "(nat \<rightharpoonup> u64) \<Rightarrow> nat \<times> u64 \<times> bool \<Rightarrow> (nat \<rightharpoonup> u64)" where
  "map_call m = (\<lambda>(cpu, d, is_valid). m(cpu := if is_valid then Some d else None))"

definition near_call :: "nat \<times> u64 \<times> bool \<Rightarrow> bool" where
  "near_call = (\<lambda>(cpu, d, is_valid). small d)"

lemma cpudl_call_correct:
  assumes "cpudl_inv cp" "near_call e"
  shows "cpudl_inv (cpudl_call cp e) \<and> deadlines (cpudl_call cp e) = map_call (deadlines cp) e"
proof -
  obtain cpu d v where e: "e = (cpu, d, v)" by (cases e)
  then have "small d" using assms(2) by (simp add: near_call_def)
  then show ?thesis using e cpudl_set_valid [OF assms(1)] cpudl_set_invalid [OF assms(1)]
    by (cases v) (simp_all add: cpudl_call_def map_call_def)
qed

interpretation dlheap: refinement_system cpudl_call map_call deadlines cpudl_inv near_call
  by unfold_locales (simp_all add: cpudl_call_correct)

text \<open>
  C4. After any sequence of calls of \<^verbatim>\<open>cpudl_set\<close> on an initialised structure, with deadlines below
  \<open>2^63\<close>, the heap represents exactly the map that the calls describe: the last deadline set for every CPU
  that was not invalidated since. The mask of free CPUs is the complement of the CPUs in the heap, and when
  the heap is not empty its root is the CPU with the latest deadline.
\<close>

theorem cpudl_refines_map:
  assumes "cpudl_init True = Inr cp" "list_all near_call calls"
  shows "let cp' = foldl cpudl_call cp calls; m = foldl map_call Map.empty calls
    in deadlines cp' = m \<and> free_cpus cp' = {c. m c = None} \<and>
       (\<forall>c d. m c = Some d \<longrightarrow> (\<exists>dm. m (cpudl_maximum cp') = Some dm \<and> d \<le> dm))"
proof -
  let ?cp = "foldl cpudl_call cp calls" and ?m = "foldl map_call Map.empty calls"
  have inv: "cpudl_inv ?cp" and m: "deadlines ?cp = ?m"
    using dlheap.run_refines [of cp calls] cpudl_init_inv [OF assms(1)] assms(2) by auto
  have "free_cpus ?cp = {c. ?m c = None}" using inv m by (auto simp: cpudl_inv_def)
  moreover have "\<exists>dm. ?m (cpudl_maximum ?cp) = Some dm \<and> d \<le> dm" if "?m c = Some d" for c d
    using maximum_latest [OF inv] that m by auto
  ultimately show ?thesis using m by (simp add: Let_def)
qed

theorem cpudl_refines_map_witness:
  "\<exists>cp. cpudl_init True = Inr cp \<and> deadlines (foldl cpudl_call cp [(0, 5, True), (1, 9, True), (2, 7, True), (1, 0, False)]) 2 = Some 7 \<and>
    cpudl_maximum (foldl cpudl_call cp [(0, 5, True), (1, 9, True), (2, 7, True), (1, 0, False)]) \<in> {0, 2}"
proof -
  let ?calls = "[(0, 5, True), (1, 9, True), (2, 7, True), (1, 0, False)] :: (nat \<times> u64 \<times> bool) list"
  obtain cp where cp: "cpudl_init True = Inr cp" by (simp add: cpudl_init_def)
  have near: "list_all near_call ?calls" by (simp add: near_call_def small_def)
  have m: "foldl map_call Map.empty ?calls = [0 \<mapsto> 5, 2 \<mapsto> 7]" by (auto simp: map_call_def)
  note r = cpudl_refines_map [OF cp near, unfolded Let_def m]
  have "cpudl_maximum (foldl cpudl_call cp ?calls) \<in> {0, 2}" using r by (fastforce split: if_splits)
  then show ?thesis using cp r by auto
qed

text \<open>
  C27. What \<^verbatim>\<open>cpudl_find\<close> returns for a task, when some CPU has a deadline and the deadlines are in one half of the clock: with a mask to fill in and an
  allowed CPU that is free and active, one of those; otherwise the CPU of the latest deadline, exactly when
  the task may run there and its own deadline is before it. The CPU returned is always an allowed one.
\<close>

theorem cpudl_find_best:
  assumes inv: "cpudl_inv cp" and heap: "deadlines cp c0 = Some d0" and d: "small deadline"
    and any: "\<And>m. m \<noteq> {} \<Longrightarrow> cpumask_any m \<in> m"
  shows "\<exists>top dm. deadlines cp top = Some dm \<and> (\<forall>c d'. deadlines cp c = Some d' \<longrightarrow> d' \<le> dm) \<and>
    fst (cpudl_find cpumask_any active cp allowed deadline later_mask) =
      (if later_mask \<and> {c. deadlines cp c = None} \<inter> allowed \<inter> active \<noteq> {}
       then Some (cpumask_any ({c. deadlines cp c = None} \<inter> allowed \<inter> active))
       else if top \<in> allowed \<and> deadline < dm then Some top else None) \<and>
    (\<forall>c. fst (cpudl_find cpumask_any active cp allowed deadline later_mask) = Some c \<longrightarrow> c \<in> allowed)"
proof -
  let ?free = "{c. deadlines cp c = None} \<inter> allowed \<inter> active"
  obtain dm where dm: "deadlines cp (cpudl_maximum cp) = Some dm" "dm = dl (elements cp 0)" using maximum_latest [OF inv heap] by blast
  have latest: "d' \<le> dm" if "deadlines cp c = Some d'" for c d' using maximum_latest [OF inv that] dm by auto
  have free: "free_cpus cp = {c. deadlines cp c = None}" using inv by (auto simp: cpudl_inv_def)
  have "0 < heap_size cp" using inv heap by (cases "heap_size cp") (auto simp: cpudl_inv_def items_ok_def deadlines_def)
  then have "small dm" using inv dm(2) by (simp add: cpudl_inv_def smalls_def)
  then have lt: "dl_time_before deadline dm \<longleftrightarrow> deadline < dm" using d dl_time_before_small by (simp add: word_less_nat_alt)
  have "fst (cpudl_find cpumask_any active cp allowed deadline later_mask) =
      (if later_mask \<and> ?free \<noteq> {} then Some (cpumask_any ?free)
       else if cpudl_maximum cp \<in> allowed \<and> deadline < dm then Some (cpudl_maximum cp) else None)"
    using lt by (auto simp: cpudl_find_def Let_def free dm(2) Int_assoc)
  moreover have "cpumask_any ?free \<in> allowed" if "?free \<noteq> {}" using any [OF that] by simp
  ultimately show ?thesis using dm(1) latest by (intro exI [of _ "cpudl_maximum cp"] exI [of _ dm]) (auto split: if_splits)
qed

theorem cpudl_find_best_witness:
  "\<exists>cp top dm. deadlines cp = [0 \<mapsto> 5] \<and> deadlines cp top = Some dm \<and>
    fst (cpudl_find (\<lambda>m. LEAST x. x \<in> m) {0} cp {0} 3 True) = (if top \<in> {0} \<and> 3 < dm then Some top else None)"
proof -
  obtain cp0 where "cpudl_init True = Inr cp0" by (simp add: cpudl_init_def)
  then have i: "cpudl_inv cp0" "deadlines cp0 = Map.empty" using cpudl_init_inv by auto
  let ?cp = "cpudl_set cp0 0 5 True"
  have cp: "cpudl_inv ?cp" "deadlines ?cp = [0 \<mapsto> 5]" using cpudl_set_valid [OF i(1), of 5 0] i(2) by (simp_all add: small_def)
  have d: "deadlines ?cp 0 = Some 5" "small 3" using cp(2) by (simp_all add: small_def)
  have any: "(LEAST x. x \<in> m) \<in> m" if "m \<noteq> {}" for m :: "nat set" using that LeastI_ex [of "\<lambda>x. x \<in> m"] by auto
  have no: "({c. deadlines ?cp c = None} \<inter> {0} \<inter> {0} \<noteq> {}) = False" using cp(2) by auto
  note r = cpudl_find_best [OF cp(1) d any, of "{0}" "{0}" True, unfolded no simp_thms if_False]
  then show ?thesis using cp(2) by blast
qed

text \<open>
  When the last entry is removed the array still holds it, and the search does not look at the size: it
  returns the CPU of an entry that is no longer there.
\<close>

lemma cpudl_find_stale_root:
  "cpudl_init True = Inr cp \<Longrightarrow>
    (let cp' = cpudl_set (cpudl_set cp 0 9 True) 0 0 False
     in heap_size cp' = 0 \<and> fst (cpudl_find f {} cp' {0} 5 False) = Some 0)"
proof -
  assume "cpudl_init True = Inr cp"
  then have cp: "cp = \<lparr>heap_size = 0, cpu_to_idx = (\<lambda>_. None), elements = (\<lambda>_. \<lparr>dl = 0, item_cpu = 0\<rparr>), free_cpus = UNIV\<rparr>"
    by (simp add: cpudl_init_def)
  have h: "cpudl_heapify q 0 = q" if "heap_size q \<le> 1" for q
    using that by (subst cpudl_heapify.simps) (simp add: largest_of_def Let_def left_child_def right_child_def)
  have s: "sift_up q 0 = (q, 0)" for q by (rule sift_up_stay) simp
  show ?thesis by (simp add: cp cpudl_set_def Let_def cpudl_change_key_def cpudl_remove_def set_dl_def h s
      cpudl_find_def cpudl_maximum_def dl_time_before_small small_def)
qed

end
