(* ===== verification/Cpu_Priority.thy ===== *)
theory Cpu_Priority
  imports Kernel_Prelude
begin

text \<open>
  The priority vectors of the real-time scheduler (\<^verbatim>\<open>sched/cpupri.c\<close>, \<^verbatim>\<open>sched/cpupri.h\<close>): for every
  priority level the set of the CPUs that run at it, and a search for the lowest level with a CPU a task may
  run on. The writes of \<^verbatim>\<open>cpupri_set\<close> are kept apart, in their order, because the search runs without a lock.
  A memory access takes effect at once, in program order, as the barriers of the code ask for.
\<close>

section \<open>Model\<close>

record cpupri_vec =
  cnt :: int
  mask :: "nat set"

record cpupri =
  pri_to_cpu :: "nat \<Rightarrow> cpupri_vec"
  cpu_to_pri :: "nat \<Rightarrow> int"

definition MAX_RT_PRIO :: int where
  "MAX_RT_PRIO = 100"

definition MAX_PRIO :: int where
  "MAX_PRIO = 140"

definition CPUPRI_NR_PRIORITIES :: int where
  "CPUPRI_NR_PRIORITIES = MAX_RT_PRIO + 2"

abbreviation (input) "CPUPRI_INVALID \<equiv> -1 :: int"
abbreviation (input) "CPUPRI_IDLE \<equiv> 0 :: int"
abbreviation (input) "CPUPRI_NORMAL \<equiv> 1 :: int"

definition convert_prio :: "int \<Rightarrow> int" where
  "convert_prio prio =
     (if prio = CPUPRI_INVALID then CPUPRI_INVALID
      else if prio = MAX_PRIO then CPUPRI_IDLE
      else if prio \<ge> MAX_RT_PRIO then CPUPRI_NORMAL
      else MAX_RT_PRIO - prio + 1)"

text \<open>
  The loop of the search from level \<open>idx\<close> on: the mask of the first level that is not skipped.
\<close>

function find_from :: "cpupri \<Rightarrow> nat set \<Rightarrow> nat \<Rightarrow> int \<Rightarrow> nat set option" where
  "find_from cp cpus_allowed idx task_pri =
     (if \<not> int idx < task_pri then None
      else if cnt (pri_to_cpu cp idx) = 0 then find_from cp cpus_allowed (idx + 1) task_pri
      else if cpus_allowed \<inter> mask (pri_to_cpu cp idx) = {} then find_from cp cpus_allowed (idx + 1) task_pri
      else Some (cpus_allowed \<inter> mask (pri_to_cpu cp idx)))"
  by pat_completeness auto

termination
  by (relation "measure (\<lambda>(cp, allowed, idx, task_pri). nat (task_pri - int idx))") auto

declare find_from.simps [simp del]

definition cpupri_find :: "cpupri \<Rightarrow> nat set \<Rightarrow> int \<Rightarrow> nat set option" where
  "cpupri_find cp cpus_allowed prio =
     (let task_pri = convert_prio prio
      in if task_pri \<ge> MAX_RT_PRIO then None else find_from cp cpus_allowed 0 task_pri)"

text \<open>The single writes of an update.\<close>

definition mask_set :: "int \<Rightarrow> nat \<Rightarrow> cpupri \<Rightarrow> cpupri" where
  "mask_set pri cpu cp = cp\<lparr>pri_to_cpu := (pri_to_cpu cp)(nat pri := (pri_to_cpu cp (nat pri))\<lparr>mask := insert cpu (mask (pri_to_cpu cp (nat pri)))\<rparr>)\<rparr>"

definition mask_clear :: "int \<Rightarrow> nat \<Rightarrow> cpupri \<Rightarrow> cpupri" where
  "mask_clear pri cpu cp = cp\<lparr>pri_to_cpu := (pri_to_cpu cp)(nat pri := (pri_to_cpu cp (nat pri))\<lparr>mask := mask (pri_to_cpu cp (nat pri)) - {cpu}\<rparr>)\<rparr>"

definition count_add :: "int \<Rightarrow> int \<Rightarrow> cpupri \<Rightarrow> cpupri" where
  "count_add pri k cp = cp\<lparr>pri_to_cpu := (pri_to_cpu cp)(nat pri := (pri_to_cpu cp (nat pri))\<lparr>cnt := cnt (pri_to_cpu cp (nat pri)) + k\<rparr>)\<rparr>"

definition pri_write :: "nat \<Rightarrow> int \<Rightarrow> cpupri \<Rightarrow> cpupri" where
  "pri_write cpu pri cp = cp\<lparr>cpu_to_pri := (cpu_to_pri cp)(cpu := pri)\<rparr>"

definition set_writes :: "nat \<Rightarrow> int \<Rightarrow> int \<Rightarrow> (cpupri \<Rightarrow> cpupri) list" where
  "set_writes cpu oldpri newpri =
     (if newpri \<noteq> CPUPRI_INVALID then [mask_set newpri cpu, count_add newpri 1] else []) @
     (if oldpri \<noteq> CPUPRI_INVALID then [count_add oldpri (- 1), mask_clear oldpri cpu] else []) @
     [pri_write cpu newpri]"

abbreviation (input) run_writes :: "(cpupri \<Rightarrow> cpupri) list \<Rightarrow> cpupri \<Rightarrow> cpupri" where
  "run_writes ws cp \<equiv> fold (\<lambda>w. w) ws cp"

text \<open>No state is the failed \<^verbatim>\<open>BUG_ON\<close>.\<close>

definition cpupri_set :: "cpupri \<Rightarrow> nat \<Rightarrow> int \<Rightarrow> cpupri option" where
  "cpupri_set cp cpu newprio =
     (let oldpri = cpu_to_pri cp cpu; newpri = convert_prio newprio
      in if newpri \<ge> CPUPRI_NR_PRIORITIES then None
         else if newpri = oldpri then Some cp
         else Some (run_writes (set_writes cpu oldpri newpri) cp))"

text \<open>
  Initialisation: \<open>alloc_ok i\<close> is the outcome of the allocation of mask \<open>i\<close>. The result carries the masks
  that are allocated when the function returns.
\<close>

function init_masks :: "(nat \<Rightarrow> bool) \<Rightarrow> nat \<Rightarrow> nat set \<Rightarrow> (nat \<times> nat set) + nat set" where
  "init_masks alloc_ok i live =
     (if \<not> int i < CPUPRI_NR_PRIORITIES then Inr live
      else if \<not> alloc_ok i then Inl (i, live)
      else init_masks alloc_ok (i + 1) (insert i live))"
  by pat_completeness auto

termination
  by (relation "measure (\<lambda>(ok, i, live). nat (CPUPRI_NR_PRIORITIES - int i))") auto

declare init_masks.simps [simp del]

fun free_below :: "nat \<Rightarrow> nat set \<Rightarrow> nat set" where
  "free_below 0 live = live"
| "free_below (Suc i) live = free_below i (live - {i})"

definition cpupri_init :: "nat set \<Rightarrow> (nat \<Rightarrow> bool) \<Rightarrow> cpupri result \<times> nat set" where
  "cpupri_init possible alloc_ok =
     (case init_masks alloc_ok 0 {} of
        Inl (i, live) \<Rightarrow> (Inl ENOMEM, free_below i live)
      | Inr live \<Rightarrow> (Inr \<lparr>pri_to_cpu = (\<lambda>_. \<lparr>cnt = 0, mask = {}\<rparr>), cpu_to_pri = (\<lambda>c. if c \<in> possible then CPUPRI_INVALID else 0)\<rparr>, live))"

definition cpupri_cleanup :: "nat set \<Rightarrow> nat set" where
  "cpupri_cleanup live = free_below (nat CPUPRI_NR_PRIORITIES) live"

section \<open>Invariant\<close>

text \<open>Level \<open>l\<close> holds exactly the possible CPUs whose recorded level is \<open>l\<close>, and counts them.\<close>

definition cpupri_inv :: "nat set \<Rightarrow> cpupri \<Rightarrow> bool" where
  "cpupri_inv possible cp \<longleftrightarrow> finite possible \<and>
     (\<forall>c. - 1 \<le> cpu_to_pri cp c \<and> cpu_to_pri cp c < CPUPRI_NR_PRIORITIES) \<and>
     (\<forall>l. mask (pri_to_cpu cp l) = {c \<in> possible. cpu_to_pri cp c = int l} \<and>
          cnt (pri_to_cpu cp l) = int (card (mask (pri_to_cpu cp l))))"

lemma convert_prio_ge: "- 1 \<le> convert_prio p"
  by (simp add: convert_prio_def MAX_RT_PRIO_def MAX_PRIO_def)

lemmas write_defs = mask_set_def mask_clear_def count_add_def pri_write_def

text \<open>What an update leaves at a level.\<close>

lemma writes_mask:
  assumes "oldpri \<noteq> newpri" "- 1 \<le> oldpri" "- 1 \<le> newpri"
  shows "mask (pri_to_cpu (run_writes (set_writes cpu oldpri newpri) cp) l) =
    (if int l = newpri then insert cpu (mask (pri_to_cpu cp l))
     else if int l = oldpri then mask (pri_to_cpu cp l) - {cpu} else mask (pri_to_cpu cp l))"
  using assms by (auto simp: set_writes_def write_defs)

lemma writes_cnt:
  assumes "oldpri \<noteq> newpri" "- 1 \<le> oldpri" "- 1 \<le> newpri"
  shows "cnt (pri_to_cpu (run_writes (set_writes cpu oldpri newpri) cp) l) =
    cnt (pri_to_cpu cp l) + (if int l = newpri then 1 else if int l = oldpri then - 1 else 0)"
  using assms by (auto simp: set_writes_def write_defs)

lemma writes_pri: "cpu_to_pri (run_writes (set_writes cpu oldpri newpri) cp) = (cpu_to_pri cp)(cpu := newpri)"
  by (simp add: set_writes_def write_defs)

lemma cpupri_set_correct:
  assumes inv: "cpupri_inv possible cp" and cpu: "cpu \<in> possible" and new: "convert_prio p < CPUPRI_NR_PRIORITIES"
  shows "\<exists>cp'. cpupri_set cp cpu p = Some cp' \<and> cpupri_inv possible cp' \<and>
    cpu_to_pri cp' = (cpu_to_pri cp)(cpu := convert_prio p)"
proof (cases "convert_prio p = cpu_to_pri cp cpu")
  case True
  then have "(cpu_to_pri cp)(cpu := convert_prio p) = cpu_to_pri cp" by auto
  then show ?thesis using True new inv by (simp add: cpupri_set_def)
next
  case False
  let ?new = "convert_prio p" and ?old = "cpu_to_pri cp cpu"
  let ?cp = "run_writes (set_writes cpu ?old ?new) cp"
  have fin: "finite possible" and rng: "\<And>c. - 1 \<le> cpu_to_pri cp c" "\<And>c. cpu_to_pri cp c < CPUPRI_NR_PRIORITIES"
    and msk: "\<And>l. mask (pri_to_cpu cp l) = {c \<in> possible. cpu_to_pri cp c = int l}"
    and cnt: "\<And>l. cnt (pri_to_cpu cp l) = int (card (mask (pri_to_cpu cp l)))"
    using inv by (auto simp: cpupri_inv_def)
  have ne: "?old \<noteq> ?new" using False by simp
  note w = writes_mask [OF ne rng(1) convert_prio_ge] writes_cnt [OF ne rng(1) convert_prio_ge] writes_pri
  have m: "mask (pri_to_cpu ?cp l) = {c \<in> possible. cpu_to_pri ?cp c = int l}" for l
    using ne cpu by (auto simp: w msk)
  have fm: "finite (mask (pri_to_cpu cp l))" for l using fin msk by simp
  have "cnt (pri_to_cpu ?cp l) = int (card (mask (pri_to_cpu ?cp l)))" for l
  proof -
    consider "int l = ?new" | "int l = ?old" "int l \<noteq> ?new" | "int l \<noteq> ?old" "int l \<noteq> ?new" by blast
    then show ?thesis
    proof cases
      case 1
      then have "cpu \<notin> mask (pri_to_cpu cp l)" using ne by (simp add: msk)
      then show ?thesis using 1 fm by (simp add: w cnt)
    next
      case 2
      then have "cpu \<in> mask (pri_to_cpu cp l)" using cpu by (simp add: msk)
      then have "card (mask (pri_to_cpu cp l)) = Suc (card (mask (pri_to_cpu cp l) - {cpu}))"
        using fm by (metis card_Suc_Diff1)
      then show ?thesis using 2 by (simp add: w cnt)
    next
      case 3
      then show ?thesis by (simp add: w cnt)
    qed
  qed
  then have "cpupri_inv possible ?cp" using m fin rng new convert_prio_ge by (simp add: cpupri_inv_def w(3))
  then show ?thesis using False new by (simp add: cpupri_set_def Let_def w(3))
qed

text \<open>Initialisation.\<close>

lemma init_masks_live:
  "live = {k. k < i} \<Longrightarrow> int i \<le> CPUPRI_NR_PRIORITIES \<Longrightarrow>
    (case init_masks alloc_ok i live of
       Inl (j, l) \<Rightarrow> l = {k. k < j} \<and> int j < CPUPRI_NR_PRIORITIES \<and> \<not> alloc_ok j
     | Inr l \<Rightarrow> l = {k. int k < CPUPRI_NR_PRIORITIES})"
proof (induction alloc_ok i live rule: init_masks.induct)
  case (1 alloc_ok i live)
  show ?case
  proof (cases "int i < CPUPRI_NR_PRIORITIES \<and> alloc_ok i")
    case True
    then have "init_masks alloc_ok i live = init_masks alloc_ok (i + 1) (insert i live)" by (subst init_masks.simps) simp
    moreover have "insert i live = {k. k < i + 1}" using "1.prems"(1) by auto
    ultimately show ?thesis using "1.IH" True by simp
  next
    case False
    show ?thesis
    proof (cases "int i < CPUPRI_NR_PRIORITIES")
      case True
      then show ?thesis using False "1.prems"(1) by (subst init_masks.simps) simp
    next
      case no: False
      then have "live = {k. int k < CPUPRI_NR_PRIORITIES}" using "1.prems" by auto
      then show ?thesis using no by (subst init_masks.simps) simp
    qed
  qed
qed

lemma free_below_all: "free_below n live = live - {k. k < n}"
proof (induction n arbitrary: live)
  case (Suc n)
  have "live - {n} - {k. k < n} = live - {k. k < Suc n}" by (simp add: set_eq_iff less_Suc_eq) blast
  then show ?case using Suc by simp
qed simp

lemma cpupri_init_ok:
  assumes "finite possible" "cpupri_init possible alloc_ok = (Inr cp, live)"
  shows "cpupri_inv possible cp \<and> (\<forall>c\<in>possible. cpu_to_pri cp c = - 1)"
  using assms by (auto simp: cpupri_init_def cpupri_inv_def CPUPRI_NR_PRIORITIES_def MAX_RT_PRIO_def split: sum.splits)

section \<open>The search\<close>

lemma level_nonempty:
  "cpupri_inv possible cp \<Longrightarrow> allowed \<inter> mask (pri_to_cpu cp l) \<noteq> {} \<Longrightarrow> cnt (pri_to_cpu cp l) \<noteq> 0"
  by (auto simp: cpupri_inv_def)

text \<open>The outcome of a search from level \<open>idx\<close> up to \<open>n\<close>: the allowed CPUs of the first level that has one.\<close>

definition first_level :: "cpupri \<Rightarrow> nat set \<Rightarrow> nat \<Rightarrow> int \<Rightarrow> nat set option \<Rightarrow> bool" where
  "first_level cp allowed idx n r =
     (case r of
        None \<Rightarrow> \<forall>k\<ge>idx. int k < n \<longrightarrow> allowed \<inter> mask (pri_to_cpu cp k) = {}
      | Some m \<Rightarrow> \<exists>l\<ge>idx. int l < n \<and> m = allowed \<inter> mask (pri_to_cpu cp l) \<and> m \<noteq> {} \<and>
          (\<forall>k. idx \<le> k \<and> k < l \<longrightarrow> allowed \<inter> mask (pri_to_cpu cp k) = {}))"

lemma first_level_skip:
  assumes "first_level cp allowed (idx + 1) n r" "allowed \<inter> mask (pri_to_cpu cp idx) = {}"
  shows "first_level cp allowed idx n r"
proof -
  have step: "k = idx \<or> idx + 1 \<le> k" if "idx \<le> k" for k using that by auto
  show ?thesis
  proof (cases r)
    case None
    then show ?thesis using assms step by (auto simp: first_level_def)
  next
    case (Some m)
    then obtain l where "l \<ge> idx + 1" "int l < n" "m = allowed \<inter> mask (pri_to_cpu cp l)" "m \<noteq> {}"
        "\<forall>k. idx + 1 \<le> k \<and> k < l \<longrightarrow> allowed \<inter> mask (pri_to_cpu cp k) = {}"
      using assms(1) by (auto simp: first_level_def)
    then have "idx \<le> l \<and> int l < n \<and> m = allowed \<inter> mask (pri_to_cpu cp l) \<and> m \<noteq> {} \<and>
        (\<forall>k. idx \<le> k \<and> k < l \<longrightarrow> allowed \<inter> mask (pri_to_cpu cp k) = {})" using assms(2) step by auto
    then show ?thesis using Some by (auto simp: first_level_def)
  qed
qed

lemma find_from_correct: "cpupri_inv possible cp \<Longrightarrow> first_level cp allowed idx n (find_from cp allowed idx n)"
proof (induction cp allowed idx n rule: find_from.induct)
  case (1 cp allowed idx n)
  let ?here = "allowed \<inter> mask (pri_to_cpu cp idx)"
  consider "\<not> int idx < n" | "int idx < n" "?here = {}" | "int idx < n" "?here \<noteq> {}" by blast
  then show ?case
  proof cases
    case 1
    then show ?thesis by (subst find_from.simps) (auto simp: first_level_def)
  next
    case 2
    then have eq: "find_from cp allowed idx n = find_from cp allowed (idx + 1) n" by (subst find_from.simps) simp
    have "first_level cp allowed (idx + 1) n (find_from cp allowed (idx + 1) n)"
      using "1.IH" "1.prems" 2 by (cases "cnt (pri_to_cpu cp idx) = 0") simp_all
    then show ?thesis using first_level_skip 2(2) eq by simp
  next
    case 3
    then have "find_from cp allowed idx n = Some ?here" using level_nonempty [OF "1.prems"] by (subst find_from.simps) simp
    then show ?thesis using 3 by (auto simp: first_level_def)
  qed
qed

section \<open>Correctness\<close>

definition pri_call :: "cpupri \<Rightarrow> nat \<times> int \<Rightarrow> cpupri" where
  "pri_call cp = (\<lambda>(cpu, p). case cpupri_set cp cpu p of None \<Rightarrow> cp | Some cp' \<Rightarrow> cp')"

definition level_call :: "(nat \<Rightarrow> int) \<Rightarrow> nat \<times> int \<Rightarrow> (nat \<Rightarrow> int)" where
  "level_call m = (\<lambda>(cpu, p). m(cpu := convert_prio p))"

definition pri_call_ok :: "nat set \<Rightarrow> nat \<times> int \<Rightarrow> bool" where
  "pri_call_ok possible = (\<lambda>(cpu, p). cpu \<in> possible \<and> - 1 \<le> p)"

lemma convert_prio_lt: "- 1 \<le> p \<Longrightarrow> convert_prio p < CPUPRI_NR_PRIORITIES"
  by (auto simp: convert_prio_def CPUPRI_NR_PRIORITIES_def MAX_RT_PRIO_def MAX_PRIO_def)

interpretation levels: refinement_system pri_call level_call cpu_to_pri "cpupri_inv possible" "pri_call_ok possible" for possible
proof
  fix cp e
  assume a: "cpupri_inv possible cp" "pri_call_ok possible e"
  obtain cpu p where e: "e = (cpu, p)" by (cases e)
  then obtain cp' where "cpupri_set cp cpu p = Some cp'" "cpupri_inv possible cp'" "cpu_to_pri cp' = (cpu_to_pri cp)(cpu := convert_prio p)"
    using cpupri_set_correct [OF a(1), of cpu p] a(2) convert_prio_lt by (auto simp: pri_call_ok_def)
  then show "cpupri_inv possible (pri_call cp e)" "cpu_to_pri (pri_call cp e) = level_call (cpu_to_pri cp) e"
    using e by (simp_all add: pri_call_def level_call_def)
qed

text \<open>
  C28. After any sequence of calls of \<^verbatim>\<open>cpupri_set\<close> for possible CPUs on an initialised structure, the search
  for a task finds the allowed CPUs that run at the lowest level of all allowed CPUs, if that level is below
  the level of the task, and reports that there is none exactly when every allowed CPU runs at the level of
  the task or above, or has no level. For a task of level \<^verbatim>\<open>MAX_RT_PRIO\<close> or above, the two highest priorities
  (see \<^verbatim>\<open>cpupri_find_rejects\<close> below), it always reports that there is none.
\<close>

theorem cpupri_find_lowest:
  assumes init: "cpupri_init possible alloc_ok = (Inr cp0, live)" "finite possible"
    and calls: "list_all (pri_call_ok possible) calls"
  defines "cp \<equiv> foldl pri_call cp0 calls" and "m \<equiv> foldl level_call (cpu_to_pri cp0) calls"
  shows "if MAX_RT_PRIO \<le> convert_prio prio then cpupri_find cp allowed prio = None else case cpupri_find cp allowed prio of
      None \<Rightarrow> \<forall>c\<in>possible \<inter> allowed. m c = - 1 \<or> convert_prio prio \<le> m c
    | Some found \<Rightarrow> \<exists>l. 0 \<le> l \<and> l < convert_prio prio \<and> found = {c \<in> possible \<inter> allowed. m c = l} \<and> found \<noteq> {} \<and>
        (\<forall>c\<in>possible \<inter> allowed. m c = - 1 \<or> l \<le> m c)"
proof (cases "MAX_RT_PRIO \<le> convert_prio prio")
  case True
  then show ?thesis by (simp add: cpupri_find_def)
next
  case False
  have inv: "cpupri_inv possible cp" and m: "cpu_to_pri cp = m"
    using levels.run_refines [of possible cp0 calls] cpupri_init_ok [OF init(2,1)] calls by (auto simp: cp_def m_def)
  have rng: "- 1 \<le> m c" for c using inv m by (auto simp: cpupri_inv_def)
  have msk: "allowed \<inter> mask (pri_to_cpu cp l) = {c \<in> possible \<inter> allowed. m c = int l}" for l
    using inv m by (auto simp: cpupri_inv_def)
  have empty: "m c \<noteq> int k" if "allowed \<inter> mask (pri_to_cpu cp k) = {}" "c \<in> possible \<inter> allowed" for c k
    using that by (auto simp: msk)
  have f: "first_level cp allowed 0 (convert_prio prio) (cpupri_find cp allowed prio)"
    using find_from_correct [OF inv] False by (simp add: cpupri_find_def)
  show ?thesis
  proof (cases "cpupri_find cp allowed prio")
    case None
    have "m c = - 1 \<or> convert_prio prio \<le> m c" if "c \<in> possible \<inter> allowed" for c
    proof (rule ccontr)
      assume "\<not> (m c = - 1 \<or> convert_prio prio \<le> m c)"
      then have "int (nat (m c)) = m c" "m c < convert_prio prio" using rng [of c] by auto
      then show False using f None empty [of "nat (m c)" c] that by (simp add: first_level_def)
    qed
    then show ?thesis using None False by simp
  next
    case (Some found)
    then obtain l where l: "int l < convert_prio prio" "found = {c \<in> possible \<inter> allowed. m c = int l}" "found \<noteq> {}"
        "\<And>k. k < l \<Longrightarrow> allowed \<inter> mask (pri_to_cpu cp k) = {}"
      using f by (auto simp: first_level_def msk)
    have "m c = - 1 \<or> int l \<le> m c" if "c \<in> possible \<inter> allowed" for c
      using empty [of "nat (m c)" c] l(4) [of "nat (m c)"] that rng [of c] by (cases "m c = - 1"; cases "m c < int l") auto
    then show ?thesis using Some False l(1-3) by (auto intro!: exI [of _ "int l"])
  qed
qed

theorem cpupri_find_lowest_witness:
  "\<exists>cp0 live. cpupri_init {0, 1, 2} (\<lambda>_. True) = (Inr cp0, live) \<and>
    cpupri_find (foldl pri_call cp0 [(0, 50), (1, 90), (2, 120)]) {0, 1} 30 = Some {1}"
proof -
  let ?calls = "[(0, 50), (1, 90), (2, 120)] :: (nat \<times> int) list"
  have "\<exists>l. init_masks (\<lambda>_. True) 0 {} = Inr l"
    using init_masks_live [of "{}" 0 "\<lambda>_. True"] by (auto simp: CPUPRI_NR_PRIORITIES_def MAX_RT_PRIO_def split: sum.splits prod.splits)
  then obtain live where "init_masks (\<lambda>_. True) 0 {} = Inr live" by blast
  then obtain cp0 where i: "cpupri_init {0, 1, 2} (\<lambda>_. True) = (Inr cp0, live)" by (simp add: cpupri_init_def)
  have ok: "list_all (pri_call_ok {0, 1, 2}) ?calls" by (simp add: pri_call_ok_def)
  have t: "convert_prio 30 < MAX_RT_PRIO" "convert_prio 30 = 71" "convert_prio 50 = 51" "convert_prio 90 = 11" "convert_prio 120 = 1"
    by (simp_all add: convert_prio_def MAX_RT_PRIO_def MAX_PRIO_def)
  note r = cpupri_find_lowest [OF i _ ok, of 30 "{0, 1}", unfolded if_not_P [OF t(1) [unfolded not_le [symmetric]]]]
  let ?m = "foldl level_call (cpu_to_pri cp0) ?calls"
  have lv: "?m 0 = 51" "?m 1 = 11" using t by (simp_all add: level_call_def)
  show ?thesis
  proof (cases "cpupri_find (foldl pri_call cp0 ?calls) {0, 1} 30")
    case None
    then show ?thesis using r lv t by (simp only: option.case) simp
  next
    case (Some found)
    then obtain l where l: "found = {c \<in> {0, 1, 2} \<inter> {0, 1}. ?m c = l}" "found \<noteq> {}" "\<forall>c\<in>{0, 1, 2} \<inter> {0, 1}. ?m c = - 1 \<or> l \<le> ?m c"
      using r by (simp only: option.case) blast
    have "l \<le> 11" using l(3) lv(2) by fastforce
    moreover have "l = 51 \<or> l = 11" using l(1,2) lv by fastforce
    ultimately have "l = 11" by simp
    then have "found = {1}" using l(1) lv by fastforce
    then show ?thesis using Some i by blast
  qed
qed

text \<open>
  The search rejects the two highest priorities: a task of priority 0 or 1 finds no CPU even if one is idle.
\<close>

lemma cpupri_find_rejects: "prio \<in> {0, 1} \<Longrightarrow> cpupri_find cp allowed prio = None"
  by (auto simp: cpupri_find_def convert_prio_def MAX_RT_PRIO_def MAX_PRIO_def)

text \<open>
  Raising the level of a CPU is never missed by a concurrent search. Whatever the moments, in the order
  the search has them, at which it reads the counter and then the mask of the old level and afterwards
  those of the new level - each after some number of the writes of the update - at one of the two levels it
  reads a counter that is not zero and a mask that has the CPU.
\<close>

theorem cpupri_search_sees_cpu:
  assumes inv: "cpupri_inv possible cp" and cpu: "cpu \<in> possible"
    and up: "0 \<le> cpu_to_pri cp cpu" "cpu_to_pri cp cpu < newpri"
    and order: "n1 \<le> n2" "n2 \<le> n3" "n3 \<le> n4"
  defines "at \<equiv> \<lambda>n. run_writes (take n (set_writes cpu (cpu_to_pri cp cpu) newpri)) cp"
    and "old \<equiv> nat (cpu_to_pri cp cpu)" and "new \<equiv> nat newpri"
  shows "cnt (pri_to_cpu (at n1) old) > 0 \<and> cpu \<in> mask (pri_to_cpu (at n2) old) \<or>
    cnt (pri_to_cpu (at n3) new) > 0 \<and> cpu \<in> mask (pri_to_cpu (at n4) new)"
proof -
  have ws: "set_writes cpu (cpu_to_pri cp cpu) newpri =
      [mask_set newpri cpu, count_add newpri 1, count_add (cpu_to_pri cp cpu) (- 1), mask_clear (cpu_to_pri cp cpu) cpu, pri_write cpu newpri]"
    using up by (simp add: set_writes_def)
  have ne: "old \<noteq> new" using up by (simp add: old_def new_def)
  have in_old: "cpu \<in> mask (pri_to_cpu cp old)" using inv cpu up by (simp add: cpupri_inv_def old_def)
  have c: "cnt (pri_to_cpu cp l) = int (card (mask (pri_to_cpu cp l)))" "finite (mask (pri_to_cpu cp l))" for l
    using inv by (auto simp: cpupri_inv_def)
  then have pos: "cnt (pri_to_cpu cp old) > 0" using in_old by (simp add: card_gt_0_iff) blast
  have old3: "cnt (pri_to_cpu (at n) old) > 0 \<and> cpu \<in> mask (pri_to_cpu (at n) old)" if "n \<le> 2" for n
    using that pos in_old ne by (auto simp: at_def ws write_defs old_def new_def take_Cons' numeral_2_eq_2 le_Suc_eq)
  have new3: "cnt (pri_to_cpu (at n) new) > 0 \<and> cpu \<in> mask (pri_to_cpu (at n) new)" if "2 \<le> n" for n
    using that c(1) [of new] ne by (auto simp: at_def ws write_defs old_def new_def take_Cons')
  show ?thesis using old3 [of n1] old3 [of n2] new3 [of n3] new3 [of n4] order by linarith
qed

theorem cpupri_search_sees_cpu_witness:
  "\<exists>cp. cpu_to_pri cp 0 = 1 \<and>
    (let at = \<lambda>n. run_writes (take n (set_writes 0 1 51)) cp
     in cnt (pri_to_cpu (at 1) 1) > 0 \<and> 0 \<in> mask (pri_to_cpu (at 4) 1) \<or>
        cnt (pri_to_cpu (at 4) 51) > 0 \<and> 0 \<in> mask (pri_to_cpu (at 5) 51))"
proof -
  let ?cp = "\<lparr>pri_to_cpu = (\<lambda>l. if l = 1 then \<lparr>cnt = 1, mask = {0}\<rparr> else \<lparr>cnt = 0, mask = {}\<rparr>), cpu_to_pri = (\<lambda>c. 1)\<rparr>"
  have "cpupri_inv {0} ?cp" by (auto simp: cpupri_inv_def CPUPRI_NR_PRIORITIES_def MAX_RT_PRIO_def)
  then show ?thesis
    using cpupri_search_sees_cpu [of "{0}" ?cp 0 51 1 4 4 5] by (intro exI [of _ ?cp]) (simp add: Let_def)
qed

text \<open>A failed initialisation keeps no mask, and clean-up releases all of them.\<close>

lemma cpupri_init_error:
  assumes "cpupri_init possible alloc_ok = (r, live)"
  shows "(\<forall>i. int i < CPUPRI_NR_PRIORITIES \<longrightarrow> alloc_ok i) \<Longrightarrow> \<exists>cp. r = Inr cp"
    and "r = Inl e \<Longrightarrow> e = ENOMEM \<and> live = {} \<and> (\<exists>i. int i < CPUPRI_NR_PRIORITIES \<and> \<not> alloc_ok i)"
    and "r = Inr cp \<Longrightarrow> cpupri_cleanup live = {}"
proof -
  have l: "case init_masks alloc_ok 0 {} of
       Inl (j, l) \<Rightarrow> l = {k. k < j} \<and> int j < CPUPRI_NR_PRIORITIES \<and> \<not> alloc_ok j
     | Inr l \<Rightarrow> l = {k. int k < CPUPRI_NR_PRIORITIES}"
    by (rule init_masks_live) (simp_all add: CPUPRI_NR_PRIORITIES_def MAX_RT_PRIO_def)
  show "(\<forall>i. int i < CPUPRI_NR_PRIORITIES \<longrightarrow> alloc_ok i) \<Longrightarrow> \<exists>cp. r = Inr cp"
    using l assms by (auto simp: cpupri_init_def split: sum.splits prod.splits)
  show "r = Inl e \<Longrightarrow> e = ENOMEM \<and> live = {} \<and> (\<exists>i. int i < CPUPRI_NR_PRIORITIES \<and> \<not> alloc_ok i)"
    using l assms by (auto simp: cpupri_init_def free_below_all split: sum.splits prod.splits)
  show "r = Inr cp \<Longrightarrow> cpupri_cleanup live = {}"
    using l assms by (auto simp: cpupri_init_def cpupri_cleanup_def free_below_all split: sum.splits prod.splits)
qed

end
