(* ===== verification/Calendar.thy ===== *)
theory Calendar
  imports Kernel_Prelude "HOL-Library.Signed_Division"
begin

text \<open>
  Calendar conversions: seconds since 1970 to a broken-down date (\<^verbatim>\<open>time/timeconv.c\<close>) and back
  (\<^verbatim>\<open>mktime\<close> of \<^verbatim>\<open>time.c\<close>). The \<^verbatim>\<open>long\<close> values of the first are integers: the days are at most a
  86400th of the 64-bit argument, so that no computation on them can overflow. The unsigned arithmetic of the
  second is kept at its width. Division and remainder of signed values truncate, as C has it.
\<close>

section \<open>Model\<close>

record tm =
  tm_sec :: int
  tm_min :: int
  tm_hour :: int
  tm_mday :: int
  tm_mon :: int
  tm_year :: int
  tm_wday :: int
  tm_yday :: int

definition isleap :: "int \<Rightarrow> bool" where
  "isleap year \<longleftrightarrow> year smod 4 = 0 \<and> (year smod 100 \<noteq> 0 \<or> year smod 400 = 0)"

definition math_div :: "int \<Rightarrow> int \<Rightarrow> int" where
  "math_div a b = a sdiv b - (if a smod b < 0 then 1 else 0)"

definition leaps_between :: "int \<Rightarrow> int \<Rightarrow> int" where
  "leaps_between y1 y2 =
     (let leaps1 = math_div (y1 - 1) 4 - math_div (y1 - 1) 100 + math_div (y1 - 1) 400;
          leaps2 = math_div (y2 - 1) 4 - math_div (y2 - 1) 100 + math_div (y2 - 1) 400
      in leaps2 - leaps1)"

definition mon_yday :: "bool \<Rightarrow> nat \<Rightarrow> int" where
  "mon_yday leap i =
     (if leap then [0, 31, 60, 91, 121, 152, 182, 213, 244, 274, 305, 335, 366]
      else [0, 31, 59, 90, 120, 151, 181, 212, 243, 273, 304, 334, 365]) ! i"

abbreviation (input) "SECS_PER_HOUR \<equiv> 3600 :: int"
abbreviation (input) "SECS_PER_DAY \<equiv> 86400 :: int"

text \<open>The loops that bring the seconds into a day, on the pair of the seconds and the days.\<close>

function rem_up :: "int \<Rightarrow> int \<Rightarrow> int \<times> int" where
  "rem_up r days = (if r < 0 then rem_up (r + SECS_PER_DAY) (days - 1) else (r, days))"
  by pat_completeness auto

termination
  by (relation "measure (\<lambda>(r, days). nat (- r))") auto

function rem_down :: "int \<Rightarrow> int \<Rightarrow> int \<times> int" where
  "rem_down r days = (if r \<ge> SECS_PER_DAY then rem_down (r - SECS_PER_DAY) (days + 1) else (r, days))"
  by pat_completeness auto

termination
  by (relation "measure (\<lambda>(r, days). nat r)") auto

declare rem_up.simps [simp del] rem_down.simps [simp del]

definition year_len :: "int \<Rightarrow> int" where
  "year_len y = (if isleap y then 366 else 365)"

lemma smod_bounds: "0 < b \<Longrightarrow> - b < a smod b \<and> a smod b < b" for a b :: int
  using smod_int_range [of b a] by auto

lemma math_div_div [simp]: "0 < b \<Longrightarrow> math_div a b = a div b"
proof -
  assume b: "0 < b"
  have a: "a = b * (a sdiv b) + a smod b" by (simp add: mult_sdiv_smod_eq)
  show ?thesis
  proof (cases "a smod b < 0")
    case True
    then show ?thesis using int_div_pos_eq [of a b "a sdiv b - 1" "a smod b + b"] a smod_bounds [OF b, of a]
      by (simp add: math_div_def algebra_simps)
  next
    case False
    then show ?thesis using int_div_pos_eq [of a b "a sdiv b" "a smod b"] a smod_bounds [OF b, of a] by (simp add: math_div_def)
  qed
qed

lemma smod_0_iff: "a smod b = 0 \<longleftrightarrow> a mod b = 0" for a b :: int
  by (auto simp: signed_modulo_int_def mod_eq_0_iff_dvd sgn_0_0)

text \<open>How many leap years there are up to a year.\<close>

definition leaps_to :: "int \<Rightarrow> int" where
  "leaps_to n = n div 4 - n div 100 + n div 400"

lemma leaps_between_eq: "leaps_between y1 y2 = leaps_to (y2 - 1) - leaps_to (y1 - 1)"
  by (simp add: leaps_between_def leaps_to_def Let_def)

lemma isleap_iff: "isleap y \<longleftrightarrow> y mod 4 = 0 \<and> (y mod 100 \<noteq> 0 \<or> y mod 400 = 0)"
  by (simp add: isleap_def smod_0_iff)

lemma div_pred: "0 < d \<Longrightarrow> y div d = (y - 1) div d + (if y mod d = 0 then 1 else 0)" for y d :: int
proof -
  assume d: "0 < d"
  have y: "y = d * (y div d) + y mod d" by simp
  show ?thesis
  proof (cases "y mod d = 0")
    case True
    then show ?thesis using int_div_pos_eq [of "y - 1" d "y div d - 1" "d - 1"] y d by (simp add: algebra_simps)
  next
    case False
    then have "0 \<le> y mod d - 1" "y mod d - 1 < d" using d pos_mod_sign [of d y] pos_mod_bound [of d y] by linarith+
    then show ?thesis using int_div_pos_eq [of "y - 1" d "y div d" "y mod d - 1"] y d False by simp
  qed
qed

lemma leap_rule:
  "(b \<longrightarrow> a) \<Longrightarrow> (c \<longrightarrow> b) \<Longrightarrow>
    p + (if a then 1 else 0) - (q + (if b then 1 else 0)) + (r + (if c then 1 else 0)) =
    p - q + r + (if a \<and> (\<not> b \<or> c) then 1 else 0)" for p q r :: int
  by (cases a; cases b; cases c) simp_all

lemma leaps_to_step: "leaps_to y = leaps_to (y - 1) + (if isleap y then 1 else 0)"
proof -
  have i: "y mod 100 = 0 \<longrightarrow> y mod 4 = 0" "y mod 400 = 0 \<longrightarrow> y mod 100 = 0"
    using dvd_trans [of 4 100 y] dvd_trans [of 100 400 y] by (simp_all add: mod_eq_0_iff_dvd)
  have e: "y div 4 = (y - 1) div 4 + (if y mod 4 = 0 then 1 else 0)"
      "y div 100 = (y - 1) div 100 + (if y mod 100 = 0 then 1 else 0)"
      "y div 400 = (y - 1) div 400 + (if y mod 400 = 0 then 1 else 0)" by (rule div_pred, simp)+
  show ?thesis unfolding leaps_to_def isleap_iff e by (rule leap_rule [OF i])
qed

lemma div_lag: "0 < k \<Longrightarrow> a \<le> b \<Longrightarrow> a - a div k \<le> b - b div k" for a b k :: int
proof -
  assume k: "0 < k" "a \<le> b"
  have "b \<le> a + (b - a) * k" using mult_left_mono [of 1 k "b - a"] k by simp
  then have "b div k \<le> a div k + (b - a)" using zdiv_mono1 [of b "a + (b - a) * k" k] k by simp
  then show ?thesis by simp
qed

lemma leaps_to_bounds:
  assumes "a \<le> b"
  shows "0 \<le> leaps_to b - leaps_to a \<and> leaps_to b - leaps_to a \<le> (b - a) div 4 + 1"
proof -
  have m: "n div 100 = n div 4 div 25" "n div 400 = n div 100 div 4" for n :: int
    using zdiv_zmult2_eq [of 25 n 4] zdiv_zmult2_eq [of 4 n 100] by simp_all
  have mono: "a div 4 \<le> b div 4" "a div 100 \<le> b div 100" "a div 400 \<le> b div 400" using zdiv_mono1 [OF assms] by simp_all
  have 1: "b div 4 - a div 4 \<le> (b - a) div 4 + 1" by presburger
  have 2: "a div 100 - a div 400 \<le> b div 100 - b div 400" using div_lag [OF _ mono(2), of 4] m(2) by simp
  have 3: "a div 4 - a div 100 \<le> b div 4 - b div 100" using div_lag [OF _ mono(1), of 25] m(1) by simp
  have lin: "0 \<le> b1 - b2 + b3 - (a1 - a2 + a3) \<and> b1 - b2 + b3 - (a1 - a2 + a3) \<le> n"
    if "b1 - a1 \<le> n" "a2 - a3 \<le> b2 - b3" "a1 - a2 \<le> b1 - b2" "a3 \<le> b3" for a1 a2 a3 b1 b2 b3 n :: int
    using that by linarith
  show ?thesis unfolding leaps_to_def by (rule lin [OF 1 2 3 mono(3)])
qed

text \<open>The loop that finds the year: it ends, as the days left shrink or are within the year.\<close>

function find_year :: "int \<Rightarrow> int \<Rightarrow> int \<times> int" where
  "find_year days y =
     (if days < 0 \<or> days \<ge> year_len y
      then let yg = y + math_div days 365 in find_year (days - ((yg - y) * 365 + leaps_between y yg)) yg
      else (days, y))"
  by pat_completeness auto

text \<open>One round: the days left, in terms of the remainder and of the leap days skipped.\<close>

lemma year_round:
  fixes days y :: int
  defines "yg \<equiv> y + days div 365"
  shows "days - ((yg - y) * 365 + leaps_between y yg) = days mod 365 - (leaps_to (yg - 1) - leaps_to (y - 1))"
  by (simp add: yg_def leaps_between_eq algebra_simps minus_mult_div_eq_mod [symmetric])

lemma year_round_up:
  fixes days y :: int
  defines "yg \<equiv> y + days div 365"
  assumes "year_len y \<le> days"
  defines "d \<equiv> days - ((yg - y) * 365 + leaps_between y yg)"
  shows "d < 365 \<and> - d < days"
proof -
  let ?q = "days div 365"
  have "365 \<le> days" using assms(2) by (simp add: year_len_def split: if_splits)
  then have q: "1 \<le> ?q" "365 * ?q \<le> days" by auto
  then have "0 \<le> leaps_to (yg - 1) - leaps_to (y - 1) \<and> leaps_to (yg - 1) - leaps_to (y - 1) \<le> ?q div 4 + 1"
    using leaps_to_bounds [of "y - 1" "yg - 1"] by (simp add: yg_def)
  moreover have "0 \<le> days mod 365" "days mod 365 < 365" "?q div 4 \<le> ?q" using q by auto
  moreover have "d = days mod 365 - (leaps_to (yg - 1) - leaps_to (y - 1))" using year_round [of days y] by (simp add: d_def yg_def)
  ultimately show ?thesis using q by linarith
qed

lemma year_round_down:
  fixes days y :: int
  defines "yg \<equiv> y + days div 365"
  assumes "days < 0"
  defines "d \<equiv> days - ((yg - y) * 365 + leaps_between y yg)"
  shows "0 \<le> d \<and> (d < year_len yg \<or> d < - days)"
proof -
  let ?q = "days div 365"
  have q: "?q \<le> - 1" "days < 365 * (?q + 1)" using assms(2) by auto
  let ?l = "leaps_to (y - 1) - leaps_to (yg - 1)"
  have l: "0 \<le> ?l \<and> ?l \<le> (- ?q) div 4 + 1" using leaps_to_bounds [of "yg - 1" "y - 1"] q(1) by (simp add: yg_def)
  have m: "0 \<le> days mod 365" "days mod 365 < 365" by auto
  have d: "d = days mod 365 + ?l" using year_round [of days y] by (simp add: d_def yg_def)
  show ?thesis
  proof (cases "?q = - 1")
    case True
    then have "?l = (if isleap yg then 1 else 0)" using leaps_to_step [of yg] by (simp add: yg_def)
    then show ?thesis using d m by (auto simp: year_len_def)
  next
    case False
    then have "?q \<le> - 2" using q(1) by simp
    moreover have "n div 4 \<le> n - 2" if "2 \<le> n" for n :: int using that by presburger
    then have "(- ?q) div 4 \<le> - ?q - 2" using calculation by simp
    ultimately show ?thesis using d m l q by linarith
  qed
qed

termination find_year
proof (relation "measure (\<lambda>(days, y). if 0 \<le> days \<and> days < year_len y then 0 else nat \<bar>days\<bar>)")
  fix days y yg
  assume c: "days < 0 \<or> days \<ge> year_len y" and yg: "yg = y + math_div days 365"
  let ?d = "days - ((yg - y) * 365 + leaps_between y yg)"
  have "0 < year_len y" "365 \<le> year_len yg" by (auto simp: year_len_def)
  then have "0 \<le> ?d \<and> ?d < year_len yg \<or> \<bar>?d\<bar> < \<bar>days\<bar>"
    using c year_round_up [of y days] year_round_down [of days y] yg by auto
  then show "((?d, yg), (days, y)) \<in> measure (\<lambda>(days, y). if 0 \<le> days \<and> days < year_len y then 0 else nat \<bar>days\<bar>)"
    using c \<open>0 < year_len y\<close> by auto
qed simp

declare find_year.simps [simp del]

text \<open>
  The month of a day of the year; the entry of January is 0, so that the search ends there at the latest for
  the days that are passed, which are not negative.
\<close>

primrec find_mon :: "(nat \<Rightarrow> int) \<Rightarrow> int \<Rightarrow> nat \<Rightarrow> nat" where
  "find_mon ip days 0 = 0"
| "find_mon ip days (Suc y) = (if days < ip (Suc y) then find_mon ip days y else Suc y)"

definition time_to_tm :: "int \<Rightarrow> int \<Rightarrow> tm" where
  "time_to_tm totalsecs offset =
     (let (rem1, days1) = rem_up (totalsecs smod SECS_PER_DAY + offset) (totalsecs sdiv SECS_PER_DAY);
          (rem2, days2) = rem_down rem1 days1;
          rem3 = rem2 smod SECS_PER_HOUR;
          wday = (4 + days2) smod 7;
          (days3, y) = find_year days2 1970;
          ip = mon_yday (isleap y);
          mon = find_mon ip days3 11
      in \<lparr>tm_sec = rem3 smod 60, tm_min = rem3 sdiv 60, tm_hour = rem2 sdiv SECS_PER_HOUR,
          tm_mday = days3 - ip mon + 1, tm_mon = int mon, tm_year = y - 1900,
          tm_wday = (if wday < 0 then wday + 7 else wday), tm_yday = days3\<rparr>)"

text \<open>
  \<^verbatim>\<open>mktime\<close>, with 32-bit \<^verbatim>\<open>unsigned int\<close> and 64-bit \<^verbatim>\<open>unsigned long\<close>.
\<close>

definition mktime :: "u32 \<Rightarrow> u32 \<Rightarrow> u32 \<Rightarrow> u32 \<Rightarrow> u32 \<Rightarrow> u32 \<Rightarrow> u64" where
  "mktime year0 mon0 day hour mn sec =
     (let (mon, year) = (if 0 \<ge> sint (mon0 - 2) then (mon0 - 2 + 12, year0 - 1) else (mon0 - 2, year0))
      in (((ucast (year div 4 - year div 100 + year div 400 + 367 * mon div 12 + day) + ucast (year * 365) - 719499) * 24
            + ucast hour) * 60 + ucast mn) * 60 + ucast sec)"

section \<open>Leap years\<close>

text \<open>
  The closed formula for the leap years from one year up to another counts them.
\<close>

theorem leaps_between_counts:
  assumes "y1 \<le> y2"
  shows "leaps_between y1 y2 = int (card {y. y1 \<le> y \<and> y < y2 \<and> isleap y})"
  using assms
proof (induction y2 rule: int_ge_induct)
  case base
  have "{y. y1 \<le> y \<and> y < y1 \<and> isleap y} = {}" by auto
  then show ?case by (simp only: leaps_between_eq card.empty)
next
  case (step y)
  have fin: "finite {z. y1 \<le> z \<and> z < y \<and> isleap z}" by (rule finite_subset [of _ "{y1..y}"]) auto
  have "{z. y1 \<le> z \<and> z < y + 1 \<and> isleap z} = (if isleap y then insert y else (\<lambda>S. S)) {z. y1 \<le> z \<and> z < y \<and> isleap z}"
  proof -
    have "z < y + 1 \<longleftrightarrow> z = y \<or> z < y" for z :: int by auto
    then show ?thesis using step.hyps by auto
  qed
  then have "int (card {z. y1 \<le> z \<and> z < y + 1 \<and> isleap z}) = int (card {z. y1 \<le> z \<and> z < y \<and> isleap z}) + (if isleap y then 1 else 0)"
    using fin by simp
  then show ?case using step.IH leaps_to_step [of y] by (simp add: leaps_between_eq)
qed

theorem leaps_between_counts_witness:
  "leaps_between 1999 2005 = int (card {y. 1999 \<le> y \<and> y < 2005 \<and> isleap y}) \<and> leaps_between 1999 2005 = 2"
  using leaps_between_counts [of 1999 2005] by (simp add: leaps_between_eq leaps_to_def)

section \<open>From seconds to dates\<close>

text \<open>The day number, counted from 1970, on which a year starts.\<close>

definition year_start :: "int \<Rightarrow> int" where
  "year_start y = 365 * (y - 1970) + leaps_between 1970 y"

lemma find_year_correct:
  "case find_year days y of (d, y') \<Rightarrow> d + year_start y' = days + year_start y \<and> 0 \<le> d \<and> d < year_len y'"
proof (induction days y rule: find_year.induct)
  case (1 days y)
  let ?yg = "y + math_div days 365"
  show ?case
  proof (cases "days < 0 \<or> days \<ge> year_len y")
    case True
    have "find_year days y = find_year (days - ((?yg - y) * 365 + leaps_between y ?yg)) ?yg"
      using True by (subst find_year.simps) (simp only: Let_def if_True simp_thms)
    then show ?thesis using "1.IH" [OF True refl] by (simp add: year_start_def leaps_between_eq case_prod_beta)
  next
    case False
    then have "find_year days y = (days, y)" by (subst find_year.simps) simp
    then show ?thesis using False by simp
  qed
qed

lemma rem_up_eq: "rem_up r days = (if r < 0 then (r mod SECS_PER_DAY, days + r div SECS_PER_DAY) else (r, days))"
proof (induction r days rule: rem_up.induct)
  case (1 r days)
  show ?case
  proof (cases "r < 0")
    case True
    then have "rem_up r days = rem_up (r + 86400) (days - 1)" by (subst rem_up.simps) simp
    moreover have "r + 86400 = r mod 86400 \<and> r div 86400 = - 1" if "0 \<le> r + 86400"
      using that True int_div_pos_eq [of r 86400 "- 1" "r + 86400"] int_mod_pos_eq [of r 86400 "- 1" "r + 86400"] by simp
    ultimately show ?thesis using True "1.IH" by auto
  qed (subst rem_up.simps, simp)
qed

lemma rem_down_eq: "0 \<le> r \<Longrightarrow> rem_down r days = (r mod SECS_PER_DAY, days + r div SECS_PER_DAY)"
proof (induction r days rule: rem_down.induct)
  case (1 r days)
  show ?case
  proof (cases "r \<ge> 86400")
    case True
    then have "rem_down r days = rem_down (r - 86400) (days + 1)" by (subst rem_down.simps) simp
    moreover have "(r - 86400) mod 86400 = r mod 86400" "(r - 86400) div 86400 = r div 86400 - 1"
      using mod_add_self2 [of "r - 86400" 86400] div_add_self2 [of 86400 "r - 86400"] by simp_all
    ultimately show ?thesis using True "1.IH" by simp
  next
    case False
    then show ?thesis using "1.prems" by (subst rem_down.simps) simp
  qed
qed

lemma find_mon_correct:
  assumes "ip 0 = 0" "0 \<le> days"
  shows "find_mon ip days n \<le> n \<and> ip (find_mon ip days n) \<le> days \<and> (find_mon ip days n < n \<longrightarrow> days < ip (Suc (find_mon ip days n)))"
  using assms(2)
proof (induction n)
  case 0
  then show ?case using assms by simp
next
  case (Suc n)
  show ?case
  proof (cases "days < ip (Suc n)")
    case True
    then show ?thesis using Suc by (cases "find_mon ip days n = n") auto
  qed simp
qed

lemma mon_yday_ends [simp]: "mon_yday l 0 = 0" "mon_yday l 12 = (if l then 366 else 365)"
  by (simp_all add: mon_yday_def)

text \<open>
  The Gregorian calendar on its own, from which dates are counted below: which years are leap years, how long the months
  are, and the days before a month and before a year by adding up the months and the years one by one. Nothing of it is
  taken from the tables and formulas of the code.
\<close>

definition greg_leap :: "int \<Rightarrow> bool" where
  "greg_leap y \<longleftrightarrow> 4 dvd y \<and> (100 dvd y \<longrightarrow> 400 dvd y)"

definition month_days :: "int \<Rightarrow> nat \<Rightarrow> int" where
  "month_days y m = (if m = 1 then if greg_leap y then 29 else 28 else if m \<in> {3, 5, 8, 10} then 30 else 31)"

definition days_before_month :: "int \<Rightarrow> nat \<Rightarrow> int" where
  "days_before_month y m = (\<Sum>k<m. month_days y k)"

definition year_days :: "int \<Rightarrow> int" where
  "year_days y = (\<Sum>m<12. month_days y m)"

definition days_before_year :: "int \<Rightarrow> int" where
  "days_before_year y = (if 1970 \<le> y then \<Sum>k\<in>{1970..<y}. year_days k else - (\<Sum>k\<in>{y..<1970}. year_days k))"

text \<open>The second of a date of the calendar, counted from the start of 1970.\<close>

definition tm_seconds :: "tm \<Rightarrow> int" where
  "tm_seconds t =
     (let y = tm_year t + 1900
      in 86400 * (days_before_year y + days_before_month y (nat (tm_mon t)) + (tm_mday t - 1)) + 3600 * tm_hour t + 60 * tm_min t + tm_sec t)"

definition valid_tm :: "tm \<Rightarrow> bool" where
  "valid_tm t \<longleftrightarrow>
     (let y = tm_year t + 1900; mon = nat (tm_mon t)
      in 0 \<le> tm_mon t \<and> tm_mon t \<le> 11 \<and> 1 \<le> tm_mday t \<and> tm_mday t \<le> month_days y mon \<and>
         0 \<le> tm_hour t \<and> tm_hour t < 24 \<and> 0 \<le> tm_min t \<and> tm_min t < 60 \<and> 0 \<le> tm_sec t \<and> tm_sec t < 60 \<and>
         tm_yday t = days_before_month y mon + tm_mday t - 1)"

text \<open>The code agrees with the calendar.\<close>

lemma isleap_greg: "isleap y \<longleftrightarrow> greg_leap y"
  by (auto simp: isleap_iff greg_leap_def dvd_eq_mod_eq_0)

lemma days_before_month_eq: "m \<le> 12 \<Longrightarrow> days_before_month y m = mon_yday (isleap y) m"
proof -
  assume "m \<le> 12"
  then have "m \<in> {0, 1, 2, 3, 4, 5, 6, 7, 8, 9, 10, 11, 12}" unfolding insert_iff empty_iff by presburger
  then show ?thesis
    by (elim insertE emptyE; cases "greg_leap y")
      (simp_all add: days_before_month_def month_days_def mon_yday_def isleap_greg eval_nat_numeral)
qed

lemma year_days_eq: "year_days y = year_len y"
  using days_before_month_eq [of 12 y] by (simp add: year_days_def days_before_month_def year_len_def)

lemma year_start_Suc: "year_start (y + 1) = year_start y + year_len y"
  using leaps_to_step [of y] by (simp add: year_start_def leaps_between_eq year_len_def)

lemma days_before_year_Suc: "days_before_year (y + 1) = days_before_year y + year_days y"
proof (cases "1970 \<le> y")
  case True
  then have "{1970..<y + 1} = insert y {1970..<y}" by auto
  with True show ?thesis by (simp add: days_before_year_def)
next
  case False
  then have "{y..<1970} = insert y {y + 1..<1970}" by auto
  with False show ?thesis by (auto simp: days_before_year_def)
qed

lemma days_before_year_eq: "days_before_year y = year_start y"
proof (induction y rule: int_induct [of _ 1970])
  case base
  then show ?case by (simp add: days_before_year_def year_start_def leaps_between_eq)
next
  case (step1 i)
  then show ?case by (simp add: days_before_year_Suc year_start_Suc year_days_eq)
next
  case (step2 i)
  then show ?case using days_before_year_Suc [of "i - 1"] year_start_Suc [of "i - 1"] by (simp add: year_days_eq)
qed

lemma tm_seconds_code:
  assumes "0 \<le> tm_mon t" "tm_mon t \<le> 11"
  shows "tm_seconds t = (let y = tm_year t + 1900
     in 86400 * (year_start y + mon_yday (isleap y) (nat (tm_mon t)) + (tm_mday t - 1)) + 3600 * tm_hour t + 60 * tm_min t + tm_sec t)"
  using assms by (simp add: tm_seconds_def Let_def days_before_year_eq days_before_month_eq)

lemma month_days_code:
  assumes "m \<le> 11"
  shows "month_days y m = mon_yday (isleap y) (m + 1) - mon_yday (isleap y) m"
  using days_before_month_eq [of "m + 1" y] days_before_month_eq [of m y] assms by (simp add: days_before_month_def)

lemma valid_tm_code:
  "valid_tm t \<longleftrightarrow>
     (let y = tm_year t + 1900; ip = mon_yday (isleap y); mon = nat (tm_mon t)
      in 0 \<le> tm_mon t \<and> tm_mon t \<le> 11 \<and> 1 \<le> tm_mday t \<and> tm_mday t \<le> ip (mon + 1) - ip mon \<and>
         0 \<le> tm_hour t \<and> tm_hour t < 24 \<and> 0 \<le> tm_min t \<and> tm_min t < 60 \<and> 0 \<le> tm_sec t \<and> tm_sec t < 60 \<and>
         tm_yday t = ip mon + tm_mday t - 1)"
  using month_days_code [of "nat (tm_mon t)"] days_before_month_eq [of "nat (tm_mon t)"] by (auto simp: valid_tm_def Let_def)

lemma sdiv_smod_pos: "0 \<le> a \<Longrightarrow> 0 < b \<Longrightarrow> a sdiv b = a div b \<and> a smod b = a mod b" for a b :: int
  by (auto simp: signed_divide_int_def signed_modulo_int_def sgn_if)

lemma wday_mod: "(if d smod 7 < 0 then d smod 7 + 7 else d smod 7) = d mod 7" for d :: int
proof -
  have d: "d = 7 * (d sdiv 7) + d smod 7" by (simp add: mult_sdiv_smod_eq)
  show ?thesis
    using int_mod_pos_eq [of d 7 "d sdiv 7 - 1" "d smod 7 + 7"] int_mod_pos_eq [of d 7 "d sdiv 7" "d smod 7"] d smod_bounds [of 7 d]
    by (auto simp: algebra_simps)
qed

lemma norm_seconds:
  assumes "rem_up (totalsecs smod SECS_PER_DAY + offset) (totalsecs sdiv SECS_PER_DAY) = (r1, d1)" "rem_down r1 d1 = (r, d)"
  shows "r = (totalsecs + offset) mod SECS_PER_DAY \<and> d = (totalsecs + offset) div SECS_PER_DAY"
proof -
  let ?r = "totalsecs smod 86400 + offset" and ?d = "totalsecs sdiv 86400"
  have t: "totalsecs + offset = ?r + ?d * 86400" using mult_sdiv_smod_eq [of 86400 totalsecs] by simp
  have m: "?r mod 86400 = (totalsecs + offset) mod 86400" "?d + ?r div 86400 = (totalsecs + offset) div 86400"
    unfolding t by simp_all
  have "0 \<le> r1" using assms(1) by (auto simp: rem_up_eq split: if_splits)
  then have "r = r1 mod 86400" "d = d1 + r1 div 86400" using assms(2) rem_down_eq by auto
  moreover have "r1 mod 86400 = ?r mod 86400 \<and> d1 + r1 div 86400 = ?d + ?r div 86400"
    using assms(1) by (auto simp: rem_up_eq split: if_splits)
  ultimately show ?thesis using m by simp
qed

lemma time_to_tm_spec:
  "tm_seconds (time_to_tm totalsecs offset) = totalsecs + offset \<and> valid_tm (time_to_tm totalsecs offset) \<and>
   tm_wday (time_to_tm totalsecs offset) = (4 + (totalsecs + offset) div 86400) mod 7 \<and>
   year_start (tm_year (time_to_tm totalsecs offset) + 1900) \<le> (totalsecs + offset) div 86400 \<and>
   (totalsecs + offset) div 86400 < year_start (tm_year (time_to_tm totalsecs offset) + 1900 + 1)"
proof -
  obtain r1 d1 where 1: "rem_up (totalsecs smod 86400 + offset) (totalsecs sdiv 86400) = (r1, d1)" by fastforce
  obtain r d where 2: "rem_down r1 d1 = (r, d)" by fastforce
  have n: "r = (totalsecs + offset) mod 86400" "d = (totalsecs + offset) div 86400" using norm_seconds [OF 1 2] by auto
  then have r: "0 \<le> r" "r < 86400" by auto
  obtain yd y where 3: "find_year d 1970 = (yd, y)" by fastforce
  have y: "yd + year_start y = d" "0 \<le> yd" "yd < year_len y" using find_year_correct [of d 1970] 3 by (auto simp: year_start_def leaps_between_eq)
  let ?ip = "mon_yday (isleap y)"
  let ?m = "find_mon ?ip yd 11"
  have m: "?m \<le> 11" "?ip ?m \<le> yd" "yd < ?ip (Suc ?m)"
    using find_mon_correct [of ?ip yd 11] y(2,3) mon_yday_ends(2) [of "isleap y"] by (cases "?m = 11"; auto simp: year_len_def)+
  define hh mm ss where "hh = r div 3600" and "mm = r mod 3600 div 60" and "ss = r mod 3600 mod 60"
  have tm: "time_to_tm totalsecs offset = \<lparr>tm_sec = ss, tm_min = mm, tm_hour = hh,
      tm_mday = yd - ?ip ?m + 1, tm_mon = int ?m, tm_year = y - 1900, tm_wday = (4 + d) mod 7, tm_yday = yd\<rparr>"
    using sdiv_smod_pos [OF r(1), of 3600] sdiv_smod_pos [of "r mod 3600" 60] wday_mod [of "4 + d"]
    by (simp add: time_to_tm_def 1 2 3 Let_def hh_def mm_def ss_def)
  have t: "totalsecs + offset = 86400 * d + r" using n by simp
  have h: "3600 * hh + 60 * mm + ss = r" by (simp add: hh_def mm_def ss_def)
  have "0 \<le> r mod 3600" "r mod 3600 < 3600" by simp_all
  then have "0 \<le> mm" "mm < 60" "0 \<le> hh" "hh < 24" "0 \<le> ss" "ss < 60" using r by (auto simp: hh_def mm_def ss_def)
  then have "valid_tm (time_to_tm totalsecs offset)" using m by (simp add: tm valid_tm_code Let_def)
  moreover have "tm_seconds (time_to_tm totalsecs offset) = 86400 * (yd + year_start y) + r"
    using h m(1) by (simp add: tm tm_seconds_code Let_def)
  then have "tm_seconds (time_to_tm totalsecs offset) = totalsecs + offset" using t y(1) by simp
  moreover have "tm_wday (time_to_tm totalsecs offset) = (4 + (totalsecs + offset) div 86400) mod 7" by (simp add: tm n(2))
  moreover have "year_start (tm_year (time_to_tm totalsecs offset) + 1900) \<le> d" "d < year_start (tm_year (time_to_tm totalsecs offset) + 1900 + 1)"
    using y by (simp_all add: tm year_start_Suc)
  ultimately show ?thesis unfolding n(2) by blast
qed

text \<open>
  C11. \<^verbatim>\<open>time_to_tm\<close> returns, for every time and offset, negative ones included, the date of the proleptic
  Gregorian calendar that is that many seconds after the start of 1970, where the days of the months and years are counted
  one by one: the fields are in their ranges, with the day within the month, the day of the year agrees with month
  and day, and the day of the week is that of the day number, 1970 having started on a Thursday.
\<close>

theorem time_to_tm_correct:
  "tm_seconds (time_to_tm totalsecs offset) = totalsecs + offset \<and> valid_tm (time_to_tm totalsecs offset) \<and>
   tm_wday (time_to_tm totalsecs offset) = (4 + (totalsecs + offset) div 86400) mod 7"
  using time_to_tm_spec [of totalsecs offset] by blast

theorem time_to_tm_correct_witness:
  "time_to_tm 951868799 0 = \<lparr>tm_sec = 59, tm_min = 59, tm_hour = 23, tm_mday = 29, tm_mon = 1, tm_year = 100, tm_wday = 2, tm_yday = 59\<rparr> \<and>
   tm_seconds (time_to_tm 951868799 0) = 951868799"
proof
  show "time_to_tm 951868799 0 = \<lparr>tm_sec = 59, tm_min = 59, tm_hour = 23, tm_mday = 29, tm_mon = 1, tm_year = 100, tm_wday = 2, tm_yday = 59\<rparr>"
    by code_simp
  show "tm_seconds (time_to_tm 951868799 0) = 951868799" using time_to_tm_correct [of 951868799 0] by simp
qed

section \<open>And back\<close>

lemma uint_of_int_u32: "0 \<le> x \<Longrightarrow> x < 2 ^ 32 \<Longrightarrow> uint (of_int x :: u32) = x"
  by (simp add: uint_word_of_int take_bit_int_eq_self)

lemma of_int_u32_div:
  assumes "0 \<le> x" "x < 2 ^ 32" "0 < k" "k < 2 ^ 32"
  shows "(of_int x :: u32) div of_int k = of_int (x div k)"
  using uint_of_int_u32 [OF assms(1,2)] uint_of_int_u32 [of k] assms(3,4) by (simp add: word_div_def)

lemma ucast_of_int_u32:
  assumes "0 \<le> x" "x < 2 ^ 32"
  shows "(ucast (of_int x :: u32) :: u64) = of_int x"
  using uint_of_int_u32 [OF assms] by (metis ucast_eq word_of_int_uint of_int_uint)

text \<open>The formula of \<^verbatim>\<open>mktime\<close> counts the days, with March as the first month.\<close>

lemma gauss_march:
  assumes "3 \<le> mon" "mon \<le> (12 :: int)"
  shows "leaps_to y + 367 * (mon - 2) div 12 + d + y * 365 - 719499 = year_start y + mon_yday (isleap y) (nat (mon - 1)) + (d - 1)"
proof -
  have "mon \<in> {3, 4, 5, 6, 7, 8, 9, 10, 11, 12}" using assms unfolding insert_iff empty_iff by presburger
  then have "367 * (mon - 2) div 12 + 29 = mon_yday (isleap y) (nat (mon - 1)) - (if isleap y then 1 else 0)"
    by (elim insertE emptyE) (simp_all add: mon_yday_def)
  moreover have "leaps_to 1969 = 477" by (simp add: leaps_to_def)
  ultimately show ?thesis using leaps_to_step [of y] unfolding year_start_def leaps_between_eq by simp
qed

lemma gauss_january:
  assumes "1 \<le> mon" "mon \<le> (2 :: int)"
  shows "leaps_to (y - 1) + 367 * (mon + 10) div 12 + d + (y - 1) * 365 - 719499 = year_start y + mon_yday (isleap y) (nat (mon - 1)) + (d - 1)"
proof -
  have "mon \<in> {1, 2}" using assms by auto
  then have "367 * (mon + 10) div 12 - 336 = mon_yday (isleap y) (nat (mon - 1))"
    by (elim insertE emptyE) (simp_all add: mon_yday_def)
  moreover have "leaps_to 1969 = 477" by (simp add: leaps_to_def)
  ultimately show ?thesis unfolding year_start_def leaps_between_eq by simp
qed

lemma leaps_to_range: "0 \<le> y \<Longrightarrow> 0 \<le> leaps_to y \<and> leaps_to y \<le> y + 1"
proof -
  assume y: "0 \<le> y"
  then have "y div 4 \<le> y" by presburger
  then show ?thesis using leaps_to_bounds [OF y] by (simp add: leaps_to_def [of 0])
qed

text \<open>The 32-bit part of the sum does not wrap for the years up to \<open>2^23\<close>.\<close>

lemma mktime_days:
  fixes y mon d :: int
  assumes y: "0 \<le> y" "y < 2 ^ 23" and mon: "1 \<le> mon" "mon \<le> 12" and d: "1 \<le> d" "d \<le> 31"
  defines "year \<equiv> of_int y :: u32"
  shows "ucast (year div 4 - year div 100 + year div 400 + 367 * of_int mon div 12 + of_int d) + ucast (year * 365) =
    (of_int (leaps_to y + 367 * mon div 12 + d + y * 365) :: u64)"
proof -
  have q: "year div 4 = of_int (y div 4)" "year div 100 = of_int (y div 100)" "year div 400 = of_int (y div 400)"
    using of_int_u32_div [of y 4] of_int_u32_div [of y 100] of_int_u32_div [of y 400] y by (simp_all add: year_def)
  have m: "367 * of_int mon div 12 = (of_int (367 * mon div 12) :: u32)"
    using of_int_u32_div [of "367 * mon" 12] mon by simp
  have m2: "0 \<le> 367 * mon div 12" "367 * mon div 12 \<le> 367" using mon by auto
  have eq: "year div 4 - year div 100 + year div 400 + 367 * of_int mon div 12 + of_int d = of_int (leaps_to y + 367 * mon div 12 + d)"
    by (simp only: q m leaps_to_def of_int_add of_int_diff)
  have "year * 365 = of_int (y * 365)" by (simp add: year_def)
  moreover have "0 \<le> leaps_to y + 367 * mon div 12 + d" "leaps_to y + 367 * mon div 12 + d < 2 ^ 32"
  proof -
    have "y < 8388608" "(2 :: int) ^ 32 = 4294967296" using y(2) by simp_all
    then show "0 \<le> leaps_to y + 367 * mon div 12 + d" "leaps_to y + 367 * mon div 12 + d < 2 ^ 32"
      using leaps_to_range [OF y(1)] m2 d by linarith+
  qed
  ultimately show ?thesis
    using ucast_of_int_u32 [of "leaps_to y + 367 * mon div 12 + d"] ucast_of_int_u32 [of "y * 365"] y by (simp only: eq of_int_add) simp
qed

lemma mktime_eq:
  fixes y mon d h mn sec :: int
  assumes y: "1 \<le> y" "y < 2 ^ 23" and mon: "1 \<le> mon" "mon \<le> 12" and d: "1 \<le> d" "d \<le> 31"
    and hms: "0 \<le> h" "h < 24" "0 \<le> mn" "mn < 60" "0 \<le> sec" "sec < 60"
  shows "mktime (of_int y) (of_int mon) (of_int d) (of_int h) (of_int mn) (of_int sec) =
    of_int (86400 * (year_start y + mon_yday (isleap y) (nat (mon - 1)) + (d - 1)) + 3600 * h + 60 * mn + sec)"
proof -
  define y' m' where "y' = (if mon \<le> 2 then y - 1 else y)" and "m' = (if mon \<le> 2 then mon + 10 else mon - 2)"
  have c: "(if 0 \<ge> sint (of_int mon - 2 :: u32) then (of_int mon - 2 + 12, of_int y - 1) else (of_int mon - 2, of_int y)) =
      (of_int m' :: u32, of_int y' :: u32)"
  proof -
    have "mon \<in> {1, 2, 3, 4, 5, 6, 7, 8, 9, 10, 11, 12}" using mon unfolding insert_iff empty_iff by presburger
    then have "sint (of_int mon - 2 :: u32) = mon - 2" by (elim insertE emptyE) simp_all
    then show ?thesis by (simp add: y'_def m'_def)
  qed
  have r: "0 \<le> y'" "y' < 2 ^ 23" "1 \<le> m'" "m' \<le> 12" using y mon by (auto simp: y'_def m'_def)
  have u: "(ucast (of_int h :: u32) :: u64) = of_int h" "(ucast (of_int mn :: u32) :: u64) = of_int mn"
      "(ucast (of_int sec :: u32) :: u64) = of_int sec"
    using hms by (simp_all add: ucast_of_int_u32)
  have g: "leaps_to y' + 367 * m' div 12 + d + y' * 365 - 719499 = year_start y + mon_yday (isleap y) (nat (mon - 1)) + (d - 1)"
    using gauss_march [of mon y d] gauss_january [of mon y d] mon by (auto simp: y'_def m'_def)
  have "mktime (of_int y) (of_int mon) (of_int d) (of_int h) (of_int mn) (of_int sec) =
      (((of_int (leaps_to y' + 367 * m' div 12 + d + y' * 365) - 719499) * 24 + of_int h) * 60 + of_int mn) * 60 + of_int sec"
    using mktime_days [OF r d] u by (simp only: mktime_def c Let_def prod.case)
  also have "\<dots> = of_int ((((leaps_to y' + 367 * m' div 12 + d + y' * 365 - 719499) * 24 + h) * 60 + mn) * 60 + sec)"
    by (simp only: of_int_add of_int_mult of_int_diff of_int_numeral)
  finally show ?thesis unfolding g by (simp add: algebra_simps)
qed

text \<open>The year of a time below \<open>2^47\<close>.\<close>

lemma year_range:
  assumes "0 \<le> D" "D < 2 ^ 31" "year_start y \<le> D" "D < year_start (y + 1)"
  shows "1970 \<le> y \<and> y < 2 ^ 23"
proof -
  have "1970 \<le> y"
  proof (rule ccontr)
    assume "\<not> 1970 \<le> y"
    then have "y \<le> 1969" by simp
    then have "year_start (y + 1) \<le> 0" using leaps_to_bounds [of y 1969] by (simp add: year_start_def leaps_between_eq)
    then show False using assms(1,4) by simp
  qed
  moreover from this have "365 * (y - 1970) \<le> D" using leaps_to_bounds [of 1969 "y - 1"] assms(3) by (simp add: year_start_def leaps_between_eq)
  ultimately show ?thesis using assms(2) by simp
qed

lemma month_length: "m \<le> 11 \<Longrightarrow> mon_yday l (Suc m) - mon_yday l m \<le> 31"
proof -
  assume "m \<le> 11"
  then have "m \<in> {0, 1, 2, 3, 4, 5, 6, 7, 8, 9, 10, 11}" unfolding insert_iff empty_iff by presburger
  then show ?thesis by (elim insertE emptyE) (simp_all add: mon_yday_def)
qed

text \<open>
  C29. Converting a time from 1970 on and below \<open>2^47\<close> seconds (the years up to about 4.4 million) to a date and
  the date back with \<^verbatim>\<open>mktime\<close> gives the time again, although \<^verbatim>\<open>mktime\<close> computes the days partly
  in 32-bit unsigned arithmetic.
\<close>

theorem mktime_time_to_tm:
  assumes "0 \<le> t" "t < 2 ^ 47"
  defines "d \<equiv> time_to_tm t 0"
  shows "mktime (of_int (tm_year d + 1900)) (of_int (tm_mon d + 1)) (of_int (tm_mday d)) (of_int (tm_hour d)) (of_int (tm_min d)) (of_int (tm_sec d))
    = of_int t"
proof -
  have c: "tm_seconds d = t" "valid_tm d" "year_start (tm_year d + 1900) \<le> t div 86400" "t div 86400 < year_start (tm_year d + 1900 + 1)"
    using time_to_tm_spec [of t 0] by (simp_all add: d_def)
  have "0 \<le> t div 86400" "t div 86400 < 2 ^ 31" using assms(1,2) by auto
  then have y: "1970 \<le> tm_year d + 1900" "tm_year d + 1900 < 2 ^ 23" using year_range c(3,4) by auto
  have v: "0 \<le> tm_mon d" "tm_mon d \<le> 11" "1 \<le> tm_mday d" "0 \<le> tm_hour d" "tm_hour d < 24" "0 \<le> tm_min d" "tm_min d < 60"
      "0 \<le> tm_sec d" "tm_sec d < 60"
      "tm_mday d \<le> mon_yday (isleap (tm_year d + 1900)) (Suc (nat (tm_mon d))) - mon_yday (isleap (tm_year d + 1900)) (nat (tm_mon d))"
    using c(2) by (simp_all add: valid_tm_code Let_def)
  have "nat (tm_mon d) \<le> 11" using v(2) by simp
  then have "tm_mday d \<le> 31" using month_length order_trans [OF v(10)] by blast
  moreover have "t = 86400 * (year_start (tm_year d + 1900) + mon_yday (isleap (tm_year d + 1900)) (nat (tm_mon d + 1 - 1)) + (tm_mday d - 1)) +
      3600 * tm_hour d + 60 * tm_min d + tm_sec d" using c(1) v(1,2) by (simp add: tm_seconds_code Let_def)
  ultimately show ?thesis
    using mktime_eq [of "tm_year d + 1900" "tm_mon d + 1" "tm_mday d" "tm_hour d" "tm_min d" "tm_sec d"] y v(1-9) by simp
qed

theorem mktime_time_to_tm_witness:
  "mktime (of_int (tm_year (time_to_tm 951782400 0) + 1900)) (of_int (tm_mon (time_to_tm 951782400 0) + 1))
     (of_int (tm_mday (time_to_tm 951782400 0))) (of_int (tm_hour (time_to_tm 951782400 0)))
     (of_int (tm_min (time_to_tm 951782400 0))) (of_int (tm_sec (time_to_tm 951782400 0))) = 951782400 \<and>
   mktime 2000 2 29 0 0 0 = 951782400"
proof -
  have "mktime 2000 2 29 0 0 0 = 951782400" by (simp add: mktime_def Let_def)
  then show ?thesis using mktime_time_to_tm [of 951782400] by simp
qed

end
