(* ===== verification/Time_Conv.thy ===== *)
theory Time_Conv
  imports Calendar
begin

text \<open>
  Conversions between the units of time of the kernel (\<^verbatim>\<open>time.c\<close>): clock ticks (jiffies), milli-, micro- and
  nanoseconds, the clock ticks of user space, and pairs of seconds and nanoseconds. \<^verbatim>\<open>long\<close> has 64 bits. The
  frequency of the ticks and the constants that the kernel's headers and the build derive from it are the
  fields of a configuration; the preprocessor's conditions on them are the conditions of the definitions.
\<close>

section \<open>Model\<close>

record time_cfg =
  HZ :: nat
  USER_HZ :: nat
  TICK_NSEC :: nat
  HZ_TO_MSEC_NUM :: u64
  HZ_TO_MSEC_DEN :: u64
  HZ_TO_USEC_NUM :: u64
  HZ_TO_USEC_DEN :: u64
  MSEC_TO_HZ_MUL32 :: u64
  MSEC_TO_HZ_ADJ32 :: u64
  MSEC_TO_HZ_SHR32 :: nat
  USEC_TO_HZ_MUL32 :: u64
  USEC_TO_HZ_ADJ32 :: u64
  USEC_TO_HZ_SHR32 :: nat
  SEC_CONVERSION :: u64
  NSEC_CONVERSION :: u64
  USEC_CONVERSION :: u64
  USEC_ROUND :: u64
  SEC_JIFFIE_SC :: nat
  NSEC_JIFFIE_SC :: nat
  USEC_JIFFIE_SC :: nat
  MAX_SEC_IN_JIFFIES :: u64
  MAX_JIFFY_OFFSET :: u64

abbreviation (input) "MSEC_PER_SEC \<equiv> 1000 :: nat"
abbreviation (input) "USEC_PER_SEC \<equiv> 1000000 :: nat"
abbreviation (input) "NSEC_PER_SEC \<equiv> 1000000000 :: nat"

text \<open>The largest value of the type \<^verbatim>\<open>time_t\<close>.\<close>

definition TIME_T_MAX :: int where
  "TIME_T_MAX = 2 ^ 63 - 1"

record timespec =
  tv_sec :: int
  tv_nsec :: int

record timeval =
  tvu_sec :: int
  tvu_usec :: int

text \<open>A value of type \<^verbatim>\<open>time_t\<close> or \<^verbatim>\<open>s64\<close>: signed arithmetic wraps.\<close>

abbreviation (input) s64 :: "int \<Rightarrow> int" where
  "s64 x \<equiv> signed_take_bit 63 x"

definition jiffies_to_msecs :: "time_cfg \<Rightarrow> u64 \<Rightarrow> u32" where
  "jiffies_to_msecs cfg j =
     (if HZ cfg \<le> MSEC_PER_SEC \<and> MSEC_PER_SEC mod HZ cfg = 0 then ucast (of_nat (MSEC_PER_SEC div HZ cfg) * j)
      else if HZ cfg > MSEC_PER_SEC \<and> HZ cfg mod MSEC_PER_SEC = 0
      then ucast ((j + of_nat (HZ cfg div MSEC_PER_SEC) - 1) div of_nat (HZ cfg div MSEC_PER_SEC))
      else ucast ((j * HZ_TO_MSEC_NUM cfg) div HZ_TO_MSEC_DEN cfg))"

definition jiffies_to_usecs :: "time_cfg \<Rightarrow> u64 \<Rightarrow> u32" where
  "jiffies_to_usecs cfg j =
     (if HZ cfg \<le> USEC_PER_SEC \<and> USEC_PER_SEC mod HZ cfg = 0 then ucast (of_nat (USEC_PER_SEC div HZ cfg) * j)
      else if HZ cfg > USEC_PER_SEC \<and> HZ cfg mod USEC_PER_SEC = 0
      then ucast ((j + of_nat (HZ cfg div USEC_PER_SEC) - 1) div of_nat (HZ cfg div USEC_PER_SEC))
      else ucast ((j * HZ_TO_USEC_NUM cfg) div HZ_TO_USEC_DEN cfg))"

definition timespec_trunc :: "time_cfg \<Rightarrow> timespec \<Rightarrow> u32 \<Rightarrow> timespec" where
  "timespec_trunc cfg t gran =
     (if gran \<le> jiffies_to_usecs cfg 1 * 1000 then t
      else if gran = 1000000000 then t\<lparr>tv_nsec := 0\<rparr>
      else t\<lparr>tv_nsec := tv_nsec t - tv_nsec t smod uint gran\<rparr>)"

text \<open>The two loops of \<^verbatim>\<open>set_normalized_timespec\<close>.\<close>

function carry_up :: "int \<Rightarrow> int \<Rightarrow> int \<times> int" where
  "carry_up sec nsec = (if nsec \<ge> int NSEC_PER_SEC then carry_up (s64 (sec + 1)) (nsec - int NSEC_PER_SEC) else (sec, nsec))"
  by pat_completeness auto

termination
  by (relation "measure (\<lambda>(sec, nsec). nat nsec)") auto

function carry_down :: "int \<Rightarrow> int \<Rightarrow> int \<times> int" where
  "carry_down sec nsec = (if nsec < 0 then carry_down (s64 (sec - 1)) (nsec + int NSEC_PER_SEC) else (sec, nsec))"
  by pat_completeness auto

termination
  by (relation "measure (\<lambda>(sec, nsec). nat (- nsec))") auto

declare carry_up.simps [simp del] carry_down.simps [simp del]

definition set_normalized_timespec :: "int \<Rightarrow> int \<Rightarrow> timespec" where
  "set_normalized_timespec sec nsec =
     (let (sec1, nsec1) = carry_up sec nsec; (sec2, nsec2) = carry_down sec1 nsec1
      in \<lparr>tv_sec = sec2, tv_nsec = nsec2\<rparr>)"

definition ns_to_timespec :: "int \<Rightarrow> timespec" where
  "ns_to_timespec nsec =
     (if nsec = 0 then \<lparr>tv_sec = 0, tv_nsec = 0\<rparr>
      else let sec = nsec sdiv int NSEC_PER_SEC; r = nsec smod int NSEC_PER_SEC
           in if r < 0 then \<lparr>tv_sec = sec - 1, tv_nsec = r + int NSEC_PER_SEC\<rparr> else \<lparr>tv_sec = sec, tv_nsec = r\<rparr>)"

definition ns_to_timeval :: "int \<Rightarrow> timeval" where
  "ns_to_timeval nsec = (let ts = ns_to_timespec nsec in \<lparr>tvu_sec = tv_sec ts, tvu_usec = tv_nsec ts sdiv 1000\<rparr>)"

definition msecs_to_jiffies :: "time_cfg \<Rightarrow> u32 \<Rightarrow> u64" where
  "msecs_to_jiffies cfg m =
     (if sint m < 0 then MAX_JIFFY_OFFSET cfg
      else if HZ cfg \<le> MSEC_PER_SEC \<and> MSEC_PER_SEC mod HZ cfg = 0
      then (ucast m + of_nat (MSEC_PER_SEC div HZ cfg) - 1) div of_nat (MSEC_PER_SEC div HZ cfg)
      else if HZ cfg > MSEC_PER_SEC \<and> HZ cfg mod MSEC_PER_SEC = 0
      then if m > jiffies_to_msecs cfg (MAX_JIFFY_OFFSET cfg) then MAX_JIFFY_OFFSET cfg
           else ucast m * of_nat (HZ cfg div MSEC_PER_SEC)
      else if HZ cfg > MSEC_PER_SEC \<and> m > jiffies_to_msecs cfg (MAX_JIFFY_OFFSET cfg) then MAX_JIFFY_OFFSET cfg
           else drop_bit (MSEC_TO_HZ_SHR32 cfg) (MSEC_TO_HZ_MUL32 cfg * ucast m + MSEC_TO_HZ_ADJ32 cfg))"

definition usecs_to_jiffies :: "time_cfg \<Rightarrow> u32 \<Rightarrow> u64" where
  "usecs_to_jiffies cfg u =
     (if u > jiffies_to_usecs cfg (MAX_JIFFY_OFFSET cfg) then MAX_JIFFY_OFFSET cfg
      else if HZ cfg \<le> USEC_PER_SEC \<and> USEC_PER_SEC mod HZ cfg = 0
      then (ucast u + of_nat (USEC_PER_SEC div HZ cfg) - 1) div of_nat (USEC_PER_SEC div HZ cfg)
      else if HZ cfg > USEC_PER_SEC \<and> HZ cfg mod USEC_PER_SEC = 0 then ucast u * of_nat (HZ cfg div USEC_PER_SEC)
      else drop_bit (USEC_TO_HZ_SHR32 cfg) (USEC_TO_HZ_MUL32 cfg * ucast u + USEC_TO_HZ_ADJ32 cfg))"

definition timespec_to_jiffies :: "time_cfg \<Rightarrow> timespec \<Rightarrow> u64" where
  "timespec_to_jiffies cfg value =
     (let sec0 = of_int (tv_sec value) :: u64;
          nsec0 = of_int (tv_nsec value) + of_nat (TICK_NSEC cfg) - 1 :: u64;
          (sec, nsec) = (if sec0 \<ge> MAX_SEC_IN_JIFFIES cfg then (MAX_SEC_IN_JIFFIES cfg, 0) else (sec0, nsec0))
      in drop_bit (SEC_JIFFIE_SC cfg)
           (sec * SEC_CONVERSION cfg + drop_bit (NSEC_JIFFIE_SC cfg - SEC_JIFFIE_SC cfg) (nsec * NSEC_CONVERSION cfg)))"

definition jiffies_to_timespec :: "time_cfg \<Rightarrow> u64 \<Rightarrow> timespec" where
  "jiffies_to_timespec cfg jiffies =
     (let ns = jiffies * of_nat (TICK_NSEC cfg)
      in \<lparr>tv_sec = uint (ns div of_nat NSEC_PER_SEC), tv_nsec = uint (ns mod of_nat NSEC_PER_SEC)\<rparr>)"

definition timeval_to_jiffies :: "time_cfg \<Rightarrow> timeval \<Rightarrow> u64" where
  "timeval_to_jiffies cfg value =
     (let sec0 = of_int (tvu_sec value) :: u64; usec0 = of_int (tvu_usec value) :: u64;
          (sec, usec) = (if sec0 \<ge> MAX_SEC_IN_JIFFIES cfg then (MAX_SEC_IN_JIFFIES cfg, 0) else (sec0, usec0))
      in drop_bit (SEC_JIFFIE_SC cfg)
           (sec * SEC_CONVERSION cfg + drop_bit (USEC_JIFFIE_SC cfg - SEC_JIFFIE_SC cfg) (usec * USEC_CONVERSION cfg + USEC_ROUND cfg)))"

definition jiffies_to_timeval :: "time_cfg \<Rightarrow> u64 \<Rightarrow> timeval" where
  "jiffies_to_timeval cfg jiffies =
     (let ns = jiffies * of_nat (TICK_NSEC cfg)
      in \<lparr>tvu_sec = uint (ns div of_nat NSEC_PER_SEC), tvu_usec = uint (ns mod of_nat NSEC_PER_SEC) div 1000\<rparr>)"

definition jiffies_to_clock_t :: "time_cfg \<Rightarrow> u64 \<Rightarrow> u64" where
  "jiffies_to_clock_t cfg x =
     (if TICK_NSEC cfg mod (NSEC_PER_SEC div USER_HZ cfg) = 0
      then if HZ cfg < USER_HZ cfg then x * of_nat (USER_HZ cfg div HZ cfg) else x div of_nat (HZ cfg div USER_HZ cfg)
      else (x * of_nat (TICK_NSEC cfg)) div of_nat (NSEC_PER_SEC div USER_HZ cfg))"

definition clock_t_to_jiffies :: "time_cfg \<Rightarrow> u64 \<Rightarrow> u64" where
  "clock_t_to_jiffies cfg x =
     (if HZ cfg mod USER_HZ cfg = 0
      then if x \<ge> - 1 div of_nat (HZ cfg div USER_HZ cfg) then - 1 else x * of_nat (HZ cfg div USER_HZ cfg)
      else if x \<ge> - 1 div of_nat (HZ cfg) * of_nat (USER_HZ cfg) then - 1
           else (x * of_nat (HZ cfg)) div of_nat (USER_HZ cfg))"

definition jiffies_64_to_clock_t :: "time_cfg \<Rightarrow> u64 \<Rightarrow> u64" where
  "jiffies_64_to_clock_t cfg x =
     (if TICK_NSEC cfg mod (NSEC_PER_SEC div USER_HZ cfg) = 0
      then if HZ cfg < USER_HZ cfg then (x * of_nat (USER_HZ cfg)) div of_nat (HZ cfg)
           else if HZ cfg > USER_HZ cfg then x div of_nat (HZ cfg div USER_HZ cfg)
           else x
      else (x * of_nat (TICK_NSEC cfg)) div of_nat (NSEC_PER_SEC div USER_HZ cfg))"

definition nsec_to_clock_t :: "time_cfg \<Rightarrow> u64 \<Rightarrow> u64" where
  "nsec_to_clock_t cfg x =
     (if NSEC_PER_SEC mod USER_HZ cfg = 0 then x div of_nat (NSEC_PER_SEC div USER_HZ cfg)
      else if USER_HZ cfg mod 512 = 0 then (x * of_nat (USER_HZ cfg) div 512) div of_nat (NSEC_PER_SEC div 512)
      else (x * 9) div of_nat ((9 * NSEC_PER_SEC + USER_HZ cfg div 2) div USER_HZ cfg))"

definition nsecs_to_jiffies64 :: "time_cfg \<Rightarrow> u64 \<Rightarrow> u64" where
  "nsecs_to_jiffies64 cfg n =
     (if NSEC_PER_SEC mod HZ cfg = 0 then n div of_nat (NSEC_PER_SEC div HZ cfg)
      else if HZ cfg mod 512 = 0 then (n * of_nat (HZ cfg) div 512) div of_nat (NSEC_PER_SEC div 512)
      else (n * 9) div of_nat ((9 * NSEC_PER_SEC + HZ cfg div 2) div HZ cfg))"

definition nsecs_to_jiffies :: "time_cfg \<Rightarrow> u64 \<Rightarrow> u64" where
  "nsecs_to_jiffies cfg n = nsecs_to_jiffies64 cfg n"

definition timespec_add_safe :: "timespec \<Rightarrow> timespec \<Rightarrow> timespec" where
  "timespec_add_safe lhs rhs =
     (let res = set_normalized_timespec (s64 (tv_sec lhs + tv_sec rhs)) (tv_nsec lhs + tv_nsec rhs)
      in if tv_sec res < tv_sec lhs \<or> tv_sec res < tv_sec rhs then res\<lparr>tv_sec := TIME_T_MAX\<rparr> else res)"

section \<open>Normalised times\<close>

lemma s64_add [simp]: "s64 (s64 x + y) = s64 (x + y)" "s64 (s64 x - y) = s64 (x - y)"
  by (metis signed_take_bit_add signed_take_bit_signed_take_bit min.idem)
    (metis signed_take_bit_diff signed_take_bit_signed_take_bit min.idem)

lemma s64_id: "- (2 ^ 63) \<le> x \<Longrightarrow> x < 2 ^ 63 \<Longrightarrow> s64 x = x"
  by (simp add: signed_take_bit_int_eq_self)

lemma div_mod_shift:
  "(x - 1000000000) div 1000000000 = x div 1000000000 - 1" "(x - 1000000000) mod 1000000000 = x mod 1000000000"
  "(x + 1000000000) div 1000000000 = x div 1000000000 + 1" "(x + 1000000000) mod 1000000000 = x mod 1000000000" for x :: int
  using div_add_self2 [of 1000000000 "x - 1000000000"] mod_add_self2 [of "x - 1000000000" 1000000000] by simp_all

lemma carry_up_eq:
  "s64 sec = sec \<Longrightarrow> carry_up sec nsec = (if 0 \<le> nsec then (s64 (sec + nsec div 1000000000), nsec mod 1000000000) else (sec, nsec))"
proof (induction sec nsec rule: carry_up.induct)
  case (1 sec nsec)
  show ?case
  proof (cases "nsec \<ge> 1000000000")
    case True
    then have "carry_up sec nsec = carry_up (s64 (sec + 1)) (nsec - 1000000000)" by (subst carry_up.simps) simp
    then show ?thesis using True "1.IH" by (simp add: div_mod_shift)
  next
    case False
    then show ?thesis using "1.prems" by (subst carry_up.simps) simp
  qed
qed

lemma carry_down_eq:
  "s64 sec = sec \<Longrightarrow> nsec < 1000000000 \<Longrightarrow> carry_down sec nsec = (s64 (sec + nsec div 1000000000), nsec mod 1000000000)"
proof (induction sec nsec rule: carry_down.induct)
  case (1 sec nsec)
  show ?case
  proof (cases "nsec < 0")
    case True
    then have "carry_down sec nsec = carry_down (s64 (sec - 1)) (nsec + 1000000000)" by (subst carry_down.simps) simp
    then show ?thesis using True "1.IH" by (simp add: div_mod_shift)
  next
    case False
    then show ?thesis using "1.prems" by (subst carry_down.simps) simp
  qed
qed

lemma set_normalized_eq:
  assumes "s64 sec = sec"
  shows "set_normalized_timespec sec nsec = \<lparr>tv_sec = s64 (sec + nsec div 1000000000), tv_nsec = nsec mod 1000000000\<rparr>"
proof (cases "0 \<le> nsec")
  case True
  then show ?thesis using carry_up_eq [OF assms] by (simp add: set_normalized_timespec_def carry_down_eq)
next
  case False
  then show ?thesis using carry_up_eq [OF assms] carry_down_eq [OF assms] by (simp add: set_normalized_timespec_def)
qed

lemma ns_to_timespec_eq: "ns_to_timespec nsec = \<lparr>tv_sec = nsec div 1000000000, tv_nsec = nsec mod 1000000000\<rparr>"
proof -
  have d: "nsec = 1000000000 * (nsec sdiv 1000000000) + nsec smod 1000000000" by (simp add: mult_sdiv_smod_eq)
  note b = smod_bounds [of 1000000000 nsec]
  show ?thesis
  proof (cases "nsec smod 1000000000 < 0")
    case True
    moreover from this have "nsec \<noteq> 0" by auto
    ultimately show ?thesis
      using int_div_pos_eq [of nsec 1000000000 "nsec sdiv 1000000000 - 1" "nsec smod 1000000000 + 1000000000"]
        int_mod_pos_eq [of nsec 1000000000 "nsec sdiv 1000000000 - 1" "nsec smod 1000000000 + 1000000000"] b d
      by (simp add: ns_to_timespec_def Let_def)
  next
    case False
    then show ?thesis
      using int_div_pos_eq [of nsec 1000000000 "nsec sdiv 1000000000" "nsec smod 1000000000"]
        int_mod_pos_eq [of nsec 1000000000 "nsec sdiv 1000000000" "nsec smod 1000000000"] b d
      by (simp add: ns_to_timespec_def Let_def)
  qed
qed

text \<open>
  Normalisation by repeated addition agrees with the conversion by division: for a number of nanoseconds
  that fits 64 bits, negative or not, both give the unique pair with nanoseconds from 0 to 999999999 that
  denotes it.
\<close>

theorem ns_to_timespec_normalized:
  assumes "- (2 ^ 63) \<le> nsec" "nsec < 2 ^ 63"
  shows "set_normalized_timespec 0 nsec = ns_to_timespec nsec \<and>
    0 \<le> tv_nsec (ns_to_timespec nsec) \<and> tv_nsec (ns_to_timespec nsec) < 1000000000 \<and>
    tv_sec (ns_to_timespec nsec) * 1000000000 + tv_nsec (ns_to_timespec nsec) = nsec"
proof -
  have "s64 (nsec div 1000000000) = nsec div 1000000000" using assms by (intro s64_id) auto
  then show ?thesis by (simp add: set_normalized_eq ns_to_timespec_eq)
qed

theorem ns_to_timespec_normalized_witness:
  "set_normalized_timespec 0 (- 1) = ns_to_timespec (- 1) \<and> ns_to_timespec (- 1) = \<lparr>tv_sec = - 1, tv_nsec = 999999999\<rparr>"
  using ns_to_timespec_normalized [of "- 1"] by (simp add: ns_to_timespec_eq)

definition valid_time :: "timespec \<Rightarrow> bool" where
  "valid_time t \<longleftrightarrow> 0 \<le> tv_sec t \<and> tv_sec t \<le> TIME_T_MAX \<and> 0 \<le> tv_nsec t \<and> tv_nsec t < 1000000000"

text \<open>
  The safe addition of two valid times is their sum, normalised, if its seconds fit the type, and
  otherwise has the largest number of seconds: it never wraps around to a time before one of the two.
\<close>

theorem timespec_add_safe_saturates:
  assumes "valid_time lhs" "valid_time rhs"
  shows "timespec_add_safe lhs rhs =
    \<lparr>tv_sec = min (tv_sec lhs + tv_sec rhs + (tv_nsec lhs + tv_nsec rhs) div 1000000000) TIME_T_MAX,
      tv_nsec = (tv_nsec lhs + tv_nsec rhs) mod 1000000000\<rparr>"
proof -
  let ?n = "tv_nsec lhs + tv_nsec rhs"
  define c where "c = ?n div 1000000000"
  let ?t = "tv_sec lhs + tv_sec rhs + c"
  have c: "0 \<le> c" "c \<le> 1" using assms by (auto simp: c_def valid_time_def)
  have r: "0 \<le> tv_sec lhs" "0 \<le> tv_sec rhs" "tv_sec lhs \<le> 2 ^ 63 - 1" "tv_sec rhs \<le> 2 ^ 63 - 1"
    using assms by (simp_all add: valid_time_def TIME_T_MAX_def)
  have eq: "set_normalized_timespec (s64 (tv_sec lhs + tv_sec rhs)) ?n = \<lparr>tv_sec = s64 ?t, tv_nsec = ?n mod 1000000000\<rparr>"
    by (simp add: set_normalized_eq c_def)
  have s: "s64 ?t = (if ?t < 2 ^ 63 then ?t else ?t - 2 ^ 64)"
    using signed_take_bit_cases [of ?t 63] r c by simp
  show ?thesis
  proof (cases "?t < 2 ^ 63")
    case True
    then show ?thesis using eq s r c by (simp add: timespec_add_safe_def TIME_T_MAX_def c_def [symmetric])
  next
    case False
    then have "s64 ?t < tv_sec lhs" using s r c by simp
    then show ?thesis using eq False r by (simp add: timespec_add_safe_def Let_def TIME_T_MAX_def c_def [symmetric])
  qed
qed

theorem timespec_add_safe_saturates_witness:
  "valid_time \<lparr>tv_sec = 2 ^ 63 - 1, tv_nsec = 999999999\<rparr> \<and>
   timespec_add_safe \<lparr>tv_sec = 2 ^ 63 - 1, tv_nsec = 999999999\<rparr> \<lparr>tv_sec = 5, tv_nsec = 1\<rparr> = \<lparr>tv_sec = 2 ^ 63 - 1, tv_nsec = 0\<rparr>"
  using timespec_add_safe_saturates [of "\<lparr>tv_sec = 2 ^ 63 - 1, tv_nsec = 999999999\<rparr>" "\<lparr>tv_sec = 5, tv_nsec = 1\<rparr>"]
  by (simp add: valid_time_def TIME_T_MAX_def)

section \<open>Rounding to ticks\<close>

text \<open>Rounding up to a multiple, on words that are small enough.\<close>

lemma unat_small: "n < 2 ^ 64 \<Longrightarrow> unat (of_nat n :: u64) = n"
  by (simp add: unat_of_nat take_bit_nat_eq_self)

lemma round_up_u64:
  assumes "x < 2 ^ 32" "0 < k" "k < 2 ^ 32"
  shows "unat ((of_nat x + of_nat k - 1 :: u64) div of_nat k) = (x + k - 1) div k"
proof -
  have "(of_nat x + of_nat k - 1 :: u64) = of_nat (x + k - 1)" using assms(2) by (simp add: of_nat_diff)
  moreover have "unat (of_nat (x + k - 1) :: u64) = x + k - 1" using assms by (intro unat_small) simp
  moreover have "unat (of_nat k :: u64) = k" using assms by (intro unat_small) simp
  ultimately show ?thesis by (simp add: unat_div)
qed

lemma unat_ucast_of_nat: "unat (ucast (of_nat n :: u64) :: u32) = n mod 2 ^ 32"
  by (simp add: unsigned_ucast_eq unsigned_of_nat take_bit_eq_mod mod_mod_cancel)

lemma ucast_of_unat: "(ucast (m :: u32) :: u64) = of_nat (unat m)"
  by simp

lemma round_up_bounds: "0 < k \<Longrightarrow> x \<le> k * ((x + k - 1) div k) \<and> k * ((x + k - 1) div k) < x + k" for x k :: nat
proof -
  assume k: "0 < k"
  have "x + k - 1 = k * ((x + k - 1) div k) + (x + k - 1) mod k" by simp
  moreover have "(x + k - 1) mod k < k" using k by simp
  ultimately show ?thesis using k by linarith
qed

lemma tick_divides: "0 < hz \<Longrightarrow> hz \<le> n \<Longrightarrow> 0 < n div hz" for hz n :: nat
  using div_le_mono [of hz n hz] by simp

text \<open>A configuration whose tick divides a second, so that the constants of the general case play no role.\<close>

definition demo_cfg :: "nat \<Rightarrow> time_cfg" where
  "demo_cfg hz = \<lparr>HZ = hz, USER_HZ = 100, TICK_NSEC = 1000000000 div hz, HZ_TO_MSEC_NUM = 0, HZ_TO_MSEC_DEN = 1, HZ_TO_USEC_NUM = 0,
     HZ_TO_USEC_DEN = 1, MSEC_TO_HZ_MUL32 = 0, MSEC_TO_HZ_ADJ32 = 0, MSEC_TO_HZ_SHR32 = 0, USEC_TO_HZ_MUL32 = 0, USEC_TO_HZ_ADJ32 = 0,
     USEC_TO_HZ_SHR32 = 0, SEC_CONVERSION = 0, NSEC_CONVERSION = 0, USEC_CONVERSION = 0, USEC_ROUND = 0, SEC_JIFFIE_SC = 0,
     NSEC_JIFFIE_SC = 0, USEC_JIFFIE_SC = 0, MAX_SEC_IN_JIFFIES = 0, MAX_JIFFY_OFFSET = 2 ^ 62 - 2\<rparr>"

text \<open>
  C30. Where a tick is a whole number of milliseconds (at most 1000 ticks a second, a divisor of 1000), a timeout in milliseconds is converted to the smallest
  number of ticks that lasts at least as long: converted back it is not shorter than the timeout, and longer
  by less than a tick. A value with the sign bit set means no timeout at all.
\<close>

theorem msecs_to_jiffies_rounds_up:
  assumes hz: "0 < HZ cfg" "HZ cfg \<le> 1000" "1000 mod HZ cfg = 0"
  defines "k \<equiv> 1000 div HZ cfg"
  shows "if unat m < 2 ^ 31
    then unat (msecs_to_jiffies cfg m) = (unat m + k - 1) div k \<and>
      unat m \<le> unat (jiffies_to_msecs cfg (msecs_to_jiffies cfg m)) \<and>
      unat (jiffies_to_msecs cfg (msecs_to_jiffies cfg m)) < unat m + k
    else msecs_to_jiffies cfg m = MAX_JIFFY_OFFSET cfg"
proof -
  have k12: "0 < k" "k \<le> 1000" using tick_divides [OF hz(1,2)] by (simp_all add: k_def)
  then have k: "0 < k" "k \<le> 1000" "k < 2 ^ 32" by simp_all
  have lt: "unat m < 2 ^ 32" by (rule unat_u32_lt)
  have "int (unat m) < 2 ^ 32" using lt by (metis of_nat_less_iff of_nat_numeral of_nat_power)
  then have sg: "sint m < 0 \<longleftrightarrow> \<not> unat m < 2 ^ 31" by (simp only: sint_cases) auto
  show ?thesis
  proof (cases "unat m < 2 ^ 31")
    case True
    let ?j = "msecs_to_jiffies cfg m" and ?n = "(unat m + k - 1) div k"
    have j: "unat ?j = ?n"
      using True sg hz round_up_u64 [OF lt k(1) k(3)] by (simp add: msecs_to_jiffies_def k_def flip: ucast_of_unat)
    have b: "unat m \<le> k * ?n" "k * ?n < unat m + k" using round_up_bounds [OF k(1)] by auto
    have "?j = of_nat ?n" using j by (metis of_nat_unat ucast_id)
    then have "jiffies_to_msecs cfg ?j = ucast (of_nat (k * ?n) :: u64)" using hz by (simp add: jiffies_to_msecs_def k_def)
    moreover have "k * ?n < 2 ^ 32" using b True k(2) by simp
    ultimately have "unat (jiffies_to_msecs cfg ?j) = k * ?n" by (simp only: unat_ucast_of_nat mod_less)
    then show ?thesis using j b True by simp
  next
    case False
    then show ?thesis using sg by (simp add: msecs_to_jiffies_def)
  qed
qed

theorem msecs_to_jiffies_rounds_up_witness:
  "unat (msecs_to_jiffies (demo_cfg 250) 10) = 3 \<and>
   unat (jiffies_to_msecs (demo_cfg 250) (msecs_to_jiffies (demo_cfg 250) 10)) < 14"
  using msecs_to_jiffies_rounds_up [of "demo_cfg 250" 10] by (simp add: demo_cfg_def)

text \<open>
  The conversion from microseconds compares its argument with the length of the longest timeout in
  microseconds, which is reduced to 32 bits: where the tick divides a microsecond count evenly, the last
  \<open>2 k - 1\<close> values of the argument, \<open>k\<close> being the microseconds of a tick, are taken for infinite although they
  last about 71 minutes; all others are rounded up to whole ticks.
\<close>

theorem usecs_to_jiffies_cutoff:
  assumes hz: "0 < HZ cfg" "HZ cfg \<le> 1000000" "1000000 mod HZ cfg = 0"
    and max: "MAX_JIFFY_OFFSET cfg = 2 ^ 62 - 2"
  defines "k \<equiv> 1000000 div HZ cfg"
  shows "if unat u \<le> 2 ^ 32 - 2 * k then unat (usecs_to_jiffies cfg u) = (unat u + k - 1) div k
    else usecs_to_jiffies cfg u = MAX_JIFFY_OFFSET cfg"
proof -
  have k: "0 < k" "k \<le> 1000000" using tick_divides [OF hz(1,2)] by (simp_all add: k_def)
  then have k3: "k < 2 ^ 32" by simp
  have lt: "unat u < 2 ^ 32" by (rule unat_u32_lt)
  have "jiffies_to_usecs cfg (MAX_JIFFY_OFFSET cfg) = ucast (of_nat (k * (2 ^ 62 - 2)) :: u64)"
    using hz by (simp add: jiffies_to_usecs_def max k_def)
  moreover have "k * (2 ^ 62 - 2) = (2 ^ 32 - 2 * k) + 2 ^ 32 * (k * 2 ^ 30 - 1)" using k by simp
  moreover have "(2 ^ 32 - 2 * k + 2 ^ 32 * (k * 2 ^ 30 - 1)) mod 2 ^ 32 = 2 ^ 32 - 2 * k"
    using k unfolding mod_mult_self2 by (intro mod_less) simp
  ultimately have "unat (jiffies_to_usecs cfg (MAX_JIFFY_OFFSET cfg)) = 2 ^ 32 - 2 * k"
    by (simp only: unat_ucast_of_nat)
  then have cut: "u > jiffies_to_usecs cfg (MAX_JIFFY_OFFSET cfg) \<longleftrightarrow> \<not> unat u \<le> 2 ^ 32 - 2 * k"
    by (simp add: word_less_nat_alt not_le)
  show ?thesis
    using cut hz round_up_u64 [OF lt k(1) k3] by (simp add: usecs_to_jiffies_def k_def flip: ucast_of_unat)
qed

theorem usecs_to_jiffies_cutoff_witness:
  "unat (usecs_to_jiffies (demo_cfg 1000) 4294965296) = 4294966 \<and>
   usecs_to_jiffies (demo_cfg 1000) 4294965297 = MAX_JIFFY_OFFSET (demo_cfg 1000)"
  using usecs_to_jiffies_cutoff [of "demo_cfg 1000" 4294965296] usecs_to_jiffies_cutoff [of "demo_cfg 1000" 4294965297]
  by (simp add: demo_cfg_def)

end
