(* ===== verification/Linked_List.thy ===== *)
theory Linked_List
  imports Kernel_Prelude
begin

text \<open>
  Singly linked lists in memory, shared by the components that follow links: the links are a map from
  addresses to pointers (no address for a null pointer), and \<open>links nx p bs\<close> says that following them from
  \<open>p\<close> visits exactly the addresses \<open>bs\<close> and ends. The lemmas give what relinking at one place does to the list.
\<close>

primrec links :: "(nat \<Rightarrow> nat option) \<Rightarrow> nat option \<Rightarrow> nat list \<Rightarrow> bool" where
  "links nx p [] \<longleftrightarrow> p = None"
| "links nx p (b # bs) \<longleftrightarrow> p = Some b \<and> links nx (nx b) bs"

lemma links_None [simp]: "links nx None bs \<longleftrightarrow> bs = []"
  by (cases bs) auto

lemma links_Some: "links nx (Some b) bs \<longleftrightarrow> (\<exists>cs. bs = b # cs \<and> links nx (nx b) cs)"
  by (cases bs) auto

lemma links_unique: "links nx p bs \<Longrightarrow> links nx p cs \<Longrightarrow> bs = cs"
  by (induction bs arbitrary: p cs) (auto simp: links_Some)

lemma links_append: "links nx p (bs @ c # cs) \<Longrightarrow> links nx (Some c) (c # cs)"
  by (induction bs arbitrary: p) auto

lemma links_distinct: "links nx p bs \<Longrightarrow> distinct bs"
proof (induction bs arbitrary: p)
  case (Cons b bs)
  have "b \<notin> set bs"
  proof
    assume "b \<in> set bs"
    then obtain us vs where bs: "bs = us @ b # vs" by (auto simp: in_set_conv_decomp)
    then have "links nx (Some b) (b # vs)" using Cons.prems links_append [of nx "nx b" us b vs] by simp
    then have "b # vs = b # bs" using links_unique [of nx "Some b" "b # vs" "b # bs"] Cons.prems by simp
    then show False using bs by simp
  qed
  then show ?case using Cons.IH [of "nx b"] Cons.prems by simp
qed simp

lemma links_cong: "\<forall>b\<in>set bs. nx b = nx' b \<Longrightarrow> links nx p bs = links nx' p bs"
  by (induction bs arbitrary: p) auto

lemma links_upd [simp]: "n \<notin> set bs \<Longrightarrow> links (nx(n := q)) p bs = links nx p bs"
  by (rule links_cong) auto

lemma links_mid: "links nx p (us @ vs) \<Longrightarrow> links nx (if us = [] then p else nx (last us)) vs"
  by (induction us arbitrary: p) auto

text \<open>Replacing what follows one element.\<close>

lemma links_relink:
  assumes "links nx p (ws @ w # vs)" "links nx' q zs" "nx' w = q" "\<forall>b\<in>set ws. nx' b = nx b"
  shows "links nx' p (ws @ w # zs)"
  using assms by (induction ws arbitrary: p) auto

text \<open>Linking a new element after \<open>w\<close>, and taking the element after \<open>w\<close> out.\<close>

lemma links_insert_after:
  assumes l: "links nx p (ws @ w # vs)" and n: "n \<notin> set (ws @ w # vs)"
  shows "links (nx(n := nx w, w := Some n)) p (ws @ w # n # vs)"
proof -
  let ?nx = "nx(n := nx w, w := Some n)"
  have d: "distinct (ws @ w # vs)" using links_distinct [OF l] .
  have "links nx (nx w) vs" using links_append [OF l] by simp
  then have "links ?nx (Some n) (n # vs)" using n d by simp
  moreover have "\<forall>b\<in>set ws. ?nx b = nx b" using d n by auto
  ultimately show ?thesis using links_relink [OF l, of ?nx "Some n" "n # vs"] by simp
qed

lemma links_remove_after:
  assumes l: "links nx p (ws @ w # n # vs)"
  shows "links (nx(w := nx n)) p (ws @ w # vs)"
proof -
  have d: "distinct (ws @ w # n # vs)" using links_distinct [OF l] .
  have "links nx (nx n) vs" using links_append [of nx p "ws @ [w]" n vs] l by simp
  then have "links (nx(w := nx n)) (nx n) vs" using d by simp
  moreover have "\<forall>b\<in>set ws. (nx(w := nx n)) b = nx b" using d by auto
  ultimately show ?thesis using links_relink [OF l, of "nx(w := nx n)" "nx n" vs] by simp
qed

end
