(* ===== verification/Notifier.thy ===== *)
theory Notifier
  imports Linked_List
begin

text \<open>
  Notifier chains (\<^verbatim>\<open>notifier.c\<close>): singly linked lists of callbacks in memory, kept in the order of their
  priorities. The blocks are addresses, their links a map, and the loops follow the links through the pointer
  to the link they are at, as the code does; a loop that would never end has no result. The public operations
  add the locking of their kind of chain; they return what the core operation does together with the accesses
  and lock operations in their order.
\<close>

section \<open>The core operations\<close>

record chain_mem =
  head :: "nat option"
  nxt :: "nat \<Rightarrow> nat option"
  priority :: "nat \<Rightarrow> int"

text \<open>The pointer \<^verbatim>\<open>nl\<close> of the loops: to the head, or to the link of a block.\<close>

datatype slot = Head | NextOf nat

primrec deref :: "chain_mem \<Rightarrow> slot \<Rightarrow> nat option" where
  "deref m Head = head m"
| "deref m (NextOf b) = nxt m b"

primrec assign :: "chain_mem \<Rightarrow> slot \<Rightarrow> nat option \<Rightarrow> chain_mem" where
  "assign m Head p = m\<lparr>head := p\<rparr>"
| "assign m (NextOf b) p = m\<lparr>nxt := (nxt m)(b := p)\<rparr>"

partial_function (option) register_slot :: "chain_mem \<Rightarrow> nat \<Rightarrow> slot \<Rightarrow> slot option" where
  "register_slot m n nl =
     (if deref m nl = None then Some nl
      else if priority m n > priority m (the (deref m nl)) then Some nl
      else register_slot m n (NextOf (the (deref m nl))))"

definition link_at :: "chain_mem \<Rightarrow> nat \<Rightarrow> slot \<Rightarrow> chain_mem" where
  "link_at m n nl = assign (m\<lparr>nxt := (nxt m)(n := deref m nl)\<rparr>) nl (Some n)"

definition notifier_chain_register :: "chain_mem \<Rightarrow> nat \<Rightarrow> (chain_mem \<times> unit result) option" where
  "notifier_chain_register m n = Option.bind (register_slot m n Head) (\<lambda>nl. Some (link_at m n nl, Inr ()))"

text \<open>The block is found already, or a place for it.\<close>

partial_function (option) cond_slot :: "chain_mem \<Rightarrow> nat \<Rightarrow> slot \<Rightarrow> slot option option" where
  "cond_slot m n nl =
     (if deref m nl = None then Some (Some nl)
      else if deref m nl = Some n then Some None
      else if priority m n > priority m (the (deref m nl)) then Some (Some nl)
      else cond_slot m n (NextOf (the (deref m nl))))"

definition notifier_chain_cond_register :: "chain_mem \<Rightarrow> nat \<Rightarrow> (chain_mem \<times> unit result) option" where
  "notifier_chain_cond_register m n =
     Option.bind (cond_slot m n Head)
       (\<lambda>r. case r of None \<Rightarrow> Some (m, Inr ()) | Some nl \<Rightarrow> Some (link_at m n nl, Inr ()))"

partial_function (option) slot_of :: "chain_mem \<Rightarrow> nat \<Rightarrow> slot \<Rightarrow> slot option option" where
  "slot_of m n nl =
     (if deref m nl = None then Some None
      else if deref m nl = Some n then Some (Some nl)
      else slot_of m n (NextOf (the (deref m nl))))"

definition notifier_chain_unregister :: "chain_mem \<Rightarrow> nat \<Rightarrow> (chain_mem \<times> unit result) option" where
  "notifier_chain_unregister m n =
     Option.bind (slot_of m n Head)
       (\<lambda>r. case r of None \<Rightarrow> Some (m, Inl ENOENT) | Some nl \<Rightarrow> Some (assign m nl (nxt m n), Inr ()))"

text \<open>
  Calling a chain: \<open>call b s\<close> is what the function of block \<open>b\<close> returns and does to the state of the
  system, \<open>stop_mask\<close> the bits of a return value that stop the chain. The link of a block is read before its
  function is called; the functions do not change the chain.
\<close>

partial_function (option) call_loop ::
  "chain_mem \<Rightarrow> u32 \<Rightarrow> (nat \<Rightarrow> 's \<Rightarrow> u32 \<times> 's) \<Rightarrow> nat option \<Rightarrow> u32 \<Rightarrow> u32 \<Rightarrow> nat \<Rightarrow> 's \<Rightarrow> (u32 \<times> nat \<times> 's) option" where
  "call_loop m stop_mask call nb nr_to_call ret nr_calls s =
     (if nb \<noteq> None \<and> nr_to_call \<noteq> 0
      then if and (fst (call (the nb) s)) stop_mask = stop_mask then Some (fst (call (the nb) s), nr_calls + 1, snd (call (the nb) s))
           else call_loop m stop_mask call (nxt m (the nb)) (nr_to_call - 1) (fst (call (the nb) s)) (nr_calls + 1) (snd (call (the nb) s))
      else Some (ret, nr_calls, s))"

definition notifier_call_chain ::
  "chain_mem \<Rightarrow> u32 \<Rightarrow> u32 \<Rightarrow> (nat \<Rightarrow> 's \<Rightarrow> u32 \<times> 's) \<Rightarrow> u32 \<Rightarrow> 's \<Rightarrow> (u32 \<times> nat \<times> 's) option" where
  "notifier_call_chain m stop_mask notify_done call nr_to_call s =
     call_loop m stop_mask call (head m) nr_to_call notify_done 0 s"

declare register_slot.simps [code] cond_slot.simps [code] slot_of.simps [code] call_loop.simps [code]

section \<open>The public operations\<close>

text \<open>
  What an operation does to the locks of its chain, around its access to the chain: the lock is a spinlock,
  a reader/writer semaphore, a mutex or a (sleepable) read-copy-update section. While the system boots, the
  chains that may sleep are changed without their lock.
\<close>

datatype chain_event = Lock | Unlock | Lock_read | Unlock_read | Access | Synchronize

definition atomic_notifier_chain_register :: "chain_mem \<Rightarrow> nat \<Rightarrow> (chain_mem \<times> unit result) option \<times> chain_event list" where
  "atomic_notifier_chain_register m n = (notifier_chain_register m n, [Lock, Access, Unlock])"

definition atomic_notifier_chain_unregister :: "chain_mem \<Rightarrow> nat \<Rightarrow> (chain_mem \<times> unit result) option \<times> chain_event list" where
  "atomic_notifier_chain_unregister m n = (notifier_chain_unregister m n, [Lock, Access, Unlock, Synchronize])"

definition atomic_call_chain ::
  "chain_mem \<Rightarrow> u32 \<Rightarrow> u32 \<Rightarrow> (nat \<Rightarrow> 's \<Rightarrow> u32 \<times> 's) \<Rightarrow> u32 \<Rightarrow> 's \<Rightarrow> (u32 \<times> nat \<times> 's) option \<times> chain_event list" where
  "atomic_call_chain m stop_mask notify_done call nr_to_call s =
     (notifier_call_chain m stop_mask notify_done call nr_to_call s, [Lock_read, Access, Unlock_read])"

definition atomic_notifier_call_chain ::
  "chain_mem \<Rightarrow> u32 \<Rightarrow> u32 \<Rightarrow> (nat \<Rightarrow> 's \<Rightarrow> u32 \<times> 's) \<Rightarrow> 's \<Rightarrow> (u32 \<times> nat \<times> 's) option \<times> chain_event list" where
  "atomic_notifier_call_chain m stop_mask notify_done call s = atomic_call_chain m stop_mask notify_done call (- 1) s"

definition blocking_notifier_chain_register :: "bool \<Rightarrow> chain_mem \<Rightarrow> nat \<Rightarrow> (chain_mem \<times> unit result) option \<times> chain_event list" where
  "blocking_notifier_chain_register booting m n =
     (notifier_chain_register m n, if booting then [Access] else [Lock, Access, Unlock])"

definition blocking_notifier_chain_cond_register :: "chain_mem \<Rightarrow> nat \<Rightarrow> (chain_mem \<times> unit result) option \<times> chain_event list" where
  "blocking_notifier_chain_cond_register m n = (notifier_chain_cond_register m n, [Lock, Access, Unlock])"

definition blocking_notifier_chain_unregister :: "bool \<Rightarrow> chain_mem \<Rightarrow> nat \<Rightarrow> (chain_mem \<times> unit result) option \<times> chain_event list" where
  "blocking_notifier_chain_unregister booting m n =
     (notifier_chain_unregister m n, if booting then [Access] else [Lock, Access, Unlock])"

definition blocking_call_chain ::
  "chain_mem \<Rightarrow> u32 \<Rightarrow> u32 \<Rightarrow> (nat \<Rightarrow> 's \<Rightarrow> u32 \<times> 's) \<Rightarrow> u32 \<Rightarrow> 's \<Rightarrow> (u32 \<times> nat \<times> 's) option \<times> chain_event list" where
  "blocking_call_chain m stop_mask notify_done call nr_to_call s =
     (if head m \<noteq> None then (notifier_call_chain m stop_mask notify_done call nr_to_call s, [Lock_read, Access, Unlock_read])
      else (Some (notify_done, 0, s), []))"

definition blocking_notifier_call_chain ::
  "chain_mem \<Rightarrow> u32 \<Rightarrow> u32 \<Rightarrow> (nat \<Rightarrow> 's \<Rightarrow> u32 \<times> 's) \<Rightarrow> 's \<Rightarrow> (u32 \<times> nat \<times> 's) option \<times> chain_event list" where
  "blocking_notifier_call_chain m stop_mask notify_done call s = blocking_call_chain m stop_mask notify_done call (- 1) s"

definition srcu_notifier_chain_register :: "bool \<Rightarrow> chain_mem \<Rightarrow> nat \<Rightarrow> (chain_mem \<times> unit result) option \<times> chain_event list" where
  "srcu_notifier_chain_register booting m n =
     (notifier_chain_register m n, if booting then [Access] else [Lock, Access, Unlock])"

definition srcu_notifier_chain_unregister :: "bool \<Rightarrow> chain_mem \<Rightarrow> nat \<Rightarrow> (chain_mem \<times> unit result) option \<times> chain_event list" where
  "srcu_notifier_chain_unregister booting m n =
     (notifier_chain_unregister m n, if booting then [Access] else [Lock, Access, Unlock, Synchronize])"

definition srcu_call_chain ::
  "chain_mem \<Rightarrow> u32 \<Rightarrow> u32 \<Rightarrow> (nat \<Rightarrow> 's \<Rightarrow> u32 \<times> 's) \<Rightarrow> u32 \<Rightarrow> 's \<Rightarrow> (u32 \<times> nat \<times> 's) option \<times> chain_event list" where
  "srcu_call_chain m stop_mask notify_done call nr_to_call s =
     (notifier_call_chain m stop_mask notify_done call nr_to_call s, [Lock_read, Access, Unlock_read])"

section \<open>Chains as lists\<close>

text \<open>The blocks that the links from a pointer lead to.\<close>

abbreviation list_at :: "chain_mem \<Rightarrow> nat option \<Rightarrow> nat list \<Rightarrow> bool" where
  "list_at m \<equiv> links (nxt m)"

text \<open>A chain: its links end, and the priorities do not rise along them.\<close>

definition chain_of :: "chain_mem \<Rightarrow> nat list \<Rightarrow> bool" where
  "chain_of m bs \<longleftrightarrow> list_at m (head m) bs \<and> sorted_wrt (\<lambda>a b. priority m b \<le> priority m a) bs"

definition place :: "(nat \<Rightarrow> int) \<Rightarrow> nat \<Rightarrow> nat list \<Rightarrow> nat list" where
  "place p n bs = takeWhile (\<lambda>b. p n \<le> p b) bs @ n # dropWhile (\<lambda>b. p n \<le> p b) bs"

text \<open>The slot after the blocks \<open>us\<close>, coming from slot \<open>nl\<close>.\<close>

definition slot_after :: "slot \<Rightarrow> nat list \<Rightarrow> slot" where
  "slot_after nl us = (if us = [] then nl else NextOf (last us))"

lemma register_slot_eq:
  "list_at m (deref m nl) bs \<Longrightarrow> register_slot m n nl = Some (slot_after nl (takeWhile (\<lambda>b. priority m n \<le> priority m b) bs))"
proof (induction bs arbitrary: nl)
  case Nil
  then show ?case by (subst register_slot.simps) (simp add: slot_after_def)
next
  case (Cons b bs)
  show ?case
  proof (cases "priority m n \<le> priority m b")
    case True
    then have "register_slot m n nl = register_slot m n (NextOf b)" using Cons.prems by (subst register_slot.simps) simp
    then show ?thesis using Cons True by (simp add: slot_after_def)
  next
    case False
    then show ?thesis using Cons.prems by (subst register_slot.simps) (simp add: slot_after_def)
  qed
qed

lemma cond_slot_eq:
  assumes "list_at m (deref m nl) bs" "sorted_wrt (\<lambda>a b. priority m b \<le> priority m a) bs"
  shows "cond_slot m n nl =
    Some (if n \<in> set bs then None else Some (slot_after nl (takeWhile (\<lambda>b. priority m n \<le> priority m b) bs)))"
  using assms
proof (induction bs arbitrary: nl)
  case Nil
  then show ?case by (subst cond_slot.simps) (simp add: slot_after_def)
next
  case (Cons b bs)
  consider "b = n" | "b \<noteq> n" "priority m n \<le> priority m b" | "b \<noteq> n" "priority m b < priority m n" by force
  then show ?case
  proof cases
    case 1
    then show ?thesis using Cons.prems by (subst cond_slot.simps) simp
  next
    case 2
    then have "cond_slot m n nl = cond_slot m n (NextOf b)" using Cons.prems by (subst cond_slot.simps) simp
    then show ?thesis using Cons 2 by (simp add: slot_after_def)
  next
    case 3
    then have "n \<notin> set bs" using Cons.prems(2) by auto
    then show ?thesis using Cons.prems 3 by (subst cond_slot.simps) (simp add: slot_after_def)
  qed
qed

lemma slot_of_eq:
  "list_at m (deref m nl) bs \<Longrightarrow>
    slot_of m n nl = Some (if n \<in> set bs then Some (slot_after nl (takeWhile (\<lambda>b. b \<noteq> n) bs)) else None)"
proof (induction bs arbitrary: nl)
  case Nil
  then show ?case by (subst slot_of.simps) simp
next
  case (Cons b bs)
  show ?case
  proof (cases "b = n")
    case True
    then show ?thesis using Cons.prems by (subst slot_of.simps) (simp add: slot_after_def)
  next
    case False
    then have "slot_of m n nl = slot_of m n (NextOf b)" using Cons.prems by (subst slot_of.simps) simp
    then show ?thesis using Cons False by (simp add: slot_after_def)
  qed
qed

lemma link_priority [simp]: "priority (link_at m n nl) = priority m" "priority (assign m nl q) = priority m"
  by (cases nl; simp add: link_at_def)+

lemma link_at_list:
  assumes l: "list_at m (head m) (us @ vs)" and n: "n \<notin> set (us @ vs)"
  shows "list_at (link_at m n (slot_after Head us)) (head (link_at m n (slot_after Head us))) (us @ n # vs)"
proof (cases us rule: rev_cases)
  case Nil
  then show ?thesis using l n by (simp add: link_at_def slot_after_def)
next
  case (snoc ws w)
  then show ?thesis using links_insert_after [of "nxt m" "head m" ws w vs n] l n by (simp add: link_at_def slot_after_def)
qed

lemma unlink_list:
  assumes l: "list_at m (head m) (us @ n # vs)"
  defines "m' \<equiv> assign m (slot_after Head us) (nxt m n)"
  shows "list_at m' (head m') (us @ vs)"
proof (cases us rule: rev_cases)
  case Nil
  then show ?thesis using l by (simp add: m'_def slot_after_def)
next
  case (snoc ws w)
  then show ?thesis using links_remove_after [of "nxt m" "head m" ws w n vs] l by (simp add: m'_def slot_after_def)
qed

lemma sorted_wrt_mid:
  "sorted_wrt R (xs @ ys) \<Longrightarrow> \<forall>x\<in>set xs. R x n \<Longrightarrow> \<forall>y\<in>set ys. R n y \<Longrightarrow> sorted_wrt R (xs @ n # ys)"
  by (auto simp: sorted_wrt_append)

lemma place_sorted:
  assumes "sorted_wrt (\<lambda>a b. p b \<le> p a) bs"
  shows "sorted_wrt (\<lambda>a b. p b \<le> (p a :: int)) (place p n bs)"
proof -
  let ?t = "takeWhile (\<lambda>b. p n \<le> p b) bs" and ?d = "dropWhile (\<lambda>b. p n \<le> p b) bs"
  have s: "sorted_wrt (\<lambda>a b. p b \<le> p a) (?t @ ?d)" using assms by simp
  have t: "p n \<le> p b" if "b \<in> set ?t" for b using that by (rule set_takeWhileD [THEN conjunct2])
  have d: "p b \<le> p n" if "b \<in> set ?d" for b
  proof (cases ?d)
    case Nil
    then show ?thesis using that by (simp only: list.set empty_iff)
  next
    case (Cons c cs)
    then have "\<not> p n \<le> p c" using hd_dropWhile [of "\<lambda>b. p n \<le> p b" bs] by simp
    moreover have "b = c \<or> p b \<le> p c" using s that Cons by (auto simp: sorted_wrt_append)
    ultimately show ?thesis by auto
  qed
  show ?thesis unfolding place_def by (rule sorted_wrt_mid [OF s]) (use t d in blast)+
qed

lemma set_place [simp]: "set (place p n bs) = insert n (set bs)"
  unfolding place_def by (metis (no_types) Un_insert_right list.simps(15) set_append takeWhile_dropWhile_id)

section \<open>Correctness of the changes\<close>

text \<open>
  On a chain that is in the order of priorities, the operations return and do what they should.
  Registering a block that is not in the chain puts it before the first block of lower priority, thus behind
  those of the same priority; conditional registration does so unless the block is in the chain already;
  removing a block takes it out or reports \<^verbatim>\<open>-ENOENT\<close>. The chain stays in order.
\<close>

theorem notifier_chain_ops:
  assumes "chain_of m bs"
  shows "(n \<notin> set bs \<longrightarrow> (\<exists>m'. notifier_chain_register m n = Some (m', Inr ()) \<and> chain_of m' (place (priority m) n bs))) \<and>
    (\<exists>m'. notifier_chain_cond_register m n = Some (m', Inr ()) \<and>
      chain_of m' (if n \<in> set bs then bs else place (priority m) n bs)) \<and>
    (if n \<in> set bs then \<exists>m'. notifier_chain_unregister m n = Some (m', Inr ()) \<and> chain_of m' (remove1 n bs)
     else notifier_chain_unregister m n = Some (m, Inl ENOENT))"
proof -
  let ?p = "priority m"
  let ?us = "takeWhile (\<lambda>b. ?p n \<le> ?p b) bs" and ?vs = "dropWhile (\<lambda>b. ?p n \<le> ?p b) bs"
  have l: "list_at m (head m) bs" and s: "sorted_wrt (\<lambda>a b. ?p b \<le> ?p a) bs" using assms by (simp_all add: chain_of_def)
  have link: "chain_of (link_at m n (slot_after Head ?us)) (place ?p n bs)" if "n \<notin> set bs"
    using link_at_list [of m ?us ?vs n] l that place_sorted [OF s, of n] by (simp add: chain_of_def place_def)
  have "\<exists>m'. notifier_chain_register m n = Some (m', Inr ()) \<and> chain_of m' (place ?p n bs)" if "n \<notin> set bs"
    using that link register_slot_eq [of m Head bs n] l by (simp add: notifier_chain_register_def)
  moreover have "\<exists>m'. notifier_chain_cond_register m n = Some (m', Inr ()) \<and> chain_of m' (if n \<in> set bs then bs else place ?p n bs)"
    using link cond_slot_eq [of m Head bs n] l s assms by (simp add: notifier_chain_cond_register_def)
  moreover have "if n \<in> set bs then \<exists>m'. notifier_chain_unregister m n = Some (m', Inr ()) \<and> chain_of m' (remove1 n bs)
      else notifier_chain_unregister m n = Some (m, Inl ENOENT)"
  proof (cases "n \<in> set bs")
    case True
    then obtain us vs where bs: "bs = us @ n # vs" "n \<notin> set us" by (meson split_list_first)
    have "\<forall>x\<in>set us. x \<noteq> n" using bs(2) by auto
    then have "takeWhile (\<lambda>b. b \<noteq> n) bs = us" using bs(1) by (simp add: takeWhile_append2)
    moreover have "chain_of (assign m (slot_after Head us) (nxt m n)) (us @ vs)"
      using unlink_list [of m us n vs] l s bs by (simp add: chain_of_def sorted_wrt_append)
    moreover have "remove1 n bs = us @ vs" using bs by (simp add: remove1_append)
    ultimately show ?thesis using True slot_of_eq [of m Head bs n] l by (simp add: notifier_chain_unregister_def)
  next
    case False
    then show ?thesis using slot_of_eq [of m Head bs n] l by (simp add: notifier_chain_unregister_def)
  qed
  ultimately show ?thesis by blast
qed

definition demo_chain :: chain_mem where
  "demo_chain = \<lparr>head = Some 1, nxt = (\<lambda>b. if b = 1 then Some 2 else None), priority = (\<lambda>b. if b = 1 then 10 else 0)\<rparr>"

theorem notifier_chain_ops_witness:
  "chain_of demo_chain [1, 2] \<and>
   (\<exists>m'. notifier_chain_register demo_chain 3 = Some (m', Inr ()) \<and> chain_of m' [1, 2, 3]) \<and>
   (\<exists>m'. notifier_chain_unregister demo_chain 1 = Some (m', Inr ()) \<and> chain_of m' [2])"
proof -
  have c: "chain_of demo_chain [1, 2]" by (simp add: chain_of_def demo_chain_def)
  have p: "place (priority demo_chain) 3 [1, 2] = [1, 2, 3]" by (simp add: place_def demo_chain_def)
  show ?thesis using notifier_chain_ops [OF c, of 3] notifier_chain_ops [OF c, of 1] c p by simp
qed

text \<open>
  Registering a block that is the only one of its chain once more links it to itself: the callers must not
  register twice.
\<close>

lemma register_twice:
  assumes "chain_of m [n]"
  shows "\<exists>m'. notifier_chain_register m n = Some (m', Inr ()) \<and> nxt m' n = Some n"
  using assms register_slot_eq [of m Head "[n]" n]
  by (simp add: chain_of_def notifier_chain_register_def slot_after_def link_at_def)

section \<open>Calling a chain\<close>

text \<open>
  What the functions of a list of blocks return, and the states they leave, if all are called in turn; and the
  part of that up to the first value that stops the chain.
\<close>

primrec outcomes :: "(nat \<Rightarrow> 's \<Rightarrow> u32 \<times> 's) \<Rightarrow> nat list \<Rightarrow> 's \<Rightarrow> (u32 \<times> 's) list" where
  "outcomes call [] s = []"
| "outcomes call (b # bs) s = call b s # outcomes call bs (snd (call b s))"

fun up_to_stop :: "u32 \<Rightarrow> (u32 \<times> 's) list \<Rightarrow> (u32 \<times> 's) list" where
  "up_to_stop stop_mask [] = []"
| "up_to_stop stop_mask (r # rs) = (if and (fst r) stop_mask = stop_mask then [r] else r # up_to_stop stop_mask rs)"

lemma call_loop_eq:
  "list_at m nb bs \<Longrightarrow> call_loop m stop_mask call nb nr ret c s =
    (let rs = up_to_stop stop_mask (outcomes call (take (unat nr) bs) s)
     in Some (fst (last ((ret, s) # rs)), c + length rs, snd (last ((ret, s) # rs))))"
proof (induction bs arbitrary: nb nr ret c s)
  case Nil
  then show ?case by (subst call_loop.simps) simp
next
  case (Cons b bs)
  show ?case
  proof (cases "nr = 0")
    case True
    then show ?thesis using Cons.prems by (subst call_loop.simps) simp
  next
    case False
    then have k: "unat nr = Suc (unat (nr - 1))" by (simp add: unat_minus_one unat_gt_0)
    show ?thesis using Cons False by (subst call_loop.simps) (simp add: k Let_def)
  qed
qed

text \<open>
  C31. Calling a chain ends. It calls the blocks in the order of the chain, which is that of their priorities,
  up to the number asked for, and not beyond a block whose return value has all bits of the stop mask. The
  value returned is that of the last function called (\<^verbatim>\<open>NOTIFY_DONE\<close> if there was none), and the count is
  the number of functions called.
\<close>

theorem notifier_call_chain_correct:
  assumes "chain_of m bs"
  shows "notifier_call_chain m stop_mask notify_done call nr s =
    (let rs = up_to_stop stop_mask (outcomes call (take (unat nr) bs) s)
     in Some (if rs = [] then notify_done else fst (last rs), length rs, if rs = [] then s else snd (last rs)))"
proof -
  have "list_at m (head m) bs" using assms by (simp add: chain_of_def)
  then show ?thesis using call_loop_eq [of m "head m" bs stop_mask call nr notify_done 0 s]
    by (simp add: notifier_call_chain_def Let_def split: if_splits)
qed

theorem notifier_call_chain_correct_witness:
  "chain_of demo_chain [1, 2] \<and>
   notifier_call_chain demo_chain 32768 0 (\<lambda>b t. (if b = 1 then 32770 else 1, t @ [b])) (- 1) [] = Some (32770, 1, [1]) \<and>
   notifier_call_chain demo_chain 32768 0 (\<lambda>b t. (of_nat b, t @ [b])) (- 1) [] = Some (2, 2, [1, 2])"
proof -
  have c: "chain_of demo_chain [1, 2]" by (simp add: chain_of_def demo_chain_def)
  have n: "unat (- 1 :: u32) = 4294967295" by (simp add: unsigned_minus_1_eq_mask mask_eq_exp_minus_1)
  show ?thesis
    using notifier_call_chain_correct [OF c, of 32768 0 "\<lambda>b t. (if b = 1 then 32770 else 1, t @ [b])" "- 1" "[]"]
      notifier_call_chain_correct [OF c, of 32768 0 "\<lambda>b t. (of_nat b, t @ [b])" "- 1" "[]"] c
    by (simp add: n)
qed

end
