(* ===== verification/Timer_Wheel.thy ===== *)
theory Timer_Wheel
  imports Kernel_Prelude
begin

text \<open>
  The timer wheel (\<^verbatim>\<open>timer.c\<close>): pending timers hang in the lists of five vectors of slots, the first with
  one slot for each of the next 256 ticks, the others with 64 slots of growing width; at every tick the timers
  of one slot run, and when a vector has gone round, a slot of the next one is spread over the vectors below
  (\<^verbatim>\<open>cascade\<close>). The model has the wheel of one CPU and its timers; the migration of timers between CPUs is
  left out. What runs under the lock of the wheel is one operation, so that the operations below can come in
  any order between the callbacks, as they do when a callback or another CPU calls them.
\<close>

section \<open>Model\<close>

text \<open>The order of times, which wrap around.\<close>

definition time_before :: "u64 \<Rightarrow> u64 \<Rightarrow> bool" where
  "time_before a b \<longleftrightarrow> sint (a - b) < 0"

definition time_after_eq :: "u64 \<Rightarrow> u64 \<Rightarrow> bool" where
  "time_after_eq a b \<longleftrightarrow> sint (a - b) \<ge> 0"

text \<open>A list that timers are linked into: a slot of a vector, or the list of the timers about to run.\<close>

datatype place = Slot nat nat | Work

record wheel =
  jiffies :: u64
  timer_jiffies :: u64
  next_timer :: u64
  active_timers :: u64
  running_timer :: "nat option"
  lists :: "place \<Rightarrow> nat list"
  expires :: "nat \<Rightarrow> u64"
  slack :: "nat \<Rightarrow> int"
  deferrable :: "nat \<Rightarrow> bool"
  pending :: "nat \<Rightarrow> bool"

definition slot_for :: "u64 \<Rightarrow> u64 \<Rightarrow> place" where
  "slot_for tj e =
     (let idx = e - tj
      in if idx < 2 ^ 8 then Slot 1 (unat (and e 255))
         else if idx < 2 ^ 14 then Slot 2 (unat (and (drop_bit 8 e) 63))
         else if idx < 2 ^ 20 then Slot 3 (unat (and (drop_bit 14 e) 63))
         else if idx < 2 ^ 26 then Slot 4 (unat (and (drop_bit 20 e) 63))
         else if sint idx < 0 then Slot 1 (unat (and tj 255))
         else let e' = (if idx > 2 ^ 32 - 1 then 2 ^ 32 - 1 + tj else e)
              in Slot 5 (unat (and (drop_bit 26 e') 63)))"

definition raw_internal_add_timer :: "nat \<Rightarrow> wheel \<Rightarrow> wheel" where
  "raw_internal_add_timer t w =
     (let p = slot_for (timer_jiffies w) (expires w t)
      in w\<lparr>lists := (lists w)(p := lists w p @ [t]), pending := (pending w)(t := True)\<rparr>)"

definition internal_add_timer :: "wheel \<Rightarrow> nat \<Rightarrow> wheel" where
  "internal_add_timer w t =
     (let w1 = raw_internal_add_timer t w
      in if \<not> deferrable w1 t
         then w1\<lparr>next_timer := (if time_before (expires w1 t) (next_timer w1) then expires w1 t else next_timer w1),
                active_timers := active_timers w1 + 1\<rparr>
         else w1)"

definition detach_timer :: "wheel \<Rightarrow> nat \<Rightarrow> bool \<Rightarrow> wheel" where
  "detach_timer w t clear_pending =
     w\<lparr>lists := (\<lambda>p. remove1 t (lists w p)),
       pending := (if clear_pending then (pending w)(t := False) else pending w)\<rparr>"

definition detach_expired_timer :: "wheel \<Rightarrow> nat \<Rightarrow> wheel" where
  "detach_expired_timer w t =
     (let w1 = detach_timer w t True
      in if \<not> deferrable w1 t then w1\<lparr>active_timers := active_timers w1 - 1\<rparr> else w1)"

definition detach_if_pending :: "wheel \<Rightarrow> nat \<Rightarrow> bool \<Rightarrow> wheel \<times> bool" where
  "detach_if_pending w t clear_pending =
     (if \<not> pending w t then (w, False)
      else let w1 = detach_timer w t clear_pending
           in (if \<not> deferrable w1 t
               then w1\<lparr>active_timers := active_timers w1 - 1,
                      next_timer := (if expires w1 t = next_timer w1 then timer_jiffies w1 else next_timer w1)\<rparr>
               else w1, True))"

text \<open>The wheel of the timer stays the same.\<close>

definition do_mod_timer :: "wheel \<Rightarrow> nat \<Rightarrow> u64 \<Rightarrow> bool \<Rightarrow> wheel \<times> bool" where
  "do_mod_timer w t e pending_only =
     (let (w1, ret) = detach_if_pending w t False
      in if \<not> ret \<and> pending_only then (w1, ret)
         else (internal_add_timer (w1\<lparr>expires := (expires w1)(t := e)\<rparr>) t, ret))"

definition mod_timer_pending :: "wheel \<Rightarrow> nat \<Rightarrow> u64 \<Rightarrow> wheel \<times> bool" where
  "mod_timer_pending w t e = do_mod_timer w t e True"

definition set_timer_slack :: "wheel \<Rightarrow> nat \<Rightarrow> int \<Rightarrow> wheel" where
  "set_timer_slack w t slack_hz = w\<lparr>slack := (slack w)(t := slack_hz)\<rparr>"

text \<open>The number of the highest bit that is set.\<close>

fun highest_bit :: "nat \<Rightarrow> nat" where
  "highest_bit n = (if n < 2 then 0 else Suc (highest_bit (n div 2)))"

declare highest_bit.simps [simp del]

text \<open>
  The mask is computed with \<^verbatim>\<open>1 << bit\<close> on the 32-bit type \<^verbatim>\<open>int\<close>, which has no defined value when the bit
  is the sign bit or beyond: then the function has no result here.
\<close>

definition round_limit :: "u64 \<Rightarrow> u64 \<Rightarrow> u64 option" where
  "round_limit e limit =
     (let m = xor e limit
      in if m = 0 then Some e
         else let bt = highest_bit (unat m)
              in if bt \<ge> 31 then None else Some (and limit (not (2 ^ bt - 1))))"

definition apply_slack :: "wheel \<Rightarrow> nat \<Rightarrow> u64 \<Rightarrow> u64 option" where
  "apply_slack w t e =
     (if slack w t \<ge> 0 then round_limit e (e + of_int (slack w t))
      else let delta = sint (e - jiffies w)
           in if delta < 256 then Some e else round_limit e (e + of_int (delta div 256)))"

definition mod_timer :: "wheel \<Rightarrow> nat \<Rightarrow> u64 \<Rightarrow> (wheel \<times> bool) option" where
  "mod_timer w t e0 =
     Option.bind (apply_slack w t e0)
       (\<lambda>e. if pending w t \<and> expires w t = e then Some (w, True) else Some (do_mod_timer w t e False))"

definition mod_timer_pinned :: "wheel \<Rightarrow> nat \<Rightarrow> u64 \<Rightarrow> wheel \<times> bool" where
  "mod_timer_pinned w t e = (if expires w t = e \<and> pending w t then (w, True) else do_mod_timer w t e False)"

text \<open>No result: the failed \<^verbatim>\<open>BUG_ON\<close>.\<close>

definition add_timer :: "wheel \<Rightarrow> nat \<Rightarrow> (wheel \<times> bool) option" where
  "add_timer w t = (if pending w t then None else mod_timer w t (expires w t))"

definition add_timer_on :: "wheel \<Rightarrow> nat \<Rightarrow> wheel option" where
  "add_timer_on w t = (if pending w t then None else Some (internal_add_timer w t))"

definition del_timer :: "wheel \<Rightarrow> nat \<Rightarrow> wheel \<times> bool" where
  "del_timer w t = (if pending w t then detach_if_pending w t True else (w, False))"

text \<open>No value is the result -1: the callback of the timer is running.\<close>

definition try_to_del_timer_sync :: "wheel \<Rightarrow> nat \<Rightarrow> wheel \<times> bool option" where
  "try_to_del_timer_sync w t =
     (if running_timer w \<noteq> Some t then (let (w1, ret) = detach_if_pending w t True in (w1, Some ret)) else (w, None))"

definition cascade :: "nat \<Rightarrow> nat \<Rightarrow> wheel \<Rightarrow> wheel" where
  "cascade l index w = fold raw_internal_add_timer (lists w (Slot l index)) (w\<lparr>lists := (lists w)(Slot l index := [])\<rparr>)"

definition INDEX :: "wheel \<Rightarrow> nat \<Rightarrow> nat" where
  "INDEX w n = unat (and (drop_bit (8 + n * 6) (timer_jiffies w)) 63)"

definition cascades :: "wheel \<Rightarrow> wheel" where
  "cascades w =
     (if unat (and (timer_jiffies w) 255) = 0
      then let w2 = cascade 2 (INDEX w 0) w
           in if INDEX w 0 = 0
              then let w3 = cascade 3 (INDEX w 1) w2
                   in if INDEX w 1 = 0
                      then let w4 = cascade 4 (INDEX w 2) w3
                           in if INDEX w 2 = 0 then cascade 5 (INDEX w 3) w4 else w4
                      else w3
              else w2
      else w)"

text \<open>The start of a round of \<^verbatim>\<open>__run_timers\<close>: the timers of the current tick are put on the list to run.\<close>

definition start_round :: "wheel \<Rightarrow> wheel" where
  "start_round w =
     (let index = unat (and (timer_jiffies w) 255); w1 = cascades w
      in w1\<lparr>timer_jiffies := timer_jiffies w1 + 1,
           lists := (lists w1)(Work := lists w1 (Slot 1 index), Slot 1 index := [])\<rparr>)"

text \<open>The first timer on that list is taken off and its function called.\<close>

definition run_first :: "wheel \<Rightarrow> nat \<Rightarrow> wheel" where
  "run_first w t = detach_expired_timer (w\<lparr>running_timer := Some t\<rparr>) t"

text \<open>One turn of the loops of \<^verbatim>\<open>__run_timers\<close>, up to the call of a function.\<close>

definition run_timers_turn :: "wheel \<Rightarrow> wheel" where
  "run_timers_turn w =
     (case lists w Work of
        t # ts \<Rightarrow> run_first w t
      | [] \<Rightarrow> if time_after_eq (jiffies w) (timer_jiffies w) then start_round w else w\<lparr>running_timer := None\<rparr>)"

text \<open>An initialised wheel; timers are initialised with the slack -1.\<close>

definition init_timers :: "u64 \<Rightarrow> (nat \<Rightarrow> bool) \<Rightarrow> wheel" where
  "init_timers j defer =
     \<lparr>jiffies = j, timer_jiffies = j, next_timer = j, active_timers = 0, running_timer = None, lists = (\<lambda>_. []),
       expires = (\<lambda>_. 0), slack = (\<lambda>_. - 1), deferrable = defer, pending = (\<lambda>_. False)\<rparr>"

text \<open>
  Rounding a time to a whole second of \<open>hz\<close> ticks, with a skew for every CPU; \<open>now\<close> is the current time.
\<close>

definition round_jiffies_common :: "nat \<Rightarrow> u64 \<Rightarrow> u64 \<Rightarrow> nat \<Rightarrow> bool \<Rightarrow> u64" where
  "round_jiffies_common hz now j0 cpu force_up =
     (let j1 = j0 + of_nat (cpu * 3); r = unat j1 mod hz;
          j2 = (if r < hz div 4 \<and> \<not> force_up then j1 - of_nat r else j1 - of_nat r + of_nat hz);
          j3 = j2 - of_nat (cpu * 3)
      in if time_before now j3 then j3 else j0)"

definition round_jiffies_on :: "nat \<Rightarrow> u64 \<Rightarrow> u64 \<Rightarrow> nat \<Rightarrow> u64" where
  "round_jiffies_on hz now j cpu = round_jiffies_common hz now j cpu False"

definition round_jiffies_relative_on :: "nat \<Rightarrow> u64 \<Rightarrow> u64 \<Rightarrow> nat \<Rightarrow> u64" where
  "round_jiffies_relative_on hz now j cpu = round_jiffies_common hz now (j + now) cpu False - now"

definition round_jiffies_up_on :: "nat \<Rightarrow> u64 \<Rightarrow> u64 \<Rightarrow> nat \<Rightarrow> u64" where
  "round_jiffies_up_on hz now j cpu = round_jiffies_common hz now j cpu True"

definition round_jiffies_up_relative_on :: "nat \<Rightarrow> u64 \<Rightarrow> u64 \<Rightarrow> nat \<Rightarrow> u64" where
  "round_jiffies_up_relative_on hz now j cpu = round_jiffies_common hz now (j + now) cpu True - now"

section \<open>Slots\<close>

lemma unat_and_255: "unat (and (e :: u64) 255) = unat e mod 256"
proof -
  have "and e 255 = take_bit 8 e" by (simp add: take_bit_eq_mask mask_eq_exp_minus_1)
  moreover have "unat (take_bit 8 e) = take_bit 8 (unat e)" by (rule unsigned_take_bit_eq)
  ultimately show ?thesis by (simp only: take_bit_eq_mod) simp
qed

lemma unat_drop_bit_u64: "unat (drop_bit k e) = unat (e :: u64) div 2 ^ k"
  using unsigned_drop_bit_eq [of k e, where 'a = nat] take_bit_nat_eq_self [OF unat_u64_lt [of e]]
  by (simp only: drop_bit_eq_div) simp

lemma unat_and_63: "unat (and (drop_bit k e) 63) = unat (e :: u64) div 2 ^ k mod 64"
proof -
  have "and (drop_bit k e) 63 = take_bit 6 (drop_bit k e)" by (simp add: take_bit_eq_mask mask_eq_exp_minus_1)
  moreover have "unat (take_bit 6 (drop_bit k e)) = take_bit 6 (unat (drop_bit k e))" by (rule unsigned_take_bit_eq)
  moreover note unat_drop_bit_u64
  ultimately show ?thesis by (simp only: take_bit_eq_mod) simp
qed

lemma unat_power_u64: "k < 64 \<Longrightarrow> unat (2 ^ k :: u64) = 2 ^ k"
proof -
  assume "k < 64"
  then have "(2 :: nat) ^ k < 2 ^ 64" by (rule power_strict_increasing) simp
  then have "unat (of_nat (2 ^ k) :: u64) = 2 ^ k" by (simp only: unat_of_nat take_bit_nat_eq_self) (simp add: take_bit_nat_eq_self)
  then show ?thesis by simp
qed

definition dist :: "u64 \<Rightarrow> u64 \<Rightarrow> nat" where
  "dist tj e = unat (e - tj)"

lemma dist_mod: "m dvd 2 ^ 64 \<Longrightarrow> (unat tj + dist tj e) mod m = unat e mod m"
proof -
  assume m: "m dvd 2 ^ 64"
  have "unat e = unat (tj + (e - tj))" by simp
  also have "\<dots> = (unat tj + dist tj e) mod 2 ^ 64" by (simp only: unat_word_ariths dist_def) simp
  finally show ?thesis using m by (simp add: mod_mod_cancel)
qed

lemma mod_drop: "(a + r) mod m = b + r \<Longrightarrow> b < m \<Longrightarrow> a mod m = b" for a b m r :: nat
proof -
  assume eq: "(a + r) mod m = b + r" and b: "b < m"
  have "a + r = m * ((a + r) div m) + (b + r)" using eq mult_div_mod_eq [of m "a + r"] by simp
  then have "a = m * ((a + r) div m) + b" by linarith
  then show ?thesis using b by (metis mod_less mod_mult_self4)
qed

text \<open>Where the timers of a slot of width \<open>2^k\<close> are spread, before they are due.\<close>

lemma slot_reached:
  assumes "2 ^ k \<le> dist tj e" "k + 6 \<le> 64"
  shows "\<exists>c. 1 \<le> c \<and> c \<le> dist tj e \<and> (unat tj + c) mod 2 ^ (k + 6) = 2 ^ k * (unat e div 2 ^ k mod 64)"
proof -
  let ?r = "unat e mod 2 ^ k"
  have r: "?r < 2 ^ k" by simp
  let ?c = "dist tj e - ?r"
  have c: "1 \<le> ?c" "?c \<le> dist tj e" using assms(1) r by linarith+
  have dvd: "2 ^ (k + 6) dvd (2 :: nat) ^ 64" using assms(2) by (intro le_imp_power_dvd) simp
  have "unat tj + ?c + ?r = unat tj + dist tj e" using assms(1) r by linarith
  then have "(unat tj + ?c + ?r) mod 2 ^ (k + 6) = unat e mod 2 ^ (k + 6)" using dist_mod [OF dvd, of tj e] by simp
  moreover have e: "unat e mod 2 ^ (k + 6) = 2 ^ k * (unat e div 2 ^ k mod 64) + ?r"
    by (simp add: power_add mod_mult2_eq)
  ultimately have eq: "(unat tj + ?c + ?r) mod 2 ^ (k + 6) = 2 ^ k * (unat e div 2 ^ k mod 64) + ?r" by simp
  have b: "2 ^ k * (unat e div 2 ^ k mod 64) < 2 ^ (k + 6)" by (simp add: power_add)
  have "(unat tj + ?c) mod 2 ^ (k + 6) = 2 ^ k * (unat e div 2 ^ k mod 64)"
    by (rule mod_drop [OF eq b])
  then show ?thesis using c by blast
qed

text \<open>
  A timer is in the right slot: in the first vector in the slot of its tick, or in the current one if it is
  overdue; in another vector in a slot that is spread, after \<open>c\<close> ticks, at the time of the timer or before.
  \<open>least\<close> is a lower bound for \<open>c\<close>.
\<close>

definition width :: "nat \<Rightarrow> nat" where
  "width l = 8 + 6 * (l - 2)"

definition placed :: "nat \<Rightarrow> u64 \<Rightarrow> u64 \<Rightarrow> place \<Rightarrow> bool" where
  "placed least tj e p =
     (case p of
        Work \<Rightarrow> sint (e - (tj - 1)) \<le> 0
      | Slot l i \<Rightarrow>
          if l = 1 then \<exists>d<256. i = (unat tj + d) mod 256 \<and> (dist tj e = d \<or> sint (e - tj) < 0 \<and> d = 0)
          else 2 \<le> l \<and> l \<le> 5 \<and> dist tj e < 2 ^ 63 \<and>
            (\<exists>c\<ge>least. c \<le> dist tj e \<and> (unat tj + c) mod 2 ^ (width l + 6) = 2 ^ width l * i))"

lemma placed_mono: "placed 1 tj e p \<Longrightarrow> placed 0 tj e p"
  by (auto simp: placed_def split: place.splits if_splits)

lemma sint_u64: "sint (x :: u64) = (if unat x < 2 ^ 63 then int (unat x) else int (unat x) - 2 ^ 64)"
  using sint_cases [of x] by simp

lemma sint_neg_iff: "sint (x :: u64) < 0 \<longleftrightarrow> \<not> unat x < 2 ^ 63"
proof -
  have "int (unat x) < 2 ^ 64" using unat_u64_lt [of x] by (metis of_nat_less_iff of_nat_numeral of_nat_power)
  then show ?thesis by (simp only: sint_u64) auto
qed

lemma placed_high:
  assumes "2 \<le> l" "l \<le> 5" "dist tj e < 2 ^ 63" "dist tj e' \<le> dist tj e" "2 ^ width l \<le> dist tj e'"
  shows "placed 1 tj e (Slot l (unat (and (drop_bit (width l) e') 63)))"
proof -
  have "width l + 6 \<le> 64" using assms(2) by (simp add: width_def)
  then obtain c where "1 \<le> c" "c \<le> dist tj e'" "(unat tj + c) mod 2 ^ (width l + 6) = 2 ^ width l * (unat e' div 2 ^ width l mod 64)"
    using slot_reached [OF assms(5)] by blast
  then show ?thesis using assms(1-4) by (auto simp: placed_def unat_and_63)
qed

lemma slot_for_placed: "placed 1 tj e (slot_for tj e)"
proof -
  let ?d = "dist tj e"
  have lt: "e - tj < 2 ^ k \<longleftrightarrow> ?d < 2 ^ k" if "k < 64" for k
    using unat_power_u64 [OF that] by (simp only: dist_def word_less_nat_alt)
  have w: "width 2 = 8" "width 3 = 14" "width 4 = 20" "width 5 = 26" by (simp_all add: width_def)
  have ng: "sint (e - tj) < 0 \<longleftrightarrow> \<not> ?d < 2 ^ 63" by (simp add: sint_neg_iff dist_def)
  consider (1) "?d < 2 ^ 8" | (2) "2 ^ 8 \<le> ?d" "?d < 2 ^ 14" | (3) "2 ^ 14 \<le> ?d" "?d < 2 ^ 20"
    | (4) "2 ^ 20 \<le> ?d" "?d < 2 ^ 26" | (old) "\<not> ?d < 2 ^ 63"
    | (5) "2 ^ 26 \<le> ?d" "?d \<le> 2 ^ 32 - 1" | (far) "2 ^ 32 - 1 < ?d" "?d < 2 ^ 63" by force
  then show ?thesis
  proof cases
    case 1
    moreover have "unat e mod 256 = (unat tj + ?d) mod 256" using dist_mod [of 256 tj e] by simp
    ultimately show ?thesis using lt [of 8] by (auto simp: slot_for_def placed_def Let_def unat_and_255)
  next
    case 2
    then have "slot_for tj e = Slot 2 (unat (and (drop_bit 8 e) 63))" using lt [of 8] lt [of 14] by (simp add: slot_for_def Let_def)
    then show ?thesis using 2 placed_high [of 2 tj e e] by (simp add: w)
  next
    case 3
    then have "slot_for tj e = Slot 3 (unat (and (drop_bit 14 e) 63))"
      using lt [of 8] lt [of 14] lt [of 20] by (simp add: slot_for_def Let_def)
    then show ?thesis using 3 placed_high [of 3 tj e e] by (simp add: w)
  next
    case 4
    then have "slot_for tj e = Slot 4 (unat (and (drop_bit 20 e) 63))"
      using lt [of 8] lt [of 14] lt [of 20] lt [of 26] by (simp add: slot_for_def Let_def)
    then show ?thesis using 4 placed_high [of 4 tj e e] by (simp add: w)
  next
    case old
    then have "slot_for tj e = Slot 1 (unat (and tj 255))"
      using ng lt [of 8] lt [of 14] lt [of 20] lt [of 26] by (simp add: slot_for_def Let_def)
    then show ?thesis using old ng by (auto simp: placed_def unat_and_255 intro!: exI [of _ 0])
  next
    case 5
    then have "\<not> e - tj > 2 ^ 32 - 1" by (simp add: dist_def word_less_nat_alt)
    then have "slot_for tj e = Slot 5 (unat (and (drop_bit 26 e) 63))"
      using 5 ng lt [of 8] lt [of 14] lt [of 20] lt [of 26] by (simp add: slot_for_def Let_def)
    then show ?thesis using 5 placed_high [of 5 tj e e] by (simp add: w)
  next
    case far
    let ?e = "2 ^ 32 - 1 + tj"
    have d: "dist tj ?e = 2 ^ 32 - 1" by (simp add: dist_def)
    have "e - tj > 2 ^ 32 - 1" using far by (simp add: dist_def word_less_nat_alt)
    then have "slot_for tj e = Slot 5 (unat (and (drop_bit 26 ?e) 63))"
      using far ng lt [of 8] lt [of 14] lt [of 20] lt [of 26] by (simp add: slot_for_def Let_def)
    then show ?thesis using far d placed_high [of 5 tj e ?e] by (simp add: w)
  qed
qed

section \<open>A round\<close>

lemma unat_succ_mod: "m dvd 2 ^ 64 \<Longrightarrow> (unat (tj + 1 :: u64) + k) mod m = (unat tj + Suc k) mod m"
proof -
  assume m: "m dvd 2 ^ 64"
  have "unat (tj + 1) = (unat tj + 1) mod 2 ^ 64" by (simp only: unat_word_ariths) simp
  then have "(unat (tj + 1) + k) mod m = ((unat tj + 1) mod 2 ^ 64 mod m + k) mod m" by (simp add: mod_simps)
  also have "\<dots> = (unat tj + Suc k) mod m" using m by (simp add: mod_mod_cancel mod_simps)
  finally show ?thesis .
qed

lemma dist_succ: "1 \<le> dist tj e \<Longrightarrow> dist (tj + 1) e = dist tj e - 1"
proof -
  assume "1 \<le> dist tj e"
  then have "e - tj \<noteq> 0" by (auto simp: dist_def)
  then have "unat (e - tj - 1) = unat (e - tj) - 1" by (rule unat_minus_one)
  then show ?thesis by (simp add: dist_def algebra_simps)
qed

lemma placed_next:
  assumes p: "placed 1 tj e (Slot l i)" and other: "\<not> (l = 1 \<and> i = unat tj mod 256)"
  shows "placed 0 (tj + 1) e (Slot l i)"
proof (cases "l = 1")
  case True
  then obtain d where d: "d < 256" "i = (unat tj + d) mod 256" "dist tj e = d \<or> sint (e - tj) < 0 \<and> d = 0"
    using p by (auto simp: placed_def)
  then have "d \<noteq> 0" using other True by (cases d) auto
  then have "dist (tj + 1) e = d - 1" "i = (unat (tj + 1) + (d - 1)) mod 256"
    using d dist_succ [of tj e] unat_succ_mod [of 256 tj "d - 1"] by auto
  then show ?thesis using d(1) True by (auto simp: placed_def intro!: exI [of _ "d - 1"])
next
  case False
  then obtain c where c: "2 \<le> l" "l \<le> 5" "dist tj e < 2 ^ 63" "1 \<le> c" "c \<le> dist tj e"
      "(unat tj + c) mod 2 ^ (width l + 6) = 2 ^ width l * i" using p by (auto simp: placed_def)
  have "width l + 6 \<le> 64" using c(2) by (simp add: width_def)
  then have "2 ^ (width l + 6) dvd (2 :: nat) ^ 64" by (rule le_imp_power_dvd)
  then have "(unat (tj + 1) + (c - 1)) mod 2 ^ (width l + 6) = 2 ^ width l * i"
    using unat_succ_mod [of "2 ^ (width l + 6)" tj "c - 1"] c(4,6) by simp
  moreover have "dist (tj + 1) e = dist tj e - 1" using c(4,5) by (intro dist_succ) simp
  ultimately show ?thesis using c False by (auto simp: placed_def intro!: exI [of _ "c - 1"])
qed

text \<open>Exactly the timers of the current slot of the first vector are due.\<close>

lemma due_iff:
  assumes "placed 1 tj e (Slot l i)"
  shows "sint (e - tj) \<le> 0 \<longleftrightarrow> l = 1 \<and> i = unat tj mod 256"
proof -
  have pos: "0 < sint (e - tj)" if "1 \<le> dist tj e" "dist tj e < 2 ^ 63"
  proof -
    have "0 < int (unat (e - tj))" "unat (e - tj) < 2 ^ 63" using that by (simp_all add: dist_def del: of_nat_unat)
    then show ?thesis by (simp only: sint_u64) simp
  qed
  have zero: "sint (e - tj) = 0" if "dist tj e = 0" using that by (simp add: dist_def unat_eq_0)
  show ?thesis
  proof (cases "l = 1")
    case True
    then obtain d where d: "d < 256" "i = (unat tj + d) mod 256" "dist tj e = d \<or> sint (e - tj) < 0 \<and> d = 0"
      using assms by (auto simp: placed_def)
    show ?thesis
    proof (cases "d = 0")
      case True
      then show ?thesis using d zero \<open>l = 1\<close> by auto
    next
      case False
      then have "i \<noteq> unat tj mod 256" using d(1,2) by (metis add_diff_cancel_left' le_add1 mod_eq_dvd_iff_nat nat_dvd_not_less neq0_conv)
      then show ?thesis using False d pos by auto
    qed
  next
    case False
    then show ?thesis using assms pos by (force simp: placed_def)
  qed
qed

text \<open>The slots that are spread in this round are those whose timers may be due before the next.\<close>

definition stale :: "u64 \<Rightarrow> nat \<Rightarrow> nat \<Rightarrow> bool" where
  "stale tj l i \<longleftrightarrow> unat tj mod 2 ^ (width l + 6) = 2 ^ width l * i"

lemma placed_not_stale: "placed 0 tj e (Slot l i) \<Longrightarrow> \<not> stale tj l i \<Longrightarrow> placed 1 tj e (Slot l i)"
proof (cases "l = 1")
  case False
  assume p: "placed 0 tj e (Slot l i)" and s: "\<not> stale tj l i"
  then obtain c where c: "2 \<le> l" "l \<le> 5" "dist tj e < 2 ^ 63" "c \<le> dist tj e"
      "(unat tj + c) mod 2 ^ (width l + 6) = 2 ^ width l * i" using False by (auto simp: placed_def)
  have "c \<noteq> 0" using s c(5) by (cases c) (auto simp: stale_def)
  then have "1 \<le> c" by simp
  then show ?thesis using c False unfolding placed_def by auto
qed (simp add: placed_def)

lemma INDEX_eq: "INDEX w n = unat (timer_jiffies w) div 2 ^ (8 + n * 6) mod 64"
  by (simp only: INDEX_def unat_and_63)

lemma stale_index:
  assumes "stale (timer_jiffies w) l i"
  shows "INDEX w (l - 2) = i" and "unat (timer_jiffies w) mod 2 ^ width l = 0"
proof -
  let ?j = "unat (timer_jiffies w)"
  have m: "?j mod 2 ^ (width l + 6) = 2 ^ width l * (?j div 2 ^ width l mod 64) + ?j mod 2 ^ width l"
    by (simp add: power_add mod_mult2_eq)
  have "?j mod 2 ^ width l = (?j mod 2 ^ (width l + 6)) mod 2 ^ width l"
    by (rule mod_mod_cancel [symmetric]) (simp add: power_add)
  then show z: "?j mod 2 ^ width l = 0" using assms by (simp add: stale_def)
  then have "2 ^ width l * (?j div 2 ^ width l mod 64) = 2 ^ width l * i" using m assms by (simp add: stale_def)
  then show "INDEX w (l - 2) = i" by (simp add: INDEX_eq width_def mult.commute)
qed

text \<open>What spreading a slot leaves in the lists.\<close>

lemma fold_add_lists:
  "lists (fold raw_internal_add_timer ts w) q = lists w q @ filter (\<lambda>t. slot_for (timer_jiffies w) (expires w t) = q) ts \<and>
   timer_jiffies (fold raw_internal_add_timer ts w) = timer_jiffies w \<and> expires (fold raw_internal_add_timer ts w) = expires w"
  by (induction ts arbitrary: w) (auto simp: raw_internal_add_timer_def Let_def)

lemma fold_add_fields:
  "pending (fold raw_internal_add_timer ts w) = (\<lambda>t. t \<in> set ts \<or> pending w t) \<and>
   deferrable (fold raw_internal_add_timer ts w) = deferrable w \<and> active_timers (fold raw_internal_add_timer ts w) = active_timers w"
  by (induction ts arbitrary: w) (auto simp: raw_internal_add_timer_def Let_def fun_eq_iff)

lemma cascade_lists:
  "lists (cascade l k w) q = (if q = Slot l k then [] else lists w q) @
     filter (\<lambda>t. slot_for (timer_jiffies w) (expires w t) = q) (lists w (Slot l k))"
  using fold_add_lists [of "lists w (Slot l k)" "w\<lparr>lists := (lists w)(Slot l k := [])\<rparr>" q] by (simp add: cascade_def)

lemma cascade_same [simp]:
  "timer_jiffies (cascade l k w) = timer_jiffies w" "expires (cascade l k w) = expires w"
  "deferrable (cascade l k w) = deferrable w" "active_timers (cascade l k w) = active_timers w"
  using fold_add_lists [of "lists w (Slot l k)" "w\<lparr>lists := (lists w)(Slot l k := [])\<rparr>"]
    fold_add_fields [of "lists w (Slot l k)" "w\<lparr>lists := (lists w)(Slot l k := [])\<rparr>"] by (simp_all add: cascade_def)

text \<open>Every timer is linked into one list, where it belongs, and the timers that count are counted.\<close>

definition linked :: "wheel \<Rightarrow> bool" where
  "linked w \<longleftrightarrow> (\<forall>p. distinct (lists w p)) \<and> (\<forall>p q t. t \<in> set (lists w p) \<and> t \<in> set (lists w q) \<longrightarrow> p = q) \<and>
     (\<forall>t. pending w t \<longleftrightarrow> (\<exists>p. t \<in> set (lists w p))) \<and> finite {t. pending w t} \<and>
     active_timers w = of_nat (card {t. pending w t \<and> \<not> deferrable w t})"

lemma linkedI:
  assumes "\<And>p. distinct (lists w p)" "\<And>t p q. t \<in> set (lists w p) \<Longrightarrow> t \<in> set (lists w q) \<Longrightarrow> p = q"
    "\<And>t. pending w t \<longleftrightarrow> (\<exists>p. t \<in> set (lists w p))" "finite {t. pending w t}"
    "active_timers w = of_nat (card {t. pending w t \<and> \<not> deferrable w t})"
  shows "linked w"
  unfolding linked_def using assms by blast

lemma linkedD:
  assumes "linked w"
  shows "distinct (lists w p)" and "t \<in> set (lists w p) \<Longrightarrow> t \<in> set (lists w q) \<Longrightarrow> p = q"
    and "pending w t \<longleftrightarrow> (\<exists>p. t \<in> set (lists w p))" and "finite {t. pending w t}"
    and "active_timers w = of_nat (card {t. pending w t \<and> \<not> deferrable w t})"
  using assms unfolding linked_def by blast+

definition in_place :: "nat \<Rightarrow> wheel \<Rightarrow> place \<Rightarrow> bool" where
  "in_place least w p \<longleftrightarrow> (\<forall>t\<in>set (lists w p). placed least (timer_jiffies w) (expires w t) p)"

definition wheel_inv :: "wheel \<Rightarrow> bool" where
  "wheel_inv w \<longleftrightarrow> linked w \<and> (\<forall>p. in_place 0 w p)"

lemma cascade_in_place:
  "in_place n w p \<Longrightarrow> n \<le> 1 \<Longrightarrow> in_place n (cascade l k w) p"
  "in_place 1 (cascade l k w) (Slot l k)"
proof -
  have add: "placed n tj e (slot_for tj e)" if "n \<le> 1" for tj e
    using that slot_for_placed placed_mono by (cases "n = 0") (auto simp: le_Suc_eq)
  show "in_place n w p \<Longrightarrow> n \<le> 1 \<Longrightarrow> in_place n (cascade l k w) p"
    using add by (auto simp: in_place_def cascade_lists split: if_splits)
  show "in_place 1 (cascade l k w) (Slot l k)"
    unfolding in_place_def cascade_lists cascade_same by simp (metis One_nat_def slot_for_placed)
qed

lemma cascade_pending: "linked w \<Longrightarrow> pending (cascade l k w) = pending w"
  using fold_add_fields [of "lists w (Slot l k)" "w\<lparr>lists := (lists w)(Slot l k := [])\<rparr>"]
  by (auto simp: cascade_def linked_def fun_eq_iff)

lemma cascade_linked:
  assumes "linked w"
  shows "linked (cascade l k w)"
proof -
  let ?w = "cascade l k w"
  have d: "distinct (lists w p)" for p using assms by (simp add: linked_def)
  have u: "p = q" if "t \<in> set (lists w p)" "t \<in> set (lists w q)" for p q t using assms that unfolding linked_def by blast
  have set: "set (lists ?w q) = (if q = Slot l k then {} else set (lists w q)) \<union>
      {t \<in> set (lists w (Slot l k)). slot_for (timer_jiffies w) (expires w t) = q}" for q
    by (auto simp: cascade_lists)
  have 1: "distinct (lists ?w q)" for q using d [of q] d [of "Slot l k"] u [of _ q "Slot l k"] by (auto simp: cascade_lists)
  have moved: "slot_for (timer_jiffies w) (expires w t) = q"
    if "t \<in> set (lists ?w q)" "t \<in> set (lists w (Slot l k))" for t q
  proof (cases "q = Slot l k")
    case True
    then show ?thesis using that(1) unfolding set by simp
  next
    case False
    then have "t \<notin> set (lists w q)" using u [OF that(2), of q] by blast
    then show ?thesis using False that(1) unfolding set by simp
  qed
  have 2: "p = q" if "t \<in> set (lists ?w p)" "t \<in> set (lists ?w q)" for p q t
  proof (cases "t \<in> set (lists w (Slot l k))")
    case True
    then show ?thesis using moved [OF that(1)] moved [OF that(2)] by simp
  next
    case False
    then show ?thesis using that u [of t p q] unfolding set by (simp split: if_splits)
  qed
  have 3: "(\<exists>p. t \<in> set (lists ?w p)) \<longleftrightarrow> (\<exists>p. t \<in> set (lists w p))" for t
  proof
    assume "\<exists>p. t \<in> set (lists ?w p)"
    then obtain p where "t \<in> set (lists ?w p)" by blast
    then have "t \<in> set (lists w p) \<or> t \<in> set (lists w (Slot l k))" unfolding set by (cases "p = Slot l k") auto
    then show "\<exists>p. t \<in> set (lists w p)" by blast
  next
    assume "\<exists>p. t \<in> set (lists w p)"
    then obtain p where p: "t \<in> set (lists w p)" by blast
    have "t \<in> set (lists ?w (if p = Slot l k then slot_for (timer_jiffies w) (expires w t) else p))" using p unfolding set by auto
    then show "\<exists>p. t \<in> set (lists ?w p)" by blast
  qed
  show ?thesis
  proof (rule linkedI [OF 1 2])
    show "pending ?w t \<longleftrightarrow> (\<exists>p. t \<in> set (lists ?w p))" for t unfolding cascade_pending [OF assms] 3 by (rule linkedD(3) [OF assms])
  qed (simp_all only: cascade_pending [OF assms] cascade_same linkedD(4,5) [OF assms])
qed

lemma cascades_cases:
  assumes base: "P w" and step: "\<And>l k w. P w \<Longrightarrow> P (cascade l k w)"
  shows "P (cascades w)"
  using assms by (simp add: cascades_def Let_def)

lemma cascades_same [simp]:
  "timer_jiffies (cascades w) = timer_jiffies w" "expires (cascades w) = expires w" "deferrable (cascades w) = deferrable w"
  "active_timers (cascades w) = active_timers w"
  by (simp_all add: cascades_def Let_def)

lemma cascades_linked: "linked w \<Longrightarrow> linked (cascades w) \<and> pending (cascades w) = pending w"
  by (rule cascades_cases [of "\<lambda>w'. linked w' \<and> pending w' = pending w"]) (auto simp: cascade_linked cascade_pending)

text \<open>The levels that are reached by the chain of cascades.\<close>

lemma div_mod_zero: "j mod 2 ^ n = 0 \<Longrightarrow> k + 6 \<le> n \<Longrightarrow> j div 2 ^ k mod 64 = (0 :: nat)"
proof -
  assume j: "j mod 2 ^ n = 0" and k: "k + 6 \<le> n"
  have "2 ^ (k + 6) dvd (2 :: nat) ^ n" using k by (rule le_imp_power_dvd)
  then have "2 ^ k * 64 dvd j" using j by (simp add: power_add mod_eq_0_iff_dvd) (rule dvd_trans)
  then obtain q where "j = 2 ^ k * 64 * q" by (rule dvdE)
  then have "j div 2 ^ k = 64 * q" by simp
  then show ?thesis by simp
qed

lemma cascades_fresh:
  assumes "\<forall>p. in_place 0 w p" "l \<in> {2, 3, 4, 5}" "stale (timer_jiffies w) l i"
  shows "in_place 1 (cascades w) (Slot l i)"
proof -
  let ?j = "unat (timer_jiffies w)"
  have ix: "INDEX w (l - 2) = i" and z: "?j mod 2 ^ width l = 0" using stale_index [OF assms(3)] by auto
  have w: "width 2 = 8" "width 3 = 14" "width 4 = 20" "width 5 = 26" by (simp_all add: width_def)
  have first: "unat (and (timer_jiffies w) 255) = 0"
  proof -
    have "2 ^ 8 dvd (2 :: nat) ^ width l" using assms(2) by (intro le_imp_power_dvd) (auto simp: w)
    then have "2 ^ 8 dvd ?j" using z by (metis dvd_trans mod_eq_0_iff_dvd)
    then show ?thesis by (simp add: unat_and_255 mod_eq_0_iff_dvd)
  qed
  have chain: "INDEX w n = 0" if "8 + n * 6 + 6 \<le> width l" for n using div_mod_zero [OF z that] by (simp add: INDEX_eq)
  note c = cascade_in_place(1) [of 1, OF _ order_refl, simplified] cascade_in_place(2) [simplified]
  consider "l = 2" | "l = 3" | "l = 4" | "l = 5" using assms(2) by blast
  then show ?thesis
  proof cases
    case 1
    then show ?thesis using first ix by (simp add: cascades_def Let_def c)
  next
    case 2
    then show ?thesis using first ix chain [of 0] by (simp add: cascades_def Let_def c w)
  next
    case 3
    then show ?thesis using first ix chain [of 0] chain [of 1] by (simp add: cascades_def Let_def c w)
  next
    case 4
    then show ?thesis using first ix chain [of 0] chain [of 1] chain [of 2] by (simp add: cascades_def Let_def c w)
  qed
qed

lemma wheel_inv_fresh:
  assumes "wheel_inv w" "p \<noteq> Work"
  shows "in_place 1 (cascades w) p"
proof -
  have all: "\<forall>p. in_place 0 (cascades w) p"
    by (rule cascades_cases) (use assms(1) cascade_in_place(1) [of 0] in \<open>auto simp: wheel_inv_def\<close>)
  obtain l i where p: "p = Slot l i" using assms(2) by (cases p) auto
  show ?thesis
  proof (cases "stale (timer_jiffies w) l i \<and> l \<in> {2, 3, 4, 5}")
    case True
    then show ?thesis using cascades_fresh assms(1) p by (simp add: wheel_inv_def)
  next
    case False
    have "placed 1 (timer_jiffies w) (expires w t) (Slot l i)" if "placed 0 (timer_jiffies w) (expires w t) (Slot l i)" for t
    proof (cases "l \<in> {2, 3, 4, 5}")
      case True
      then show ?thesis using False placed_not_stale [OF that] by blast
    next
      case ne: False
      then have "l = 1" using that by (force simp: placed_def split: if_splits)
      then show ?thesis using that by (simp add: placed_def)
    qed
    then show ?thesis using all p by (auto simp: in_place_def)
  qed
qed

lemma start_round_lists:
  "lists (start_round w) q =
    (if q = Slot 1 (unat (timer_jiffies w) mod 256) then [] else if q = Work then lists (cascades w) (Slot 1 (unat (timer_jiffies w) mod 256))
     else lists (cascades w) q)"
  by (simp add: start_round_def Let_def unat_and_255)

lemma start_round_fields [simp]:
  "timer_jiffies (start_round w) = timer_jiffies w + 1" "expires (start_round w) = expires w" "deferrable (start_round w) = deferrable w"
  "active_timers (start_round w) = active_timers w" "pending (start_round w) = pending (cascades w)"
  by (simp_all add: start_round_def Let_def)

lemma start_round_linked:
  assumes l: "linked w" and empty: "lists w Work = []"
  shows "linked (start_round w)"
proof -
  let ?s = "Slot 1 (unat (timer_jiffies w) mod 256)"
  let ?c = "cascades w"
  have lc: "linked ?c" using cascades_linked [OF l] by simp
  have wk: "lists ?c Work = []"
    by (rule cascades_cases [of "\<lambda>w. lists w Work = []"]) (use empty in \<open>auto simp: cascade_lists slot_for_def Let_def\<close>)
  have u: "p = q" if "t \<in> set (lists ?c p)" "t \<in> set (lists ?c q)" for p q t using lc that unfolding linked_def by blast
  have "distinct (lists (start_round w) q)" for q using lc by (simp add: start_round_lists linked_def)
  moreover have "p = q" if "t \<in> set (lists (start_round w) p)" "t \<in> set (lists (start_round w) q)" for p q t
    using that u [of t p q] u [of t p ?s] u [of t q ?s] by (simp add: start_round_lists split: if_splits)
  moreover have "(\<exists>p. t \<in> set (lists (start_round w) p)) \<longleftrightarrow> (\<exists>p. t \<in> set (lists ?c p))" for t
  proof
    assume "\<exists>p. t \<in> set (lists (start_round w) p)"
    then show "\<exists>p. t \<in> set (lists ?c p)" by (auto simp: start_round_lists split: if_splits)
  next
    assume "\<exists>p. t \<in> set (lists ?c p)"
    then obtain p where p: "t \<in> set (lists ?c p)" by blast
    then have "t \<in> set (lists (start_round w) (if p = ?s then Work else p))" using wk by (auto simp: start_round_lists)
    then show "\<exists>p. t \<in> set (lists (start_round w) p)" by blast
  qed
  ultimately show ?thesis using lc unfolding linked_def start_round_fields cascades_same by blast
qed

lemma start_round_inv:
  assumes inv: "wheel_inv w" and empty: "lists w Work = []"
  shows "wheel_inv (start_round w)"
proof -
  let ?tj = "timer_jiffies w"
  have "placed 0 (?tj + 1) (expires w t) p" if t: "t \<in> set (lists (start_round w) p)" for t p
  proof (cases p)
    case Work
    let ?s = "Slot 1 (unat ?tj mod 256)"
    have "t \<in> set (lists (cascades w) ?s)" using t Work by (simp add: start_round_lists)
    then have "placed 1 ?tj (expires w t) ?s" using wheel_inv_fresh [OF inv, of ?s] by (simp add: in_place_def)
    then have "sint (expires w t - ?tj) \<le> 0" using due_iff [of ?tj "expires w t"] by blast
    then show ?thesis using Work by (simp add: placed_def)
  next
    case (Slot l i)
    then have "t \<in> set (lists (cascades w) p)" and o: "\<not> (l = 1 \<and> i = unat ?tj mod 256)"
      using t by (auto simp: start_round_lists split: if_splits)
    then have "placed 1 ?tj (expires w t) (Slot l i)" using wheel_inv_fresh [OF inv, of p] Slot by (simp add: in_place_def)
    then show ?thesis using placed_next o Slot by blast
  qed
  then show ?thesis using start_round_linked [of w] inv empty by (simp add: wheel_inv_def in_place_def)
qed

text \<open>The timers put on the list to run are those that are due.\<close>

lemma start_round_due:
  assumes inv: "wheel_inv w" and empty: "lists w Work = []"
  shows "set (lists (start_round w) Work) = {t. pending w t \<and> sint (expires w t - timer_jiffies w) \<le> 0}"
proof -
  let ?c = "cascades w" and ?tj = "timer_jiffies w"
  let ?s = "Slot 1 (unat ?tj mod 256)"
  have lc: "linked ?c" "pending ?c = pending w" using cascades_linked inv by (auto simp: wheel_inv_def)
  have wk: "lists ?c Work = []"
    by (rule cascades_cases [of "\<lambda>w. lists w Work = []"]) (use empty in \<open>auto simp: cascade_lists slot_for_def Let_def\<close>)
  have pl: "placed 1 ?tj (expires w t) p" if "t \<in> set (lists ?c p)" "p \<noteq> Work" for t p
    using wheel_inv_fresh [OF inv that(2)] that(1) by (simp add: in_place_def)
  have "t \<in> set (lists ?c ?s) \<longleftrightarrow> pending w t \<and> sint (expires w t - ?tj) \<le> 0" for t
  proof
    assume t: "t \<in> set (lists ?c ?s)"
    then have "pending w t" using lc unfolding linked_def by metis
    then show "pending w t \<and> sint (expires w t - ?tj) \<le> 0" using pl [OF t] due_iff [of ?tj "expires w t"] by simp
  next
    assume t: "pending w t \<and> sint (expires w t - ?tj) \<le> 0"
    then obtain p where p: "t \<in> set (lists ?c p)" using lc unfolding linked_def by metis
    then obtain l i where s: "p = Slot l i" using wk by (cases p) auto
    then have "l = 1 \<and> i = unat ?tj mod 256" using pl [OF p] due_iff [of ?tj "expires w t" l i] t by simp
    then show "t \<in> set (lists ?c ?s)" using p s by simp
  qed
  then show ?thesis by (auto simp: start_round_lists)
qed

section \<open>The other operations\<close>

lemma linked_add:
  assumes l: "linked w" and t: "\<not> pending w t"
  shows "linked (internal_add_timer w t)"
proof -
  let ?w = "internal_add_timer w t" and ?p = "slot_for (timer_jiffies w) (expires w t)"
  have f: "lists ?w = (lists w)(?p := lists w ?p @ [t])" "pending ?w = (pending w)(t := True)" "deferrable ?w = deferrable w"
      "active_timers ?w = active_timers w + (if deferrable w t then 0 else 1)"
    by (simp_all add: internal_add_timer_def raw_internal_add_timer_def Let_def)
  have no: "t \<notin> set (lists w p)" for p using l t unfolding linked_def by blast
  have "distinct (lists ?w p)" for p using l no unfolding f linked_def by simp
  moreover have "p = q" if "x \<in> set (lists ?w p)" "x \<in> set (lists ?w q)" for p q x
  proof -
    have "x = t \<and> p = ?p \<or> x \<in> set (lists w p)" "x = t \<and> q = ?p \<or> x \<in> set (lists w q)"
      using that unfolding f by (auto split: if_splits)
    then show ?thesis using no l unfolding linked_def by blast
  qed
  moreover have "pending ?w x \<longleftrightarrow> (\<exists>p. x \<in> set (lists ?w p))" for x
  proof (cases "x = t")
    case True
    then have "x \<in> set (lists ?w ?p)" by (simp add: f)
    then show ?thesis using True by (auto simp: f)
  next
    case False
    then have "x \<in> set (lists ?w p) \<longleftrightarrow> x \<in> set (lists w p)" for p by (simp add: f)
    then show ?thesis using False l by (simp add: f linked_def)
  qed
  moreover have fin: "finite {x. pending w x}" by (rule linkedD(4) [OF l])
  moreover have "{x. pending ?w x} = insert t {x. pending w x}" unfolding f by auto
  moreover have "active_timers ?w = of_nat (card {x. pending ?w x \<and> \<not> deferrable ?w x})"
  proof -
    have "{x. pending ?w x \<and> \<not> deferrable ?w x} =
        (if deferrable w t then {x. pending w x \<and> \<not> deferrable w x} else insert t {x. pending w x \<and> \<not> deferrable w x})"
      unfolding f by auto
    moreover have "finite {x. pending w x \<and> \<not> deferrable w x}" using fin by (rule rev_finite_subset) auto
    ultimately show ?thesis using t l by (simp add: f linked_def)
  qed
  ultimately show ?thesis unfolding linked_def by (metis finite_insert)
qed

lemma inv_add:
  assumes inv: "wheel_inv w" and t: "\<not> pending w t"
  shows "wheel_inv (internal_add_timer w t)"
proof -
  let ?w = "internal_add_timer w t" and ?p = "slot_for (timer_jiffies w) (expires w t)"
  have f: "lists ?w = (lists w)(?p := lists w ?p @ [t])" "timer_jiffies ?w = timer_jiffies w" "expires ?w = expires w"
    by (simp_all add: internal_add_timer_def raw_internal_add_timer_def Let_def)
  have "placed 0 (timer_jiffies w) (expires w t) ?p" using slot_for_placed placed_mono by blast
  then have "in_place 0 ?w p" for p using inv by (auto simp: in_place_def f wheel_inv_def)
  then show ?thesis using linked_add [OF _ t] inv by (simp add: wheel_inv_def)
qed

text \<open>Unlinking a timer, with and without the count.\<close>

definition unlink :: "wheel \<Rightarrow> nat \<Rightarrow> wheel" where
  "unlink w t = w\<lparr>lists := (\<lambda>p. remove1 t (lists w p)), pending := (pending w)(t := False),
     active_timers := active_timers w - (if deferrable w t then 0 else 1)\<rparr>"

lemma unlink_inv:
  assumes inv: "wheel_inv w" and t: "pending w t"
  shows "wheel_inv (unlink w t)"
proof -
  let ?w = "unlink w t"
  have l: "linked w" using inv by (simp add: wheel_inv_def)
  have set: "set (lists ?w p) = set (lists w p) - {t}" for p using l by (simp add: unlink_def linked_def set_remove1_eq)
  have "distinct (lists ?w p)" for p using l by (simp add: unlink_def linked_def)
  moreover have "p = q" if "x \<in> set (lists ?w p)" "x \<in> set (lists ?w q)" for p q x
    using that l unfolding set linked_def by blast
  moreover have "pending ?w x \<longleftrightarrow> (\<exists>p. x \<in> set (lists ?w p))" for x
    using l unfolding set by (simp add: unlink_def linked_def)
  moreover have "{x. pending ?w x} = {x. pending w x} - {t}" by (auto simp: unlink_def)
  moreover have "active_timers ?w = of_nat (card {x. pending ?w x \<and> \<not> deferrable ?w x})"
  proof -
    let ?a = "{x. pending w x \<and> \<not> deferrable w x}"
    have eq: "{x. pending ?w x \<and> \<not> deferrable ?w x} = ?a - {t}" by (auto simp: unlink_def)
    have fin: "finite ?a" using l by (auto simp: linked_def)
    have "deferrable w t \<Longrightarrow> ?a - {t} = ?a" by auto
    moreover have "\<not> deferrable w t \<Longrightarrow> card ?a = Suc (card (?a - {t}))" using fin t by (intro card.remove) auto
    ultimately show ?thesis unfolding eq using l by (auto simp: unlink_def linked_def)
  qed
  ultimately have "linked ?w" using l unfolding linked_def by (metis finite_Diff)
  moreover have "in_place 0 ?w p" for p using inv by (auto simp: in_place_def wheel_inv_def unlink_def dest: notin_set_remove1 in_set_remove1)
  ultimately show ?thesis by (simp add: wheel_inv_def)
qed

definition next_after :: "wheel \<Rightarrow> nat \<Rightarrow> u64" where
  "next_after w t = (if \<not> deferrable w t \<and> expires w t = next_timer w then timer_jiffies w else next_timer w)"

lemma detach_if_pending_eq:
  assumes "pending w t"
  shows "fst (detach_if_pending w t True) = (unlink w t)\<lparr>next_timer := next_after w t\<rparr>"
    and "fst (detach_if_pending w t False) = (unlink w t)\<lparr>next_timer := next_after w t, pending := pending w\<rparr>"
    and "snd (detach_if_pending w t c)"
  using assms by (cases w; cases "deferrable w t"; simp add: detach_if_pending_def detach_timer_def unlink_def next_after_def Let_def)+

text \<open>The state of the lists does not depend on these fields.\<close>

lemma inv_other_fields [simp]:
  "wheel_inv (w\<lparr>next_timer := n\<rparr>) = wheel_inv w" "wheel_inv (w\<lparr>running_timer := r\<rparr>) = wheel_inv w"
  "wheel_inv (w\<lparr>jiffies := j\<rparr>) = wheel_inv w" "wheel_inv (w\<lparr>slack := s\<rparr>) = wheel_inv w" "linked (w\<lparr>expires := e\<rparr>) = linked w"
  by (simp_all add: wheel_inv_def linked_def in_place_def)

lemma inv_set_expires:
  assumes "wheel_inv w" "\<not> pending w t"
  shows "wheel_inv (w\<lparr>expires := (expires w)(t := e)\<rparr>)"
proof -
  have l: "linked w" using assms(1) by (simp add: wheel_inv_def)
  have "x \<noteq> t" if "x \<in> set (lists w p)" for x p using linkedD(3) [OF l, of t] assms(2) that by blast
  then have "in_place 0 (w\<lparr>expires := (expires w)(t := e)\<rparr>) p" for p using assms(1) by (auto simp: wheel_inv_def in_place_def)
  then show ?thesis using l by (simp add: wheel_inv_def)
qed

lemma inv_del:
  assumes "wheel_inv w"
  shows "wheel_inv (fst (detach_if_pending w t True))"
proof (cases "pending w t")
  case True
  then show ?thesis using unlink_inv [OF assms True] detach_if_pending_eq(1) by simp
next
  case False
  then show ?thesis using assms by (simp add: detach_if_pending_def)
qed

text \<open>Adding a timer does not depend on whether it is marked as pending already.\<close>

lemma add_pending: "internal_add_timer (w\<lparr>pending := (pending w)(t := b)\<rparr>) t = internal_add_timer w t"
  by (simp add: internal_add_timer_def raw_internal_add_timer_def Let_def)

lemma inv_mod:
  assumes inv: "wheel_inv w"
  shows "wheel_inv (fst (do_mod_timer w t e b))"
proof (cases "pending w t")
  case True
  define n where "n = next_after w t"
  have n: "fst (detach_if_pending w t False) = (unlink w t)\<lparr>next_timer := n, pending := pending w\<rparr>"
    using detach_if_pending_eq(2) [OF True] by (simp add: n_def)
  let ?u = "(unlink w t)\<lparr>next_timer := n, expires := (expires w)(t := e)\<rparr>"
  have "wheel_inv ((unlink w t)\<lparr>next_timer := n\<rparr>)" using unlink_inv [OF inv True] by simp
  then have u: "wheel_inv ?u" using inv_set_expires [of "(unlink w t)\<lparr>next_timer := n\<rparr>" t e] by (simp add: unlink_def)
  have p: "(pending ?u)(t := True) = pending w" using True by (auto simp: unlink_def fun_eq_iff)
  have "fst (do_mod_timer w t e b) = internal_add_timer (?u\<lparr>pending := (pending ?u)(t := True)\<rparr>) t"
    using n detach_if_pending_eq(3) [OF True, of False] unfolding p
    by (simp add: do_mod_timer_def case_prod_beta unlink_def)
  then have "fst (do_mod_timer w t e b) = internal_add_timer ?u t" using add_pending [of ?u t True] by simp
  then show ?thesis using inv_add [OF u] by (simp add: unlink_def)
next
  case False
  then have "fst (do_mod_timer w t e b) = (if b then w else internal_add_timer (w\<lparr>expires := (expires w)(t := e)\<rparr>) t)"
    by (simp add: do_mod_timer_def detach_if_pending_def)
  then show ?thesis using inv inv_add [OF inv_set_expires [OF inv False, of e], of t] False by simp
qed

lemma inv_run_first:
  assumes "wheel_inv w" "t \<in> set (lists w Work)"
  shows "wheel_inv (run_first w t)"
proof -
  have "pending w t" using linkedD(3) [of w t] assms by (auto simp: wheel_inv_def)
  then have "wheel_inv (unlink w t)" using unlink_inv assms(1) by blast
  moreover have "run_first w t = (unlink w t)\<lparr>running_timer := Some t\<rparr>"
    by (simp add: run_first_def detach_expired_timer_def detach_timer_def unlink_def Let_def)
  ultimately show ?thesis by simp
qed

section \<open>All operations in any order\<close>

text \<open>
  The clock, the loop that runs the timers, and what callbacks and other callers do in between. The time of a
  timer may be written directly while it is not pending. A call that fails a \<^verbatim>\<open>BUG_ON\<close> or has no defined
  result is left out.
\<close>

datatype wheel_op =
    Clock | Turn | Mod nat u64 | Mod_pending nat u64 | Mod_pinned nat u64 | Add nat | Add_on nat | Del nat | Try_del nat
  | Set_expires nat u64 | Set_slack nat int

fun wheel_do :: "wheel \<Rightarrow> wheel_op \<Rightarrow> wheel" where
  "wheel_do w Clock = w\<lparr>jiffies := jiffies w + 1\<rparr>"
| "wheel_do w Turn = run_timers_turn w"
| "wheel_do w (Mod t e) = (case mod_timer w t e of None \<Rightarrow> w | Some r \<Rightarrow> fst r)"
| "wheel_do w (Mod_pending t e) = fst (mod_timer_pending w t e)"
| "wheel_do w (Mod_pinned t e) = fst (mod_timer_pinned w t e)"
| "wheel_do w (Add t) = (case add_timer w t of None \<Rightarrow> w | Some r \<Rightarrow> fst r)"
| "wheel_do w (Add_on t) = (case add_timer_on w t of None \<Rightarrow> w | Some w' \<Rightarrow> w')"
| "wheel_do w (Del t) = fst (del_timer w t)"
| "wheel_do w (Try_del t) = fst (try_to_del_timer_sync w t)"
| "wheel_do w (Set_expires t e) = (if pending w t then w else w\<lparr>expires := (expires w)(t := e)\<rparr>)"
| "wheel_do w (Set_slack t s) = set_timer_slack w t s"

lemma sint_0_iff: "sint (x :: u64) = 0 \<longleftrightarrow> x = 0"
  by (simp add: signed_eq_0_iff)

lemma inv_mod_timer: "wheel_inv w \<Longrightarrow> mod_timer w t e = Some r \<Longrightarrow> wheel_inv (fst r)"
  by (auto simp: mod_timer_def inv_mod split: Option.bind_splits if_splits)

lemma inv_turn: "wheel_inv w \<Longrightarrow> wheel_inv (run_timers_turn w)"
  by (auto simp: run_timers_turn_def start_round_inv inv_run_first split: list.splits)

interpretation tw: step_system wheel_do wheel_inv
proof
  fix w e
  assume inv: "wheel_inv w"
  show "wheel_inv (wheel_do w e)"
  proof (cases e)
    case (Mod t x)
    then show ?thesis using inv inv_mod_timer by (auto split: option.splits)
  next
    case (Add t)
    then show ?thesis using inv inv_mod_timer by (auto simp: add_timer_def split: option.splits if_splits)
  next
    case (Set_expires t x)
    then show ?thesis using inv inv_set_expires by simp
  next
    case (Try_del t)
    then show ?thesis using inv inv_del by (simp add: try_to_del_timer_sync_def case_prod_beta)
  qed (use inv in \<open>simp_all add: inv_turn mod_timer_pending_def mod_timer_pinned_def inv_mod add_timer_on_def inv_add
    del_timer_def inv_del set_timer_slack_def\<close>)
qed

lemma init_timers_inv: "wheel_inv (init_timers j defer)"
  by (simp add: init_timers_def wheel_inv_def linked_def in_place_def)

text \<open>
  C1. However timers are added, changed and removed, also by callbacks, and however the clock advances: when
  the wheel takes up a tick it puts on the list to run exactly the pending timers that expire at that tick, or
  had expired when they were added; no timer is early and none is left behind, although only one slot of the
  first vector is looked at. The timers on the list to run have all expired, and the number of active timers
  is that of the pending timers which are not deferrable.
\<close>

theorem timer_wheel_exact:
  "let w = foldl wheel_do (init_timers j defer) ops
   in (lists w Work = [] \<longrightarrow>
        set (lists (start_round w) Work) = {t. pending w t \<and> (expires w t = timer_jiffies w \<or> time_before (expires w t) (timer_jiffies w))}) \<and>
      (\<forall>t\<in>set (lists w Work). expires w t = timer_jiffies w - 1 \<or> time_before (expires w t) (timer_jiffies w - 1)) \<and>
      active_timers w = of_nat (card {t. pending w t \<and> \<not> deferrable w t})"
proof -
  let ?w = "foldl wheel_do (init_timers j defer) ops"
  have inv: "wheel_inv ?w" by (rule tw.run_inv [OF init_timers_inv])
  have due: "sint (a - b) \<le> 0 \<longleftrightarrow> a = b \<or> time_before a b" for a b :: u64
    using sint_0_iff [of "a - b"] by (auto simp: time_before_def le_less)
  have "set (lists (start_round ?w) Work) = {t. pending ?w t \<and> (expires ?w t = timer_jiffies ?w \<or> time_before (expires ?w t) (timer_jiffies ?w))}"
    if "lists ?w Work = []" using start_round_due [OF inv that] unfolding due .
  moreover have "expires ?w t = timer_jiffies ?w - 1 \<or> time_before (expires ?w t) (timer_jiffies ?w - 1)" if "t \<in> set (lists ?w Work)" for t
    using inv that unfolding wheel_inv_def in_place_def by (fastforce simp: placed_def due)
  ultimately show ?thesis using inv linkedD(5) by (simp add: wheel_inv_def Let_def)
qed

text \<open>A timer 300 ticks ahead goes to the second vector, comes down when that slot is spread, and runs in its tick.\<close>

definition demo_ops :: "wheel_op list" where
  "demo_ops = [Mod_pinned 7 2, Mod_pinned 8 300, Clock, Clock, Turn, Turn]"

theorem timer_wheel_exact_witness:
  "let w = foldl wheel_do (init_timers 0 (\<lambda>_. False)) demo_ops
   in lists w Work = [] \<and> pending w 7 \<and> pending w 8 \<and> timer_jiffies w = 2 \<and>
      7 \<in> set (lists (start_round w) Work) \<and> 8 \<notin> set (lists (start_round w) Work)"
proof -
  let ?w = "foldl wheel_do (init_timers 0 (\<lambda>_. False)) demo_ops"
  have e: "lists ?w Work = []" "pending ?w 7" "pending ?w 8" "timer_jiffies ?w = 2" "expires ?w 7 = 2" "expires ?w 8 = 300"
    by code_simp+
  have "\<not> time_before 300 2" by (simp add: time_before_def)
  then show ?thesis using timer_wheel_exact [of 0 "\<lambda>_. False" demo_ops] e by (simp only: Let_def) simp
qed

section \<open>Slack\<close>

lemma highest_bit_le: "0 < n \<Longrightarrow> 2 ^ highest_bit n \<le> n"
proof (induction n rule: highest_bit.induct)
  case (1 n)
  show ?case
  proof (cases "n < 2")
    case True
    then show ?thesis using "1.prems" by (subst highest_bit.simps) simp
  next
    case False
    then have "2 ^ highest_bit (n div 2) \<le> n div 2" using "1.IH" by simp
    then show ?thesis using False by (subst highest_bit.simps) simp
  qed
qed

lemma clear_low_bits: "unat (and x (not (2 ^ b - 1)) :: u64) = unat x div 2 ^ b * 2 ^ b"
proof -
  have "and x (not (2 ^ b - 1)) = push_bit b (drop_bit b x)"
    by (rule bit_eqI) (auto simp: bit_and_iff bit_not_iff bit_push_bit_iff bit_drop_bit_eq bit_mask_iff simp flip: mask_eq_exp_minus_1)
  then have eq: "and x (not (2 ^ b - 1)) = x - take_bit b x" using bits_ident [of b x] by (metis add_diff_cancel_right')
  have t: "unat (take_bit b x) = unat x mod 2 ^ b" using unsigned_take_bit_eq [of b x, where 'a = nat] by (simp only: take_bit_eq_mod)
  then have "take_bit b x \<le> x" by (simp only: word_le_nat_alt mod_less_eq_dividend)
  then have "unat (x - take_bit b x) = unat x - unat x mod 2 ^ b" using t by (simp only: unat_sub)
  then show ?thesis unfolding eq by (simp only: minus_mod_eq_div_mult)
qed

lemma round_limit_between:
  assumes le: "unat e \<le> unat limit"
  shows "case round_limit e limit of Some r \<Rightarrow> unat e \<le> unat r \<and> unat r \<le> unat limit | None \<Rightarrow> 2 ^ 31 \<le> unat (xor e limit)"
proof -
  let ?m = "xor e limit"
  let ?b = "highest_bit (unat ?m)"
  show ?thesis
  proof (cases "?m = 0")
    case True
    then show ?thesis using le by (simp add: round_limit_def)
  next
    case False
    then have hb: "2 ^ ?b \<le> unat ?m" by (intro highest_bit_le) (simp add: unat_gt_0)
    show ?thesis
    proof (cases "?b \<ge> 31")
      case True
      then have "(2 :: nat) ^ 31 \<le> 2 ^ ?b" by (rule power_increasing) simp
      then show ?thesis using True False hb by (simp add: round_limit_def)
    next
      case small: False
      let ?r = "and limit (not (2 ^ ?b - 1))"
      have r: "unat ?r = unat limit div 2 ^ ?b * 2 ^ ?b" by (rule clear_low_bits)
      have "drop_bit ?b ?m \<noteq> 0"
      proof
        assume "drop_bit ?b ?m = 0"
        then have "unat ?m div 2 ^ ?b = 0" using unat_drop_bit_u64 [of ?b ?m] by simp
        then show False using hb by (simp add: div_eq_0_iff)
      qed
      then have "drop_bit ?b e \<noteq> drop_bit ?b limit" by (auto simp: drop_bit_xor)
      then have "unat e div 2 ^ ?b \<noteq> unat limit div 2 ^ ?b" by (metis unat_drop_bit_u64 unsigned_word_eqI)
      moreover have "unat e div 2 ^ ?b \<le> unat limit div 2 ^ ?b" using le by (rule div_le_mono)
      ultimately have "unat e < unat limit div 2 ^ ?b * 2 ^ ?b"
        by (metis div_less_iff_less_mult le_neq_implies_less zero_less_numeral zero_less_power)
      then show ?thesis using r small False by (simp add: round_limit_def)
    qed
  qed
qed

text \<open>The slack of a timer in ticks: what was set, or a 256th of the time that is left.\<close>

definition slack_ticks :: "wheel \<Rightarrow> nat \<Rightarrow> u64 \<Rightarrow> nat" where
  "slack_ticks w t e =
     (if slack w t \<ge> 0 then nat (slack w t) else if sint (e - jiffies w) < 256 then 0 else nat (sint (e - jiffies w) div 256))"

lemma unat_add_small: "unat e + n < 2 ^ 64 \<Longrightarrow> unat (e + of_nat n :: u64) = unat e + n"
proof -
  assume a: "unat e + n < 2 ^ 64"
  then have "unat (of_nat n :: u64) = n" by (simp add: unat_of_nat take_bit_nat_eq_self)
  then show ?thesis using a by (simp only: unat_word_ariths) simp
qed

text \<open>
  The time that a timer is set to lies between the time asked for and that time plus the slack of the
  timer; the only exception is a slack that changes a bit of the time from bit 31 on, for which the mask of
  \<^verbatim>\<open>apply_slack\<close>, a shift of an \<^verbatim>\<open>int\<close>, is not defined.
\<close>

theorem apply_slack_between:
  assumes "unat e + slack_ticks w t e < 2 ^ 64"
  shows "case apply_slack w t e of
      Some r \<Rightarrow> unat e \<le> unat r \<and> unat r \<le> unat e + slack_ticks w t e
    | None \<Rightarrow> 2 ^ 31 \<le> unat (xor e (e + of_nat (slack_ticks w t e)))"
proof -
  let ?n = "slack_ticks w t e"
  have u: "unat (e + of_nat ?n) = unat e + ?n" by (rule unat_add_small [OF assms])
  then have le: "unat e \<le> unat (e + of_nat ?n)" by simp
  have "apply_slack w t e = (if slack w t < 0 \<and> sint (e - jiffies w) < 256 then Some e else round_limit e (e + of_nat ?n))"
    by (auto simp: apply_slack_def slack_ticks_def Let_def)
  then show ?thesis using round_limit_between [OF le] u by (auto split: option.splits)
qed

theorem apply_slack_between_witness:
  "let w = set_timer_slack (init_timers 0 (\<lambda>_. False)) 3 10 in apply_slack w 3 1000 = Some 1008 \<and> 1000 \<le> (1008 :: nat) \<and> 1008 \<le> 1000 + slack_ticks w 3 1000"
proof -
  let ?w = "set_timer_slack (init_timers 0 (\<lambda>_. False)) 3 10"
  have s: "slack_ticks ?w 3 1000 = 10" by (simp add: slack_ticks_def set_timer_slack_def)
  have a: "apply_slack ?w 3 1000 = Some 1008" by code_simp
  show ?thesis using apply_slack_between [of 1000 ?w 3] s a by (simp add: Let_def)
qed

section \<open>Rounding to whole seconds\<close>

text \<open>
  A time rounded to a whole second is, with the skew of the CPU, a multiple of a second, unless that would
  not lie in the future, in which case the time is not changed. Rounding never moves a time back by a quarter
  of a second or more, and not at all if rounding up is asked for; it never moves it on by more than a second.
\<close>

theorem round_jiffies_bounds:
  fixes hz cpu :: nat and now j :: u64 and force_up :: bool
  assumes hz: "0 < hz" and fits: "unat j + cpu * 3 + hz < 2 ^ 64" and past: "hz \<le> unat j"
  defines "r \<equiv> round_jiffies_common hz now j cpu force_up"
  shows "(r = j \<or> (unat r + cpu * 3) mod hz = 0 \<and> time_before now r) \<and> unat r \<le> unat j + hz \<and>
    (if force_up then unat j \<le> unat r else unat j < unat r + max 1 (hz div 4))"
proof -
  let ?k = "cpu * 3"
  let ?m = "(unat j + ?k) mod hz"
  have m: "?m < hz" using hz by simp
  define n where "n = (if ?m < hz div 4 \<and> \<not> force_up then unat j + ?k - ?m else unat j + ?k - ?m + hz)"
  have n: "n \<ge> ?k" "n mod hz = 0" "n - ?k \<le> unat j + hz" "if force_up then unat j < n - ?k else unat j < n - ?k + max 1 (hz div 4)"
  proof -
    have d: "unat j + ?k - ?m = (unat j + ?k) div hz * hz" by (rule minus_mod_eq_div_mult)
    have le: "?m \<le> unat j" using m past by simp
    show "n \<ge> ?k" "n - ?k \<le> unat j + hz" using le by (auto simp: n_def)
    show "n mod hz = 0" unfolding n_def d by simp
    show "if force_up then unat j < n - ?k else unat j < n - ?k + max 1 (hz div 4)" using m le by (auto simp: n_def)
  qed
  have j1: "unat (j + of_nat ?k) = unat j + ?k" using fits by (intro unat_add_small) simp
  have "j + of_nat ?k = of_nat (unat j + ?k)" by simp
  then have "(if ?m < hz div 4 \<and> \<not> force_up then j + of_nat ?k - of_nat ?m else j + of_nat ?k - of_nat ?m + of_nat hz) = of_nat n"
    using m by (auto simp: n_def of_nat_diff)
  then have "r = (if time_before now (of_nat n - of_nat ?k) then of_nat n - of_nat ?k else j)"
    unfolding r_def round_jiffies_common_def Let_def j1 by simp
  moreover have "of_nat n - of_nat ?k = (of_nat (n - ?k) :: u64)" using n(1) by (simp add: of_nat_diff)
  ultimately have r: "r = (if time_before now (of_nat (n - ?k)) then of_nat (n - ?k) else j)" by simp
  have "unat (of_nat (n - ?k) :: u64) = n - ?k" using n(3) fits by (simp add: unat_of_nat take_bit_nat_eq_self)
  then show ?thesis using n r hz by (auto split: if_splits)
qed

theorem round_jiffies_bounds_witness:
  "round_jiffies_common 1000 5000 10300 2 False = 10994 \<and> round_jiffies_common 1000 5000 10300 2 True = 10994 \<and>
   unat (round_jiffies_common 1000 5000 10100 2 False) \<le> 11100 \<and> 10100 < unat (round_jiffies_common 1000 5000 10100 2 False) + 250"
proof -
  have "round_jiffies_common 1000 5000 10300 2 False = 10994" "round_jiffies_common 1000 5000 10300 2 True = 10994" by code_simp+
  then show ?thesis using round_jiffies_bounds [of 1000 10100 2 5000 False] by simp
qed

end
