(* ===== verification/Resource_Tree.thy ===== *)
theory Resource_Tree
  imports Linked_List "HOL-Library.Monad_Syntax"
begin

text \<open>
  The resource tree (\<^verbatim>\<open>resource.c\<close>): the address ranges of a machine, nested in each other. The resources
  are addresses in memory, their fields maps from addresses, and the tree is linked by the pointers \<open>parent\<close>,
  \<open>child\<close> and \<open>sibling\<close> as in \<^verbatim>\<open>struct resource\<close>. The operations follow the pointers; they have no result where
  the code would follow a null pointer or loop for ever. Each holds \<^verbatim>\<open>resource_lock\<close> all the time, so it is one
  step.
\<close>

section \<open>The tree in memory\<close>

record res_mem =
  rstart :: "nat \<Rightarrow> u64"
  rend :: "nat \<Rightarrow> u64"
  rflags :: "nat \<Rightarrow> u64"
  rname :: "nat \<Rightarrow> string"
  parent :: "nat \<Rightarrow> nat option"
  sibling :: "nat \<Rightarrow> nat option"
  child :: "nat \<Rightarrow> nat option"

text \<open>The pointers to links (\<^verbatim>\<open>struct resource **p\<close>) of the loops.\<close>

datatype link = ChildOf nat | SiblingOf nat

primrec get_link :: "res_mem \<Rightarrow> link \<Rightarrow> nat option" where
  "get_link m (ChildOf r) = child m r"
| "get_link m (SiblingOf r) = sibling m r"

primrec set_link :: "res_mem \<Rightarrow> link \<Rightarrow> nat option \<Rightarrow> res_mem" where
  "set_link m (ChildOf r) p = m\<lparr>child := (child m)(r := p)\<rparr>"
| "set_link m (SiblingOf r) p = m\<lparr>sibling := (sibling m)(r := p)\<rparr>"

definition set_parent :: "res_mem \<Rightarrow> nat \<Rightarrow> nat option \<Rightarrow> res_mem" where
  "set_parent m r p = m\<lparr>parent := (parent m)(r := p)\<rparr>"

definition set_range :: "res_mem \<Rightarrow> nat \<Rightarrow> u64 \<times> u64 \<Rightarrow> res_mem" where
  "set_range m r x = m\<lparr>rstart := (rstart m)(r := fst x), rend := (rend m)(r := snd x)\<rparr>"

section \<open>Requesting and releasing\<close>

text \<open>The loop of \<^verbatim>\<open>__request_resource\<close>: the link where the range goes, or the conflict.\<close>

partial_function (option) request_loop :: "res_mem \<Rightarrow> u64 \<Rightarrow> u64 \<Rightarrow> link \<Rightarrow> (link + nat) option" where
  "request_loop m s e p =
     (case get_link m p of
        None \<Rightarrow> Some (Inl p)
      | Some tmp \<Rightarrow>
          if rstart m tmp > e then Some (Inl p)
          else if rend m tmp < s then request_loop m s e (SiblingOf tmp)
          else Some (Inr tmp))"

definition raw_request_resource :: "res_mem \<Rightarrow> nat \<Rightarrow> nat \<Rightarrow> (res_mem \<times> nat option) option" where
  "raw_request_resource m root new =
     (if rend m new < rstart m new then Some (m, Some root)
      else if rstart m new < rstart m root then Some (m, Some root)
      else if rend m new > rend m root then Some (m, Some root)
      else do {
        r \<leftarrow> request_loop m (rstart m new) (rend m new) (ChildOf root);
        case r of
          Inl p \<Rightarrow> Some (set_parent (set_link (set_link m (SiblingOf new) (get_link m p)) p (Some new)) new (Some root), None)
        | Inr tmp \<Rightarrow> Some (m, Some tmp)
      })"

definition request_resource_conflict :: "res_mem \<Rightarrow> nat \<Rightarrow> nat \<Rightarrow> (res_mem \<times> nat option) option" where
  "request_resource_conflict m root new = raw_request_resource m root new"

definition request_resource :: "res_mem \<Rightarrow> nat \<Rightarrow> nat \<Rightarrow> (res_mem \<times> unit result) option" where
  "request_resource m root new = do {
     (m', conflict) \<leftarrow> request_resource_conflict m root new;
     Some (m', if conflict \<noteq> None then Inl EBUSY else Inr ())
   }"

partial_function (option) link_to :: "res_mem \<Rightarrow> nat \<Rightarrow> link \<Rightarrow> link option option" where
  "link_to m old p =
     (case get_link m p of
        None \<Rightarrow> Some None
      | Some tmp \<Rightarrow> if tmp = old then Some (Some p) else link_to m old (SiblingOf tmp))"

definition raw_release_resource :: "res_mem \<Rightarrow> nat \<Rightarrow> (res_mem \<times> unit result) option" where
  "raw_release_resource m old = do {
     par \<leftarrow> parent m old;
     r \<leftarrow> link_to m old (ChildOf par);
     case r of
       None \<Rightarrow> Some (m, Inl EINVAL)
     | Some p \<Rightarrow> Some (set_parent (set_link m p (sibling m old)) old None, Inr ())
   }"

definition release_resource :: "res_mem \<Rightarrow> nat \<Rightarrow> (res_mem \<times> unit result) option" where
  "release_resource m old = raw_release_resource m old"

text \<open>
  \<^verbatim>\<open>__release_child_resources\<close> calls itself for every child; \<open>release_children\<close> is its loop. The size of a
  range is computed by \<^verbatim>\<open>resource_size\<close>, which is not part of these sources.
\<close>

partial_function (option) release_children :: "(u64 \<times> u64 \<Rightarrow> u64) \<Rightarrow> res_mem \<Rightarrow> nat option \<Rightarrow> res_mem option" where
  "release_children resource_size m p =
     (case p of
        None \<Rightarrow> Some m
      | Some tmp \<Rightarrow>
          (let m1 = set_link (set_parent m tmp None) (SiblingOf tmp) None
           in do {
             m2 \<leftarrow> release_children resource_size (set_link m1 (ChildOf tmp) None) (child m1 tmp);
             release_children resource_size
               (set_range m2 tmp (0, resource_size (rstart m2 tmp, rend m2 tmp) - 1)) (sibling m tmp)
           }))"

definition release_child_resources :: "(u64 \<times> u64 \<Rightarrow> u64) \<Rightarrow> res_mem \<Rightarrow> nat \<Rightarrow> res_mem option" where
  "release_child_resources resource_size m r =
     release_children resource_size (set_link m (ChildOf r) None) (child m r)"

partial_function (option) lookup_loop :: "res_mem \<Rightarrow> u64 \<Rightarrow> nat option \<Rightarrow> nat option option" where
  "lookup_loop m s res =
     (case res of
        None \<Rightarrow> Some None
      | Some r \<Rightarrow> if rstart m r = s then Some (Some r) else lookup_loop m s (sibling m r))"

definition lookup_resource :: "res_mem \<Rightarrow> nat \<Rightarrow> u64 \<Rightarrow> nat option option" where
  "lookup_resource m root s = lookup_loop m s (child m root)"

section \<open>Inserting\<close>

text \<open>
  The first loop of \<^verbatim>\<open>__insert_resource\<close> descends to the resource that contains the new one most closely. It
  ends with what the function returns, or with the parent and its first child in conflict.
\<close>

partial_function (option) insert_descend ::
  "res_mem \<Rightarrow> nat \<Rightarrow> nat \<Rightarrow> (res_mem \<times> (nat option + nat \<times> nat)) option" where
  "insert_descend m par new = do {
     (m1, first) \<leftarrow> raw_request_resource m par new;
     case first of
       None \<Rightarrow> Some (m1, Inl None)
     | Some f \<Rightarrow>
         if f = par then Some (m1, Inl (Some f))
         else if f = new then Some (m1, Inl (Some f))
         else if rstart m1 f > rstart m1 new \<or> rend m1 f < rend m1 new then Some (m1, Inr (par, f))
         else if rstart m1 f = rstart m1 new \<and> rend m1 f = rend m1 new then Some (m1, Inr (par, f))
         else insert_descend m1 f new
   }"

text \<open>The last of the siblings that the new resource covers, or one that it overlaps partly.\<close>

partial_function (option) cover_loop :: "res_mem \<Rightarrow> nat \<Rightarrow> nat \<Rightarrow> (nat + nat) option" where
  "cover_loop m new nx =
     (if rstart m nx < rstart m new \<or> rend m nx > rend m new then Some (Inl nx)
      else case sibling m nx of
          None \<Rightarrow> Some (Inr nx)
        | Some s \<Rightarrow> if rstart m s > rend m new then Some (Inr nx) else cover_loop m new s)"

partial_function (option) adopt_loop :: "res_mem \<Rightarrow> nat \<Rightarrow> nat option \<Rightarrow> res_mem option" where
  "adopt_loop m new nx =
     (case nx of
        None \<Rightarrow> Some m
      | Some x \<Rightarrow> adopt_loop (set_parent m x (Some new)) new (sibling m x))"

partial_function (option) sibling_before :: "res_mem \<Rightarrow> nat \<Rightarrow> nat \<Rightarrow> nat option" where
  "sibling_before m first nx =
     (if sibling m nx = Some first then Some nx
      else do { s \<leftarrow> sibling m nx; sibling_before m first s })"

definition raw_insert_resource :: "res_mem \<Rightarrow> nat \<Rightarrow> nat \<Rightarrow> (res_mem \<times> nat option) option" where
  "raw_insert_resource m par0 new = do {
     (m1, r) \<leftarrow> insert_descend m par0 new;
     case r of
       Inl c \<Rightarrow> Some (m1, c)
     | Inr (par, first) \<Rightarrow> do {
         c \<leftarrow> cover_loop m1 new first;
         case c of
           Inl x \<Rightarrow> Some (m1, Some x)
         | Inr nx \<Rightarrow>
             (let m2 = set_link (set_link (set_parent m1 new (Some par)) (SiblingOf new) (sibling m1 nx)) (ChildOf new) (Some first);
                  m3 = set_link m2 (SiblingOf nx) None
              in do {
                m4 \<leftarrow> adopt_loop m3 new (Some first);
                if child m4 par = Some first then Some (set_link m4 (ChildOf par) (Some new), None)
                else do {
                  c \<leftarrow> child m4 par;
                  b \<leftarrow> sibling_before m4 first c;
                  Some (set_link m4 (SiblingOf b) (Some new), None)
                }
              })
       }
   }"

definition insert_resource_conflict :: "res_mem \<Rightarrow> nat \<Rightarrow> nat \<Rightarrow> (res_mem \<times> nat option) option" where
  "insert_resource_conflict m par new = raw_insert_resource m par new"

definition insert_resource :: "res_mem \<Rightarrow> nat \<Rightarrow> nat \<Rightarrow> (res_mem \<times> unit result) option" where
  "insert_resource m par new = do {
     (m', conflict) \<leftarrow> insert_resource_conflict m par new;
     Some (m', if conflict \<noteq> None then Inl EBUSY else Inr ())
   }"

partial_function (option) expand_loop :: "res_mem \<Rightarrow> nat \<Rightarrow> nat \<Rightarrow> res_mem option" where
  "expand_loop m root new = do {
     (m1, conflict) \<leftarrow> raw_insert_resource m root new;
     case conflict of
       None \<Rightarrow> Some m1
     | Some c \<Rightarrow>
         if c = root then Some m1
         else expand_loop (set_range m1 new
             (if rstart m1 c < rstart m1 new then rstart m1 c else rstart m1 new,
              if rend m1 c > rend m1 new then rend m1 c else rend m1 new)) root new
   }"

definition insert_resource_expand_to_fit :: "res_mem \<Rightarrow> nat \<Rightarrow> nat \<Rightarrow> res_mem option" where
  "insert_resource_expand_to_fit m root new =
     (if parent m new \<noteq> None then Some m else expand_loop m root new)"

section \<open>Adjusting\<close>

partial_function (option) children_inside :: "res_mem \<Rightarrow> u64 \<Rightarrow> u64 \<Rightarrow> nat option \<Rightarrow> bool option" where
  "children_inside m s e tmp =
     (if tmp = None then Some True
      else if rstart m (the tmp) < s \<or> rend m (the tmp) > e then Some False
      else children_inside m s e (sibling m (the tmp)))"

definition adjust_children :: "res_mem \<Rightarrow> nat \<Rightarrow> u64 \<Rightarrow> u64 \<Rightarrow> (res_mem \<times> unit result) option" where
  "adjust_children m res s e = do {
     inside \<leftarrow> children_inside m s e (child m res);
     Some (if inside then (set_range m res (s, e), Inr ()) else (m, Inl EBUSY))
   }"

definition raw_adjust_resource :: "res_mem \<Rightarrow> nat \<Rightarrow> u64 \<Rightarrow> u64 \<Rightarrow> (res_mem \<times> unit result) option" where
  "raw_adjust_resource m res s n =
     (let e = s + n - 1
      in case parent m res of
           None \<Rightarrow> adjust_children m res s e
         | Some par \<Rightarrow>
             if s < rstart m par \<or> e > rend m par then Some (m, Inl EBUSY)
             else if sibling m res \<noteq> None \<and> rstart m (the (sibling m res)) \<le> e then Some (m, Inl EBUSY)
             else if child m par \<noteq> Some res
             then do {
               c \<leftarrow> child m par;
               tmp \<leftarrow> sibling_before m res c;
               if s \<le> rend m tmp then Some (m, Inl EBUSY) else adjust_children m res s e
             }
             else adjust_children m res s e)"

definition adjust_resource :: "res_mem \<Rightarrow> nat \<Rightarrow> u64 \<Rightarrow> u64 \<Rightarrow> (res_mem \<times> unit result) option" where
  "adjust_resource m res s n = raw_adjust_resource m res s n"

section \<open>The tree the links describe\<close>

text \<open>
  \<open>kids r\<close> are the children of \<open>r\<close>. A well-formed tree: the links of every resource lead through its children,
  whose parent it is, their ranges are not empty, lie in its own and follow each other without overlap, and no
  resource is below itself.
\<close>

type_synonym kids = "nat \<Rightarrow> nat list"

definition ranked :: "kids \<Rightarrow> bool" where
  "ranked kids \<longleftrightarrow> (\<exists>rank :: nat \<Rightarrow> nat. \<forall>r. \<forall>c\<in>set (kids r). rank c < rank r)"

definition within :: "res_mem \<Rightarrow> nat \<Rightarrow> nat \<Rightarrow> bool" where
  "within m c r \<longleftrightarrow> rstart m r \<le> rstart m c \<and> rstart m c \<le> rend m c \<and> rend m c \<le> rend m r"

definition below :: "res_mem \<Rightarrow> nat \<Rightarrow> nat \<Rightarrow> bool" where
  "below m a b \<longleftrightarrow> rend m a < rstart m b"

definition tree_ok :: "res_mem \<Rightarrow> kids \<Rightarrow> bool" where
  "tree_ok m kids \<longleftrightarrow>
     (\<forall>r. links (sibling m) (child m r) (kids r)) \<and>
     (\<forall>r. \<forall>c\<in>set (kids r). parent m c = Some r) \<and>
     (\<forall>r. \<forall>c\<in>set (kids r). within m c r) \<and>
     (\<forall>r. sorted_wrt (below m) (kids r)) \<and>
     ranked kids"

definition unlinked :: "kids \<Rightarrow> nat \<Rightarrow> bool" where
  "unlinked kids n \<longleftrightarrow> kids n = [] \<and> (\<forall>r. n \<notin> set (kids r))"

lemma tree_okI:
  assumes "\<And>r. links (sibling m) (child m r) (kids r)" "\<And>r c. c \<in> set (kids r) \<Longrightarrow> parent m c = Some r"
    "\<And>r c. c \<in> set (kids r) \<Longrightarrow> within m c r" "\<And>r. sorted_wrt (below m) (kids r)" "ranked kids"
  shows "tree_ok m kids"
  using assms by (simp add: tree_ok_def)

lemma tree_okD:
  assumes "tree_ok m kids"
  shows "links (sibling m) (child m r) (kids r)" "c \<in> set (kids r) \<Longrightarrow> parent m c = Some r"
    "c \<in> set (kids r) \<Longrightarrow> within m c r" "sorted_wrt (below m) (kids r)" "ranked kids" "distinct (kids r)"
  using assms links_distinct [of "sibling m" "child m r" "kids r"] by (simp_all add: tree_ok_def)

lemma tree_parent_unique: "tree_ok m kids \<Longrightarrow> c \<in> set (kids r) \<Longrightarrow> c \<in> set (kids r') \<Longrightarrow> r = r'"
  by (metis tree_okD(2) option.inject)

lemma not_own_kid:
  assumes "tree_ok m kids"
  shows "r \<notin> set (kids r)"
proof -
  obtain rank :: "nat \<Rightarrow> nat" where "\<forall>r. \<forall>c\<in>set (kids r). rank c < rank r"
    using tree_okD(5) [OF assms] unfolding ranked_def by blast
  then show ?thesis using less_irrefl by blast
qed

lemma kids_nonempty_range: "tree_ok m kids \<Longrightarrow> c \<in> set (kids r) \<Longrightarrow> rstart m c \<le> rend m c"
  by (drule (1) tree_okD(3)) (simp add: within_def)

lemma unlinked_parent: "tree_ok m kids \<Longrightarrow> parent m n = None \<Longrightarrow> child m n = None \<Longrightarrow> unlinked kids n"
  using tree_okD(1) [of m kids n] tree_okD(2) [of m kids n] by (auto simp: unlinked_def)

lemma set_link_simps [simp]:
  "rstart (set_link m p q) = rstart m" "rend (set_link m p q) = rend m" "rflags (set_link m p q) = rflags m"
  "rname (set_link m p q) = rname m" "parent (set_link m p q) = parent m"
  by (cases p; simp)+

lemma set_parent_simps [simp]:
  "rstart (set_parent m r q) = rstart m" "rend (set_parent m r q) = rend m" "rflags (set_parent m r q) = rflags m"
  "rname (set_parent m r q) = rname m" "parent (set_parent m r q) = (parent m)(r := q)"
  "sibling (set_parent m r q) = sibling m" "child (set_parent m r q) = child m"
  by (simp_all add: set_parent_def)

lemma set_range_simps [simp]:
  "rstart (set_range m r x) = (rstart m)(r := fst x)" "rend (set_range m r x) = (rend m)(r := snd x)"
  "rflags (set_range m r x) = rflags m" "rname (set_range m r x) = rname m" "parent (set_range m r x) = parent m"
  "sibling (set_range m r x) = sibling m" "child (set_range m r x) = child m"
  by (simp_all add: set_range_def)

lemma within_cong [simp]:
  "within (set_link m p q) = within m" "within (set_parent m n q) = within m"
  "below (set_link m p q) = below m" "below (set_parent m n q) = below m"
  "within (m\<lparr>sibling := f\<rparr>) = within m" "within (m\<lparr>child := f\<rparr>) = within m"
  "below (m\<lparr>sibling := f\<rparr>) = below m" "below (m\<lparr>child := f\<rparr>) = below m"
  by (simp_all add: within_def below_def fun_eq_iff)

text \<open>The operations on the links leave what the resources describe alone.\<close>

definition same_data :: "res_mem \<Rightarrow> res_mem \<Rightarrow> bool" where
  "same_data m m' \<longleftrightarrow> rstart m' = rstart m \<and> rend m' = rend m \<and> rflags m' = rflags m \<and> rname m' = rname m"

text \<open>The link that follows the resources \<open>us\<close> among the children of a resource.\<close>

definition link_after :: "link \<Rightarrow> nat list \<Rightarrow> link" where
  "link_after p us = (if us = [] then p else SiblingOf (last us))"

lemma link_after_simps [simp]:
  "link_after p [] = p" "link_after p (u # us) = link_after (SiblingOf u) us" "link_after p (us @ [u]) = SiblingOf u"
  by (simp_all add: link_after_def)

lemma get_link_after: "links (sibling m) (get_link m p) (us @ vs) \<Longrightarrow> links (sibling m) (get_link m (link_after p us)) vs"
  by (induction us arbitrary: p) auto

section \<open>Linking, unlinking and grouping children\<close>

lemma link_child:
  assumes l: "links (sibling m) (child m r) (us @ vs)" and n: "n \<notin> set (us @ vs)"
  defines "p \<equiv> link_after (ChildOf r) us"
  defines "m' \<equiv> set_link (set_link m (SiblingOf n) (get_link m p)) p (Some n)"
  shows "links (sibling m') (child m' r) (us @ n # vs)"
proof (cases us rule: rev_cases)
  case Nil
  then show ?thesis using l n by (simp add: m'_def p_def)
next
  case (snoc ws w)
  then show ?thesis using links_insert_after [of "sibling m" "child m r" ws w vs n] l n
    by (simp add: m'_def p_def)
qed

lemma unlink_child:
  assumes l: "links (sibling m) (child m r) (us @ n # vs)"
  defines "m' \<equiv> set_link m (link_after (ChildOf r) us) (sibling m n)"
  shows "links (sibling m') (child m' r) (us @ vs)"
proof (cases us rule: rev_cases)
  case Nil
  then show ?thesis using l by (simp add: m'_def)
next
  case (snoc ws w)
  then show ?thesis using links_remove_after [of "sibling m" "child m r" ws w n vs] l by (simp add: m'_def)
qed

text \<open>The other resources keep their children.\<close>

lemma set_link_other:
  assumes "r' \<noteq> r" "set us \<inter> set xs = {}" "links (sibling m) (child m r') xs"
  shows "links (sibling (set_link m (link_after (ChildOf r) us) q)) (child (set_link m (link_after (ChildOf r) us) q) r') xs"
proof (cases us rule: rev_cases)
  case Nil
  then show ?thesis using assms by simp
next
  case (snoc ws w)
  then show ?thesis using assms by simp
qed

lemma rankedI: "(\<And>r c. c \<in> set (kids r) \<Longrightarrow> rank c < (rank r :: nat)) \<Longrightarrow> ranked kids"
  unfolding ranked_def by blast

lemma ranked_link:
  assumes "ranked kids" "unlinked kids n" "n \<noteq> r" "set xs \<subseteq> insert n (set (kids r))"
  shows "ranked (kids(r := xs))"
proof -
  obtain rank :: "nat \<Rightarrow> nat" where r: "\<forall>r. \<forall>c\<in>set (kids r). rank c < rank r" using assms(1) unfolding ranked_def by blast
  let ?rank = "\<lambda>x. if x = n then 0 else Suc (rank x)"
  have "?rank c < ?rank q" if "c \<in> set ((kids(r := xs)) q)" for q c
    using that r assms(2-4) by (cases "q = r"; cases "q = n"; cases "c = n") (auto simp: unlinked_def)
  then show ?thesis by (rule rankedI)
qed

lemma ranked_subset:
  assumes "ranked kids" "\<And>r. set (kids' r) \<subseteq> set (kids r)"
  shows "ranked kids'"
  using assms unfolding ranked_def by (meson subsetD)

lemma tree_ok_link:
  assumes t: "tree_ok m kids" and k: "kids r = us @ vs" and u: "unlinked kids n" and nr: "n \<noteq> r"
    and w: "within m n r" and b: "\<forall>u\<in>set us. below m u n" "\<forall>v\<in>set vs. below m n v"
  defines "p \<equiv> link_after (ChildOf r) us"
  defines "m' \<equiv> set_parent (set_link (set_link m (SiblingOf n) (get_link m p)) p (Some n)) n (Some r)"
  shows "tree_ok m' (kids(r := us @ n # vs))"
proof (rule tree_okI)
  have n: "n \<notin> set (kids q)" for q using u by (simp add: unlinked_def)
  fix q
  show "links (sibling m') (child m' q) ((kids(r := us @ n # vs)) q)"
  proof (cases "q = r")
    case True
    then show ?thesis using link_child [of m r us vs n] tree_okD(1) [OF t, of r] k n [of r] by (simp add: m'_def p_def)
  next
    case False
    have "set us \<inter> set (kids q) = {}" using False k tree_parent_unique [OF t, of _ q r] by auto
    moreover have "links (sibling (set_link m (SiblingOf n) (get_link m p))) (child (set_link m (SiblingOf n) (get_link m p)) q) (kids q)"
      using tree_okD(1) [OF t, of q] n [of q] by simp
    ultimately show ?thesis using False set_link_other [of q r us "kids q"] by (simp add: m'_def p_def)
  qed
  show "sorted_wrt (below m') ((kids(r := us @ n # vs)) q)"
    using tree_okD(4) [OF t, of q] k b by (auto simp: m'_def sorted_wrt_append)
  fix c
  assume c: "c \<in> set ((kids(r := us @ n # vs)) q)"
  then have "c = n \<and> q = r \<or> c \<noteq> n \<and> c \<in> set (kids q)" using k n by (auto split: if_splits)
  then show "parent m' c = Some q" "within m' c q"
    using tree_okD(2,3) [OF t, of c q] w by (auto simp: m'_def)
next
  show "ranked (kids(r := us @ n # vs))" using ranked_link [OF tree_okD(5) [OF t] u nr] k by auto
qed

lemma tree_ok_unlink:
  assumes t: "tree_ok m kids" and k: "kids r = us @ n # vs"
  defines "m' \<equiv> set_parent (set_link m (link_after (ChildOf r) us) (sibling m n)) n None"
  shows "tree_ok m' (kids(r := us @ vs))"
proof (rule tree_okI)
  have d: "n \<notin> set (us @ vs)" using tree_okD(6) [OF t, of r] k by simp
  have o: "n \<notin> set (kids q)" if "q \<noteq> r" for q using that k tree_parent_unique [OF t, of n q r] by auto
  fix q
  show "links (sibling m') (child m' q) ((kids(r := us @ vs)) q)"
  proof (cases "q = r")
    case True
    then show ?thesis using unlink_child [of m r us n vs] tree_okD(1) [OF t, of r] k by (simp add: m'_def)
  next
    case False
    have "set us \<inter> set (kids q) = {}" using False k tree_parent_unique [OF t, of _ q r] by auto
    then show ?thesis using False set_link_other [of q r us "kids q"] tree_okD(1) [OF t, of q] by (simp add: m'_def)
  qed
  show "sorted_wrt (below m') ((kids(r := us @ vs)) q)"
    using tree_okD(4) [OF t, of q] k by (auto simp: m'_def sorted_wrt_append)
  fix c
  assume "c \<in> set ((kids(r := us @ vs)) q)"
  then have "c \<noteq> n \<and> c \<in> set (kids q)" using k d o by (auto split: if_splits)
  then show "parent m' c = Some q" "within m' c q" using tree_okD(2,3) [OF t, of c q] by (auto simp: m'_def)
next
  show "ranked (kids(r := us @ vs))" by (rule ranked_subset [OF tree_okD(5) [OF t]]) (auto simp: k)
qed

section \<open>The loops\<close>

definition overlaps :: "res_mem \<Rightarrow> nat \<Rightarrow> nat \<Rightarrow> bool" where
  "overlaps m a b \<longleftrightarrow> rstart m a \<le> rend m b \<and> rstart m b \<le> rend m a"

lemma request_loop_eq:
  assumes "links (sibling m) (get_link m p) xs" "\<forall>c\<in>set xs. rstart m c \<le> rend m c" "s \<le> e"
  defines "us \<equiv> takeWhile (\<lambda>c. rend m c < s) xs" and "vs \<equiv> dropWhile (\<lambda>c. rend m c < s) xs"
  shows "request_loop m s e p = Some (if vs \<noteq> [] \<and> rstart m (hd vs) \<le> e then Inr (hd vs) else Inl (link_after p us))"
  using assms(1,2) unfolding us_def vs_def
proof (induction xs arbitrary: p)
  case Nil
  then show ?case by (subst request_loop.simps) simp
next
  case (Cons x xs)
  show ?case
  proof (cases "rend m x < s")
    case True
    moreover have "rstart m x \<le> rend m x" using Cons.prems(2) by simp
    ultimately have "\<not> rstart m x > e" using assms(3) by order
    then have "request_loop m s e p = request_loop m s e (SiblingOf x)" using True Cons.prems(1) by (subst request_loop.simps) simp
    then show ?thesis using True Cons.IH [of "SiblingOf x"] Cons.prems by simp
  next
    case False
    then show ?thesis using Cons.prems(1) by (subst request_loop.simps) auto
  qed
qed

lemma link_to_eq:
  assumes "links (sibling m) (get_link m p) xs"
  shows "link_to m old p = Some (if old \<in> set xs then Some (link_after p (takeWhile (\<lambda>c. c \<noteq> old) xs)) else None)"
  using assms
proof (induction xs arbitrary: p)
  case Nil
  then show ?case by (subst link_to.simps) simp
next
  case (Cons x xs)
  show ?case
  proof (cases "x = old")
    case True
    then show ?thesis using Cons.prems by (subst link_to.simps) simp
  next
    case False
    then have "link_to m old p = link_to m old (SiblingOf x)" using Cons.prems by (subst link_to.simps) simp
    then show ?thesis using False Cons by simp
  qed
qed

lemma lookup_loop_eq:
  assumes "links (sibling m) p xs"
  shows "lookup_loop m s p = Some (find (\<lambda>c. rstart m c = s) xs)"
  using assms
proof (induction xs arbitrary: p)
  case Nil
  then show ?case by (subst lookup_loop.simps) simp
next
  case (Cons x xs)
  then show ?case by (subst lookup_loop.simps) simp
qed

text \<open>The children of a resource, as a request for a range splits them.\<close>

lemma split_kids:
  fixes m :: res_mem and kids :: kids and r :: nat and s e :: u64
  assumes t: "tree_ok m kids" and se: "s \<le> e"
  defines "us \<equiv> takeWhile (\<lambda>c. rend m c < s) (kids r)" and "vs \<equiv> dropWhile (\<lambda>c. rend m c < s) (kids r)"
  shows "kids r = us @ vs" "\<forall>c\<in>set us. rend m c < s" "\<forall>c\<in>set vs. s \<le> rend m c"
    "vs \<noteq> [] \<Longrightarrow> e < rstart m (hd vs) \<Longrightarrow> \<forall>c\<in>set vs. e < rstart m c"
proof -
  show k: "kids r = us @ vs" by (simp add: us_def vs_def)
  show "\<forall>c\<in>set us. rend m c < s" unfolding us_def by (blast dest: set_takeWhileD)
  have srt: "sorted_wrt (below m) vs" using tree_okD(4) [OF t, of r] k by (simp add: sorted_wrt_append)
  have ne: "rstart m c \<le> rend m c" if "c \<in> set vs" for c using that k kids_nonempty_range [OF t, of c r] by simp
  show "\<forall>c\<in>set vs. s \<le> rend m c"
  proof (cases vs)
    case (Cons v ws)
    then have "\<not> rend m v < s" unfolding vs_def by (metis hd_dropWhile list.distinct(1) list.sel(1))
    then have "s \<le> rend m v" by simp
    moreover have "rend m v \<le> rend m c" if "c \<in> set ws" for c
      using that srt Cons ne [of c] by (auto simp: below_def)
    ultimately show ?thesis using Cons by (metis order.trans set_ConsD)
  qed simp
  show "\<forall>c\<in>set vs. e < rstart m c" if "vs \<noteq> []" "e < rstart m (hd vs)"
  proof (cases vs)
    case (Cons v ws)
    have "rstart m v \<le> rend m v" using ne Cons by simp
    then show ?thesis using that srt Cons by (auto simp: below_def)
  qed simp
qed

section \<open>Requesting and releasing a resource\<close>

text \<open>The children that lie below and above a range, and the memory with the new resource between them.\<close>

definition kids_below :: "res_mem \<Rightarrow> kids \<Rightarrow> nat \<Rightarrow> nat \<Rightarrow> nat list" where
  "kids_below m kids r n = filter (\<lambda>c. below m c n) (kids r)"

definition kids_above :: "res_mem \<Rightarrow> kids \<Rightarrow> nat \<Rightarrow> nat \<Rightarrow> nat list" where
  "kids_above m kids r n = filter (\<lambda>c. below m n c) (kids r)"

definition linked_in :: "res_mem \<Rightarrow> kids \<Rightarrow> nat \<Rightarrow> nat \<Rightarrow> res_mem" where
  "linked_in m kids r n =
     (let p = link_after (ChildOf r) (kids_below m kids r n)
      in set_parent (set_link (set_link m (SiblingOf n) (get_link m p)) p (Some n)) n (Some r))"

lemma linked_in_simps [simp]:
  "rstart (linked_in m kids r n) = rstart m" "rend (linked_in m kids r n) = rend m"
  "rflags (linked_in m kids r n) = rflags m" "rname (linked_in m kids r n) = rname m"
  "parent (linked_in m kids r n) = (parent m)(n := Some r)"
  by (simp_all add: linked_in_def Let_def)

lemma kids_below_eq:
  assumes t: "tree_ok m kids" and se: "rstart m n \<le> rend m n"
  shows "kids_below m kids r n = takeWhile (\<lambda>c. rend m c < rstart m n) (kids r)"
proof -
  let ?us = "takeWhile (\<lambda>c. rend m c < rstart m n) (kids r)" and ?vs = "dropWhile (\<lambda>c. rend m c < rstart m n) (kids r)"
  have "filter (\<lambda>c. below m c n) ?vs = []" "filter (\<lambda>c. below m c n) ?us = ?us"
    using split_kids(2,3) [OF t se, of r] by (auto simp: below_def filter_empty_conv intro: filter_True)
  then show ?thesis using split_kids(1) [OF t se, of r] unfolding kids_below_def by (metis append_Nil2 filter_append)
qed

lemma no_overlap_split:
  assumes t: "tree_ok m kids" and se: "rstart m n \<le> rend m n" and none: "\<forall>c\<in>set (kids r). \<not> overlaps m n c"
  shows "kids r = kids_below m kids r n @ kids_above m kids r n"
proof -
  let ?us = "takeWhile (\<lambda>c. rend m c < rstart m n) (kids r)" and ?vs = "dropWhile (\<lambda>c. rend m c < rstart m n) (kids r)"
  have k: "kids r = ?us @ ?vs" by (rule split_kids(1) [OF t se])
  have us: "\<not> below m n c" if "c \<in> set ?us" for c
  proof -
    have "rend m c < rstart m n" using that split_kids(2) [OF t se] by blast
    moreover have "rstart m c \<le> rend m c" using that k kids_nonempty_range [OF t, of c r] by (metis Un_iff set_append)
    ultimately show ?thesis using se by (simp add: below_def)
  qed
  have vs: "below m n c" if "c \<in> set ?vs" for c
  proof -
    have "rstart m n \<le> rend m c" using that split_kids(3) [OF t se] by blast
    moreover have "\<not> overlaps m n c" using that none k by (metis Un_iff set_append)
    ultimately show ?thesis by (simp add: below_def overlaps_def)
  qed
  have "filter (\<lambda>c. below m n c) ?us = []" using us by (simp add: filter_empty_conv)
  moreover have "filter (\<lambda>c. below m n c) ?vs = ?vs" using vs by (simp add: filter_True)
  ultimately have "kids_above m kids r n = ?vs" using k unfolding kids_above_def by (metis append_Nil filter_append)
  then show ?thesis using k kids_below_eq [OF t se, of r] by simp
qed

lemma find_append_skip: "\<forall>x\<in>set us. \<not> P x \<Longrightarrow> find P (us @ vs) = find P vs"
  by (induction us) auto

lemma raw_request_eq:
  assumes t: "tree_ok m kids"
  shows "raw_request_resource m root new =
    Some (if \<not> within m new root then (m, Some root)
      else case find (overlaps m new) (kids root) of
          Some c \<Rightarrow> (m, Some c)
        | None \<Rightarrow> (linked_in m kids root new, None))"
proof (cases "within m new root")
  case False
  then show ?thesis by (auto simp: raw_request_resource_def within_def)
next
  case True
  then have se: "rstart m new \<le> rend m new" by (simp add: within_def)
  have ok: "\<not> rend m new < rstart m new" "\<not> rstart m new < rstart m root" "\<not> rend m new > rend m root"
    using True by (auto simp: within_def)
  let ?s = "rstart m new" and ?e = "rend m new"
  let ?us = "takeWhile (\<lambda>c. rend m c < ?s) (kids root)" and ?vs = "dropWhile (\<lambda>c. rend m c < ?s) (kids root)"
  note sp = split_kids [OF t se, of root]
  have loop: "request_loop m ?s ?e (ChildOf root) =
      Some (if ?vs \<noteq> [] \<and> rstart m (hd ?vs) \<le> ?e then Inr (hd ?vs) else Inl (link_after (ChildOf root) ?us))"
    using request_loop_eq [of m "ChildOf root" "kids root" ?s ?e] tree_okD(1) [OF t, of root] kids_nonempty_range [OF t] se by simp
  have us: "\<forall>c\<in>set ?us. \<not> overlaps m new c" using sp(2) by (auto simp: overlaps_def not_le)
  have f: "find (overlaps m new) (kids root) = find (overlaps m new) ?vs"
    using find_append_skip [OF us, of ?vs] sp(1) by simp
  show ?thesis
  proof (cases "?vs \<noteq> [] \<and> rstart m (hd ?vs) \<le> ?e")
    case True
    then obtain v ws where vs: "?vs = v # ws" by (meson neq_Nil_conv)
    then have "overlaps m new v" using True sp(3) by (simp add: overlaps_def)
    then show ?thesis using loop f vs \<open>within m new root\<close> True by (simp add: raw_request_resource_def ok)
  next
    case False
    have "\<not> overlaps m new c" if c: "c \<in> set ?vs" for c
    proof -
      have ne: "?vs \<noteq> []" using c by (metis empty_iff list.set(1))
      then have "?e < rstart m (hd ?vs)" using False by (metis not_le)
      then show ?thesis using sp(4) [OF ne] c by (meson overlaps_def not_le)
    qed
    then have "find (overlaps m new) (kids root) = None" using f by (metis find_None_iff)
    moreover have "request_loop m ?s ?e (ChildOf root) = Some (Inl (link_after (ChildOf root) ?us))"
      unfolding loop using False by simp
    ultimately show ?thesis using \<open>within m new root\<close> kids_below_eq [OF t se, of root]
      by (simp add: raw_request_resource_def ok linked_in_def Let_def)
  qed
qed

lemma linked_in_ok:
  assumes t: "tree_ok m kids" and u: "unlinked kids new" "new \<noteq> root" and w: "within m new root"
    and none: "find (overlaps m new) (kids root) = None"
  shows "tree_ok (linked_in m kids root new) (kids(root := kids_below m kids root new @ new # kids_above m kids root new))"
proof -
  have se: "rstart m new \<le> rend m new" using w by (simp add: within_def)
  have "\<forall>c\<in>set (kids root). \<not> overlaps m new c" using none by (metis find_None_iff)
  then have k: "kids root = kids_below m kids root new @ kids_above m kids root new" by (rule no_overlap_split [OF t se])
  show ?thesis using tree_ok_link [OF t k u w] by (simp add: kids_below_def kids_above_def linked_in_def Let_def)
qed

lemma raw_release_eq:
  assumes t: "tree_ok m kids" and par: "parent m old = Some par"
  shows "raw_release_resource m old =
    Some (if old \<in> set (kids par)
      then (set_parent (set_link m (link_after (ChildOf par) (takeWhile (\<lambda>c. c \<noteq> old) (kids par))) (sibling m old)) old None, Inr ())
      else (m, Inl EINVAL))"
  using link_to_eq [of m "ChildOf par" "kids par" old] tree_okD(1) [OF t, of par] par
  by (simp add: raw_release_resource_def)

lemma split_at: "x \<in> set xs \<Longrightarrow> distinct xs \<Longrightarrow> xs = takeWhile (\<lambda>c. c \<noteq> x) xs @ x # tl (dropWhile (\<lambda>c. c \<noteq> x) xs) \<and>
    remove1 x xs = takeWhile (\<lambda>c. c \<noteq> x) xs @ tl (dropWhile (\<lambda>c. c \<noteq> x) xs)"
  by (induction xs) auto

lemma release_ok:
  assumes t: "tree_ok m kids" and k: "old \<in> set (kids par)"
  shows "tree_ok (set_parent (set_link m (link_after (ChildOf par) (takeWhile (\<lambda>c. c \<noteq> old) (kids par))) (sibling m old)) old None)
    (kids(par := remove1 old (kids par)))"
  using tree_ok_unlink [OF t, of par "takeWhile (\<lambda>c. c \<noteq> old) (kids par)" old "tl (dropWhile (\<lambda>c. c \<noteq> old) (kids par))"]
    split_at [OF k tree_okD(6) [OF t]] by simp

section \<open>Inserting a resource\<close>

lemma adopt_loop_eq:
  assumes "links (sibling m) p xs"
  shows "adopt_loop m new p = Some (m\<lparr>parent := (\<lambda>x. if x \<in> set xs then Some new else parent m x)\<rparr>)"
  using assms
proof (induction xs arbitrary: p m)
  case Nil
  then show ?case by (subst adopt_loop.simps) simp
next
  case (Cons x xs)
  let ?m = "set_parent m x (Some new)"
  have "adopt_loop m new p = adopt_loop ?m new (sibling m x)" using Cons.prems by (subst adopt_loop.simps) simp
  moreover have "?m\<lparr>parent := (\<lambda>y. if y \<in> set xs then Some new else parent ?m y)\<rparr> =
      m\<lparr>parent := (\<lambda>y. if y \<in> set (x # xs) then Some new else parent m y)\<rparr>"
    by (auto simp: set_parent_def intro!: arg_cong [where f = "\<lambda>q. m\<lparr>parent := q\<rparr>"])
  ultimately show ?case using Cons.IH [of ?m "sibling m x"] Cons.prems by simp
qed

lemma sibling_before_eq:
  assumes "links (sibling m) (Some c) (us @ f # zs)" "us \<noteq> []"
  shows "sibling_before m f c = Some (last us)"
  using assms
proof (induction us arbitrary: c)
  case (Cons u us)
  show ?case
  proof (cases "us = []")
    case True
    then show ?thesis using Cons.prems by (subst sibling_before.simps) simp
  next
    case False
    then obtain v ws where us: "us = v # ws" by (meson neq_Nil_conv)
    have "distinct (u # v # ws @ f # zs)" using links_distinct [OF Cons.prems(1)] us by simp
    then have "sibling_before m f c = sibling_before m f v" using Cons.prems us by (subst sibling_before.simps) auto
    then show ?thesis using Cons.IH [of v] Cons.prems us by simp
  qed
qed simp

definition sticks_out :: "res_mem \<Rightarrow> nat \<Rightarrow> nat \<Rightarrow> bool" where
  "sticks_out m new c \<longleftrightarrow> rstart m c < rstart m new \<or> rend m c > rend m new"

lemma cover_loop_eq:
  assumes "links (sibling m) (sibling m f) xs"
  shows "cover_loop m new f =
    (let cs = f # takeWhile (\<lambda>c. \<not> rstart m c > rend m new) xs
     in Some (case find (sticks_out m new) cs of Some x \<Rightarrow> Inl x | None \<Rightarrow> Inr (last cs)))"
  using assms
proof (induction xs arbitrary: f)
  case Nil
  then show ?case by (subst cover_loop.simps) (simp add: sticks_out_def)
next
  case (Cons x xs)
  show ?case
  proof (cases "sticks_out m new f \<or> rstart m x > rend m new")
    case True
    then show ?thesis using Cons.prems by (subst cover_loop.simps) (auto simp: sticks_out_def)
  next
    case False
    then have "cover_loop m new f = cover_loop m new x"
      using Cons.prems by (subst cover_loop.simps) (simp add: sticks_out_def)
    then show ?thesis using Cons.IH [of x] Cons.prems False by (simp add: Let_def split: option.splits)
  qed
qed

lemma links_cut: "links nx p (xs @ x # vs) \<Longrightarrow> links (nx(x := None)) p (xs @ [x])"
  using links_relink [of nx p xs x vs "nx(x := None)" None "[]"] links_distinct [of nx p "xs @ x # vs"] by auto

lemma ranked_group:
  assumes "ranked kids" "unlinked kids n" "n \<noteq> r" "kids r = us @ cs @ vs"
  shows "ranked (kids(r := us @ n # vs, n := cs))"
proof -
  obtain rank :: "nat \<Rightarrow> nat" where r: "\<forall>r. \<forall>c\<in>set (kids r). rank c < rank r" using assms(1) unfolding ranked_def by blast
  let ?rank = "\<lambda>x. if x = n then 2 * rank r + 1 else 2 * rank x + 2"
  have n: "n \<notin> set (kids q)" for q using assms(2) by (simp add: unlinked_def)
  have "?rank c < ?rank q" if c: "c \<in> set ((kids(r := us @ n # vs, n := cs)) q)" for q c
  proof -
    consider "q = n" "c \<in> set (kids r)" | "q = r" "c = n" | "q \<noteq> n" "c \<in> set (kids q)"
      using c assms(3,4) by (auto split: if_splits)
    then show ?thesis
    proof cases
      case 1
      then have "rank c < rank r" using r by blast
      then show ?thesis using 1 n by auto
    next
      case 2
      then show ?thesis using assms(3) by simp
    next
      case 3
      then have "rank c < rank q" using r by blast
      then show ?thesis using 3 n by auto
    qed
  qed
  then show ?thesis by (rule rankedI)
qed

text \<open>The memory after the children \<open>cs\<close> of \<open>q\<close>, which follow \<open>us\<close>, have become children of the new resource.\<close>

definition grouped :: "res_mem \<Rightarrow> nat \<Rightarrow> nat list \<Rightarrow> nat list \<Rightarrow> nat \<Rightarrow> res_mem" where
  "grouped m q us cs n =
     (let m3 = set_link (set_link (set_link (set_parent m n (Some q)) (SiblingOf n) (sibling m (last cs))) (ChildOf n) (Some (hd cs)))
           (SiblingOf (last cs)) None
      in set_link (m3\<lparr>parent := (\<lambda>x. if x \<in> set cs then Some n else parent m3 x)\<rparr>) (link_after (ChildOf q) us) (Some n))"

lemma grouped_simps [simp]:
  "rstart (grouped m q us cs n) = rstart m" "rend (grouped m q us cs n) = rend m"
  "rflags (grouped m q us cs n) = rflags m" "rname (grouped m q us cs n) = rname m"
  "parent (grouped m q us cs n) = (\<lambda>x. if x \<in> set cs then Some n else if x = n then Some q else parent m x)"
  by (auto simp: grouped_def Let_def)

lemma grouped_links:
  "sibling (grouped m q us cs n) =
     (let nx = (sibling m)(n := sibling m (last cs), last cs := None) in if us = [] then nx else nx(last us := Some n))"
  "child (grouped m q us cs n) =
     (let ch = (child m)(n := Some (hd cs)) in if us = [] then ch(q := Some n) else ch)"
  by (simp_all add: grouped_def Let_def link_after_def)

lemma grouped_chain:
  assumes l: "links nx p (us @ cs @ vs)" and cs: "cs \<noteq> []" and n: "n \<notin> set (us @ cs @ vs)"
  defines "nx' \<equiv> (let nx = nx(n := nx (last cs), last cs := None) in if us = [] then nx else nx(last us := Some n))"
  shows "links nx' (if us = [] then Some n else p) (us @ n # vs)" "links nx' (Some (hd cs)) cs"
proof -
  obtain ds d where d: "cs = ds @ [d]" using cs by (metis rev_exhaust)
  have dist: "distinct (us @ cs @ vs)" using links_distinct [OF l] .
  have nd: "n \<noteq> d" "d \<notin> set us" "d \<notin> set vs" using n d dist by auto
  have lu: "last us \<notin> set vs \<and> last us \<notin> set cs \<and> last us \<noteq> n" if "us \<noteq> []"
  proof -
    have "last us \<in> set us" using that by simp
    then show ?thesis using dist n by (metis Un_iff disjoint_iff distinct_append set_append)
  qed
  have "links nx (nx d) vs" using links_mid [of nx p "us @ cs" vs] l d by simp
  then have "links nx' (nx d) vs" using nd n lu d by (cases "us = []") (auto simp: nx'_def Let_def)
  then have nvs: "links nx' (Some n) (n # vs)" using nd lu d by (cases "us = []") (auto simp: nx'_def Let_def)
  show "links nx' (if us = [] then Some n else p) (us @ n # vs)"
  proof (cases us rule: rev_cases)
    case Nil
    then show ?thesis using nvs by simp
  next
    case (snoc ws w)
    have "\<forall>b\<in>set ws. nx' b = nx b" using snoc nd n dist d by (auto simp: nx'_def Let_def)
    moreover have "nx' w = Some n" using snoc by (simp add: nx'_def Let_def)
    ultimately show ?thesis using links_relink [of nx p ws w "cs @ vs" nx' "Some n" "n # vs"] l snoc nvs by simp
  qed
  have "links nx (Some (hd cs)) (cs @ vs)"
    using links_append [of nx p us "hd cs" "tl cs @ vs"] l cs by (metis append_Cons list.collapse)
  then have "links (nx(d := None)) (Some (hd cs)) cs" using links_cut [of nx "Some (hd cs)" ds d vs] d by simp
  moreover have "\<forall>b\<in>set cs. (nx(d := None)) b = nx' b" using n lu d nd by (cases "us = []") (auto simp: nx'_def Let_def)
  ultimately show "links nx' (Some (hd cs)) cs" using links_cong by blast
qed

lemma tree_ok_group:
  assumes t: "tree_ok m kids" and k: "kids q = us @ cs @ vs" and cs: "cs \<noteq> []" and u: "unlinked kids n" and nq: "n \<noteq> q"
    and w: "within m n q" "\<forall>c\<in>set cs. within m c n" and b: "\<forall>u\<in>set us. below m u n" "\<forall>v\<in>set vs. below m n v"
  shows "tree_ok (grouped m q us cs n) (kids(q := us @ n # vs, n := cs))"
proof (rule tree_okI)
  let ?m = "grouped m q us cs n" and ?k = "kids(q := us @ n # vs, n := cs)"
  have n: "n \<notin> set (kids r)" for r using u by (simp add: unlinked_def)
  have other: "set (kids r) \<inter> set (kids q) = {}" if "r \<noteq> q" for r using that tree_parent_unique [OF t, of _ r q] by blast
  have eqs: "within ?m = within m" "below ?m = below m" by (simp_all add: within_def below_def fun_eq_iff)
  note ch = grouped_chain [of "sibling m" "child m q" us cs vs n, OF _ cs, folded grouped_links(1) [of m q us cs n]]
  fix r
  consider "r = q" | "r = n" | "r \<noteq> q" "r \<noteq> n" by blast
  then show "links (sibling ?m) (child ?m r) (?k r)"
  proof cases
    case 1
    then show ?thesis using ch(1) tree_okD(1) [OF t, of q] k n [of q] nq by (simp add: grouped_links(2) Let_def split: if_splits)
  next
    case 2
    then show ?thesis using ch(2) tree_okD(1) [OF t, of q] k n [of q] nq by (cases "us = []") (simp_all add: grouped_links(2) Let_def)
  next
    case 3
    have "last cs \<notin> set (kids r)" "us \<noteq> [] \<longrightarrow> last us \<notin> set (kids r)"
      using other [OF 3(1)] k cs last_in_set [of cs] last_in_set [of us] by auto
    then show ?thesis using 3 n [of r] tree_okD(1) [OF t, of r] by (simp add: grouped_links Let_def)
  qed
  show "sorted_wrt (below ?m) (?k r)"
    using tree_okD(4) [OF t, of r] tree_okD(4) [OF t, of q] k b by (auto simp: eqs sorted_wrt_append)
  fix c
  assume c: "c \<in> set (?k r)"
  have dq: "distinct (us @ cs @ vs)" using tree_okD(6) [OF t, of q] k by simp
  consider "r = n" "c \<in> set cs" | "r = q" "c = n" | "r \<noteq> n" "c \<in> set (kids r)" "c \<notin> set cs" "c \<noteq> n"
    using c k nq n [of q] n [of r] dq other [of r] by (auto split: if_splits)
  then show "parent ?m c = Some r" "within ?m c r"
    using w n [of q] k tree_okD(2,3) [OF t, of c r] by (cases; auto simp: eqs)+
next
  show "ranked (kids(q := us @ n # vs, n := cs))" by (rule ranked_group [OF tree_okD(5) [OF t] u nq k])
qed

text \<open>The resources in the tree below a resource, itself included.\<close>

abbreviation reach :: "kids \<Rightarrow> nat \<Rightarrow> nat \<Rightarrow> bool" where
  "reach kids \<equiv> (\<lambda>a b. b \<in> set (kids a))\<^sup>*\<^sup>*"

lemma reach_not_unlinked: "reach kids r q \<Longrightarrow> unlinked kids n \<Longrightarrow> n \<noteq> r \<Longrightarrow> n \<noteq> q"
  by (induction rule: rtranclp_induct) (auto simp: unlinked_def)

definition stops_at :: "res_mem \<Rightarrow> nat \<Rightarrow> nat \<Rightarrow> bool" where
  "stops_at m new f \<longleftrightarrow>
     rstart m f > rstart m new \<or> rend m f < rend m new \<or> rstart m f = rstart m new \<and> rend m f = rend m new"

lemma insert_descend_cases:
  assumes t: "tree_ok m kids" and u: "unlinked kids new"
  shows "new \<noteq> par \<Longrightarrow>
    \<not> within m new par \<and> insert_descend m par new = Some (m, Inl (Some par)) \<or>
    (\<exists>q. reach kids par q \<and> within m new q \<and>
      (find (overlaps m new) (kids q) = None \<and> insert_descend m par new = Some (linked_in m kids q new, Inl None) \<or>
       (\<exists>f. find (overlaps m new) (kids q) = Some f \<and> stops_at m new f \<and> insert_descend m par new = Some (m, Inr (q, f)))))"
proof -
  obtain rank :: "nat \<Rightarrow> nat" where r: "\<forall>r. \<forall>c\<in>set (kids r). rank c < rank r"
    using tree_okD(5) [OF t] unfolding ranked_def by blast
  show "new \<noteq> par \<Longrightarrow> ?thesis"
  proof (induction "rank par" arbitrary: par rule: less_induct)
    case less
    note step = insert_descend.simps [of m par new, unfolded raw_request_eq [OF t]]
    show ?case
    proof (cases "within m new par \<and> find (overlaps m new) (kids par) \<noteq> None")
      case False
      then show ?thesis using step by (cases "within m new par") (auto intro!: exI [of _ par])
    next
      case True
      then obtain f where f: "find (overlaps m new) (kids par) = Some f" by auto
      have fk: "f \<in> set (kids par)" using f by (metis find_Some_iff nth_mem)
      have ne: "f \<noteq> par" "f \<noteq> new" using fk not_own_kid [OF t, of par] u by (auto simp: unlinked_def)
      show ?thesis
      proof (cases "stops_at m new f")
        case stop: True
        then have "insert_descend m par new = Some (m, Inr (par, f))" using step True f ne by (auto simp: stops_at_def)
        then show ?thesis using True f stop by blast
      next
        case False
        then have d: "insert_descend m par new = insert_descend m f new" using step True f ne by (auto simp: stops_at_def)
        have "within m new f" using False True by (auto simp: stops_at_def within_def not_less)
        moreover have "reach kids par q" if "reach kids f q" for q
          using fk that by (rule converse_rtranclp_into_rtranclp)
        ultimately show ?thesis using less.hyps [of f] r fk ne d by metis
      qed
    qed
  qed
qed

text \<open>The children a range overlaps stand together; the split of the children around them.\<close>

lemma overlap_split:
  assumes t: "tree_ok m kids" and se: "rstart m n \<le> rend m n" and f: "find (overlaps m n) (kids q) = Some f"
  obtains us xs where "kids q = us @ f # xs" "us = kids_below m kids q n"
    "\<forall>c\<in>set (f # takeWhile (\<lambda>c. \<not> rstart m c > rend m n) xs). overlaps m n c"
    "\<forall>c\<in>set (dropWhile (\<lambda>c. \<not> rstart m c > rend m n) xs). below m n c"
proof -
  define us where "us = takeWhile (\<lambda>c. rend m c < rstart m n) (kids q)"
  define vs where "vs = dropWhile (\<lambda>c. rend m c < rstart m n) (kids q)"
  note sp = split_kids [OF t se, of q, folded us_def vs_def]
  have "\<forall>c\<in>set us. \<not> overlaps m n c" using sp(2) by (auto simp: overlaps_def not_le)
  then have fv: "find (overlaps m n) vs = Some f" using find_append_skip [of us "overlaps m n" vs] sp(1) f by simp
  then obtain v xs where vs: "vs = v # xs" by (cases vs) auto
  have fo: "overlaps m n f" using f by (metis find_Some_iff)
  have "f = v"
  proof (rule ccontr)
    assume "f \<noteq> v"
    then have "\<not> overlaps m n v" using fv vs by (auto split: if_splits)
    then have "rend m n < rstart m v" using sp(3) vs by (auto simp: overlaps_def not_le)
    moreover have "f \<in> set vs" using fv by (metis find_Some_iff nth_mem)
    ultimately show False using sp(4) vs fo by (auto simp: overlaps_def)
  qed
  then have k: "kids q = us @ f # xs" using sp(1) vs by simp
  let ?ts = "takeWhile (\<lambda>c. \<not> rstart m c > rend m n) xs" and ?ds = "dropWhile (\<lambda>c. \<not> rstart m c > rend m n) xs"
  have "overlaps m n c" if "c \<in> set (f # ?ts)" for c
  proof -
    have "c \<in> set vs" using that vs \<open>f = v\<close> by (auto dest: set_takeWhileD)
    then have "rstart m n \<le> rend m c" using sp(3) by blast
    then show ?thesis using that fo by (auto simp: overlaps_def dest: set_takeWhileD)
  qed
  moreover have "below m n c" if c: "c \<in> set ?ds" for c
  proof (cases ?ds)
    case (Cons d ds)
    have "sorted_wrt (below m) xs" using tree_okD(4) [OF t, of q] unfolding k sorted_wrt_append by simp
    then have "sorted_wrt (below m) ?ds" by (metis sorted_wrt_append takeWhile_dropWhile_id)
    then have "c = d \<or> rend m d < rstart m c" using c Cons by (auto simp: below_def)
    moreover have "rend m n < rstart m d" using hd_dropWhile [of "\<lambda>c. \<not> rstart m c > rend m n" xs] Cons by simp
    moreover have "d \<in> set (kids q)" using k Cons by (metis Un_iff append.assoc append_Cons in_set_conv_decomp set_append takeWhile_dropWhile_id)
    then have "rstart m d \<le> rend m d" by (rule kids_nonempty_range [OF t])
    ultimately show ?thesis unfolding below_def by (metis order.strict_trans order.strict_trans2)
  next
    case Nil
    then show ?thesis using c by (metis empty_iff list.set(1))
  qed
  ultimately show ?thesis using that [OF k] kids_below_eq [OF t se, of q, folded us_def] by auto
qed

definition covered :: "res_mem \<Rightarrow> kids \<Rightarrow> nat \<Rightarrow> nat \<Rightarrow> nat list" where
  "covered m kids r n = filter (\<lambda>c. within m c n) (kids r)"

definition inserted_kids :: "res_mem \<Rightarrow> kids \<Rightarrow> nat \<Rightarrow> nat \<Rightarrow> kids" where
  "inserted_kids m kids r n =
     kids(r := kids_below m kids r n @ n # kids_above m kids r n, n := covered m kids r n)"

text \<open>The last part of \<^verbatim>\<open>__insert_resource\<close>, which moves the covered children below the new resource.\<close>

lemma raw_insert_group:
  assumes t: "tree_ok m kids" and k: "kids q = us @ cs @ vs" and cs: "cs \<noteq> []" and u: "unlinked kids n" and nq: "n \<noteq> q"
    and d: "insert_descend m par0 n = Some (m, Inr (q, hd cs))" and c: "cover_loop m n (hd cs) = Some (Inr (last cs))"
  shows "raw_insert_resource m par0 n = Some (grouped m q us cs n, None)"
proof -
  let ?m3 = "set_link (set_link (set_link (set_parent m n (Some q)) (SiblingOf n) (sibling m (last cs))) (ChildOf n) (Some (hd cs)))
           (SiblingOf (last cs)) None"
  let ?m4 = "?m3\<lparr>parent := (\<lambda>x. if x \<in> set cs then Some n else parent ?m3 x)\<rparr>"
  have l: "links (sibling m) (child m q) (us @ cs @ vs)" using tree_okD(1) [OF t, of q] k by simp
  have n: "n \<notin> set (us @ cs @ vs)" using u k by (metis unlinked_def)
  obtain ds d where ds: "cs = ds @ [d]" using cs by (metis rev_exhaust)
  then have "links ((sibling m)(last cs := None)) (child m q) (us @ cs)"
    using links_cut [of "sibling m" "child m q" "us @ ds" d vs] l by simp
  moreover have "\<forall>b\<in>set (us @ cs). ((sibling m)(last cs := None)) b = sibling ?m3 b" using n by auto
  ultimately have "links (sibling ?m3) (child m q) (us @ cs)" using links_cong by blast
  then have cut: "links (sibling ?m3) (child m q) (us @ hd cs # tl cs)" using cs by (metis list.collapse)
  then have "links (sibling ?m3) (Some (hd cs)) cs" using cs by (metis links_append list.collapse)
  then have ad: "adopt_loop ?m3 n (Some (hd cs)) = Some ?m4" by (rule adopt_loop_eq)
  have r: "raw_insert_resource m par0 n =
      (if child ?m4 q = Some (hd cs) then Some (set_link ?m4 (ChildOf q) (Some n), None)
       else do { x \<leftarrow> child ?m4 q; b \<leftarrow> sibling_before ?m4 (hd cs) x; Some (set_link ?m4 (SiblingOf b) (Some n), None) })"
    unfolding raw_insert_resource_def d bind.simps prod.case sum.case c Let_def ad ..
  have g: "grouped m q us cs n = set_link ?m4 (link_after (ChildOf q) us) (Some n)" unfolding grouped_def Let_def ..
  have c4: "child ?m4 q = child m q" using nq by simp
  show ?thesis
  proof (cases us)
    case Nil
    then have "child m q = Some (hd cs)" using l cs by (cases cs) auto
    then show ?thesis unfolding r g c4 using Nil by (simp only: link_after_simps if_True simp_thms)
  next
    case (Cons v ws)
    have "hd cs \<in> set cs" using cs by simp
    then have ch: "child m q = Some v" "v \<noteq> hd cs" using Cons l links_distinct [OF l] by auto
    have "sibling_before ?m4 (hd cs) v = Some (last us)" using sibling_before_eq [of ?m4 v us "hd cs" "tl cs"] cut ch(1) Cons by simp
    then show ?thesis unfolding r g c4 ch(1) bind.simps using ch(2) Cons
      by (simp only: link_after_def bind.simps option.inject list.distinct if_False)
  qed
qed

lemma filter_three:
  assumes "\<forall>x\<in>set us. P x \<and> \<not> Q x \<and> \<not> R x" "\<forall>x\<in>set cs. \<not> P x \<and> Q x \<and> \<not> R x" "\<forall>x\<in>set vs. \<not> P x \<and> \<not> Q x \<and> R x"
  shows "filter P (us @ cs @ vs) = us" "filter Q (us @ cs @ vs) = cs" "filter R (us @ cs @ vs) = vs"
proof -
  have "filter P us = us" "filter P cs = []" "filter P vs = []" "filter Q us = []" "filter Q cs = cs" "filter Q vs = []"
    "filter R us = []" "filter R cs = []" "filter R vs = vs"
    using assms by (auto simp: filter_empty_conv intro: filter_True)
  then show "filter P (us @ cs @ vs) = us" "filter Q (us @ cs @ vs) = cs" "filter R (us @ cs @ vs) = vs" by simp_all
qed

lemma below_excludes:
  assumes "rstart m a \<le> rend m a" "rstart m b \<le> rend m b" "below m a b"
  shows "\<not> below m b a" "\<not> within m a b" "\<not> within m b a"
proof -
  show "\<not> below m b a" using assms unfolding below_def by order
  show "\<not> within m a b" using assms unfolding below_def within_def by (metis leD order.strict_trans1)
  show "\<not> within m b a" using assms unfolding below_def within_def by (metis leD order.strict_trans2)
qed

lemma within_excludes:
  assumes "within m a b"
  shows "\<not> below m a b" "\<not> below m b a"
proof -
  have "rstart m b \<le> rstart m a" "rstart m a \<le> rend m a" "rend m a \<le> rend m b" using assms by (simp_all add: within_def)
  then show "\<not> below m a b" "\<not> below m b a" unfolding below_def by order+
qed

lemma kids_three:
  assumes kq: "kids q = us @ cs @ vs" and se: "rstart m new \<le> rend m new"
    and ne: "\<forall>c\<in>set us \<union> set cs \<union> set vs. rstart m c \<le> rend m c"
    and us: "\<forall>c\<in>set us. below m c new" and cs: "\<forall>c\<in>set cs. within m c new" and vs: "\<forall>c\<in>set vs. below m new c"
  shows "filter (\<lambda>c. below m c new) (kids q) = us" "filter (\<lambda>c. within m c new) (kids q) = cs" "filter (\<lambda>c. below m new c) (kids q) = vs"
proof -
  have u: "\<forall>c\<in>set us. below m c new \<and> \<not> within m c new \<and> \<not> below m new c"
    using us ne below_excludes [OF _ se] by blast
  have c: "\<forall>c\<in>set cs. \<not> below m c new \<and> within m c new \<and> \<not> below m new c"
    using cs within_excludes [of m _ new] by blast
  have v: "\<forall>c\<in>set vs. \<not> below m c new \<and> \<not> within m c new \<and> below m new c"
    using vs ne below_excludes [OF se] by blast
  show "filter (\<lambda>c. below m c new) (kids q) = us" "filter (\<lambda>c. within m c new) (kids q) = cs" "filter (\<lambda>c. below m new c) (kids q) = vs"
    unfolding kq by (rule filter_three [OF u c v])+
qed

lemma sticks_out_not_within:
  assumes t: "tree_ok m kids" and k: "kids q = us @ f # xs" and st: "stops_at m new f"
    and ov: "overlaps m new f" and x: "x = f \<or> x \<in> set xs" "sticks_out m new x"
  shows "\<not> within m new x"
proof (cases "x = f")
  case True
  then show ?thesis using x st by (auto simp: within_def sticks_out_def stops_at_def)
next
  case False
  then have "below m f x" using x(1) tree_okD(4) [OF t, of q] unfolding k by (simp add: sorted_wrt_append)
  moreover have "rstart m new \<le> rend m f" using ov by (simp add: overlaps_def)
  ultimately show ?thesis by (auto simp: within_def below_def)
qed

lemma insert_at_conflict:
  assumes t: "tree_ok m kids" and u: "unlinked kids new" and nq: "new \<noteq> q" and w: "within m new q"
    and f: "find (overlaps m new) (kids q) = Some f" and st: "stops_at m new f"
    and d: "insert_descend m par0 new = Some (m, Inr (q, f))"
  shows "(\<exists>x\<in>set (kids q). overlaps m new x \<and> \<not> within m x new \<and> \<not> within m new x \<and> raw_insert_resource m par0 new = Some (m, Some x)) \<or>
    (\<exists>m'. raw_insert_resource m par0 new = Some (m', None) \<and> tree_ok m' (inserted_kids m kids q new) \<and>
      same_data m m' \<and> (\<forall>c\<in>set (kids q). overlaps m new c \<longrightarrow> within m c new))"
proof -
  have se: "rstart m new \<le> rend m new" using w by (simp add: within_def)
  obtain us xs where k: "kids q = us @ f # xs" and us: "us = kids_below m kids q new"
    and ov: "\<forall>c\<in>set (f # takeWhile (\<lambda>c. \<not> rstart m c > rend m new) xs). overlaps m new c"
    and ab: "\<forall>c\<in>set (dropWhile (\<lambda>c. \<not> rstart m c > rend m new) xs). below m new c"
    by (rule overlap_split [OF t se f])
  define cs where "cs = f # takeWhile (\<lambda>c. \<not> rstart m c > rend m new) xs"
  define vs where "vs = dropWhile (\<lambda>c. \<not> rstart m c > rend m new) xs"
  have kq: "kids q = us @ cs @ vs" using k by (simp add: cs_def vs_def)
  have ne: "rstart m c \<le> rend m c" if "c \<in> set us \<union> set cs \<union> set vs" for c
    using that kq kids_nonempty_range [OF t, of c q] by auto
  have "links (sibling m) (sibling m f) xs" using links_append [of "sibling m" "child m q" us f xs] tree_okD(1) [OF t, of q] k by simp
  then have cov: "cover_loop m new f = Some (case find (sticks_out m new) cs of Some x \<Rightarrow> Inl x | None \<Rightarrow> Inr (last cs))"
    using cover_loop_eq [of m f xs new] unfolding cs_def by (simp only: Let_def)
  show ?thesis
  proof (cases "find (sticks_out m new) cs")
    case (Some x)
    then have x: "x \<in> set cs" "sticks_out m new x" by (metis find_Some_iff nth_mem)+
    have "raw_insert_resource m par0 new = Some (m, Some x)" using d cov Some by (simp add: raw_insert_resource_def)
    moreover have "\<not> within m new x"
      using sticks_out_not_within [OF t k st, of x] ov x by (auto simp: cs_def dest: set_takeWhileD)
    ultimately show ?thesis using x ov kq by (auto simp: cs_def within_def sticks_out_def)
  next
    case None
    then have cw: "within m c new" if "c \<in> set cs" for c
      using that ne [of c] by (auto simp: find_None_iff sticks_out_def within_def not_less)
    have ub: "\<forall>c\<in>set us. below m c new" using us by (simp add: kids_below_def)
    have va: "\<forall>c\<in>set vs. below m new c" using ab by (simp add: vs_def)
    have ne': "\<forall>c\<in>set us \<union> set cs \<union> set vs. rstart m c \<le> rend m c" and cw': "\<forall>c\<in>set cs. within m c new"
      using ne cw by blast+
    note fl = kids_three [where m = m and new = new and kids = kids and q = q, OF kq se ne' ub cw' va]
    have "raw_insert_resource m par0 new = Some (grouped m q us cs new, None)"
      by (rule raw_insert_group [OF t kq _ u nq]) (use d cov None in \<open>simp_all add: cs_def\<close>)
    moreover have "tree_ok (grouped m q us cs new) (inserted_kids m kids q new)"
      using tree_ok_group [OF t kq _ u nq w _ ub va] cw fl
      by (simp add: inserted_kids_def kids_below_def kids_above_def covered_def cs_def)
    moreover have "\<forall>c\<in>set (kids q). overlaps m new c \<longrightarrow> within m c new"
      unfolding kq using cw ub va by (auto simp: overlaps_def below_def)
    ultimately show ?thesis by (simp add: same_data_def)
  qed
qed

lemma inserted_kids_no_overlap:
  assumes "unlinked kids new" "new \<noteq> q" "rstart m new \<le> rend m new" "find (overlaps m new) (kids q) = None"
  shows "inserted_kids m kids q new = kids(q := kids_below m kids q new @ new # kids_above m kids q new)"
proof -
  have "\<not> within m c new" if "c \<in> set (kids q)" for c
  proof -
    have "\<not> overlaps m new c" using that assms(4) by (metis find_None_iff)
    then show ?thesis by (auto simp: overlaps_def within_def)
  qed
  then have "covered m kids q new = []" by (simp add: covered_def filter_empty_conv)
  then show ?thesis using assms(1,2) by (auto simp: inserted_kids_def unlinked_def)
qed

lemma raw_insert_cases:
  assumes t: "tree_ok m kids" and u: "unlinked kids new" and np: "new \<noteq> par"
  shows "\<exists>m' c. raw_insert_resource m par new = Some (m', c) \<and>
    (case c of
       Some x \<Rightarrow> m' = m \<and> (x = par \<and> \<not> within m new par \<or>
         (\<exists>q. reach kids par q \<and> x \<in> set (kids q) \<and> overlaps m new x \<and> \<not> within m x new \<and> \<not> within m new x))
     | None \<Rightarrow> \<exists>q. reach kids par q \<and> within m new q \<and> (\<forall>c\<in>set (kids q). overlaps m new c \<longrightarrow> within m c new) \<and>
         tree_ok m' (inserted_kids m kids q new) \<and> same_data m m')"
  using insert_descend_cases [OF t u np]
proof (elim disjE exE conjE)
  fix q
  assume q: "reach kids par q" "within m new q" and f: "find (overlaps m new) (kids q) = None"
    and d: "insert_descend m par new = Some (linked_in m kids q new, Inl None)"
  have nq: "new \<noteq> q" by (rule reach_not_unlinked [OF q(1) u np])
  have se: "rstart m new \<le> rend m new" using q(2) by (simp add: within_def)
  have "\<forall>c\<in>set (kids q). \<not> overlaps m new c" using f by (metis find_None_iff)
  moreover have "tree_ok (linked_in m kids q new) (inserted_kids m kids q new)"
    using linked_in_ok [OF t u nq q(2) f] inserted_kids_no_overlap [OF u nq se f] by simp
  moreover have "raw_insert_resource m par new = Some (linked_in m kids q new, None)" using d by (simp add: raw_insert_resource_def)
  ultimately show ?thesis using q by (auto simp: same_data_def)
next
  fix q f
  assume q: "reach kids par q" "within m new q" and f: "find (overlaps m new) (kids q) = Some f" "stops_at m new f"
    and d: "insert_descend m par new = Some (m, Inr (q, f))"
  have nq: "new \<noteq> q" by (rule reach_not_unlinked [OF q(1) u np])
  show ?thesis 
    using insert_at_conflict [OF t u nq q(2) f d]
  proof (elim disjE bexE exE conjE)
    fix x
    assume "x \<in> set (kids q)" "overlaps m new x" "\<not> within m x new" "\<not> within m new x"
      "raw_insert_resource m par new = Some (m, Some x)"
    then show ?thesis using q(1) by auto
  next
    fix m'
    assume "raw_insert_resource m par new = Some (m', None)" "tree_ok m' (inserted_kids m kids q new)" "same_data m m'"
      "\<forall>c\<in>set (kids q). overlaps m new c \<longrightarrow> within m c new"
    then show ?thesis using q by auto
  qed
qed (auto simp: raw_insert_resource_def)

section \<open>Adjusting a resource\<close>

lemma children_inside_eq:
  assumes "links (sibling m) p xs"
  shows "children_inside m s e p = Some (\<forall>c\<in>set xs. \<not> (rstart m c < s \<or> rend m c > e))"
  using assms
proof (induction xs arbitrary: p)
  case Nil
  then show ?case by (subst children_inside.simps) simp
next
  case (Cons x xs)
  then show ?case by (subst children_inside.simps) auto
qed

lemma tree_ok_range_iff:
  assumes t: "tree_ok m kids" and se: "s \<le> e"
  shows "tree_ok (set_range m r (s, e)) kids \<longleftrightarrow>
    (\<forall>q. r \<in> set (kids q) \<longrightarrow> rstart m q \<le> s \<and> e \<le> rend m q) \<and>
    (\<forall>c\<in>set (kids r). s \<le> rstart m c \<and> rend m c \<le> e) \<and>
    (\<forall>q. r \<in> set (kids q) \<longrightarrow> sorted_wrt (below (set_range m r (s, e))) (kids q))"
    (is "tree_ok ?m kids \<longleftrightarrow> ?in \<and> ?kids \<and> ?sorted")
proof
  assume t': "tree_ok ?m kids"
  have "rstart m q \<le> s \<and> e \<le> rend m q" if "r \<in> set (kids q)" for q
    using tree_okD(3) [OF t' that] that not_own_kid [OF t, of q] by (auto simp: within_def split: if_splits)
  moreover have "s \<le> rstart m c \<and> rend m c \<le> e" if "c \<in> set (kids r)" for c
    using tree_okD(3) [OF t' that] that not_own_kid [OF t, of r] by (auto simp: within_def split: if_splits)
  ultimately show "?in \<and> ?kids \<and> ?sorted" using tree_okD(4) [OF t'] by blast
next
  assume a: "?in \<and> ?kids \<and> ?sorted"
  show "tree_ok ?m kids"
  proof (rule tree_okI)
    fix q
    show "links (sibling ?m) (child ?m q) (kids q)" using tree_okD(1) [OF t] by simp
    show "sorted_wrt (below ?m) (kids q)"
    proof (cases "r \<in> set (kids q)")
      case False
      then show ?thesis by (intro sorted_wrt_mono_rel [OF _ tree_okD(4) [OF t, of q]]) (auto simp: below_def)
    qed (use a in blast)
    fix c
    assume c: "c \<in> set (kids q)"
    then show "parent ?m c = Some q" using tree_okD(2) [OF t] by simp
    have "c \<noteq> q" using c not_own_kid [OF t] by blast
    then show "within ?m c q" using a c tree_okD(3) [OF t c] se by (auto simp: within_def)
  qed (rule tree_okD(5) [OF t])
qed

lemma tree_ok_set_range_unlinked:
  assumes "tree_ok m kids" "unlinked kids r"
  shows "tree_ok (set_range m r x) kids"
proof (rule tree_okI)
  have n: "r \<notin> set (kids q)" "kids r = []" for q using assms(2) by (auto simp: unlinked_def)
  fix q
  show "links (sibling (set_range m r x)) (child (set_range m r x) q) (kids q)" using tree_okD(1) [OF assms(1)] by simp
  show "sorted_wrt (below (set_range m r x)) (kids q)"
    using n by (intro sorted_wrt_mono_rel [OF _ tree_okD(4) [OF assms(1), of q]]) (auto simp: below_def)
  fix c
  assume c: "c \<in> set (kids q)"
  then have "c \<noteq> r" "q \<noteq> r" using n by auto
  then show "parent (set_range m r x) c = Some q" "within (set_range m r x) c q"
    using tree_okD(2,3) [OF assms(1) c] by (auto simp: within_def)
qed (rule tree_okD(5) [OF assms(1)])

lemma sorted_last:
  assumes "sorted_wrt (below m) us" "\<forall>c\<in>set us. rstart m c \<le> rend m c" "u \<in> set us"
  shows "rend m u \<le> rend m (last us)"
proof (cases us rule: rev_cases)
  case (snoc ws w)
  then have "u = w \<or> rend m u < rstart m w" "rstart m w \<le> rend m w" using assms by (auto simp: sorted_wrt_append below_def)
  then show ?thesis using snoc by auto
qed (use assms in simp)

lemma sorted_hd:
  assumes "sorted_wrt (below m) vs" "\<forall>c\<in>set vs. rstart m c \<le> rend m c" "v \<in> set vs"
  shows "rstart m (hd vs) \<le> rstart m v"
proof (cases vs)
  case (Cons w ws)
  then have "v = w \<or> rend m w < rstart m v" "rstart m w \<le> rend m w" using assms by (auto simp: below_def)
  then show ?thesis using Cons by auto
qed (use assms in simp)

lemma sorted_adjust:
  assumes srt: "sorted_wrt (below m) (us @ r # vs)" and d: "distinct (us @ r # vs)"
    and ne: "\<forall>c\<in>set (us @ r # vs). rstart m c \<le> rend m c"
  shows "sorted_wrt (below (set_range m r (s, e))) (us @ r # vs) \<longleftrightarrow>
    (us = [] \<or> rend m (last us) < s) \<and> (vs = [] \<or> e < rstart m (hd vs))"
proof -
  let ?m = "set_range m r (s, e)"
  have o: "below ?m a b = below m a b" if "a \<noteq> r" "b \<noteq> r" for a b using that by (simp add: below_def)
  have nr: "x \<noteq> r" if "x \<in> set us \<or> x \<in> set vs" for x using that d by auto
  have su: "sorted_wrt (below m) us" and sv: "sorted_wrt (below m) vs" using srt by (simp_all add: sorted_wrt_append)
  have "sorted_wrt (below ?m) us" by (rule sorted_wrt_mono_rel [OF _ su]) (use nr o in blast)
  moreover have "sorted_wrt (below ?m) vs" by (rule sorted_wrt_mono_rel [OF _ sv]) (use nr o in blast)
  moreover have "\<forall>u\<in>set us. \<forall>v\<in>set vs. below ?m u v" using srt nr o by (auto simp: sorted_wrt_append below_def)
  moreover have "(\<forall>u\<in>set us. below ?m u r) \<longleftrightarrow> us = [] \<or> rend m (last us) < s"
  proof -
    have "below ?m u r \<longleftrightarrow> rend m u < s" if "u \<in> set us" for u using that nr by (simp add: below_def)
    moreover have "rend m u \<le> rend m (last us)" if "u \<in> set us" for u using sorted_last [OF su _ that] ne by simp
    ultimately show ?thesis by (cases "us = []") (auto intro: le_less_trans)
  qed
  moreover have "(\<forall>v\<in>set vs. below ?m r v) \<longleftrightarrow> vs = [] \<or> e < rstart m (hd vs)"
  proof -
    have "below ?m r v \<longleftrightarrow> e < rstart m v" if "v \<in> set vs" for v using that nr by (simp add: below_def)
    moreover have "rstart m (hd vs) \<le> rstart m v" if "v \<in> set vs" for v using sorted_hd [OF sv _ that] ne by simp
    ultimately show ?thesis by (cases "vs = []") (auto intro: less_le_trans)
  qed
  ultimately show ?thesis by (auto simp: sorted_wrt_append)
qed

lemma raw_adjust_eq:
  assumes t: "tree_ok m kids" and par: "\<forall>q. parent m res = Some q \<longrightarrow> res \<in> set (kids q)" and se: "s \<le> s + n - 1"
  shows "raw_adjust_resource m res s n =
    Some (if tree_ok (set_range m res (s, s + n - 1)) kids then (set_range m res (s, s + n - 1), Inr ()) else (m, Inl EBUSY))"
proof -
  define e where "e = s + n - 1"
  note iff = tree_ok_range_iff [OF t, of s e res]
  have se': "s \<le> e" using se by (simp add: e_def)
  have ch: "adjust_children m res s e =
      Some (if \<forall>c\<in>set (kids res). s \<le> rstart m c \<and> rend m c \<le> e then (set_range m res (s, e), Inr ()) else (m, Inl EBUSY))"
    using children_inside_eq [OF tree_okD(1) [OF t, of res], of s e] by (auto simp: adjust_children_def not_less)
  show ?thesis
  proof (cases "parent m res")
    case None
    then have "res \<notin> set (kids q)" for q using tree_okD(2) [OF t, of res q] by auto
    then show ?thesis using None ch iff [OF se'] unfolding raw_adjust_resource_def e_def [symmetric] Let_def by simp
  next
    case (Some q)
    then have rq: "res \<in> set (kids q)" using par by simp
    obtain us vs where k: "kids q = us @ res # vs" using split_list [OF rq] by blast
    have only: "res \<in> set (kids q') \<longleftrightarrow> q' = q" for q' using rq tree_parent_unique [OF t rq] by blast
    have srt: "sorted_wrt (below (set_range m res (s, e))) (kids q) \<longleftrightarrow> (us = [] \<or> rend m (last us) < s) \<and> (vs = [] \<or> e < rstart m (hd vs))"
      using sorted_adjust [of m us res vs s e] tree_okD(4,6) [OF t, of q] kids_nonempty_range [OF t, of _ q] unfolding k by blast
    have l: "links (sibling m) (child m q) (us @ res # vs)" using tree_okD(1) [OF t, of q] k by simp
    have sib: "sibling m res = (if vs = [] then None else Some (hd vs))" using links_append [OF l] by (cases vs) auto
    have first: "child m q = Some res \<longleftrightarrow> us = []" using l links_distinct [OF l] by (cases us) auto
    have before: "child m q = Some (hd us)" "sibling_before m res (hd us) = Some (last us)" if "us \<noteq> []"
      using that l sibling_before_eq [of m "hd us" us res vs] by (cases us; simp)+
    have "raw_adjust_resource m res s n =
        (if s < rstart m q \<or> e > rend m q then Some (m, Inl EBUSY)
         else if vs \<noteq> [] \<and> rstart m (hd vs) \<le> e then Some (m, Inl EBUSY)
         else if us \<noteq> [] \<and> s \<le> rend m (last us) then Some (m, Inl EBUSY)
         else adjust_children m res s e)"
      unfolding raw_adjust_resource_def e_def [symmetric] Let_def
      using Some sib first before by (cases "us = []"; cases "vs = []") simp_all
    moreover have "tree_ok (set_range m res (s, e)) kids \<longleftrightarrow> (rstart m q \<le> s \<and> e \<le> rend m q) \<and> (vs = [] \<or> e < rstart m (hd vs)) \<and>
        (us = [] \<or> rend m (last us) < s) \<and> (\<forall>c\<in>set (kids res). s \<le> rstart m c \<and> rend m c \<le> e)"
      unfolding iff [OF se'] only using srt by blast
    moreover have "s < rstart m q \<or> e > rend m q \<longleftrightarrow> \<not> (rstart m q \<le> s \<and> e \<le> rend m q)"
      "vs \<noteq> [] \<and> rstart m (hd vs) \<le> e \<longleftrightarrow> \<not> (vs = [] \<or> e < rstart m (hd vs))"
      "us \<noteq> [] \<and> s \<le> rend m (last us) \<longleftrightarrow> \<not> (us = [] \<or> rend m (last us) < s)" by auto
    ultimately show ?thesis unfolding ch e_def [symmetric] by presburger
  qed
qed

section \<open>Expanding a resource until it fits\<close>

lemma reach_not_kid:
  assumes t: "tree_ok m kids" and r: "reach kids a b"
  shows "a \<notin> set (kids b)"
proof -
  obtain rank :: "nat \<Rightarrow> nat" where rk: "\<forall>r. \<forall>c\<in>set (kids r). rank c < rank r"
    using tree_okD(5) [OF t] unfolding ranked_def by blast
  have "rank b \<le> rank a" using r by (induction rule: rtranclp_induct) (use rk in fastforce)+
  then show ?thesis using rk by force
qed

definition hull :: "res_mem \<Rightarrow> nat \<Rightarrow> nat \<Rightarrow> u64 \<times> u64" where
  "hull m n c = (min (rstart m n) (rstart m c), max (rend m n) (rend m c))"

lemma expand_loop_step:
  "expand_loop m root new = do {
     (m1, conflict) \<leftarrow> raw_insert_resource m root new;
     case conflict of
       None \<Rightarrow> Some m1
     | Some c \<Rightarrow> if c = root then Some m1 else expand_loop (set_range m1 new (hull m1 new c)) root new
   }"
proof -
  have h: "(if rstart m1 c < rstart m1 new then rstart m1 c else rstart m1 new,
      if rend m1 c > rend m1 new then rend m1 c else rend m1 new) = hull m1 new c" for m1 c
    by (auto simp: hull_def min_def max_def not_less)
  show ?thesis by (subst expand_loop.simps) (simp only: h)
qed

definition slack :: "res_mem \<Rightarrow> nat \<Rightarrow> nat" where
  "slack m n = unat (rstart m n) + (2 ^ 64 - unat (rend m n))"

lemma hull_slack:
  assumes "rstart m c \<le> rend m c" "\<not> within m c n"
  shows "slack (set_range m n (hull m n c)) n < slack m n"
proof -
  have b: "unat (rend m n) < 2 ^ 64" "unat (rend m c) < 2 ^ 64" by (rule unat_u64_lt)+
  have s: "unat (min (rstart m n) (rstart m c)) = min (unat (rstart m n)) (unat (rstart m c))"
    and e: "unat (max (rend m n) (rend m c)) = max (unat (rend m n)) (unat (rend m c))"
    by (simp_all add: min_def max_def word_le_nat_alt)
  have "unat (rstart m c) < unat (rstart m n) \<or> unat (rend m n) < unat (rend m c)"
    using assms by (auto simp: within_def word_le_nat_alt)
  then show ?thesis using b by (auto simp: slack_def hull_def s e)
qed

definition expanded :: "res_mem \<Rightarrow> kids \<Rightarrow> nat \<Rightarrow> nat \<Rightarrow> res_mem \<Rightarrow> bool" where
  "expanded m kids root n m' \<longleftrightarrow>
     rstart m' n \<le> rstart m n \<and> rend m n \<le> rend m' n \<and> (\<forall>r. r \<noteq> n \<longrightarrow> rstart m' r = rstart m r \<and> rend m' r = rend m r) \<and>
     (tree_ok m' kids \<and> \<not> within m' n root \<or>
      (\<exists>q. reach kids root q \<and> within m' n q \<and> tree_ok m' (inserted_kids m' kids q n)))"

lemma inserted_kids_cong: "same_data m m' \<Longrightarrow> inserted_kids m' kids q n = inserted_kids m kids q n"
  by (simp add: inserted_kids_def kids_below_def kids_above_def covered_def same_data_def below_def within_def)

lemma expand_loop_ok:
  assumes "tree_ok m kids" and u: "unlinked kids new" "new \<noteq> root"
  shows "\<exists>m'. expand_loop m root new = Some m' \<and> expanded m kids root new m'"
  using assms(1)
proof (induction "slack m new" arbitrary: m rule: less_induct)
  case less
  note t = less.prems
  obtain m1 c where r: "raw_insert_resource m root new = Some (m1, c)" and
    cases: "case c of
       Some x \<Rightarrow> m1 = m \<and> (x = root \<and> \<not> within m new root \<or>
         (\<exists>q. reach kids root q \<and> x \<in> set (kids q) \<and> overlaps m new x \<and> \<not> within m x new \<and> \<not> within m new x))
     | None \<Rightarrow> \<exists>q. reach kids root q \<and> within m new q \<and> (\<forall>c\<in>set (kids q). overlaps m new c \<longrightarrow> within m c new) \<and>
         tree_ok m1 (inserted_kids m kids q new) \<and> same_data m m1"
    using raw_insert_cases [OF t u] by blast
  show ?case
  proof (cases c)
    case None
    then obtain q where q: "reach kids root q" "within m new q" "tree_ok m1 (inserted_kids m kids q new)" "same_data m m1"
      using cases by auto
    then have "within m1 new q" by (simp add: same_data_def within_def)
    then have "expanded m kids root new m1" using q inserted_kids_cong [OF q(4)] by (auto simp: expanded_def same_data_def)
    then show ?thesis using r None by (subst expand_loop_step) simp
  next
    case (Some x)
    show ?thesis
    proof (cases "x = root")
      case True
      then have "\<not> within m new root" "m1 = m" using cases Some reach_not_kid [OF t] by auto
      then have "expanded m kids root new m1" using t by (simp add: expanded_def)
      then show ?thesis using r Some True by (subst expand_loop_step) simp
    next
      case False
      then obtain q where x: "x \<in> set (kids q)" "\<not> within m x new" and m1: "m1 = m" using cases Some by auto
      let ?m = "set_range m new (hull m new x)"
      have nx: "new \<noteq> x" using x(1) u(1) by (auto simp: unlinked_def)
      have "slack ?m new < slack m new" by (rule hull_slack [OF kids_nonempty_range [OF t x(1)] x(2)])
      then obtain m' where m': "expand_loop ?m root new = Some m'" "expanded ?m kids root new m'"
        using less.hyps tree_ok_set_range_unlinked [OF t u(1)] by blast
      have "rstart ?m new \<le> rstart m new" "rend m new \<le> rend ?m new" by (simp_all add: hull_def)
      then have "expanded m kids root new m'" using m'(2) unfolding expanded_def by (simp add: order.trans) (meson order.trans)
      moreover have "expand_loop m root new = Some m'" using r Some False m1 m'(1) by (subst expand_loop_step) simp
      ultimately show ?thesis by blast
    qed
  qed
qed

section \<open>Releasing all children\<close>

definition descendants :: "kids \<Rightarrow> nat list \<Rightarrow> nat set" where
  "descendants kids xs = {y. \<exists>x\<in>set xs. reach kids x y}"

text \<open>The resources \<open>D\<close> taken out of the tree and moved to zero.\<close>

definition detached :: "(u64 \<times> u64 \<Rightarrow> u64) \<Rightarrow> nat set \<Rightarrow> res_mem \<Rightarrow> res_mem" where
  "detached resource_size D m = m
     \<lparr>rstart := (\<lambda>x. if x \<in> D then 0 else rstart m x),
      rend := (\<lambda>x. if x \<in> D then resource_size (rstart m x, rend m x) - 1 else rend m x),
      parent := (\<lambda>x. if x \<in> D then None else parent m x),
      sibling := (\<lambda>x. if x \<in> D then None else sibling m x),
      child := (\<lambda>x. if x \<in> D then None else child m x)\<rparr>"

lemma detached_empty [simp]: "detached f {} m = m"
  by (simp add: detached_def)

lemma detached_union: "D \<inter> E = {} \<Longrightarrow> detached f E (detached f D m) = detached f (D \<union> E) m"
  by (cases m) (auto simp: detached_def fun_eq_iff)

lemma detached_one:
  assumes "x \<notin> D"
  shows "set_range (detached f D (set_link (set_link (set_parent m x None) (SiblingOf x) None) (ChildOf x) None)) x
      (0, f (rstart m x, rend m x) - 1) = detached f (insert x D) m"
  using assms by (cases m) (auto simp: detached_def set_range_def set_parent_def fun_eq_iff)

lemma descendants_Nil [simp]: "descendants kids [] = {}"
  by (simp add: descendants_def)

lemma descendants_Cons: "descendants kids (x # xs) = insert x (descendants kids (kids x)) \<union> descendants kids xs"
proof -
  have "reach kids x y \<longleftrightarrow> y = x \<or> y \<in> descendants kids (kids x)" for y
    unfolding descendants_def by (auto elim: converse_rtranclpE intro: converse_rtranclp_into_rtranclp)
  then show ?thesis by (auto simp: descendants_def)
qed

lemma descendants_kids: "y \<in> descendants kids xs \<Longrightarrow> c \<in> set (kids y) \<Longrightarrow> c \<in> descendants kids xs"
  unfolding descendants_def by (auto intro: rtranclp.rtrancl_into_rtrancl)

lemma not_own_descendant:
  assumes "tree_ok m kids"
  shows "x \<notin> descendants kids (kids x)"
  using reach_not_kid [OF assms, of _ x] unfolding descendants_def by blast

lemma reach_linear:
  assumes t: "tree_ok m kids" and "reach kids a y" "reach kids b y"
  shows "reach kids a b \<or> reach kids b a"
  using assms(2,3)
proof (induction rule: rtranclp_induct)
  case (step z y)
  from step.prems show ?case
  proof (cases rule: rtranclp.cases)
    case rtrancl_refl
    then show ?thesis using step.hyps by (auto intro: rtranclp.rtrancl_into_rtrancl)
  next
    case (rtrancl_into_rtrancl z')
    then have "z' = z" using step.hyps(2) tree_parent_unique [OF t] by blast
    then show ?thesis using step.IH rtrancl_into_rtrancl by blast
  qed
qed simp

lemma siblings_disjoint:
  assumes t: "tree_ok m kids" and k: "x \<in> set (kids q)" "x' \<in> set (kids q)" "x \<noteq> x'"
  shows "\<not> (reach kids x y \<and> reach kids x' y)"
proof -
  have no: "\<not> reach kids a b" if ab: "a \<in> set (kids q)" "b \<in> set (kids q)" "a \<noteq> b" for a b
  proof
    assume "reach kids a b"
    then obtain z where "reach kids a z" "b \<in> set (kids z)" using ab(3) by (auto elim: rtranclp.cases)
    moreover from this have "z = q" using tree_parent_unique [OF t] ab(2) by blast
    ultimately show False using reach_not_kid [OF t] ab(1) by blast
  qed
  then show ?thesis using reach_linear [OF t] k by metis
qed

lemma descendants_disjoint:
  assumes t: "tree_ok m kids" and xs: "set (x # xs) \<subseteq> set (kids q)" "distinct (x # xs)"
  shows "insert x (descendants kids (kids x)) \<inter> descendants kids xs = {}"
proof -
  have "insert x (descendants kids (kids x)) = {y. reach kids x y}"
    using descendants_Cons [of kids x "[]"] by (auto simp: descendants_def)
  then show ?thesis using siblings_disjoint [OF t, of x q] xs unfolding descendants_def by auto
qed

lemma detached_links: "set ys \<inter> D = {} \<Longrightarrow> links (sibling (detached f D m)) p ys = links (sibling m) p ys"
  by (intro links_cong) (auto simp: detached_def)

lemma release_children_eq:
  assumes t: "tree_ok m0 kids" and rk: "\<forall>r. \<forall>c\<in>set (kids r). rank c < (rank r :: nat)"
  shows "\<forall>x\<in>set xs. rank x < N \<Longrightarrow> set xs \<subseteq> set (kids q) \<Longrightarrow> distinct xs \<Longrightarrow> links (sibling m) p xs \<Longrightarrow>
    \<forall>y\<in>descendants kids xs. links (sibling m) (child m y) (kids y) \<Longrightarrow>
    release_children f m p = Some (detached f (descendants kids xs) m)"
proof (induction N arbitrary: xs q m p)
  case 0
  then show ?case by (subst release_children.simps) simp
next
  case (Suc N)
  from Suc.prems show ?case
  proof (induction xs arbitrary: m p)
    case Nil
    then show ?case by (subst release_children.simps) simp
  next
    case (Cons x xs)
    let ?D = "descendants kids (kids x)" and ?E = "descendants kids xs"
    let ?m1 = "set_link (set_link (set_parent m x None) (SiblingOf x) None) (ChildOf x) None"
    have xD: "x \<notin> ?D" by (rule not_own_descendant [OF t])
    have DE: "insert x ?D \<inter> ?E = {}" using descendants_disjoint [OF t, of x xs q] Cons.prems(2,3) by simp
    have sub: "insert x ?D \<union> ?E = descendants kids (x # xs)" by (rule descendants_Cons [symmetric])
    have l: "links (sibling m) (child m y) (kids y)" if "y \<in> insert x ?D \<union> ?E" for y using that Cons.prems(5) sub by blast
    have kx: "x \<notin> set (kids y)" if "y \<in> ?D" for y using descendants_kids [OF that, of x] xD by blast
    have "release_children f ?m1 (child m x) = Some (detached f ?D ?m1)"
    proof (rule Suc.IH [where q = x])
      show "\<forall>c\<in>set (kids x). rank c < N" using rk Cons.prems(1) by force
      have "x \<notin> set (kids x)" by (rule not_own_kid [OF t])
      then show "links (sibling ?m1) (child m x) (kids x)" using l [of x] by simp
      show "\<forall>y\<in>?D. links (sibling ?m1) (child ?m1 y) (kids y)" using l kx xD by auto
    qed (use tree_okD(6) [OF t] in simp_all)
    moreover have "rstart (detached f ?D ?m1) x = rstart m x" "rend (detached f ?D ?m1) x = rend m x"
      using xD by (simp_all add: detached_def)
    ultimately have step: "release_children f m p = release_children f (detached f (insert x ?D) m) (sibling m x)"
      using Cons.prems(4) detached_one [OF xD, of f m] by (subst release_children.simps) (simp add: Let_def)
    let ?m2 = "detached f (insert x ?D) m"
    note keep = detached_links [of _ "insert x ?D" f m]
    have xsE: "set xs \<subseteq> ?E" unfolding descendants_def by auto
    have "release_children f ?m2 (sibling m x) = Some (detached f ?E ?m2)"
    proof (rule Cons.IH)
      show "links (sibling ?m2) (sibling m x) xs" using Cons.prems(4) keep [of xs] xsE DE by auto
      show "\<forall>y\<in>?E. links (sibling ?m2) (child ?m2 y) (kids y)"
      proof
        fix y
        assume y: "y \<in> ?E"
        then have "set (kids y) \<inter> insert x ?D = {}" using descendants_kids [OF y] DE by blast
        moreover have "child ?m2 y = child m y" using y DE by (auto simp: detached_def)
        ultimately show "links (sibling ?m2) (child ?m2 y) (kids y)" using keep l y by simp
      qed
    qed (use Cons.prems in simp_all)
    then show ?case using step detached_union [OF DE] sub by simp
  qed
qed

lemma release_child_resources_eq:
  assumes t: "tree_ok m kids"
  shows "release_child_resources f m r = Some (detached f (descendants kids (kids r)) (set_link m (ChildOf r) None))"
proof -
  obtain rank :: "nat \<Rightarrow> nat" where rk: "\<forall>r. \<forall>c\<in>set (kids r). rank c < rank r"
    using tree_okD(5) [OF t] unfolding ranked_def by blast
  have "r \<notin> descendants kids (kids r)" by (rule not_own_descendant [OF t])
  then have "\<forall>y\<in>descendants kids (kids r). links (sibling (set_link m (ChildOf r) None)) (child (set_link m (ChildOf r) None) y) (kids y)"
    using tree_okD(1) [OF t] by auto
  then show ?thesis using release_children_eq [OF t rk, of "kids r" "rank r" r "set_link m (ChildOf r) None" "child m r" f]
      rk tree_okD(1,6) [OF t, of r] by (simp add: release_child_resources_def)
qed

definition cut_below :: "kids \<Rightarrow> nat \<Rightarrow> kids" where
  "cut_below kids r = (\<lambda>x. if x = r \<or> x \<in> descendants kids (kids r) then [] else kids x)"

lemma detached_ok:
  assumes t: "tree_ok m kids"
  shows "tree_ok (detached f (descendants kids (kids r)) (set_link m (ChildOf r) None)) (cut_below kids r)"
proof (rule tree_okI)
  let ?D = "descendants kids (kids r)" and ?m = "detached f (descendants kids (kids r)) (set_link m (ChildOf r) None)"
  have rD: "r \<notin> ?D" by (rule not_own_descendant [OF t])
  have out: "set (kids q) \<inter> ?D = {}" if q: "q \<noteq> r" "q \<notin> ?D" for q
  proof -
    have "c \<notin> ?D" if c: "c \<in> set (kids q)" for c
    proof
      assume "c \<in> ?D"
      then obtain x where x: "x \<in> set (kids r)" "reach kids x c" unfolding descendants_def by blast
      from x(2) show False
      proof (cases rule: rtranclp.cases)
        case rtrancl_refl
        then show False using x(1) c q(1) tree_parent_unique [OF t] by blast
      next
        case (rtrancl_into_rtrancl z)
        then have "z = q" using c tree_parent_unique [OF t] by blast
        then show False using q(2) x(1) rtrancl_into_rtrancl unfolding descendants_def by blast
      qed
    qed
    then show ?thesis by blast
  qed
  fix q
  show "links (sibling ?m) (child ?m q) (cut_below kids r q)"
    using detached_links [OF out, of q f "set_link m (ChildOf r) None"] tree_okD(1) [OF t, of q] rD
    by (auto simp: cut_below_def detached_def)
  show "sorted_wrt (below ?m) (cut_below kids r q)"
  proof (cases "q = r \<or> q \<in> ?D")
    case False
    then have "sorted_wrt (below ?m) (kids q)"
      using out [of q] by (intro sorted_wrt_mono_rel [OF _ tree_okD(4) [OF t, of q]]) (auto simp: below_def detached_def)
    then show ?thesis using False by (simp add: cut_below_def)
  qed (simp add: cut_below_def)
  fix c
  assume "c \<in> set (cut_below kids r q)"
  then have c: "c \<in> set (kids q)" "q \<noteq> r" "q \<notin> ?D" by (auto simp: cut_below_def split: if_splits)
  then have "c \<notin> ?D" using out [of q] by blast
  then show "parent ?m c = Some q" "within ?m c q" using tree_okD(2,3) [OF t c(1)] c(3) by (auto simp: detached_def within_def)
next
  show "ranked (cut_below kids r)" by (rule ranked_subset [OF tree_okD(5) [OF t]]) (auto simp: cut_below_def)
qed

section \<open>An example\<close>

text \<open>A root with two children, a resource that covers the first of them and one that overlaps it partly.\<close>

definition demo_mem :: res_mem where
  "demo_mem = \<lparr>
     rstart = (\<lambda>r. if r = 9 then 0 else if r = 2 then 256 else if r = 3 then 768 else if r = 4 then 128 else 384),
     rend = (\<lambda>r. if r = 9 then 65535 else if r = 2 then 511 else if r = 3 then 1023 else 639),
     rflags = (\<lambda>_. 0), rname = (\<lambda>_. []),
     parent = (\<lambda>r. if r = 2 \<or> r = 3 then Some 9 else None),
     sibling = (\<lambda>r. if r = 2 then Some 3 else None),
     child = (\<lambda>r. if r = 9 then Some 2 else None)\<rparr>"

definition demo_kids :: kids where
  "demo_kids = (\<lambda>r. if r = 9 then [2, 3] else [])"

lemma demo_tree_ok: "tree_ok demo_mem demo_kids"
proof (rule tree_okI)
  show "ranked demo_kids" by (rule rankedI [where rank = "\<lambda>r. if r = 9 then 1 else 0"]) (auto simp: demo_kids_def split: if_splits)
qed (auto simp: demo_mem_def demo_kids_def within_def below_def split: if_splits)

lemma demo_unlinked: "unlinked demo_kids 4" "unlinked demo_kids 5"
  by (auto simp: unlinked_def demo_kids_def)

section \<open>Correctness\<close>

lemma release_linked_in:
  assumes t: "tree_ok m kids" and u: "unlinked kids new" "new \<noteq> root" and w: "within m new root"
    and none: "find (overlaps m new) (kids root) = None"
  shows "\<exists>m''. release_resource (linked_in m kids root new) new = Some (m'', Inr ()) \<and> tree_ok m'' kids"
proof -
  let ?us = "kids_below m kids root new" and ?vs = "kids_above m kids root new"
  let ?m = "linked_in m kids root new" and ?k = "kids(root := kids_below m kids root new @ new # kids_above m kids root new)"
  have t': "tree_ok ?m ?k" by (rule linked_in_ok [OF t u w none])
  have "\<forall>c\<in>set (kids root). \<not> overlaps m new c" using none by (metis find_None_iff)
  then have k: "kids root = ?us @ ?vs" using no_overlap_split [OF t] w by (simp add: within_def)
  have "new \<notin> set ?us" using u(1) by (simp add: unlinked_def kids_below_def)
  then have "?k(root := remove1 new (?k root)) = kids" using k by (auto simp: remove1_append)
  then show ?thesis using raw_release_eq [OF t', of new root] release_ok [OF t', of new root] by (simp add: release_resource_def)
qed

text \<open>
  Requesting a resource that is not in a well-formed tree always returns. A range that is empty or not inside
  that of the parent is refused with the parent as the conflict; one that overlaps a child is refused with the
  lowest such child, and nothing changes; otherwise the resource becomes a child, between those below and those
  above it, and the tree is well-formed. Releasing the resource then gives back the tree of before.
\<close>

theorem request_resource_correct:
  assumes t: "tree_ok m kids" and u: "unlinked kids new" "new \<noteq> root"
  shows "\<exists>m' c. request_resource_conflict m root new = Some (m', c) \<and>
    request_resource m root new = Some (m', if c = None then Inr () else Inl EBUSY) \<and>
    (if \<not> within m new root then m' = m \<and> c = Some root
     else if find (overlaps m new) (kids root) \<noteq> None then m' = m \<and> c = find (overlaps m new) (kids root)
     else c = None \<and> same_data m m' \<and>
       tree_ok m' (kids(root := kids_below m kids root new @ new # kids_above m kids root new)) \<and>
       (\<exists>m''. release_resource m' new = Some (m'', Inr ()) \<and> tree_ok m'' kids))"
proof (cases "within m new root \<and> find (overlaps m new) (kids root) = None")
  case True
  then show ?thesis using raw_request_eq [OF t, of root new] linked_in_ok [OF t u] release_linked_in [OF t u]
    by (simp add: request_resource_def request_resource_conflict_def same_data_def)
next
  case False
  then show ?thesis using raw_request_eq [OF t, of root new]
    by (auto simp: request_resource_def request_resource_conflict_def split: option.splits)
qed

theorem request_resource_correct_witness:
  "request_resource demo_mem 3 5 = Some (demo_mem, Inl EBUSY) \<and>
   request_resource_conflict demo_mem 9 5 = Some (demo_mem, Some 2) \<and>
   (\<exists>m'. request_resource (set_range demo_mem 5 (512, 767)) 9 5 = Some (m', Inr ()) \<and> tree_ok m' (demo_kids(9 := [2, 5, 3])))"
proof -
  let ?m = "set_range demo_mem 5 (512, 767)"
  have t: "tree_ok ?m demo_kids" by (rule tree_ok_set_range_unlinked [OF demo_tree_ok demo_unlinked(2)])
  have w: "\<not> within demo_mem 5 3" "within demo_mem 5 9" "within ?m 5 9" by (simp_all add: within_def demo_mem_def)
  have f: "find (overlaps demo_mem 5) (demo_kids 9) = Some 2" "find (overlaps ?m 5) (demo_kids 9) = None"
    "kids_below ?m demo_kids 9 5 = [2]" "kids_above ?m demo_kids 9 5 = [3]"
    by (simp_all add: overlaps_def demo_mem_def demo_kids_def kids_below_def kids_above_def below_def)
  show ?thesis
    using request_resource_correct [OF demo_tree_ok demo_unlinked(2), of 3] request_resource_correct [OF demo_tree_ok demo_unlinked(2), of 9]
      request_resource_correct [OF t demo_unlinked(2), of 9] by (auto simp: w f)
qed

text \<open>
  C14. Inserting a resource that is not in the tree always returns. It is refused, and nothing changes, if its range
  is not inside the one it is to be inserted in, or if a resource on the way overlaps it only partly, which is the
  conflict reported. Otherwise it becomes a child of a resource that contains it, and the children of that
  resource which it overlaps, all of which it covers, become its own.
\<close>

theorem insert_resource_correct:
  assumes t: "tree_ok m kids" and u: "unlinked kids new" "new \<noteq> par"
  shows "\<exists>m' c. insert_resource_conflict m par new = Some (m', c) \<and>
    insert_resource m par new = Some (m', if c = None then Inr () else Inl EBUSY) \<and>
    (case c of
       Some x \<Rightarrow> m' = m \<and> (x = par \<and> \<not> within m new par \<or>
         (\<exists>q. reach kids par q \<and> x \<in> set (kids q) \<and> overlaps m new x \<and> \<not> within m x new \<and> \<not> within m new x))
     | None \<Rightarrow> \<exists>q. reach kids par q \<and> within m new q \<and> (\<forall>c\<in>set (kids q). overlaps m new c \<longrightarrow> within m c new) \<and>
         tree_ok m' (kids(q := kids_below m kids q new @ new # kids_above m kids q new, new := covered m kids q new)) \<and> same_data m m')"
proof -
  have "insert_resource m par new = Some (m', if c = None then Inr () else Inl EBUSY)"
    if "raw_insert_resource m par new = Some (m', c)" for m' c
    using that by (simp add: insert_resource_def insert_resource_conflict_def)
  then show ?thesis using raw_insert_cases [OF t u] unfolding inserted_kids_def insert_resource_conflict_def by blast
qed

theorem insert_resource_correct_witness:
  "\<exists>m'. insert_resource demo_mem 9 4 = Some (m', Inr ()) \<and> tree_ok m' (demo_kids(9 := [4, 3], 4 := [2]))"
proof -
  have q: "q = 9 \<or> q = 2 \<or> q = 3" if "reach demo_kids 9 q" for q
    using that by (induction rule: rtranclp_induct) (auto simp: demo_kids_def split: if_splits)
  have w: "within demo_mem 4 9" "\<not> within demo_mem 4 2" "\<not> within demo_mem 4 3" by (simp_all add: within_def demo_mem_def)
  have o: "overlaps demo_mem 4 x \<Longrightarrow> x \<in> set (demo_kids q) \<Longrightarrow> within demo_mem x 4" for x q
    by (auto simp: overlaps_def within_def demo_mem_def demo_kids_def split: if_splits)
  have k: "kids_below demo_mem demo_kids 9 4 = []" "kids_above demo_mem demo_kids 9 4 = [3]" "covered demo_mem demo_kids 9 4 = [2]"
    by (simp_all add: kids_below_def kids_above_def covered_def below_def within_def demo_mem_def demo_kids_def)
  show ?thesis using insert_resource_correct [OF demo_tree_ok demo_unlinked(1), of 9] q w o k by (fastforce split: option.splits)
qed

text \<open>
  Inserting a resource with expansion always returns. The resource only grows, and no other range changes; it
  ends in the tree, or it has grown beyond the root or was not inside it and stays out.
\<close>

theorem insert_expand_terminates:
  assumes t: "tree_ok m kids" and u: "unlinked kids new" "new \<noteq> root"
  shows "\<exists>m'. insert_resource_expand_to_fit m root new = Some m' \<and> (if parent m new \<noteq> None then m' = m else
    rstart m' new \<le> rstart m new \<and> rend m new \<le> rend m' new \<and> (\<forall>r. r \<noteq> new \<longrightarrow> rstart m' r = rstart m r \<and> rend m' r = rend m r) \<and>
    (tree_ok m' kids \<and> \<not> within m' new root \<or>
     (\<exists>q. reach kids root q \<and> within m' new q \<and> tree_ok m' (inserted_kids m' kids q new))))"
  using expand_loop_ok [OF t u] unfolding insert_resource_expand_to_fit_def expanded_def by auto

theorem insert_expand_terminates_witness:
  "parent demo_mem 5 = None \<and> (\<exists>m'. insert_resource_expand_to_fit demo_mem 9 5 = Some m' \<and>
     rstart m' 5 \<le> 384 \<and> 639 \<le> rend m' 5 \<and> rstart m' 2 = 256)"
  using insert_expand_terminates [OF demo_tree_ok demo_unlinked(2), of 9] by (auto simp: demo_mem_def)

text \<open>
  C32. Moving or resizing a resource to a range that does not wrap around returns, and succeeds exactly if the tree,
  with the range changed and the same children everywhere, is well-formed; otherwise it reports
  \<^verbatim>\<open>-EBUSY\<close> and changes nothing.
\<close>

theorem adjust_resource_exact:
  assumes t: "tree_ok m kids" and par: "\<forall>q. parent m res = Some q \<longrightarrow> res \<in> set (kids q)" and se: "s \<le> s + n - 1"
  shows "adjust_resource m res s n =
    Some (if tree_ok (set_range m res (s, s + n - 1)) kids then (set_range m res (s, s + n - 1), Inr ()) else (m, Inl EBUSY))"
  using raw_adjust_eq [OF t par se] by (simp add: adjust_resource_def)

theorem adjust_resource_exact_witness:
  "adjust_resource demo_mem 2 256 256 = Some (set_range demo_mem 2 (256, 511), Inr ()) \<and>
   adjust_resource demo_mem 2 256 1024 = Some (demo_mem, Inl EBUSY)"
proof -
  have p: "\<forall>q. parent demo_mem 2 = Some q \<longrightarrow> 2 \<in> set (demo_kids q)" by (simp add: demo_mem_def demo_kids_def)
  have same: "set_range demo_mem 2 (256, 511) = demo_mem"
    by (auto simp: demo_mem_def set_range_def fun_eq_iff)
  have "\<not> tree_ok (set_range demo_mem 2 (256, 1279)) demo_kids"
    using tree_okD(4) [of "set_range demo_mem 2 (256, 1279)" demo_kids 9] by (auto simp: demo_mem_def demo_kids_def below_def)
  then show ?thesis
    using adjust_resource_exact [OF demo_tree_ok p, of 256 256] adjust_resource_exact [OF demo_tree_ok p, of 256 1024] same demo_tree_ok
    by simp
qed

text \<open>
  Releasing the children of a resource returns. Every resource below it is out of the tree, has no children left
  and keeps the size of its range, which starts at zero; the tree that remains is well-formed.
\<close>

theorem release_child_resources_detaches:
  assumes t: "tree_ok m kids" and size: "\<forall>a b. resource_size (a, b) = b - a + 1"
  shows "\<exists>m'. release_child_resources resource_size m r = Some m' \<and> tree_ok m' (cut_below kids r) \<and>
    (\<forall>x. x \<in> descendants kids (kids r) \<longrightarrow> parent m' x = None \<and> sibling m' x = None \<and> child m' x = None \<and>
      rstart m' x = 0 \<and> rend m' x = rend m x - rstart m x \<and> resource_size (rstart m' x, rend m' x) = resource_size (rstart m x, rend m x))"
  using release_child_resources_eq [OF t, of resource_size r] detached_ok [OF t, of resource_size r] size
  by (auto simp: detached_def)

theorem release_child_resources_detaches_witness:
  "\<exists>m'. release_child_resources (\<lambda>(a, b). b - a + 1) demo_mem 9 = Some m' \<and>
     parent m' 3 = None \<and> rstart m' 3 = 0 \<and> rend m' 3 = 255"
proof -
  have d: "3 \<in> descendants demo_kids (demo_kids 9)" by (auto simp: descendants_def demo_kids_def)
  have "rend demo_mem 3 - rstart demo_mem 3 = 255" by (simp add: demo_mem_def)
  then show ?thesis using release_child_resources_detaches [OF demo_tree_ok, of "\<lambda>(a, b). b - a + 1" 9] d by auto
qed

section \<open>Runs\<close>

lemma sibling_before_none:
  assumes "links (sibling m) (Some c) xs" "f \<notin> set xs"
  shows "sibling_before m f c = None"
  using assms
proof (induction xs arbitrary: c)
  case (Cons x xs)
  show ?case
  proof (cases "sibling m c")
    case None
    then show ?thesis by (subst sibling_before.simps) simp
  next
    case (Some d)
    then have l: "links (sibling m) (Some d) xs" "d \<noteq> f" using Cons.prems by (auto simp: links_Some)
    then have "sibling_before m f c = sibling_before m f d" using Some by (subst sibling_before.simps) simp
    then show ?thesis using Cons.IH [OF l(1)] Cons.prems(2) by simp
  qed
qed simp

lemma raw_adjust_stale:
  assumes t: "tree_ok m kids" and par: "parent m res = Some q" "res \<notin> set (kids q)"
    and r: "raw_adjust_resource m res s n = Some (m', x)"
  shows "m' = m"
proof -
  have "child m q \<noteq> Some res" using tree_okD(1) [OF t, of q] par(2) by (auto simp: links_Some)
  moreover have "sibling_before m res c = None" if "child m q = Some c" for c
    using sibling_before_none [of m c "kids q" res] tree_okD(1) [OF t, of q] par(2) that by simp
  ultimately show ?thesis using r par(1)
    by (cases "child m q") (auto simp: raw_adjust_resource_def Let_def split: if_splits)
qed

lemma sorted_wrt_total: "sorted_wrt R xs \<Longrightarrow> a \<in> set xs \<Longrightarrow> b \<in> set xs \<Longrightarrow> a \<noteq> b \<Longrightarrow> R a b \<or> R b a"
  by (induction xs) auto

text \<open>
  The operations as their callers may use them: a resource that is requested or inserted is neither linked nor has
  it children, it is not inserted below itself, a released one has a parent, and an adjusted range does not wrap
  around. A call that has no result (it would follow a null pointer) leaves the state alone.
\<close>

datatype res_op =
    Request nat nat | Release nat | Insert nat nat | Insert_expand nat nat | Adjust nat u64 u64 | Release_children nat

definition fresh :: "res_mem \<Rightarrow> nat \<Rightarrow> nat \<Rightarrow> bool" where
  "fresh m root new \<longleftrightarrow> parent m new = None \<and> child m new = None \<and> new \<noteq> root"

definition state_after :: "res_mem \<Rightarrow> (res_mem \<times> 'a) option \<Rightarrow> res_mem" where
  "state_after m r = (case r of None \<Rightarrow> m | Some (m', _) \<Rightarrow> m')"

primrec res_do :: "(u64 \<times> u64 \<Rightarrow> u64) \<Rightarrow> res_mem \<Rightarrow> res_op \<Rightarrow> res_mem" where
  "res_do f m (Request root new) = (if fresh m root new then state_after m (request_resource m root new) else m)"
| "res_do f m (Release old) = state_after m (release_resource m old)"
| "res_do f m (Insert par new) = (if fresh m par new then state_after m (insert_resource m par new) else m)"
| "res_do f m (Insert_expand root new) =
     (if fresh m root new then (case insert_resource_expand_to_fit m root new of None \<Rightarrow> m | Some m' \<Rightarrow> m') else m)"
| "res_do f m (Adjust res s n) = (if s \<le> s + n - 1 then state_after m (adjust_resource m res s n) else m)"
| "res_do f m (Release_children r) = (case release_child_resources f m r of None \<Rightarrow> m | Some m' \<Rightarrow> m')"

definition tree_inv :: "res_mem \<Rightarrow> bool" where
  "tree_inv m \<longleftrightarrow> (\<exists>kids. tree_ok m kids)"

lemma raw_insert_inv:
  assumes "tree_ok m kids" "unlinked kids new" "new \<noteq> par" "raw_insert_resource m par new = Some (m', c)"
  shows "tree_inv m'"
  using raw_insert_cases [OF assms(1-3)] assms(1,4) by (cases c) (auto simp: tree_inv_def)

lemma res_do_inv:
  assumes "tree_inv m"
  shows "tree_inv (res_do f m x)"
proof -
  obtain kids where t: "tree_ok m kids" using assms by (auto simp: tree_inv_def)
  have fr: "unlinked kids new" "new \<noteq> root" if "fresh m root new" for root new
    using that unlinked_parent [OF t, of new] by (simp_all add: fresh_def)
  show ?thesis
  proof (cases x)
    case (Request root new)
    then show ?thesis using t linked_in_ok [OF t] fr [of root new] raw_request_eq [OF t, of root new]
      by (auto simp: state_after_def request_resource_def request_resource_conflict_def tree_inv_def split: option.splits)
  next
    case (Release old)
    then show ?thesis using t release_ok [OF t, of old] raw_release_eq [OF t, of old]
      by (cases "parent m old") (auto simp: state_after_def release_resource_def raw_release_resource_def tree_inv_def split: option.splits)
  next
    case (Insert par new)
    then show ?thesis using assms raw_insert_inv [OF t fr, of par new]
      by (cases "raw_insert_resource m par new") (auto simp: state_after_def insert_resource_def insert_resource_conflict_def)
  next
    case (Insert_expand root new)
    then show ?thesis using t expand_loop_ok [OF t fr(1) [of root new] fr(2) [of root new]]
      by (cases "fresh m root new") (auto simp: insert_resource_expand_to_fit_def tree_inv_def expanded_def)
  next
    case (Adjust res s n)
    have "tree_inv m'" if r: "raw_adjust_resource m res s n = Some (m', y)" and se: "s \<le> s + n - 1" for m' y
    proof (cases "\<forall>q. parent m res = Some q \<longrightarrow> res \<in> set (kids q)")
      case True
      then show ?thesis using raw_adjust_eq [OF t True se] r t by (auto simp: tree_inv_def split: if_splits)
    next
      case False
      then show ?thesis using raw_adjust_stale [OF t] r assms by blast
    qed
    then show ?thesis using Adjust assms by (auto simp: state_after_def adjust_resource_def split: option.splits)
  next
    case (Release_children r)
    then show ?thesis using release_child_resources_eq [OF t, of f r] detached_ok [OF t, of f r]
      by (auto simp: tree_inv_def)
  qed
qed

interpretation res: step_system "res_do f" tree_inv for f
  by unfold_locales (rule res_do_inv)

text \<open>
  C5. However the operations are called, one after the other, a well-formed tree stays well-formed: at every
  level the children lie inside their parent and none of them overlaps another.
\<close>

theorem resource_tree_kept:
  assumes "tree_inv m"
  shows "\<exists>kids. tree_ok (foldl (res_do f) m es) kids \<and>
    (\<forall>r a. a \<in> set (kids r) \<longrightarrow> within (foldl (res_do f) m es) a r) \<and>
    (\<forall>r a b. a \<in> set (kids r) \<and> b \<in> set (kids r) \<and> a \<noteq> b \<longrightarrow> \<not> overlaps (foldl (res_do f) m es) a b)"
proof -
  let ?m = "foldl (res_do f) m es"
  obtain kids where t: "tree_ok ?m kids" using res.run_inv [OF assms, of f es] by (auto simp: tree_inv_def)
  have "\<not> overlaps ?m a b" if ab: "a \<in> set (kids r)" "b \<in> set (kids r)" "a \<noteq> b" for r a b
  proof -
    have "below ?m a b \<or> below ?m b a" using sorted_wrt_total [OF tree_okD(4) [OF t, of r]] ab by blast
    then show ?thesis by (auto simp: overlaps_def below_def)
  qed
  then show ?thesis using t tree_okD(3) [OF t] by blast
qed

theorem resource_tree_kept_witness:
  "tree_inv demo_mem \<and>
   (\<exists>kids. tree_ok (foldl (res_do (\<lambda>(a, b). b - a + 1)) demo_mem [Insert 9 4, Request 4 5, Release 2]) kids)"
proof -
  have "tree_inv demo_mem" using demo_tree_ok by (auto simp: tree_inv_def)
  then show ?thesis using resource_tree_kept [of demo_mem "\<lambda>(a, b). b - a + 1" "[Insert 9 4, Request 4 5, Release 2]"] by auto
qed

end
