(* ===== verification/Resource_Alloc.thy ===== *)
theory Resource_Alloc
  imports Resource_Tree
begin

text \<open>
  Allocation in the resource tree (\<^verbatim>\<open>resource.c\<close>): the search for a free range under a constraint,
  \<^verbatim>\<open>allocate_resource\<close> and \<^verbatim>\<open>reallocate_resource\<close>. The macro \<^verbatim>\<open>ALIGN\<close>, which is not part of these sources, and the
  alignment function of the caller are arguments.
\<close>

section \<open>The search\<close>

text \<open>
  The alignment function gets the available range, the size and the alignment (and through the caller's data
  and the other fields of the new resource whatever the caller wants).
\<close>

record resource_constraint =
  cmin :: u64
  cmax :: u64
  calign :: u64
  calignf :: "u64 \<times> u64 \<Rightarrow> u64 \<Rightarrow> u64 \<Rightarrow> u64"

definition arch_remove_reservations :: "u64 \<times> u64 \<Rightarrow> u64 \<times> u64" where
  "arch_remove_reservations avail = avail"

definition simple_align_resource :: "u64 \<times> u64 \<Rightarrow> u64 \<Rightarrow> u64 \<Rightarrow> u64" where
  "simple_align_resource avail n align = fst avail"

definition resource_clip :: "u64 \<times> u64 \<Rightarrow> u64 \<Rightarrow> u64 \<Rightarrow> u64 \<times> u64" where
  "resource_clip res lo hi = (if fst res < lo then lo else fst res, if snd res > hi then hi else snd res)"

definition resource_contains :: "u64 \<times> u64 \<Rightarrow> u64 \<times> u64 \<Rightarrow> bool" where
  "resource_contains res1 res2 \<longleftrightarrow> fst res1 \<le> fst res2 \<and> snd res1 \<ge> snd res2"

text \<open>
  One round of the loop of \<^verbatim>\<open>__find_resource\<close>: the range \<open>tmp\<close> after clipping, and what is allocated in it, if
  anything.
\<close>

definition try_gap :: "(u64 \<Rightarrow> u64 \<Rightarrow> u64) \<Rightarrow> resource_constraint \<Rightarrow> u64 \<Rightarrow> u64 \<times> u64 \<Rightarrow> (u64 \<times> u64) \<times> (u64 \<times> u64) option" where
  "try_gap ALIGN con n tmp0 =
     (let tmp = arch_remove_reservations (resource_clip tmp0 (cmin con) (cmax con));
          avail = (ALIGN (fst tmp) (calign con), snd tmp);
          s = calignf con avail n (calign con);
          alloc = (s, s + n - 1)
      in (tmp, if fst avail \<ge> fst tmp \<and> resource_contains avail alloc then Some alloc else None))"

definition gap_end :: "res_mem \<Rightarrow> nat \<Rightarrow> nat option \<Rightarrow> nat option \<Rightarrow> u64" where
  "gap_end m root old this =
     (if this = None then rend m root
      else if this = old then rend m (the this) else rstart m (the this) - 1)"

partial_function (option) find_loop ::
  "(u64 \<Rightarrow> u64 \<Rightarrow> u64) \<Rightarrow> res_mem \<Rightarrow> nat \<Rightarrow> nat option \<Rightarrow> resource_constraint \<Rightarrow> u64 \<Rightarrow> nat option \<Rightarrow> u64 \<Rightarrow> (u64 \<times> u64) result option" where
  "find_loop ALIGN m root old con n this s =
     (let e = gap_end m root old this;
          r = (if e < s then ((s, e), None) else try_gap ALIGN con n (s, e))
      in if snd r \<noteq> None then Some (Inr (the (snd r)))
         else if this = None \<or> rend m (the this) = rend m root then Some (Inl EBUSY)
         else find_loop ALIGN m root old con n (sibling m (the this))
                (if this \<noteq> old then rend m (the this) + 1 else fst (fst r)))"

definition raw_find_resource ::
  "(u64 \<Rightarrow> u64 \<Rightarrow> u64) \<Rightarrow> res_mem \<Rightarrow> nat \<Rightarrow> nat option \<Rightarrow> u64 \<Rightarrow> resource_constraint \<Rightarrow> (u64 \<times> u64) result option" where
  "raw_find_resource ALIGN m root old n con =
     (let this = child m root
      in if this \<noteq> None \<and> rstart m (the this) = rstart m root
         then find_loop ALIGN m root old con n (sibling m (the this))
                (if this = old then rstart m (the old) else rend m (the this) + 1)
         else find_loop ALIGN m root old con n this (rstart m root))"

definition find_resource ::
  "(u64 \<Rightarrow> u64 \<Rightarrow> u64) \<Rightarrow> res_mem \<Rightarrow> nat \<Rightarrow> u64 \<Rightarrow> resource_constraint \<Rightarrow> (u64 \<times> u64) result option" where
  "find_resource ALIGN m root n con = raw_find_resource ALIGN m root None n con"

section \<open>Allocation and reallocation\<close>

text \<open>A call returns an error code or zero, or it stops the kernel (\<^verbatim>\<open>BUG_ON\<close>).\<close>

datatype outcome = Returned "unit result" | BUG

text \<open>\<open>restore m0 m r x\<close>: \<^verbatim>\<open>*old = new\<close> for the copy \<^verbatim>\<open>new\<close> of \<^verbatim>\<open>*old\<close> in \<open>m0\<close> with the range \<open>x\<close>.\<close>

definition restore :: "res_mem \<Rightarrow> res_mem \<Rightarrow> nat \<Rightarrow> u64 \<times> u64 \<Rightarrow> res_mem" where
  "restore m0 m r x =
     set_range (m\<lparr>rflags := (rflags m)(r := rflags m0 r), rname := (rname m)(r := rname m0 r), parent := (parent m)(r := parent m0 r),
       sibling := (sibling m)(r := sibling m0 r), child := (child m)(r := child m0 r)\<rparr>) r x"

definition reallocate_resource ::
  "(u64 \<Rightarrow> u64 \<Rightarrow> u64) \<Rightarrow> res_mem \<Rightarrow> nat \<Rightarrow> nat \<Rightarrow> u64 \<Rightarrow> resource_constraint \<Rightarrow> (res_mem \<times> outcome) option" where
  "reallocate_resource ALIGN m root old newsize con = do {
     r \<leftarrow> raw_find_resource ALIGN m root (Some old) newsize con;
     case r of
       Inl err \<Rightarrow> Some (m, Returned (Inl err))
     | Inr new \<Rightarrow>
         if resource_contains new (rstart m old, rend m old) then Some (set_range m old new, Returned (Inr ()))
         else if child m old \<noteq> None then Some (m, Returned (Inl EBUSY))
         else if resource_contains (rstart m old, rend m old) new then Some (set_range m old new, Returned (Inr ()))
         else do {
           (m1, _) \<leftarrow> raw_release_resource m old;
           (m2, conflict) \<leftarrow> raw_request_resource (restore m m1 old new) root old;
           Some (m2, if conflict \<noteq> None then BUG else Returned (Inr ()))
         }
   }"

definition allocate_resource ::
  "(u64 \<Rightarrow> u64 \<Rightarrow> u64) \<Rightarrow> res_mem \<Rightarrow> nat \<Rightarrow> nat \<Rightarrow> u64 \<Rightarrow> u64 \<Rightarrow> u64 \<Rightarrow> u64 \<Rightarrow> (u64 \<times> u64 \<Rightarrow> u64 \<Rightarrow> u64 \<Rightarrow> u64) option \<Rightarrow>
    (res_mem \<times> outcome) option" where
  "allocate_resource ALIGN m root new n lo hi align alignf =
     (let con = \<lparr>cmin = lo, cmax = hi, calign = align,
            calignf = (case alignf of None \<Rightarrow> simple_align_resource | Some f \<Rightarrow> f)\<rparr>
      in if parent m new \<noteq> None then reallocate_resource ALIGN m root new n con
         else do {
           r \<leftarrow> find_resource ALIGN m root n con;
           case r of
             Inl err \<Rightarrow> Some (m, Returned (Inl err))
           | Inr x \<Rightarrow> do {
               (m', conflict) \<leftarrow> raw_request_resource (set_range m new x) root new;
               Some (m', Returned (if conflict \<noteq> None then Inl EBUSY else Inr ()))
             }
         })"

section \<open>Alignment\<close>

text \<open>
  What \<^verbatim>\<open>ALIGN\<close> is documented to do for an alignment that is a power of two: it rounds up to a multiple, modulo
  the size of the type.
\<close>

definition align_up :: "(u64 \<Rightarrow> u64 \<Rightarrow> u64) \<Rightarrow> u64 \<Rightarrow> bool" where
  "align_up ALIGN a \<longleftrightarrow> (\<exists>k < 64. unat a = 2 ^ k) \<and>
     (\<forall>x. unat (ALIGN x a) = ((unat x + unat a - 1) div unat a * unat a) mod 2 ^ 64)"

definition aligned :: "u64 \<Rightarrow> u64 \<Rightarrow> bool" where
  "aligned a x \<longleftrightarrow> unat a dvd unat x"

lemma round_up_le:
  assumes "0 < (a :: nat)" "a dvd y" "x \<le> y"
  shows "(x + a - 1) div a * a \<le> y"
proof -
  obtain k where k: "y = a * k" using assms(2) by blast
  have "(x + a - 1) div a < Suc k" using assms k by (simp add: div_less_iff_less_mult algebra_simps)
  then show ?thesis using k by (simp add: mult.commute)
qed

lemma round_up_ge: "0 < (a :: nat) \<Longrightarrow> x \<le> (x + a - 1) div a * a"
  using mod_less_divisor [of a "x + a - 1"] div_mult_mod_eq [of "x + a - 1" a] by linarith

lemma align_up_least:
  assumes "align_up ALIGN a" "aligned a y" "x \<le> y"
  shows "x \<le> ALIGN x a" "ALIGN x a \<le> y" "aligned a (ALIGN x a)"
proof -
  let ?q = "(unat x + unat a - 1) div unat a * unat a"
  have a: "0 < unat a" using assms(1) by (auto simp: align_up_def)
  have q: "?q \<le> unat y" using round_up_le [OF a] assms(2,3) by (simp add: aligned_def word_le_nat_alt)
  then have eq: "unat (ALIGN x a) = ?q" using assms(1) unat_u64_lt [of y] by (simp add: align_up_def)
  then show "x \<le> ALIGN x a" "ALIGN x a \<le> y" using round_up_ge [OF a] q by (simp_all add: word_le_nat_alt)
  show "aligned a (ALIGN x a)" unfolding aligned_def eq by simp
qed

lemma align_up_aligned:
  assumes "align_up ALIGN a"
  shows "aligned a (ALIGN x a)"
proof -
  obtain k where k: "k < 64" "unat a = 2 ^ k" using assms by (auto simp: align_up_def)
  have "unat a dvd 2 ^ 64" unfolding k(2) by (rule le_imp_power_dvd) (use k(1) in simp)
  then show ?thesis using assms by (auto simp: align_up_def aligned_def dvd_mod)
qed

lemma no_wrap_iff: "(x :: u64) \<le> x + d \<longleftrightarrow> unat x + unat d < 2 ^ 64"
proof -
  have b: "unat x < 2 ^ 64" "unat d < 2 ^ 64" by (rule unat_u64_lt)+
  have u: "unat (x + d) = (unat x + unat d) mod 2 ^ 64" by (simp add: unat_word_ariths)
  show ?thesis
  proof (cases "unat x + unat d < 2 ^ 64")
    case True
    then show ?thesis using u by (simp add: word_le_nat_alt)
  next
    case False
    then have "unat (x + d) = unat x + unat d - 2 ^ 64" using u b by (simp add: mod_if)
    then show ?thesis using False b by (simp add: word_le_nat_alt)
  qed
qed

lemma unat_no_wrap: "(x :: u64) \<le> x + d \<Longrightarrow> unat (x + d) = unat x + unat d"
  by (simp add: no_wrap_iff unat_word_ariths)

lemma end_mono:
  assumes "(x :: u64) \<le> y" "y \<le> y + n - 1"
  shows "x \<le> x + n - 1" "x + n - 1 \<le> y + n - 1"
proof -
  have a: "z + n - 1 = z + (n - 1)" for z :: u64 by simp
  have y: "unat y + unat (n - 1) < 2 ^ 64" using assms(2) unfolding a no_wrap_iff .
  have xy: "unat x \<le> unat y" using assms(1) by (simp add: word_le_nat_alt)
  then have x: "unat x + unat (n - 1) < 2 ^ 64" using y by linarith
  show "x \<le> x + n - 1" using x unfolding a no_wrap_iff .
  have "unat (x + (n - 1)) = unat x + unat (n - 1)" "unat (y + (n - 1)) = unat y + unat (n - 1)"
    using unat_no_wrap [unfolded no_wrap_iff] x y by blast+
  then show "x + n - 1 \<le> y + n - 1" using xy unfolding a word_le_nat_alt by linarith
qed

section \<open>The gaps between the children\<close>

lemma word_pred_less: "(a :: u64) < b \<Longrightarrow> b - 1 < b \<and> a \<le> b - 1"
proof -
  assume ab: "a < b"
  then have "unat b \<noteq> 0" by (simp add: word_less_nat_alt)
  then have "unat (b - 1) = unat b - 1" by (metis unat_minus_one unat_eq_zero)
  then show ?thesis using ab by (simp add: word_less_nat_alt word_le_nat_alt)
qed

lemma word_succ_le: "(a :: u64) < b \<Longrightarrow> a < a + 1 \<and> a + 1 \<le> b"
proof -
  assume ab: "a < b"
  then have "unat a + 1 < 2 ^ 64" using unat_u64_lt [of b] by (simp add: word_less_nat_alt)
  then have "unat (a + 1) = unat a + 1" by (simp add: unat_word_ariths)
  then show ?thesis using ab by (simp add: word_less_nat_alt word_le_nat_alt)
qed

text \<open>
  Where the loop is: the children \<open>ys\<close> are ahead, those passed (but for the resource that is moved) lie below \<open>s\<close>.
\<close>

definition at_gap :: "res_mem \<Rightarrow> kids \<Rightarrow> nat \<Rightarrow> nat option \<Rightarrow> nat list \<Rightarrow> u64 \<Rightarrow> bool" where
  "at_gap m kids root old ys s \<longleftrightarrow>
     (\<exists>zs. kids root = zs @ ys \<and> (\<forall>z\<in>set zs. Some z \<noteq> old \<longrightarrow> rend m z < s)) \<and>
     rstart m root \<le> s \<and> (\<forall>y\<in>set ys. rstart m root < rstart m y)"

definition this_of :: "nat list \<Rightarrow> nat option" where
  "this_of ys = (if ys = [] then None else Some (hd ys))"

lemma gap_end_simps [simp]:
  "gap_end m root old (this_of []) = rend m root"
  "gap_end m root old (this_of (y # ys)) = (if Some y = old then rend m y else rstart m y - 1)"
  by (auto simp: gap_end_def this_of_def)

text \<open>A range that is free for a resource: inside the root, and clear of all children but the one moved.\<close>

definition clear_range :: "res_mem \<Rightarrow> kids \<Rightarrow> nat \<Rightarrow> nat option \<Rightarrow> u64 \<Rightarrow> u64 \<Rightarrow> bool" where
  "clear_range m kids root old a b \<longleftrightarrow>
     rstart m root \<le> a \<and> a \<le> b \<and> b \<le> rend m root \<and>
     (\<forall>c\<in>set (kids root). Some c \<noteq> old \<longrightarrow> rend m c < a \<or> b < rstart m c)"

lemma gap_clear:
  assumes t: "tree_ok m kids" and g: "at_gap m kids root old ys s"
    and ab: "s \<le> a" "a \<le> b" "b \<le> gap_end m root old (this_of ys)"
  shows "clear_range m kids root old a b"
proof -
  obtain zs where k: "kids root = zs @ ys" and z: "\<forall>z\<in>set zs. Some z \<noteq> old \<longrightarrow> rend m z < s"
    and r: "rstart m root \<le> s" and f: "\<forall>y\<in>set ys. rstart m root < rstart m y" using g by (auto simp: at_gap_def)
  have w: "rstart m c \<le> rend m c" "rend m c \<le> rend m root" if "c \<in> set ys" for c
    using tree_okD(3) [OF t, of c root] that k by (auto simp: within_def)
  have srt: "sorted_wrt (below m) ys" using tree_okD(4) [OF t, of root] k by (simp add: sorted_wrt_append)
  have "b \<le> rend m root \<and> (\<forall>c\<in>set ys. Some c \<noteq> old \<longrightarrow> b < rstart m c)"
  proof (cases ys)
    case Nil
    then show ?thesis using ab by simp
  next
    case (Cons y ws)
    have rest: "rend m y < rstart m c" if "c \<in> set ws" for c using srt that Cons by (simp add: below_def)
    show ?thesis
    proof (cases "Some y = old")
      case True
      then have "b \<le> rend m y" using ab Cons by simp
      then show ?thesis using rest w [of y] True Cons by (auto intro: le_less_trans)
    next
      case False
      have "rstart m y - 1 < rstart m y" using f Cons word_pred_less [of "rstart m root" "rstart m y"] by simp
      then have "b < rstart m y" using ab(3) Cons False by simp
      then show ?thesis using rest w [of y] Cons by (auto intro: order.strict_trans order.strict_trans1 order.strict_trans2)
    qed
  qed
  moreover have "rend m z < a" if "z \<in> set zs" "Some z \<noteq> old" for z using that z ab(1) by (auto intro: less_le_trans)
  ultimately show ?thesis using ab r k by (auto simp: clear_range_def)
qed

section \<open>What the loop finds\<close>

lemma resource_clip_eq: "resource_clip (s, e) lo hi = (max s lo, min e hi)"
  by (auto simp: resource_clip_def max_def min_def not_less)

definition gap_found :: "(u64 \<Rightarrow> u64 \<Rightarrow> u64) \<Rightarrow> resource_constraint \<Rightarrow> u64 \<Rightarrow> u64 \<Rightarrow> u64 \<Rightarrow> (u64 \<times> u64) option" where
  "gap_found ALIGN con n s e = (if e < s then None else snd (try_gap ALIGN con n (s, e)))"

lemma gap_foundD:
  assumes "gap_found ALIGN con n s e = Some (a, b)"
  shows "b = a + n - 1" "s \<le> a" "cmin con \<le> a" "b \<le> e" "b \<le> cmax con"
    "calignf con = simple_align_resource \<Longrightarrow> a = ALIGN (max s (cmin con)) (calign con)"
  using assms by (auto simp: gap_found_def try_gap_def arch_remove_reservations_def resource_clip_eq resource_contains_def
      simple_align_resource_def Let_def max_def split: if_splits)

lemma gap_found_simple:
  assumes "calignf con = simple_align_resource" "s \<le> e" "a = ALIGN (max s (cmin con)) (calign con)"
    "max s (cmin con) \<le> a" "a + n - 1 \<le> e" "a + n - 1 \<le> cmax con"
  shows "gap_found ALIGN con n s e = Some (a, a + n - 1)"
  using assms by (auto simp: gap_found_def try_gap_def arch_remove_reservations_def resource_clip_eq resource_contains_def
      simple_align_resource_def Let_def)

lemma find_loop_Nil:
  "find_loop ALIGN m root old con n (this_of []) s =
     Some (case gap_found ALIGN con n s (rend m root) of Some x \<Rightarrow> Inr x | None \<Rightarrow> Inl EBUSY)"
  by (subst find_loop.simps) (auto simp: gap_found_def Let_def this_of_def gap_end_def split: option.splits)

lemma find_loop_Cons:
  assumes "links (sibling m) (sibling m y) ws"
  shows "find_loop ALIGN m root old con n (this_of (y # ws)) s =
     (let e = (if Some y = old then rend m y else rstart m y - 1)
      in case gap_found ALIGN con n s e of
           Some x \<Rightarrow> Some (Inr x)
         | None \<Rightarrow>
             if rend m y = rend m root then Some (Inl EBUSY)
             else find_loop ALIGN m root old con n (this_of ws)
               (if Some y \<noteq> old then rend m y + 1 else if e < s then s else max s (cmin con)))"
proof -
  have "sibling m y = this_of ws" using assms by (cases ws) (simp_all add: this_of_def)
  moreover have "this_of (y # ws) = Some y" by (simp add: this_of_def)
  moreover have "fst (fst (try_gap ALIGN con n (s, e))) = max s (cmin con)" for e
    by (simp add: try_gap_def arch_remove_reservations_def resource_clip_eq Let_def)
  ultimately show ?thesis
    by (subst find_loop.simps) (auto simp: gap_found_def Let_def gap_end_def split: option.splits)
qed

lemma at_gap_step:
  assumes t: "tree_ok m kids" and g: "at_gap m kids root old (y # ws) s" and ne: "rend m y \<noteq> rend m root"
    and s': "Some y \<noteq> old \<Longrightarrow> s' = rend m y + 1" "Some y = old \<Longrightarrow> s \<le> s'"
  shows "at_gap m kids root old ws s'"
proof -
  obtain zs where k: "kids root = zs @ y # ws" and z: "\<forall>z\<in>set zs. Some z \<noteq> old \<longrightarrow> rend m z < s"
    and r: "rstart m root \<le> s" and f: "\<forall>y\<in>set (y # ws). rstart m root < rstart m y" using g by (auto simp: at_gap_def)
  have w: "rstart m y \<le> rend m y" "rend m y \<le> rend m root" using tree_okD(3) [OF t, of y root] k by (auto simp: within_def)
  then have "rend m y < rend m root" using ne by simp
  then have up: "rend m y < rend m y + 1" using word_succ_le by blast
  have zy: "rend m z < rstart m y" if "z \<in> set zs" for z
    using tree_okD(4) [OF t, of root] k that by (auto simp: sorted_wrt_append below_def)
  have "\<forall>z\<in>set (zs @ [y]). Some z \<noteq> old \<longrightarrow> rend m z < s'"
  proof (cases "Some y = old")
    case True
    then show ?thesis using z s'(2) by (auto intro: less_le_trans)
  next
    case False
    have "rend m z < rend m y + 1" if "z \<in> set zs" for z using zy [OF that] w(1) up by order
    then show ?thesis using False up s'(1) by auto
  qed
  moreover have "rstart m root \<le> s'"
  proof (cases "Some y = old")
    case True
    then show ?thesis using r s'(2) by simp
  next
    case False
    have "rstart m root < rstart m y" using f by simp
    then have "rstart m root \<le> rend m y + 1" using w(1) up by order
    then show ?thesis using s'(1) [OF False] by simp
  qed
  moreover have "kids root = (zs @ [y]) @ ws" using k by simp
  ultimately show ?thesis using f unfolding at_gap_def by (metis list.set_intros(2))
qed

definition found_ok ::
  "(u64 \<Rightarrow> u64 \<Rightarrow> u64) \<Rightarrow> res_mem \<Rightarrow> kids \<Rightarrow> nat \<Rightarrow> nat option \<Rightarrow> resource_constraint \<Rightarrow> u64 \<Rightarrow> u64 \<times> u64 \<Rightarrow> bool" where
  "found_ok ALIGN m kids root old con n x \<longleftrightarrow>
     snd x = fst x + n - 1 \<and> cmin con \<le> fst x \<and> snd x \<le> cmax con \<and>
     (fst x \<le> snd x \<longrightarrow> clear_range m kids root old (fst x) (snd x)) \<and>
     (calignf con = simple_align_resource \<and> align_up ALIGN (calign con) \<longrightarrow> aligned (calign con) (fst x))"

lemma gap_found_ok:
  assumes t: "tree_ok m kids" and g: "at_gap m kids root old ys s"
    and f: "gap_found ALIGN con n s (gap_end m root old (this_of ys)) = Some x"
  shows "found_ok ALIGN m kids root old con n x"
proof -
  obtain a b where x: "x = (a, b)" by (cases x)
  note d = gap_foundD [OF f [unfolded x]]
  have "clear_range m kids root old a b" if "a \<le> b" by (rule gap_clear [OF t g d(2) that d(4)])
  moreover have "aligned (calign con) a" if "calignf con = simple_align_resource" "align_up ALIGN (calign con)"
    using d(6) that align_up_aligned by simp
  ultimately show ?thesis using d x by (simp add: found_ok_def)
qed

lemma find_loop_sound:
  assumes t: "tree_ok m kids"
  shows "links (sibling m) (this_of ys) ys \<Longrightarrow> at_gap m kids root old ys s \<Longrightarrow>
    \<exists>r. find_loop ALIGN m root old con n (this_of ys) s = Some r \<and>
      (\<forall>x. r = Inr x \<longrightarrow> found_ok ALIGN m kids root old con n x) \<and> (\<forall>err. r = Inl err \<longrightarrow> err = EBUSY)"
proof (induction ys arbitrary: s)
  case Nil
  have "found_ok ALIGN m kids root old con n x" if "gap_found ALIGN con n s (rend m root) = Some x" for x
    using gap_found_ok [OF t Nil.prems(2)] that by simp
  then show ?case unfolding find_loop_Nil by (auto split: option.splits)
next
  case (Cons y ws)
  let ?e = "if Some y = old then rend m y else rstart m y - 1"
  let ?s = "if Some y \<noteq> old then rend m y + 1 else if ?e < s then s else max s (cmin con)"
  have l: "links (sibling m) (sibling m y) ws" "links (sibling m) (this_of ws) ws"
    using Cons.prems(1) by (cases ws; simp add: this_of_def)+
  note step = find_loop_Cons [OF l(1), of ALIGN root old con n s, unfolded Let_def]
  consider x where "gap_found ALIGN con n s ?e = Some x" | "gap_found ALIGN con n s ?e = None" "rend m y = rend m root"
    | "gap_found ALIGN con n s ?e = None" "rend m y \<noteq> rend m root" by fastforce
  then show ?case
  proof cases
    case 1
    then have "found_ok ALIGN m kids root old con n x" using gap_found_ok [OF t Cons.prems(2)] by simp
    then show ?thesis using step 1 by auto
  next
    case 2
    then show ?thesis using step by simp
  next
    case 3
    have "at_gap m kids root old ws ?s" by (rule at_gap_step [OF t Cons.prems(2) 3(2)]) (auto simp: max_def)
    then show ?thesis using Cons.IH [OF l(2), of ?s] step 3 by simp
  qed
qed

text \<open>The places where a resource of size \<open>n\<close> may go.\<close>

definition feasible :: "res_mem \<Rightarrow> kids \<Rightarrow> nat \<Rightarrow> resource_constraint \<Rightarrow> u64 \<Rightarrow> u64 \<Rightarrow> bool" where
  "feasible m kids root con n x \<longleftrightarrow>
     clear_range m kids root None x (x + n - 1) \<and> cmin con \<le> x \<and> x + n - 1 \<le> cmax con \<and> aligned (calign con) x"

lemma gap_found_first:
  assumes t: "tree_ok m kids" and g: "at_gap m kids root None ys s"
    and con: "calignf con = simple_align_resource" "align_up ALIGN (calign con)"
    and x: "feasible m kids root con n x" "x + n - 1 \<le> gap_end m root None (this_of ys)"
    and low: "\<forall>x. feasible m kids root con n x \<longrightarrow> s \<le> x"
  shows "\<exists>a. gap_found ALIGN con n s (gap_end m root None (this_of ys)) = Some (a, a + n - 1) \<and>
    feasible m kids root con n a \<and> (\<forall>x. feasible m kids root con n x \<longrightarrow> a \<le> x)"
proof -
  let ?s = "max s (cmin con)" and ?e = "gap_end m root None (this_of ys)"
  let ?a = "ALIGN ?s (calign con)"
  have xs: "x \<le> x + n - 1" "x + n - 1 \<le> cmax con" using x(1) by (simp_all add: feasible_def clear_range_def)
  have least: "?s \<le> ?a \<and> ?a \<le> y" if y: "feasible m kids root con n y" for y
  proof -
    have "?s \<le> y" "aligned (calign con) y" using y low by (simp_all add: feasible_def)
    then show ?thesis using align_up_least [OF con(2)] by blast
  qed
  have a: "?s \<le> ?a" "?a \<le> x" using least [OF x(1)] by simp_all
  note em = end_mono [OF a(2) xs(1)]
  have fits: "?a + n - 1 \<le> ?e" "?a + n - 1 \<le> cmax con" using em(2) x(2) xs(2) by order+
  have sa: "s \<le> ?a" "cmin con \<le> ?a" using a(1) by simp_all
  have "s \<le> ?e" using sa(1) em(1) fits(1) by order
  then have "gap_found ALIGN con n s ?e = Some (?a, ?a + n - 1)"
    using gap_found_simple [of con s ?e ?a ALIGN n] con(1) a(1) fits by blast
  moreover have "feasible m kids root con n ?a"
    using gap_clear [OF t g sa(1) em(1) fits(1)] sa(2) fits(2) align_up_aligned [OF con(2)] by (simp add: feasible_def)
  ultimately show ?thesis using least by blast
qed

lemma find_loop_complete:
  assumes t: "tree_ok m kids" and con: "calignf con = simple_align_resource" "align_up ALIGN (calign con)"
    and ex: "feasible m kids root con n x0"
  shows "links (sibling m) (this_of ys) ys \<Longrightarrow> at_gap m kids root None ys s \<Longrightarrow>
    \<forall>x. feasible m kids root con n x \<longrightarrow> s \<le> x \<Longrightarrow>
    \<exists>a. find_loop ALIGN m root None con n (this_of ys) s = Some (Inr (a, a + n - 1)) \<and>
      feasible m kids root con n a \<and> (\<forall>x. feasible m kids root con n x \<longrightarrow> a \<le> x)"
proof (induction ys arbitrary: s)
  case Nil
  have "x0 + n - 1 \<le> rend m root" using ex by (simp add: feasible_def clear_range_def)
  then show ?case using gap_found_first [OF t Nil.prems(2) con ex _ Nil.prems(3)] by (auto simp: find_loop_Nil)
next
  case (Cons y ws)
  let ?e = "rstart m y - 1"
  have l: "links (sibling m) (sibling m y) ws" "links (sibling m) (this_of ws) ws"
    using Cons.prems(1) by (cases ws; simp add: this_of_def)+
  note step = find_loop_Cons [OF l(1), of ALIGN root None con n s, unfolded Let_def, simplified]
  show ?case
  proof (cases "\<exists>x. feasible m kids root con n x \<and> x + n - 1 \<le> ?e")
    case True
    then show ?thesis using gap_found_first [OF t Cons.prems(2) con _ _ Cons.prems(3)] step by fastforce
  next
    case False
    have y: "y \<in> set (kids root)" "rstart m root < rstart m y" using Cons.prems(2) by (auto simp: at_gap_def)
    have up: "rend m y < x" if x: "feasible m kids root con n x" for x
    proof -
      have "\<not> x + n - 1 < rstart m y"
        using False x word_pred_less [of "x + n - 1" "rstart m y"] by blast
      then show ?thesis using x y(1) by (auto simp: feasible_def clear_range_def)
    qed
    have "x0 \<le> rend m root" using ex by (auto simp: feasible_def clear_range_def)
    then have ne: "rend m y \<noteq> rend m root" using up [OF ex] by auto
    have none: "gap_found ALIGN con n s ?e = None"
    proof (rule ccontr)
      assume "gap_found ALIGN con n s ?e \<noteq> None"
      then obtain a b where f: "gap_found ALIGN con n s ?e = Some (a, b)" by fast
      note d = gap_foundD [OF f]
      have "max s (cmin con) \<le> x0" "aligned (calign con) x0" using ex Cons.prems(3) by (simp_all add: feasible_def)
      then have "a \<le> x0" using d(6) [OF con(1)] align_up_least(2) [OF con(2)] by simp
      then have nw: "a \<le> a + n - 1" using end_mono(1) [of a x0 n] ex by (simp add: feasible_def clear_range_def)
      then have "feasible m kids root con n a"
        using gap_found_ok [OF t Cons.prems(2), of ALIGN con n "(a, b)"] f con d(1) by (simp add: found_ok_def feasible_def)
      then show False using False d(1,4) by auto
    qed
    have g: "at_gap m kids root None ws (rend m y + 1)" by (rule at_gap_step [OF t Cons.prems(2) ne]) auto
    have "\<forall>x. feasible m kids root con n x \<longrightarrow> rend m y + 1 \<le> x" using up word_succ_le by blast
    then show ?thesis using Cons.IH [OF l(2) g] step none ne by simp
  qed
qed

section \<open>The search as a whole\<close>

lemma child_this_of: "tree_ok m kids \<Longrightarrow> child m r = this_of (kids r)"
  using tree_okD(1) [of m kids r] by (cases "kids r") (simp_all add: this_of_def)

lemma links_this_of: "links (sibling m) (sibling m y) ws \<Longrightarrow> sibling m y = this_of ws"
  by (cases ws) (simp_all add: this_of_def)

text \<open>A first child that takes all addresses from the start of the root to the highest one there is.\<close>

definition takes_all :: "res_mem \<Rightarrow> kids \<Rightarrow> nat \<Rightarrow> nat option \<Rightarrow> bool" where
  "takes_all m kids root old \<longleftrightarrow> (\<exists>t ws. kids root = t # ws \<and> Some t \<noteq> old \<and> rstart m t = rstart m root \<and> rend m t = - 1)"

lemma word_max_or_less: "(a :: u64) = - 1 \<or> a < a + 1"
  using word_order.not_eq_extremum [of a] word_succ_le [of a "- 1"] by blast

lemma at_gap_start:
  assumes t: "tree_ok m kids" and f: "kids root = [] \<or> rstart m (hd (kids root)) \<noteq> rstart m root"
  shows "at_gap m kids root old (kids root) (rstart m root)"
proof -
  have "rstart m root < rstart m y" if y: "y \<in> set (kids root)" for y
  proof -
    have "rstart m (hd (kids root)) \<le> rstart m y"
      using sorted_hd [OF tree_okD(4) [OF t]] kids_nonempty_range [OF t] y by blast
    moreover have "rstart m root \<le> rstart m (hd (kids root))"
      using tree_okD(3) [OF t, of "hd (kids root)" root] y by (cases "kids root") (auto simp: within_def)
    moreover have "rstart m (hd (kids root)) \<noteq> rstart m root" using f y by auto
    ultimately show ?thesis by order
  qed
  then show ?thesis by (auto simp: at_gap_def)
qed

lemma at_gap_second:
  assumes t: "tree_ok m kids" and k: "kids root = y # ws" and f: "rstart m y = rstart m root"
    and s: "Some y \<noteq> old \<Longrightarrow> rend m y < s" "rstart m root \<le> s"
  shows "at_gap m kids root old ws s"
proof -
  have "rstart m y \<le> rend m y" using kids_nonempty_range [OF t, of y root] k by simp
  moreover have "rend m y < rstart m c" if "c \<in> set ws" for c using tree_okD(4) [OF t, of root] k that by (simp add: below_def)
  ultimately have "rstart m root < rstart m c" if "c \<in> set ws" for c using that f by (metis order.strict_trans1)
  moreover have "kids root = [y] @ ws" using k by simp
  ultimately show ?thesis using s unfolding at_gap_def by (metis empty_iff insert_iff list.set)
qed

lemma takes_all_single:
  assumes t: "tree_ok m kids" and k: "kids root = y # ws" and e: "rend m y = - 1"
  shows "ws = []"
proof (cases ws)
  case (Cons c cs)
  then have "rend m y < rstart m c" using tree_okD(4) [OF t, of root] k by (simp add: below_def)
  then show ?thesis using e word_order.extremum [of "rstart m c"] by simp
qed simp

lemma raw_find_sound:
  assumes t: "tree_ok m kids"
  shows "\<exists>r. raw_find_resource ALIGN m root old n con = Some r \<and>
    (\<forall>x. r = Inr x \<longrightarrow> found_ok ALIGN m kids root old con n x \<or> takes_all m kids root old) \<and> (\<forall>err. r = Inl err \<longrightarrow> err = EBUSY)"
proof (cases "kids root \<noteq> [] \<and> rstart m (hd (kids root)) = rstart m root")
  case False
  then have g: "at_gap m kids root old (kids root) (rstart m root)" using at_gap_start [OF t] by blast
  have l: "links (sibling m) (this_of (kids root)) (kids root)" using tree_okD(1) [OF t, of root] child_this_of [OF t] by simp
  have "raw_find_resource ALIGN m root old n con = find_loop ALIGN m root old con n (this_of (kids root)) (rstart m root)"
    using False by (auto simp: raw_find_resource_def child_this_of [OF t] this_of_def Let_def)
  then show ?thesis using find_loop_sound [OF t l g, of ALIGN con n] by auto
next
  case True
  then obtain y ws where k: "kids root = y # ws" and f: "rstart m y = rstart m root" by (cases "kids root") auto
  let ?s = "if Some y = old then rstart m y else rend m y + 1"
  have lw: "links (sibling m) (sibling m y) ws" using tree_okD(1) [OF t, of root] k by simp
  then have l: "links (sibling m) (this_of ws) ws" using links_this_of by metis
  have r: "raw_find_resource ALIGN m root old n con = find_loop ALIGN m root old con n (this_of ws) ?s"
    using k f links_this_of [OF lw] by (auto simp: raw_find_resource_def child_this_of [OF t] this_of_def Let_def)
  show ?thesis
  proof (cases "Some y \<noteq> old \<and> rend m y = - 1")
    case True
    then have "takes_all m kids root old" using k f by (auto simp: takes_all_def)
    moreover have "ws = []" using takes_all_single [OF t k] True by blast
    ultimately show ?thesis using r find_loop_Nil by (auto split: option.splits)
  next
    case False
    have "rstart m y \<le> rend m y" using kids_nonempty_range [OF t, of y root] k by simp
    then have "rstart m root \<le> ?s" "Some y \<noteq> old \<Longrightarrow> rend m y < ?s" using False word_max_or_less [of "rend m y"] f by auto
    then have "at_gap m kids root old ws ?s" using at_gap_second [OF t k f] by blast
    then show ?thesis unfolding r using find_loop_sound [OF t l] by blast
  qed
qed

lemma raw_find_complete:
  assumes t: "tree_ok m kids" and con: "calignf con = simple_align_resource" "align_up ALIGN (calign con)"
    and ex: "feasible m kids root con n x0"
  shows "\<exists>a. raw_find_resource ALIGN m root None n con = Some (Inr (a, a + n - 1)) \<and>
    feasible m kids root con n a \<and> (\<forall>x. feasible m kids root con n x \<longrightarrow> a \<le> x)"
proof (cases "kids root \<noteq> [] \<and> rstart m (hd (kids root)) = rstart m root")
  case False
  then have g: "at_gap m kids root None (kids root) (rstart m root)" using at_gap_start [OF t] by blast
  have l: "links (sibling m) (this_of (kids root)) (kids root)" using tree_okD(1) [OF t, of root] child_this_of [OF t] by simp
  have "\<forall>x. feasible m kids root con n x \<longrightarrow> rstart m root \<le> x" by (simp add: feasible_def clear_range_def)
  moreover have "raw_find_resource ALIGN m root None n con = find_loop ALIGN m root None con n (this_of (kids root)) (rstart m root)"
    using False by (auto simp: raw_find_resource_def child_this_of [OF t] this_of_def Let_def)
  ultimately show ?thesis using find_loop_complete [OF t con ex l g] by simp
next
  case True
  then obtain y ws where k: "kids root = y # ws" and f: "rstart m y = rstart m root" by (cases "kids root") auto
  have up: "rend m y < x" if "feasible m kids root con n x" for x
    using that k f by (auto simp: feasible_def clear_range_def)
  have lw: "links (sibling m) (sibling m y) ws" using tree_okD(1) [OF t, of root] k by simp
  then have l: "links (sibling m) (this_of ws) ws" using links_this_of by metis
  have "rstart m y \<le> rend m y" using kids_nonempty_range [OF t, of y root] k by simp
  moreover have "rend m y < rend m y + 1" using word_succ_le [OF up [OF ex]] by simp
  ultimately have g: "at_gap m kids root None ws (rend m y + 1)" using at_gap_second [OF t k f] f by simp
  have "\<forall>x. feasible m kids root con n x \<longrightarrow> rend m y + 1 \<le> x" using up word_succ_le by blast
  moreover have "raw_find_resource ALIGN m root None n con = find_loop ALIGN m root None con n (this_of ws) (rend m y + 1)"
    using k f links_this_of [OF lw] by (auto simp: raw_find_resource_def child_this_of [OF t] this_of_def Let_def)
  ultimately show ?thesis using find_loop_complete [OF t con ex l g] by simp
qed

section \<open>Allocation is first fit\<close>

lemma request_clear_iff:
  assumes u: "unlinked kids new" "new \<noteq> root"
  shows "within (set_range m new (a, b)) new root \<and> find (overlaps (set_range m new (a, b)) new) (kids root) = None \<longleftrightarrow>
    clear_range m kids root None a b"
proof -
  have "c \<noteq> new" if "c \<in> set (kids root)" for c using that u(1) by (auto simp: unlinked_def)
  then show ?thesis using u(2) by (auto simp: within_def clear_range_def find_None_iff overlaps_def not_le)
qed

lemma takes_all_not_clear: "takes_all m kids root None \<Longrightarrow> \<not> clear_range m kids root None a b"
  by (auto simp: takes_all_def clear_range_def word_order.extremum_strict)

definition fits :: "res_mem \<Rightarrow> kids \<Rightarrow> nat \<Rightarrow> u64 \<Rightarrow> u64 \<Rightarrow> u64 \<Rightarrow> u64 \<Rightarrow> u64 \<Rightarrow> bool" where
  "fits m kids root n lo hi align x \<longleftrightarrow>
     clear_range m kids root None x (x + n - 1) \<and> lo \<le> x \<and> x + n - 1 \<le> hi \<and> aligned align x"

lemma allocate_eq:
  assumes t: "tree_ok m kids" and u: "unlinked kids new" "new \<noteq> root" "parent m new = None"
  shows "allocate_resource ALIGN m root new n lo hi align None =
    do { r \<leftarrow> raw_find_resource ALIGN m root None n \<lparr>cmin = lo, cmax = hi, calign = align, calignf = simple_align_resource\<rparr>;
         case r of
           Inl err \<Rightarrow> Some (m, Returned (Inl err))
         | Inr x \<Rightarrow>
             if clear_range m kids root None (fst x) (snd x)
             then Some (linked_in (set_range m new x) kids root new, Returned (Inr ()))
             else Some (set_range m new x, Returned (Inl EBUSY)) }"
proof -
  have "do { (m', conflict) \<leftarrow> raw_request_resource (set_range m new x) root new;
        Some (m', Returned (if conflict \<noteq> None then Inl EBUSY else Inr ())) } =
      (if clear_range m kids root None (fst x) (snd x)
       then Some (linked_in (set_range m new x) kids root new, Returned (Inr ()))
       else Some (set_range m new x, Returned (Inl EBUSY)))" for x
    using raw_request_eq [OF tree_ok_set_range_unlinked [OF t u(1)], of x root new] request_clear_iff [OF u(1,2), of m "fst x" "snd x"]
    by (auto split: option.splits)
  then show ?thesis using u(3) by (simp add: allocate_resource_def find_resource_def Let_def cong: sum.case_cong)
qed

text \<open>
  C16. Allocating a resource that is not in the tree, with the default alignment function, always returns.
  It succeeds exactly if there is a place for it: a range of the size asked for that does not wrap around, inside
  the root, the bounds and clear of the children of the root, at a multiple of the alignment. It then has the
  lowest such place and is a child of the root, the tree being well-formed; otherwise it gets \<^verbatim>\<open>-EBUSY\<close> and the tree
  stays what it was.
\<close>

theorem allocate_resource_first_fit:
  assumes t: "tree_ok m kids" and u: "unlinked kids new" "new \<noteq> root" "parent m new = None" and al: "align_up ALIGN align"
  shows "\<exists>m' r. allocate_resource ALIGN m root new n lo hi align None = Some (m', Returned r) \<and>
    (if \<exists>x. fits m kids root n lo hi align x
     then r = Inr () \<and> fits m kids root n lo hi align (rstart m' new) \<and>
       (\<forall>x. fits m kids root n lo hi align x \<longrightarrow> rstart m' new \<le> x) \<and> rend m' new = rstart m' new + n - 1 \<and>
       tree_ok m' (kids(root := kids_below m' kids root new @ new # kids_above m' kids root new))
     else r = Inl EBUSY \<and> tree_ok m' kids)"
proof -
  define con where "con = \<lparr>cmin = lo, cmax = hi, calign = align, calignf = simple_align_resource\<rparr>"
  have con: "calignf con = simple_align_resource" "align_up ALIGN (calign con)" using al by (simp_all add: con_def)
  have fits: "fits m kids root n lo hi align x \<longleftrightarrow> feasible m kids root con n x" for x by (simp add: fits_def feasible_def con_def)
  note ok = tree_ok_set_range_unlinked [OF t u(1)]
  note alloc = allocate_eq [OF t u, of ALIGN n lo hi align, folded con_def]
  show ?thesis
  proof (cases "\<exists>x. feasible m kids root con n x")
    case True
    then obtain a where a: "raw_find_resource ALIGN m root None n con = Some (Inr (a, a + n - 1))"
      "feasible m kids root con n a" "\<forall>x. feasible m kids root con n x \<longrightarrow> a \<le> x"
      using raw_find_complete [OF t con] by blast
    let ?m = "set_range m new (a, a + n - 1)"
    let ?m' = "linked_in ?m kids root new"
    have c: "clear_range m kids root None a (a + n - 1)" using a(2) by (simp add: feasible_def)
    then have "tree_ok ?m' (kids(root := kids_below ?m kids root new @ new # kids_above ?m kids root new))"
      using linked_in_ok [OF ok u(1,2)] request_clear_iff [OF u(1,2)] by blast
    moreover have "kids_below ?m = kids_below ?m'" "kids_above ?m = kids_above ?m'"
      by (simp_all add: kids_below_def kids_above_def below_def fun_eq_iff)
    moreover have "allocate_resource ALIGN m root new n lo hi align None = Some (?m', Returned (Inr ()))"
      using alloc a(1) c by simp
    ultimately show ?thesis using True a(2,3) fits by simp
  next
    case False
    obtain r where r: "raw_find_resource ALIGN m root None n con = Some r"
      "\<forall>x. r = Inr x \<longrightarrow> found_ok ALIGN m kids root None con n x \<or> takes_all m kids root None" "\<forall>err. r = Inl err \<longrightarrow> err = EBUSY"
      using raw_find_sound [OF t] by blast
    have "\<not> clear_range m kids root None (fst x) (snd x)" if x: "r = Inr x" for x
    proof
      assume c: "clear_range m kids root None (fst x) (snd x)"
      then have "found_ok ALIGN m kids root None con n x" using r(2) x takes_all_not_clear by blast
      then have "feasible m kids root con n (fst x)" using c con by (cases x) (simp add: found_ok_def feasible_def)
      then show False using False by blast
    qed
    then have "\<exists>m'. allocate_resource ALIGN m root new n lo hi align None = Some (m', Returned (Inl EBUSY)) \<and> tree_ok m' kids"
      using alloc r(1,3) t ok by (cases r) auto
    then show ?thesis using False fits by auto
  qed
qed

section \<open>Reallocation\<close>

lemma tree_ok_other:
  assumes t: "tree_ok m kids" and u: "unlinked kids r"
    and same: "\<forall>x. x \<noteq> r \<longrightarrow> rstart m' x = rstart m x \<and> rend m' x = rend m x \<and> parent m' x = parent m x \<and> sibling m' x = sibling m x"
    "child m' = child m"
  shows "tree_ok m' kids"
proof (rule tree_okI)
  have n: "r \<notin> set (kids q)" "kids r = []" for q using u by (auto simp: unlinked_def)
  fix q
  have eq: "x \<noteq> r" if "x \<in> set (kids q)" for x using that n by auto
  have "links (sibling m') (child m' q) (kids q) = links (sibling m) (child m q) (kids q)"
    unfolding same(2) by (rule links_cong) (use eq same(1) in blast)
  then show "links (sibling m') (child m' q) (kids q)" using tree_okD(1) [OF t] by simp
  show "sorted_wrt (below m') (kids q)"
    by (rule sorted_wrt_mono_rel [OF _ tree_okD(4) [OF t, of q]]) (use eq same(1) in \<open>auto simp: below_def\<close>)
  fix c
  assume c: "c \<in> set (kids q)"
  then have "c \<noteq> r" "q \<noteq> r" using n by auto
  then show "parent m' c = Some q" "within m' c q" using tree_okD(2,3) [OF t c] same(1) by (auto simp: within_def)
qed (rule tree_okD(5) [OF t])

text \<open>A child moved to a clear range that contains its own, or lies inside it if it has no children itself.\<close>

lemma move_in_place:
  assumes t: "tree_ok m kids" and k: "old \<in> set (kids root)" and c: "clear_range m kids root (Some old) a b"
    and near: "a \<le> rstart m old \<and> rend m old \<le> b \<or> kids old = [] \<and> rstart m old \<le> a \<and> b \<le> rend m old"
  shows "tree_ok (set_range m old (a, b)) kids"
proof -
  have ab: "rstart m root \<le> a" "a \<le> b" "b \<le> rend m root" using c by (simp_all add: clear_range_def)
  have only: "q = root" if "old \<in> set (kids q)" for q using that k tree_parent_unique [OF t] by blast
  obtain us vs where kr: "kids root = us @ old # vs" using split_list [OF k] by blast
  have d: "distinct (us @ old # vs)" using tree_okD(6) [OF t, of root] kr by simp
  have ne: "rstart m x \<le> rend m x" if "x \<in> set (us @ old # vs)" for x using that kr kids_nonempty_range [OF t, of x root] by simp
  have srt: "sorted_wrt (below m) (us @ old # vs)" using tree_okD(4) [OF t, of root] kr by simp
  have "rend m u < a" if u: "u \<in> set us" for u
  proof -
    have "rend m u < rstart m old" using srt u by (simp add: sorted_wrt_append below_def)
    moreover have "rend m u < a \<or> b < rstart m u" using c u d kr by (auto simp: clear_range_def)
    ultimately show ?thesis using near ne [of u] ne [of old] u by auto
  qed
  then have "us = [] \<or> rend m (last us) < a" using last_in_set by blast
  moreover have "b < rstart m v" if v: "v \<in> set vs" for v
  proof -
    have "rend m old < rstart m v" using srt v by (simp add: sorted_wrt_append below_def)
    moreover have "rend m v < a \<or> b < rstart m v" using c v d kr by (auto simp: clear_range_def)
    ultimately show ?thesis using near ne [of v] ne [of old] v by auto
  qed
  then have "vs = [] \<or> b < rstart m (hd vs)" using hd_in_set by blast
  ultimately have "sorted_wrt (below (set_range m old (a, b))) (kids root)"
    unfolding kr using sorted_adjust [OF srt d] ne by blast
  moreover have "a \<le> rstart m x \<and> rend m x \<le> b" if x: "x \<in> set (kids old)" for x
    using tree_okD(3) [OF t x] near x by (auto simp: within_def)
  ultimately show ?thesis unfolding tree_ok_range_iff [OF t ab(2)] using ab only by blast
qed

lemma move_away:
  assumes t: "tree_ok m kids" and k: "old \<in> set (kids root)" "kids old = []"
  shows "\<exists>m1 m2 c. raw_release_resource m old = Some (m1, Inr ()) \<and>
    raw_request_resource (restore m m1 old (a, b)) root old = Some (m2, c) \<and> rstart m2 old = a \<and> rend m2 old = b \<and>
    (clear_range m kids root (Some old) a b \<longrightarrow> c = None \<and> (\<exists>kids'. tree_ok m2 kids' \<and> old \<in> set (kids' root))) \<and>
    (c \<noteq> None \<longrightarrow> \<not> clear_range m kids root (Some old) a b)"
proof -
  define k1 where "k1 = kids(root := remove1 old (kids root))"
  define m1 where "m1 = set_parent (set_link m (link_after (ChildOf root) (takeWhile (\<lambda>c. c \<noteq> old) (kids root))) (sibling m old)) old None"
  define m2 where "m2 = restore m m1 old (a, b)"
  have rel: "raw_release_resource m old = Some (m1, Inr ())"
    using raw_release_eq [OF t tree_okD(2) [OF t k(1)]] k(1) by (simp add: m1_def)
  have t1: "tree_ok m1 k1" using release_ok [OF t k(1)] by (simp add: m1_def k1_def)
  have nr: "old \<noteq> root" using k(1) not_own_kid [OF t] by blast
  have "old \<notin> set (kids q)" if "q \<noteq> root" for q using that k(1) tree_parent_unique [OF t] by blast
  then have u: "unlinked k1 old" using k(2) nr tree_okD(6) [OF t, of root] by (simp add: unlinked_def k1_def)
  have ch: "child m1 old = child m old" using nr tree_okD(1) [OF t, of old]
    by (cases "takeWhile (\<lambda>c. c \<noteq> old) (kids root) = []") (simp_all add: m1_def link_after_def)
  have t2: "tree_ok m2 k1"
    by (rule tree_ok_other [OF t1 u]) (use ch in \<open>auto simp: m2_def restore_def set_range_def\<close>)
  have rng: "rstart m2 = (rstart m)(old := a)" "rend m2 = (rend m)(old := b)"
    by (simp_all add: m2_def restore_def m1_def fun_eq_iff)
  have kr: "set (k1 root) = set (kids root) - {old}" using tree_okD(6) [OF t, of root] by (simp add: k1_def)
  have iff: "within m2 old root \<and> find (overlaps m2 old) (k1 root) = None \<longleftrightarrow> clear_range m kids root (Some old) a b"
    using nr kr by (auto simp: within_def clear_range_def find_None_iff overlaps_def rng not_le)
  have req: "raw_request_resource m2 root old = Some (if clear_range m kids root (Some old) a b then (linked_in m2 k1 root old, None)
      else (m2, Some (if \<not> within m2 old root then root else the (find (overlaps m2 old) (k1 root)))))"
    using raw_request_eq [OF t2, of root old] iff by (auto split: option.splits)
  have ok: "tree_ok (linked_in m2 k1 root old) (k1(root := kids_below m2 k1 root old @ old # kids_above m2 k1 root old))"
    if "clear_range m kids root (Some old) a b"
    by (rule linked_in_ok [OF t2 u nr]) (use iff that in simp_all)
  show ?thesis
  proof (cases "clear_range m kids root (Some old) a b")
    case True
    have "old \<in> set ((k1(root := kids_below m2 k1 root old @ old # kids_above m2 k1 root old)) root)" by simp
    then show ?thesis using True rel req ok [OF True] rng unfolding m2_def by (intro exI conjI) (auto)
  next
    case False
    then show ?thesis using rel req rng unfolding m2_def by auto
  qed
qed

text \<open>
  C33. Reallocating a child of the root always returns or stops the kernel. If it fails, it is with \<^verbatim>\<open>-EBUSY\<close> and
  nothing changes. If it succeeds, the child has a range of the new size within the bounds. As long as that range does not
  wrap around, the kernel is not stopped and the tree is well-formed with the resource still a child of the root.
\<close>

theorem reallocate_resource_correct:
  assumes t: "tree_ok m kids" and k: "old \<in> set (kids root)"
  shows "\<exists>m' r. reallocate_resource ALIGN m root old n con = Some (m', r) \<and>
    (\<forall>err. r = Returned (Inl err) \<longrightarrow> m' = m \<and> err = EBUSY) \<and>
    (r = Returned (Inr ()) \<longrightarrow> rend m' old = rstart m' old + n - 1 \<and> cmin con \<le> rstart m' old \<and> rend m' old \<le> cmax con) \<and>
    (rstart m' old \<le> rend m' old \<longrightarrow> r \<noteq> BUG \<and> (\<exists>kids'. tree_ok m' kids' \<and> old \<in> set (kids' root)))"
proof -
  have "\<not> takes_all m kids root (Some old)" using takes_all_single [OF t] k by (fastforce simp: takes_all_def)
  then obtain r where r: "raw_find_resource ALIGN m root (Some old) n con = Some r"
    and ok: "\<forall>x. r = Inr x \<longrightarrow> found_ok ALIGN m kids root (Some old) con n x" "\<forall>err. r = Inl err \<longrightarrow> err = EBUSY"
    using raw_find_sound [OF t, of ALIGN root "Some old" n con] by blast
  show ?thesis
  proof (cases r)
    case (Inl err)
    then have "reallocate_resource ALIGN m root old n con = Some (m, Returned (Inl EBUSY))"
      using r ok(2) by (simp add: reallocate_resource_def)
    then show ?thesis using t k by auto
  next
    case (Inr x)
    obtain a b where x: "x = (a, b)" by (cases x)
    have f: "b = a + n - 1" "cmin con \<le> a" "b \<le> cmax con" "a \<le> b \<Longrightarrow> clear_range m kids root (Some old) a b"
      using ok(1) Inr x by (auto simp: found_ok_def)
    have c: "child m old = None \<longleftrightarrow> kids old = []" using child_this_of [OF t, of old] by (simp add: this_of_def)
    let ?in = "a \<le> rstart m old \<and> rend m old \<le> b" and ?out = "kids old = [] \<and> rstart m old \<le> a \<and> b \<le> rend m old"
    consider "?in \<or> ?out" | "\<not> ?in" "kids old \<noteq> []" | "\<not> ?in" "kids old = []" "\<not> ?out" by blast
    then show ?thesis
    proof cases
      case 1
      then have "reallocate_resource ALIGN m root old n con = Some (set_range m old (a, b), Returned (Inr ()))"
        using r Inr x c by (auto simp: reallocate_resource_def resource_contains_def)
      moreover have "tree_ok (set_range m old (a, b)) kids" if "a \<le> b" by (rule move_in_place [OF t k f(4) [OF that] 1])
      ultimately show ?thesis using f k by auto
    next
      case 2
      then have "reallocate_resource ALIGN m root old n con = Some (m, Returned (Inl EBUSY))"
        using r Inr x c by (auto simp: reallocate_resource_def resource_contains_def)
      then show ?thesis using t k by auto
    next
      case 3
      obtain m1 m2 cf where mv: "raw_release_resource m old = Some (m1, Inr ())"
        "raw_request_resource (restore m m1 old (a, b)) root old = Some (m2, cf)" "rstart m2 old = a" "rend m2 old = b"
        "clear_range m kids root (Some old) a b \<Longrightarrow> cf = None \<and> (\<exists>kids'. tree_ok m2 kids' \<and> old \<in> set (kids' root))"
        using move_away [OF t k 3(2), of a b] by blast
      then have "reallocate_resource ALIGN m root old n con = Some (m2, if cf \<noteq> None then BUG else Returned (Inr ()))"
        using r Inr x c 3 by (auto simp: reallocate_resource_def resource_contains_def)
      then show ?thesis using f mv(3-5) by auto
    qed
  qed
qed

definition demo_ALIGN :: "u64 \<Rightarrow> u64 \<Rightarrow> u64" where
  "demo_ALIGN x a = of_nat ((unat x + unat a - 1) div unat a * unat a)"

lemma demo_align_up: "align_up demo_ALIGN 16"
proof -
  have "unat (16 :: u64) = 2 ^ 4" "(4 :: nat) < 64" by simp_all
  moreover have "unat (demo_ALIGN x 16) = ((unat x + unat (16 :: u64) - 1) div unat (16 :: u64) * unat (16 :: u64)) mod 2 ^ 64" for x
    unfolding demo_ALIGN_def unat_of_nat by simp
  ultimately show ?thesis unfolding align_up_def by blast
qed

declare find_loop.simps [code] request_loop.simps [code] link_to.simps [code]

theorem allocate_resource_first_fit_witness:
  "parent demo_mem 5 = None \<and> fits demo_mem demo_kids 9 256 1 65535 16 1024 \<and>
   (\<exists>m' kids'. allocate_resource demo_ALIGN demo_mem 9 5 256 1 65535 16 None = Some (m', Returned (Inr ())) \<and> tree_ok m' kids')"
proof -
  have f: "fits demo_mem demo_kids 9 256 1 65535 16 1024"
    by (simp add: fits_def clear_range_def demo_mem_def demo_kids_def aligned_def)
  have p: "parent demo_mem 5 = None" by (simp add: demo_mem_def)
  have ex: "\<exists>x. fits demo_mem demo_kids 9 256 1 65535 16 x" using f by blast
  show ?thesis
    using allocate_resource_first_fit [OF demo_tree_ok demo_unlinked(2) _ p demo_align_up, of 9 256 1 65535] f p unfolding if_P [OF ex] by auto
qed

theorem reallocate_resource_correct_witness:
  "2 \<in> set (demo_kids 9) \<and> (\<exists>m' kids'. reallocate_resource demo_ALIGN demo_mem 9 2 512
      \<lparr>cmin = 0, cmax = 65535, calign = 16, calignf = simple_align_resource\<rparr> = Some (m', Returned (Inr ())) \<and>
      rstart m' 2 = 0 \<and> rend m' 2 = 511 \<and> tree_ok m' kids')"
proof -
  let ?r = "reallocate_resource demo_ALIGN demo_mem 9 2 512 \<lparr>cmin = 0, cmax = 65535, calign = 16, calignf = simple_align_resource\<rparr>"
  have k: "2 \<in> set (demo_kids 9)" by (simp add: demo_kids_def)
  have e: "map_option (\<lambda>(m, r). (rstart m 2, rend m 2, r)) ?r = Some (0, 511, Returned (Inr ()))" by code_simp
  show ?thesis
    using reallocate_resource_correct [OF demo_tree_ok k, of demo_ALIGN 512 "\<lparr>cmin = 0, cmax = 65535, calign = 16, calignf = simple_align_resource\<rparr>"] k e
    by auto
qed

text \<open>
  The size asked for is not checked for a wrap-around. Asked to give a resource that has no children the size
  zero (or one so large that the end of the range wraps around), above the place where it is, \<^verbatim>\<open>reallocate_resource\<close>
  accepts a range that ends before it starts, releases the resource, cannot request it again, and stops the kernel.
\<close>

theorem reallocate_resource_bug_on:
  "map_option snd (reallocate_resource demo_ALIGN demo_mem 9 2 0
     \<lparr>cmin = 1024, cmax = 65535, calign = 16, calignf = simple_align_resource\<rparr>) = Some BUG \<and>
   map_option snd (reallocate_resource demo_ALIGN demo_mem 9 2 (- 256)
     \<lparr>cmin = 1024, cmax = 65535, calign = 16, calignf = simple_align_resource\<rparr>) = Some BUG"
  by code_simp

end
