(* ===== verification/Resource_Region.thy ===== *)
theory Resource_Region
  imports Resource_Alloc
begin

text \<open>
  Regions (\<^verbatim>\<open>resource.c\<close>): resources that drivers allocate and mark busy. The state adds to the tree the free list
  of the resources that the boot allocator handed out. What is not part of these sources comes in as arguments:
  the results of \<^verbatim>\<open>kzalloc\<close>, whether an address came from it (\<^verbatim>\<open>PageSlab\<close>), and the bits of the flags. A request for a
  multiplexed region may sleep; what the other tasks do to the state in the meantime is an argument as well.
\<close>

record region_state =
  tree :: res_mem
  bootmem_resource_free :: "nat option"

record io_bits =
  IORESOURCE_BUSY :: u64
  IORESOURCE_MUXED :: u64
  IORESOURCE_MEM :: u64

section \<open>Allocating descriptors\<close>

definition zeroed :: "res_mem \<Rightarrow> nat \<Rightarrow> res_mem" where
  "zeroed m r = \<lparr>rstart = (rstart m)(r := 0), rend = (rend m)(r := 0), rflags = (rflags m)(r := 0), rname = (rname m)(r := []),
     parent = (parent m)(r := None), sibling = (sibling m)(r := None), child = (child m)(r := None)\<rparr>"

definition alloc_resource :: "nat option \<Rightarrow> region_state \<Rightarrow> region_state \<times> nat option" where
  "alloc_resource kzalloc st =
     (case bootmem_resource_free st of
        Some r \<Rightarrow> (st\<lparr>bootmem_resource_free := sibling (tree st) r, tree := zeroed (tree st) r\<rparr>, Some r)
      | None \<Rightarrow> (case kzalloc of None \<Rightarrow> (st, None) | Some r \<Rightarrow> (st\<lparr>tree := zeroed (tree st) r\<rparr>, Some r)))"

definition free_resource :: "(nat \<Rightarrow> bool) \<Rightarrow> region_state \<Rightarrow> nat option \<Rightarrow> region_state" where
  "free_resource slab st res =
     (case res of
        None \<Rightarrow> st
      | Some r \<Rightarrow>
          if \<not> slab r then st\<lparr>tree := set_link (tree st) (SiblingOf r) (bootmem_resource_free st), bootmem_resource_free := Some r\<rparr>
          else st)"

definition init_resource :: "res_mem \<Rightarrow> nat \<Rightarrow> string \<Rightarrow> u64 \<times> u64 \<Rightarrow> u64 \<Rightarrow> res_mem" where
  "init_resource m r name x flags =
     set_range (m\<lparr>rname := (rname m)(r := name), rflags := (rflags m)(r := flags)\<rparr>) r x"

section \<open>Requesting and releasing regions\<close>

text \<open>
  The loop of \<^verbatim>\<open>__request_region\<close> up to the point where it succeeds, gives up or goes to sleep, with the \<^verbatim>\<open>parent\<close> it
  will go on with.
\<close>

datatype region_step = Granted | Refused | Wait nat

partial_function (option) request_region_loop ::
  "io_bits \<Rightarrow> res_mem \<Rightarrow> nat \<Rightarrow> nat \<Rightarrow> u64 \<Rightarrow> (res_mem \<times> region_step) option" where
  "request_region_loop bits m par res flags = do {
     (m1, conflict) \<leftarrow> raw_request_resource m par res;
     case conflict of
       None \<Rightarrow> Some (m1, Granted)
     | Some c \<Rightarrow>
         if c \<noteq> par \<and> and (rflags m1 c) (IORESOURCE_BUSY bits) = 0 then request_region_loop bits m1 c res flags
         else if and (and (rflags m1 c) flags) (IORESOURCE_MUXED bits) \<noteq> 0 then Some (m1, Wait c)
         else Some (m1, Refused)
   }"

text \<open>
  The whole loop: \<open>others\<close> is what happens to the state during each of the sleeps; the call has no result if it still
  sleeps in the end.
\<close>

fun request_region_wait ::
  "(nat \<Rightarrow> bool) \<Rightarrow> io_bits \<Rightarrow> region_state \<Rightarrow> nat \<Rightarrow> nat \<Rightarrow> u64 \<Rightarrow> (region_state \<Rightarrow> region_state) list \<Rightarrow> (region_state \<times> nat option) option" where
  "request_region_wait slab bits st par res flags others = do {
     (m1, r) \<leftarrow> request_region_loop bits (tree st) par res flags;
     case r of
       Granted \<Rightarrow> Some (st\<lparr>tree := m1\<rparr>, Some res)
     | Refused \<Rightarrow> Some (free_resource slab (st\<lparr>tree := m1\<rparr>) (Some res), None)
     | Wait par' \<Rightarrow>
         (case others of [] \<Rightarrow> None | f # fs \<Rightarrow> request_region_wait slab bits (f (st\<lparr>tree := m1\<rparr>)) par' res flags fs)
   }"

declare request_region_wait.simps [simp del]

definition raw_request_region ::
  "(nat \<Rightarrow> bool) \<Rightarrow> io_bits \<Rightarrow> nat option \<Rightarrow> region_state \<Rightarrow> nat \<Rightarrow> u64 \<Rightarrow> u64 \<Rightarrow> string \<Rightarrow> u64 \<Rightarrow> (region_state \<Rightarrow> region_state) list \<Rightarrow>
    (region_state \<times> nat option) option" where
  "raw_request_region slab bits kzalloc st par s n name flags others =
     (case alloc_resource kzalloc st of
        (st1, None) \<Rightarrow> Some (st1, None)
      | (st1, Some res) \<Rightarrow>
          request_region_wait slab bits
            (st1\<lparr>tree := init_resource (tree st1) res name (s, s + n - 1) (or (IORESOURCE_BUSY bits) flags)\<rparr>) par res flags others)"

text \<open>\<^verbatim>\<open>__check_region\<close> requests without flags, so it does not sleep.\<close>

definition raw_check_region ::
  "(nat \<Rightarrow> bool) \<Rightarrow> io_bits \<Rightarrow> nat option \<Rightarrow> region_state \<Rightarrow> nat \<Rightarrow> u64 \<Rightarrow> u64 \<Rightarrow> (region_state \<times> unit result) option" where
  "raw_check_region slab bits kzalloc st par s n = do {
     (st1, res) \<leftarrow> raw_request_region slab bits kzalloc st par s n ''check-region'' 0 [];
     case res of
       None \<Rightarrow> Some (st1, Inl EBUSY)
     | Some r \<Rightarrow> do {
         (m2, _) \<leftarrow> release_resource (tree st1) r;
         Some (free_resource slab (st1\<lparr>tree := m2\<rparr>) (Some r), Inr ())
       }
   }"

text \<open>The loop of \<^verbatim>\<open>__release_region\<close>: the link to the region, if it exists.\<close>

partial_function (option) release_region_loop :: "io_bits \<Rightarrow> res_mem \<Rightarrow> u64 \<Rightarrow> u64 \<Rightarrow> link \<Rightarrow> (link \<times> nat) option option" where
  "release_region_loop bits m s e p =
     (if get_link m p = None then Some None
      else let r = the (get_link m p)
        in if rstart m r \<le> s \<and> rend m r \<ge> e
           then if and (rflags m r) (IORESOURCE_BUSY bits) = 0 then release_region_loop bits m s e (ChildOf r)
                else if rstart m r \<noteq> s \<or> rend m r \<noteq> e then Some None
                else Some (Some (p, r))
           else release_region_loop bits m s e (SiblingOf r))"

text \<open>
  The result says whether the region existed (otherwise there is a warning) and whether those that wait for a
  multiplexed region were woken up.
\<close>

definition raw_release_region ::
  "(nat \<Rightarrow> bool) \<Rightarrow> io_bits \<Rightarrow> region_state \<Rightarrow> nat \<Rightarrow> u64 \<Rightarrow> u64 \<Rightarrow> (region_state \<times> bool \<times> bool) option" where
  "raw_release_region slab bits st par s n = do {
     x \<leftarrow> release_region_loop bits (tree st) s (s + n - 1) (ChildOf par);
     case x of
       None \<Rightarrow> Some (st, False, False)
     | Some (p, r) \<Rightarrow>
         let m = set_link (tree st) p (sibling (tree st) r)
         in Some (free_resource slab (st\<lparr>tree := m\<rparr>) (Some r), True, and (rflags m r) (IORESOURCE_MUXED bits) \<noteq> 0)
   }"

section \<open>Reserving what is free of a range\<close>

text \<open>
  The loop of \<^verbatim>\<open>__reserve_region_with_split\<close>; \<open>kzs\<close> are the results of the calls of \<^verbatim>\<open>kzalloc\<close> that follow.
\<close>

definition next_kzalloc :: "nat option list \<Rightarrow> nat option" where
  "next_kzalloc kzs = (if kzs = [] then None else hd kzs)"

definition new_busy :: "io_bits \<Rightarrow> region_state \<Rightarrow> nat \<Rightarrow> string \<Rightarrow> u64 \<times> u64 \<Rightarrow> region_state" where
  "new_busy bits st r name x = st\<lparr>tree := init_resource (tree st) r name x (IORESOURCE_BUSY bits)\<rparr>"

partial_function (option) reserve_loop ::
  "(nat \<Rightarrow> bool) \<Rightarrow> io_bits \<Rightarrow> string \<Rightarrow> nat \<Rightarrow> region_state \<Rightarrow> nat \<Rightarrow> nat option \<Rightarrow> nat option list \<Rightarrow> region_state option" where
  "reserve_loop slab bits name par st res next_res kzs = do {
     (m1, conflict) \<leftarrow> raw_request_resource (tree st) par res;
     let st1 = st\<lparr>tree := m1\<rparr>; c = the conflict
     in if conflict = None
        then if next_res = None then Some st1 else reserve_loop slab bits name par st1 (the next_res) None kzs
        else if rstart m1 c \<le> rstart m1 res \<and> rend m1 c \<ge> rend m1 res then Some (free_resource slab st1 (Some res))
        else if rstart m1 c > rstart m1 res
        then let e = rend m1 res; st2 = st1\<lparr>tree := set_range m1 res (rstart m1 res, rstart m1 c - 1)\<rparr>
          in if rend m1 c < e
             then let (st3, a) = alloc_resource (next_kzalloc kzs) st2
               in if a = None then Some (free_resource slab st3 (Some res))
                  else reserve_loop slab bits name par (new_busy bits st3 (the a) name (rend m1 c + 1, e)) res a (tl kzs)
             else reserve_loop slab bits name par st2 res next_res kzs
        else reserve_loop slab bits name par (st1\<lparr>tree := set_range m1 res (rend m1 c + 1, rend m1 res)\<rparr>) res next_res kzs
   }"

definition raw_reserve_region_with_split ::
  "(nat \<Rightarrow> bool) \<Rightarrow> io_bits \<Rightarrow> region_state \<Rightarrow> nat \<Rightarrow> u64 \<Rightarrow> u64 \<Rightarrow> string \<Rightarrow> nat option list \<Rightarrow> region_state option" where
  "raw_reserve_region_with_split slab bits st root s e name kzs =
     (case alloc_resource (next_kzalloc kzs) st of
        (st1, None) \<Rightarrow> Some st1
      | (st1, Some res) \<Rightarrow> reserve_loop slab bits name root (new_busy bits st1 res name (s, e)) res None (tl kzs))"

definition reserve_region_with_split ::
  "(nat \<Rightarrow> bool) \<Rightarrow> io_bits \<Rightarrow> region_state \<Rightarrow> nat \<Rightarrow> u64 \<Rightarrow> u64 \<Rightarrow> string \<Rightarrow> nat option list \<Rightarrow> region_state option" where
  "reserve_region_with_split slab bits st root s e name kzs =
     (let m = tree st
      in if rstart m root > s \<or> rend m root < e
         then if s > rend m root \<or> e < rstart m root then Some st
              else raw_reserve_region_with_split slab bits st root
                (if s < rstart m root then rstart m root else s) (if e > rend m root then rend m root else e) name kzs
         else raw_reserve_region_with_split slab bits st root s e name kzs)"

section \<open>Releasing part of a region\<close>

text \<open>The loop of \<^verbatim>\<open>release_mem_region_adjustable\<close>: the link to the busy memory resource that contains the range.\<close>

partial_function (option) mem_region_loop :: "io_bits \<Rightarrow> res_mem \<Rightarrow> u64 \<Rightarrow> u64 \<Rightarrow> link \<Rightarrow> (link \<times> nat) option option" where
  "mem_region_loop bits m s e p =
     (if get_link m p = None then Some None
      else let r = the (get_link m p)
        in if rstart m r \<ge> e then Some None
           else if rstart m r > s \<or> rend m r < e then mem_region_loop bits m s e (SiblingOf r)
           else if and (rflags m r) (IORESOURCE_MEM bits) = 0 then Some None
           else if and (rflags m r) (IORESOURCE_BUSY bits) = 0 then mem_region_loop bits m s e (ChildOf r)
           else Some (Some (p, r)))"

text \<open>The new descriptor of the upper part, before it is linked.\<close>

definition upper_part :: "res_mem \<Rightarrow> nat \<Rightarrow> nat \<Rightarrow> u64 \<Rightarrow> res_mem" where
  "upper_part m new res e =
     set_link (set_link (set_parent (init_resource m new (rname m res) (e + 1, rend m res) (rflags m res)) new (parent m res))
       (SiblingOf new) (sibling m res)) (ChildOf new) None"

definition release_mem_region_adjustable ::
  "(nat \<Rightarrow> bool) \<Rightarrow> io_bits \<Rightarrow> nat option \<Rightarrow> region_state \<Rightarrow> nat \<Rightarrow> u64 \<Rightarrow> u64 \<Rightarrow> (region_state \<times> unit result) option" where
  "release_mem_region_adjustable slab bits kzalloc st par s n =
     (let e = s + n - 1
      in if s < rstart (tree st) par \<or> e > rend (tree st) par then Some (st, Inl EINVAL)
         else let (st1, new_res) = alloc_resource kzalloc st; m = tree st1
           in do {
             x \<leftarrow> mem_region_loop bits m s e (ChildOf par);
             case x of
               None \<Rightarrow> Some (free_resource slab st1 new_res, Inl EINVAL)
             | Some (p, r) \<Rightarrow>
                 if rstart m r = s \<and> rend m r = e
                 then Some (free_resource slab (free_resource slab (st1\<lparr>tree := set_link m p (sibling m r)\<rparr>) (Some r)) new_res, Inr ())
                 else if rstart m r = s \<and> rend m r \<noteq> e
                 then do {
                   (m', ret) \<leftarrow> raw_adjust_resource m r (e + 1) (rend m r - e);
                   Some (free_resource slab (st1\<lparr>tree := m'\<rparr>) new_res, ret)
                 }
                 else if rstart m r \<noteq> s \<and> rend m r = e
                 then do {
                   (m', ret) \<leftarrow> raw_adjust_resource m r (rstart m r) (s - rstart m r);
                   Some (free_resource slab (st1\<lparr>tree := m'\<rparr>) new_res, ret)
                 }
                 else if new_res = None then Some (st1, Inl ENOMEM)
                 else do {
                   (m', ret) \<leftarrow> raw_adjust_resource (upper_part m (the new_res) r e) r (rstart m r) (s - rstart m r);
                   Some (if ret = Inr () then (st1\<lparr>tree := set_link m' (SiblingOf r) new_res\<rparr>, Inr ())
                     else (free_resource slab (st1\<lparr>tree := m'\<rparr>) new_res, ret))
                 }
           })"

section \<open>Where a region goes\<close>

text \<open>From a resource down through resources that are not busy and contain a range.\<close>

definition descend :: "io_bits \<Rightarrow> res_mem \<Rightarrow> kids \<Rightarrow> u64 \<Rightarrow> u64 \<Rightarrow> nat \<Rightarrow> nat \<Rightarrow> bool" where
  "descend bits m kids s e a b \<longleftrightarrow>
     b \<in> set (kids a) \<and> and (rflags m b) (IORESOURCE_BUSY bits) = 0 \<and> rstart m b \<le> s \<and> e \<le> rend m b"

text \<open>A range has no place below a resource if it does not fit into it, or overlaps a child that is busy or does not contain it.\<close>

definition blocked :: "io_bits \<Rightarrow> res_mem \<Rightarrow> kids \<Rightarrow> nat \<Rightarrow> nat \<Rightarrow> bool" where
  "blocked bits m kids res q \<longleftrightarrow> \<not> within m res q \<or>
     (\<exists>c\<in>set (kids q). overlaps m res c \<and> (and (rflags m c) (IORESOURCE_BUSY bits) \<noteq> 0 \<or> \<not> within m res c))"

lemma within_trans: "within m a b \<Longrightarrow> within m b c \<Longrightarrow> within m a c"
  by (auto simp: within_def)

lemma within_descends:
  assumes t: "tree_ok m kids" and d: "(descend bits m kids (rstart m res) (rend m res))\<^sup>*\<^sup>* c q" and w: "within m res q"
  shows "within m res c"
proof -
  have "within m q c \<or> q = c" using d
    by (induction rule: rtranclp_induct) (auto simp: descend_def dest: tree_okD(3) [OF t] intro: within_trans)
  then show ?thesis using w within_trans by blast
qed

lemma blocked_here:
  assumes rk: "\<forall>r. \<forall>c\<in>set (kids r). rank c < (rank r :: nat)"
    and no: "\<not> (within m res par \<and> find (overlaps m res) (kids par) = None)"
    and c: "\<not> ((if within m res par then the (find (overlaps m res) (kids par)) else par) \<noteq> par \<and>
      and (rflags m (if within m res par then the (find (overlaps m res) (kids par)) else par)) (IORESOURCE_BUSY bits) = 0)"
  shows "blocked bits m kids res par"
proof (cases "within m res par")
  case True
  then obtain d where d: "find (overlaps m res) (kids par) = Some d" using no by auto
  then have "d \<in> set (kids par)" "overlaps m res d" by (auto simp: find_Some_iff)
  moreover have "d \<noteq> par" using calculation(1) rk by fastforce
  ultimately show ?thesis using c d True by (auto simp: blocked_def)
qed (simp add: blocked_def)

lemma request_region_loop_cases:
  assumes t: "tree_ok m kids" and u: "unlinked kids res"
  shows "res \<noteq> par \<Longrightarrow> \<exists>m' r. request_region_loop bits m par res flags = Some (m', r) \<and> (and flags (IORESOURCE_MUXED bits) = 0 \<longrightarrow> r \<in> {Granted, Refused}) \<and>
    (r \<noteq> Granted \<longrightarrow> m' = m \<and> (\<exists>q. (descend bits m kids (rstart m res) (rend m res))\<^sup>*\<^sup>* par q \<and> blocked bits m kids res q)) \<and>
    (r = Granted \<longrightarrow> (\<exists>q. (descend bits m kids (rstart m res) (rend m res))\<^sup>*\<^sup>* par q \<and> within m res q \<and>
      find (overlaps m res) (kids q) = None \<and> m' = linked_in m kids q res))"
proof -
  obtain rank :: "nat \<Rightarrow> nat" where rk: "\<forall>r. \<forall>c\<in>set (kids r). rank c < rank r"
    using tree_okD(5) [OF t] unfolding ranked_def by blast
  show "res \<noteq> par \<Longrightarrow> ?thesis"
  proof (induction "rank par" arbitrary: par rule: less_induct)
    case less
    note step = request_region_loop.simps [of bits m par res flags, unfolded raw_request_eq [OF t]]
    show ?case
    proof (cases "within m res par \<and> find (overlaps m res) (kids par) = None")
      case True
      then show ?thesis using step by auto
    next
      case False
      define c where "c = (if within m res par then the (find (overlaps m res) (kids par)) else par)"
      have st: "request_region_loop bits m par res flags =
          (if c \<noteq> par \<and> and (rflags m c) (IORESOURCE_BUSY bits) = 0 then request_region_loop bits m c res flags
           else if and (and (rflags m c) flags) (IORESOURCE_MUXED bits) \<noteq> 0 then Some (m, Wait c) else Some (m, Refused))"
        unfolding step c_def using False by (auto split: option.splits)
      show ?thesis
      proof (cases "c \<noteq> par \<and> and (rflags m c) (IORESOURCE_BUSY bits) = 0")
        case True
        then have w: "within m res par" and "find (overlaps m res) (kids par) = Some c" using False by (auto simp: c_def split: if_splits)
        then have c: "c \<in> set (kids par)" by (metis find_Some_iff nth_mem)
        then have "rank c < rank par" "res \<noteq> c" using rk u by (auto simp: unlinked_def)
        then obtain m' r where r: "request_region_loop bits m c res flags = Some (m', r)"
            "and flags (IORESOURCE_MUXED bits) = 0 \<longrightarrow> r \<in> {Granted, Refused}"
          and n: "r \<noteq> Granted \<longrightarrow> m' = m \<and> (\<exists>q. (descend bits m kids (rstart m res) (rend m res))\<^sup>*\<^sup>* c q \<and> blocked bits m kids res q)"
          and g: "r = Granted \<longrightarrow> (\<exists>q. (descend bits m kids (rstart m res) (rend m res))\<^sup>*\<^sup>* c q \<and> within m res q \<and>
            find (overlaps m res) (kids q) = None \<and> m' = linked_in m kids q res)" using less.hyps by blast
        have desc: "descend bits m kids (rstart m res) (rend m res) par c" if "within m res c"
          using that True c by (simp add: descend_def within_def)
        note up = within_descends [OF t, of bits res c]
        have "blocked bits m kids res par" if "\<not> within m res c"
          using that c \<open>find (overlaps m res) (kids par) = Some c\<close> by (auto simp: blocked_def find_Some_iff)
        then have "m' = m \<and> (\<exists>q. (descend bits m kids (rstart m res) (rend m res))\<^sup>*\<^sup>* par q \<and> blocked bits m kids res q)" if "r \<noteq> Granted"
          using n that desc by (metis converse_rtranclp_into_rtranclp rtranclp.rtrancl_refl)
        moreover have "\<exists>q. (descend bits m kids (rstart m res) (rend m res))\<^sup>*\<^sup>* par q \<and> within m res q \<and>
            find (overlaps m res) (kids q) = None \<and> m' = linked_in m kids q res" if "r = Granted"
          using g that desc up by (metis converse_rtranclp_into_rtranclp)
        ultimately show ?thesis using st True r by auto
      next
        case not_down: False
        have "blocked bits m kids res par" using blocked_here [OF rk] False not_down by (simp add: c_def)
        moreover have "and flags (IORESOURCE_MUXED bits) = 0 \<longrightarrow> and (and (rflags m c) flags) (IORESOURCE_MUXED bits) = 0"
          by (simp add: and.assoc)
        ultimately show ?thesis using st not_down by (auto split: if_splits)
      qed
    qed
  qed
qed

section \<open>Finding a region again\<close>

lemma release_scan:
  assumes "links (sibling m) (get_link m p) (xs @ y # ys)" "\<forall>x\<in>set xs. \<not> (rstart m x \<le> s \<and> rend m x \<ge> e)"
    "rstart m y \<le> s" "e \<le> rend m y"
  shows "release_region_loop bits m s e p =
    (if and (rflags m y) (IORESOURCE_BUSY bits) = 0 then release_region_loop bits m s e (ChildOf y)
     else if rstart m y \<noteq> s \<or> rend m y \<noteq> e then Some None
     else Some (Some (link_after p xs, y)))"
  using assms(1,2)
proof (induction xs arbitrary: p)
  case Nil
  then show ?case using assms(3,4) by (subst release_region_loop.simps) simp
next
  case (Cons x xs)
  have "release_region_loop bits m s e p = release_region_loop bits m s e (SiblingOf x)"
    using Cons.prems by (subst release_region_loop.simps) auto
  then show ?case using Cons.IH [of "SiblingOf x"] Cons.prems by simp
qed

lemma release_at_kid:
  assumes t: "tree_ok m kids" and y: "y \<in> set (kids q)" and se: "s \<le> e" and c: "rstart m y \<le> s" "e \<le> rend m y"
  shows "\<exists>us vs. kids q = us @ y # vs \<and> release_region_loop bits m s e (ChildOf q) =
    (if and (rflags m y) (IORESOURCE_BUSY bits) = 0 then release_region_loop bits m s e (ChildOf y)
     else if rstart m y \<noteq> s \<or> rend m y \<noteq> e then Some None
     else Some (Some (link_after (ChildOf q) us, y)))"
proof -
  obtain us vs where k: "kids q = us @ y # vs" using split_list [OF y] by blast
  have "\<not> (rstart m x \<le> s \<and> rend m x \<ge> e)" if "x \<in> set us" for x
  proof -
    have "rend m x < rstart m y" using tree_okD(4) [OF t, of q] k that by (simp add: sorted_wrt_append below_def)
    then have "rend m x < e" using c(1) se by order
    then show ?thesis by auto
  qed
  then show ?thesis using release_scan [of m "ChildOf q" us y vs s e bits] tree_okD(1) [OF t, of q] k c by auto
qed

lemma release_region_finds:
  assumes t: "tree_ok m kids" and r: "r \<in> set (kids q)" and se: "rstart m r \<le> rend m r"
    and busy: "and (rflags m r) (IORESOURCE_BUSY bits) \<noteq> 0"
    and path: "(descend bits m kids (rstart m r) (rend m r))\<^sup>*\<^sup>* par q"
  shows "\<exists>us vs. kids q = us @ r # vs \<and>
    release_region_loop bits m (rstart m r) (rend m r) (ChildOf par) = Some (Some (link_after (ChildOf q) us, r))"
  using path
proof (induction rule: converse_rtranclp_induct)
  case base
  then show ?case using release_at_kid [OF t r se, of bits] busy by auto
next
  case (step a b)
  then have "b \<in> set (kids a)" "rstart m b \<le> rstart m r" "rend m r \<le> rend m b" "and (rflags m b) (IORESOURCE_BUSY bits) = 0"
    by (auto simp: descend_def)
  then have "release_region_loop bits m (rstart m r) (rend m r) (ChildOf a) = release_region_loop bits m (rstart m r) (rend m r) (ChildOf b)"
    using release_at_kid [OF t _ se, of b a bits] by auto
  then show ?case using step.IH by simp
qed

lemma tree_ok_zeroed:
  assumes "tree_ok m kids" "unlinked kids r"
  shows "tree_ok (zeroed m r) kids"
proof -
  have "child m r = None" using tree_okD(1) [OF assms(1), of r] assms(2) by (simp add: unlinked_def)
  then show ?thesis by (intro tree_ok_other [OF assms]) (auto simp: zeroed_def)
qed

lemma tree_ok_init: "tree_ok m kids \<Longrightarrow> unlinked kids r \<Longrightarrow> tree_ok (init_resource m r name x flags) kids"
  by (rule tree_ok_other) (auto simp: init_resource_def)

lemma tree_ok_free:
  assumes "tree_ok (tree st) kids" "unlinked kids r"
  shows "tree_ok (tree (free_resource slab st (Some r))) kids"
  using assms by (auto simp: free_resource_def intro: tree_ok_other)

lemma unlink_region:
  assumes t: "tree_ok m kids" and k: "kids q = us @ r # vs" and leaf: "kids r = []"
  shows "tree_ok (set_link m (link_after (ChildOf q) us) (sibling m r)) (kids(q := us @ vs))" "unlinked (kids(q := us @ vs)) r"
proof -
  let ?m = "set_link m (link_after (ChildOf q) us) (sibling m r)"
  have t': "tree_ok (set_parent ?m r None) (kids(q := us @ vs))" by (rule tree_ok_unlink [OF t k])
  have "r \<notin> set (us @ vs)" using tree_okD(6) [OF t, of q] k by simp
  moreover have "r \<notin> set (kids q')" if "q' \<noteq> q" for q' using that k tree_parent_unique [OF t, of r q q'] by auto
  moreover have "r \<noteq> q" using not_own_kid [OF t, of q] k by auto
  ultimately show u: "unlinked (kids(q := us @ vs)) r" using leaf by (auto simp: unlinked_def)
  show "tree_ok ?m (kids(q := us @ vs))" by (rule tree_ok_other [OF t' u]) simp_all
qed

section \<open>Correctness\<close>

lemma and_or_absorb: "and (or b f) b = (b :: u64)"
  by (rule bit_eqI) (auto simp: bit_simps)

lemma append_Cons_unique: "us @ r # vs = us' @ r # vs' \<Longrightarrow> r \<notin> set us' \<Longrightarrow> r \<notin> set vs' \<Longrightarrow> us = us' \<and> vs = vs'"
  by (auto simp: append_eq_append_conv2 append_eq_Cons_conv Cons_eq_append_conv)

lemma granted_release:
  assumes t: "tree_ok m kids" and u: "unlinked kids r" "r \<noteq> q" and w: "within m r q" and none: "find (overlaps m r) (kids q) = None"
    and busy: "and (rflags m r) (IORESOURCE_BUSY bits) \<noteq> 0"
    and path: "(descend bits m kids (rstart m r) (rend m r))\<^sup>*\<^sup>* par q"
  defines "m1 \<equiv> linked_in m kids q r"
  shows "\<exists>p. release_region_loop bits m1 (rstart m r) (rend m r) (ChildOf par) = Some (Some (p, r)) \<and>
    tree_ok (set_link m1 p (sibling m1 r)) kids"
proof -
  let ?us = "kids_below m kids q r" and ?vs = "kids_above m kids q r"
  define k1 where "k1 = kids(q := ?us @ r # ?vs)"
  have t1: "tree_ok m1 k1" unfolding m1_def k1_def by (rule linked_in_ok [OF t u w none])
  have "\<forall>c\<in>set (kids q). \<not> overlaps m r c" using none by (metis find_None_iff)
  then have k: "kids q = ?us @ ?vs" using no_overlap_split [OF t] w by (simp add: within_def)
  have d: "descend bits m1 k1 s e a b" if "descend bits m kids s e a b" for s e a b
    using that k by (auto simp: descend_def m1_def k1_def)
  have "(descend bits m1 k1 (rstart m r) (rend m r))\<^sup>*\<^sup>* par q"
    using mono_rtranclp [of "descend bits m kids (rstart m r) (rend m r)" "descend bits m1 k1 (rstart m r) (rend m r)"] d path by blast
  then have "(descend bits m1 k1 (rstart m1 r) (rend m1 r))\<^sup>*\<^sup>* par q" by (simp add: m1_def)
  then obtain us vs where f: "k1 q = us @ r # vs"
    "release_region_loop bits m1 (rstart m1 r) (rend m1 r) (ChildOf par) = Some (Some (link_after (ChildOf q) us, r))"
    using release_region_finds [OF t1, of r q bits par] w busy by (auto simp: m1_def k1_def within_def)
  have nr: "r \<notin> set ?us" "r \<notin> set ?vs" "kids r = []" using u(1) by (simp_all add: unlinked_def kids_below_def kids_above_def)
  have "us = ?us \<and> vs = ?vs" using append_Cons_unique [of us r vs ?us ?vs] f(1) nr by (simp add: k1_def)
  then have "k1(q := us @ vs) = kids" using k by (simp add: k1_def fun_upd_idem)
  moreover have "k1 r = []" using nr u(2) by (simp add: k1_def)
  ultimately have "tree_ok (set_link m1 (link_after (ChildOf q) us) (sibling m1 r)) kids"
    using unlink_region(1) [OF t1 f(1)] by simp
  then show ?thesis using f(2) by (auto simp: m1_def)
qed

lemma alloc_resource_tree:
  assumes "alloc_resource kz st = (st1, Some r)" "tree_ok (tree st) kids" "unlinked kids r"
  shows "tree_ok (tree st1) kids"
  using assms tree_ok_zeroed [OF assms(2,3)] by (auto simp: alloc_resource_def split: option.splits)

lemma free_resource_views:
  "descend bits (tree (free_resource slab st r)) = descend bits (tree st)" "blocked bits (tree (free_resource slab st r)) = blocked bits (tree st)"
  by (auto simp: fun_eq_iff free_resource_def descend_def blocked_def within_def overlaps_def split: option.splits)

text \<open>
  C34. A request that cannot sleep (no \<^verbatim>\<open>IORESOURCE_MUXED\<close> in its flags) returns. It goes down from the given resource
  through children that are not busy and contain the range. If the range is granted, it is linked below the last of them,
  in the order of addresses, and overlaps nothing there; releasing the same range then finds exactly this region,
  however deep it is, and gives back the tree of before. If it is refused, the last of them has no place for the range
  (a busy child or one that does not contain it is in the way), and the tree is left alone.
\<close>

theorem request_release_region:
  assumes t: "tree_ok (tree st) kids" and al: "alloc_resource kz st = (st1, Some r)" and u: "unlinked kids r" "r \<noteq> par"
    and busy: "IORESOURCE_BUSY bits \<noteq> 0" and mux: "and flags (IORESOURCE_MUXED bits) = 0"
  shows "\<exists>st2 res q. raw_request_region slab bits kz st par s n name flags [] = Some (st2, res) \<and>
    (descend bits (tree st2) kids s (s + n - 1))\<^sup>*\<^sup>* par q \<and>
    (case res of
      None \<Rightarrow> blocked bits (tree st2) kids r q \<and> tree_ok (tree st2) kids
    | Some r' \<Rightarrow> r' = r \<and> rstart (tree st2) r = s \<and> rend (tree st2) r = s + n - 1 \<and>
        (\<forall>c\<in>set (kids q). \<not> overlaps (tree st2) r c) \<and>
        tree_ok (tree st2) (kids(q := kids_below (tree st2) kids q r @ r # kids_above (tree st2) kids q r)) \<and>
        (\<exists>st3 woken. raw_release_region slab bits st2 par s n = Some (st3, True, woken) \<and> tree_ok (tree st3) kids))"
proof -
  define m0 where "m0 = init_resource (tree st1) r name (s, s + n - 1) (or (IORESOURCE_BUSY bits) flags)"
  have t0: "tree_ok m0 kids" unfolding m0_def by (rule tree_ok_init [OF alloc_resource_tree [OF al t u(1)] u(1)])
  have rng: "rstart m0 r = s" "rend m0 r = s + n - 1" by (simp_all add: m0_def init_resource_def)
  have fl: "and (rflags m0 r) (IORESOURCE_BUSY bits) \<noteq> 0" using busy by (simp add: m0_def init_resource_def and_or_absorb)
  have req: "raw_request_region slab bits kz st par s n name flags [] = request_region_wait slab bits (st1\<lparr>tree := m0\<rparr>) par r flags []"
    using al by (simp add: raw_request_region_def m0_def)
  obtain m1 x where loop: "request_region_loop bits m0 par r flags = Some (m1, x)" "x = Granted \<or> x = Refused"
    and f: "x \<noteq> Granted \<longrightarrow> m1 = m0 \<and> (\<exists>q. (descend bits m0 kids s (s + n - 1))\<^sup>*\<^sup>* par q \<and> blocked bits m0 kids r q)"
    and g: "x = Granted \<longrightarrow> (\<exists>q. (descend bits m0 kids s (s + n - 1))\<^sup>*\<^sup>* par q \<and> within m0 r q \<and>
      find (overlaps m0 r) (kids q) = None \<and> m1 = linked_in m0 kids q r)"
    using request_region_loop_cases [OF t0 u(1) u(2), of bits flags] mux unfolding rng by auto
  from loop(2) show ?thesis
  proof
    assume x: "x = Granted"
    then obtain q where q: "(descend bits m0 kids s (s + n - 1))\<^sup>*\<^sup>* par q" "within m0 r q" "find (overlaps m0 r) (kids q) = None"
      "m1 = linked_in m0 kids q r" using g by blast
    have rq: "r \<noteq> q" using q(1) u by (induction rule: rtranclp_induct) (auto simp: descend_def unlinked_def)
    have eq: "kids_below m1 = kids_below m0" "kids_above m1 = kids_above m0" "overlaps m1 = overlaps m0" "descend bits m1 = descend bits m0"
      "rstart m1 = rstart m0" "rend m1 = rend m0"
      by (simp_all add: q(4) kids_below_def kids_above_def below_def overlaps_def descend_def fun_eq_iff)
    have ok: "tree_ok m1 (kids(q := kids_below m1 kids q r @ r # kids_above m1 kids q r))"
      using linked_in_ok [OF t0 u(1) rq q(2,3)] unfolding eq by (simp add: q(4))
    have free: "\<forall>c\<in>set (kids q). \<not> overlaps m1 r c" unfolding eq using q(3) by (metis find_None_iff)
    obtain p where p: "release_region_loop bits m1 s (s + n - 1) (ChildOf par) = Some (Some (p, r))"
      "tree_ok (set_link m1 p (sibling m1 r)) kids"
      using granted_release [OF t0 u(1) rq q(2,3) fl, of par] q(1,4) rng by auto
    then have rel: "\<exists>st3 woken. raw_release_region slab bits (st1\<lparr>tree := m1\<rparr>) par s n = Some (st3, True, woken) \<and> tree_ok (tree st3) kids"
      using tree_ok_free [OF _ u(1), of "st1\<lparr>tree := set_link m1 p (sibling m1 r)\<rparr>" slab] by (simp add: raw_release_region_def Let_def)
    show ?thesis using ok free rel q(1) rng loop(1) x
      by (intro exI [of _ "st1\<lparr>tree := m1\<rparr>"] exI [of _ "Some r"] exI [of _ q]) (simp add: req request_region_wait.simps eq)
  next
    assume x: "x = Refused"
    then obtain q where q: "(descend bits m0 kids s (s + n - 1))\<^sup>*\<^sup>* par q" "blocked bits m0 kids r q" "m1 = m0" using f by auto
    show ?thesis using q loop(1) x tree_ok_free [OF _ u(1), of "st1\<lparr>tree := m0\<rparr>" slab] t0
      by (intro exI [of _ "free_resource slab (st1\<lparr>tree := m0\<rparr>) (Some r)"] exI [of _ None] exI [of _ q])
        (simp add: req request_region_wait.simps free_resource_views)
  qed
qed

declare request_region_loop.simps [code] release_region_loop.simps [code]

definition demo_bits :: io_bits where
  "demo_bits = \<lparr>IORESOURCE_BUSY = 2 ^ 31, IORESOURCE_MUXED = 2 ^ 22, IORESOURCE_MEM = 2 ^ 9\<rparr>"

definition demo_state :: region_state where
  "demo_state = \<lparr>tree = demo_mem, bootmem_resource_free = None\<rparr>"

theorem request_release_region_witness:
  "\<exists>st2 st3 woken. raw_request_region (\<lambda>_. True) demo_bits (Some 5) demo_state 9 512 256 ''dev'' 0 [] = Some (st2, Some 5) \<and>
     raw_release_region (\<lambda>_. True) demo_bits st2 9 512 256 = Some (st3, True, woken) \<and> tree_ok (tree st3) demo_kids"
proof -
  let ?req = "raw_request_region (\<lambda>_. True) demo_bits (Some 5) demo_state 9 512 256 ''dev'' 0 []"
  have "map_option snd ?req = Some (Some 5)" by code_simp
  then obtain st2 where r: "?req = Some (st2, Some 5)" by auto
  have t: "tree_ok (tree demo_state) demo_kids" using demo_tree_ok by (simp add: demo_state_def)
  have a: "alloc_resource (Some 5) demo_state = (\<lparr>tree = zeroed demo_mem 5, bootmem_resource_free = None\<rparr>, Some 5)"
    by (simp add: alloc_resource_def demo_state_def)
  have b: "IORESOURCE_BUSY demo_bits \<noteq> 0" "and 0 (IORESOURCE_MUXED demo_bits) = 0" by (simp_all add: demo_bits_def)
  show ?thesis using request_release_region [OF t a demo_unlinked(2) _ b, of 9 "\<lambda>_. True" 512 256 "''dev''"] r by auto
qed

text \<open>A range inside a child meets no other child.\<close>

lemma find_within_kid:
  assumes t: "tree_ok m kids" and c: "c \<in> set (kids par)" and w: "within m r c"
  shows "find (overlaps m r) (kids par) = Some c"
proof (cases "find (overlaps m r) (kids par)")
  case None
  then have "\<not> overlaps m r c" using c by (metis find_None_iff)
  then show ?thesis using w by (auto simp: overlaps_def within_def)
next
  case (Some x)
  then have x: "x \<in> set (kids par)" "overlaps m r x" by (auto simp: find_Some_iff)
  have "x = c"
  proof (rule ccontr)
    assume "x \<noteq> c"
    then have "below m x c \<or> below m c x"
      using tree_okD(4) [OF t, of par] x(1) c by (metis in_set_conv_nth linorder_neqE_nat sorted_wrt_iff_nth_less)
    then show False using x(2) w by (auto simp: below_def overlaps_def within_def)
  qed
  then show ?thesis using Some by simp
qed

lemma request_waits:
  assumes t: "tree_ok m kids" and c: "c \<in> set (kids par)" "within m r c"
    and busy: "and (rflags m c) (IORESOURCE_BUSY bits) \<noteq> 0" and mux: "and (and (rflags m c) flags) (IORESOURCE_MUXED bits) \<noteq> 0"
  shows "request_region_loop bits m par r flags = Some (m, Wait c)"
proof -
  have "within m r par" using within_trans [OF c(2) tree_okD(3) [OF t c(1)]] .
  moreover have "find (overlaps m r) (kids par) = Some c" by (rule find_within_kid [OF t c])
  ultimately show ?thesis
    using busy mux not_own_kid [OF t, of par] c(1) by (subst request_region_loop.simps) (auto simp: raw_request_eq [OF t])
qed

text \<open>The release of a region that is a child of the parent and has no children.\<close>

lemma release_kid:
  assumes t: "tree_ok (tree st) kids" and d: "d \<in> set (kids par)" "kids d = []"
    and busy: "and (rflags (tree st) d) (IORESOURCE_BUSY bits) \<noteq> 0" and e: "rend (tree st) d = rstart (tree st) d + k - 1"
  shows "\<exists>st' us vs. raw_release_region slab bits st par (rstart (tree st) d) k =
      Some (st', True, and (rflags (tree st) d) (IORESOURCE_MUXED bits) \<noteq> 0) \<and>
    kids par = us @ d # vs \<and> tree_ok (tree st') (kids(par := us @ vs)) \<and> rstart (tree st') = rstart (tree st) \<and>
    rend (tree st') = rend (tree st) \<and> rflags (tree st') = rflags (tree st)"
proof -
  have "rstart (tree st) d \<le> rend (tree st) d" using tree_okD(3) [OF t d(1)] by (simp add: within_def)
  then obtain us vs where f: "kids par = us @ d # vs" "release_region_loop bits (tree st) (rstart (tree st) d) (rend (tree st) d) (ChildOf par) =
      Some (Some (link_after (ChildOf par) us, d))"
    using release_region_finds [OF t d(1) _ busy, of par] by auto
  let ?st = "st\<lparr>tree := set_link (tree st) (link_after (ChildOf par) us) (sibling (tree st) d)\<rparr>"
  have "tree_ok (tree (free_resource slab ?st (Some d))) (kids(par := us @ vs))"
    using unlink_region [OF t f(1) d(2)] by (intro tree_ok_free) simp_all
  then show ?thesis using f
    by (intro exI [of _ "free_resource slab ?st (Some d)"] exI [of _ us] exI [of _ vs])
      (simp add: raw_release_region_def Let_def e [symmetric] free_resource_def)
qed

text \<open>
  C35. A task that waits for a multiplexed region goes on, when it is woken up, with the region it waited for as the parent. Let a
  parent have two multiplexed regions in use that have no children. A request of a range in the first one sleeps. When the second one is
  released, which wakes up the task, the request is granted although the first one is still in use: the new region is a child of it, so
  that two tasks have the range at the same time.
\<close>

theorem muxed_region_granted_twice:
  assumes t: "tree_ok (tree st) kids" and al: "alloc_resource kz st = (st1, Some r)" and u: "unlinked kids r" "r \<noteq> par"
    and c: "c \<in> set (kids par)" "kids c = []" "and (rflags (tree st) c) (IORESOURCE_BUSY bits) \<noteq> 0"
      "and (and (rflags (tree st) c) flags) (IORESOURCE_MUXED bits) \<noteq> 0"
    and range: "rstart (tree st) c \<le> s" "s \<le> s + n - 1" "s + n - 1 \<le> rend (tree st) c"
    and d: "d \<in> set (kids par)" "kids d = []" "d \<noteq> c" "and (rflags (tree st) d) (IORESOURCE_BUSY bits) \<noteq> 0"
      "rend (tree st) d = rstart (tree st) d + k - 1" "and (rflags (tree st) d) (IORESOURCE_MUXED bits) \<noteq> 0"
  shows "raw_request_region slab bits kz st par s n name flags [] = None \<and>
    (\<exists>st'. raw_release_region slab bits st par (rstart (tree st) d) k = Some (st', True, True)) \<and>
    (\<exists>st2 kids2. raw_request_region slab bits kz st par s n name flags
        [\<lambda>st. fst (the (raw_release_region slab bits st par (rstart (tree st) d) k))] = Some (st2, Some r) \<and>
      tree_ok (tree st2) kids2 \<and> c \<in> set (kids2 par) \<and> d \<notin> set (kids2 par) \<and> kids2 c = [r] \<and>
      rflags (tree st2) c = rflags (tree st) c \<and> rstart (tree st2) r = s \<and> rend (tree st2) r = s + n - 1)"
proof -
  define m0 where "m0 = init_resource (tree st1) r name (s, s + n - 1) (or (IORESOURCE_BUSY bits) flags)"
  have t0: "tree_ok m0 kids" unfolding m0_def by (rule tree_ok_init [OF alloc_resource_tree [OF al t u(1)] u(1)])
  have nr: "c \<noteq> r" "d \<noteq> r" using u(1) c(1) d(1) by (auto simp: unlinked_def)
  have same: "rstart m0 x = rstart (tree st) x" "rend m0 x = rend (tree st) x" "rflags m0 x = rflags (tree st) x" if "x \<noteq> r" for x
    using al that by (auto simp: m0_def init_resource_def alloc_resource_def zeroed_def split: option.splits)
  have rng: "rstart m0 r = s" "rend m0 r = s + n - 1" by (simp_all add: m0_def init_resource_def)
  then have w: "within m0 r c" using range same nr by (simp add: within_def)
  have req: "raw_request_region slab bits kz st par s n name flags os = request_region_wait slab bits (st1\<lparr>tree := m0\<rparr>) par r flags os" for os
    using al by (simp add: raw_request_region_def m0_def)
  have wait: "request_region_loop bits m0 par r flags = Some (m0, Wait c)"
    using request_waits [OF t0 c(1) w] c(3,4) same nr by simp
  obtain st' us vs where rel: "raw_release_region slab bits (st1\<lparr>tree := m0\<rparr>) par (rstart m0 d) k = Some (st', True, and (rflags m0 d) (IORESOURCE_MUXED bits) \<noteq> 0)"
    and k: "kids par = us @ d # vs" "tree_ok (tree st') (kids(par := us @ vs))"
    and v: "rstart (tree st') = rstart m0" "rend (tree st') = rend m0" "rflags (tree st') = rflags m0"
    using release_kid [of "st1\<lparr>tree := m0\<rparr>" kids d par bits k slab] t0 d same nr by auto
  let ?kids = "kids(par := us @ vs)" and ?m = "linked_in (tree st') (kids(par := us @ vs)) c r"
  have cp: "c \<noteq> par" using not_own_kid [OF t, of par] c(1) by auto
  have w': "within (tree st') r c" "find (overlaps (tree st') r) (?kids c) = None" using w cp c(2) by (simp_all add: within_def v)
  have grant: "request_region_loop bits (tree st') c r flags = Some (?m, Granted)"
    using w' by (subst request_region_loop.simps) (simp add: raw_request_eq [OF k(2)])
  have "r \<notin> set (kids par)" using u(1) by (simp add: unlinked_def)
  then have "unlinked ?kids r" using u k(1) by (auto simp: unlinked_def)
  note link = linked_in_ok [OF k(2) this nr(1) [symmetric] w']
  have "kids_below (tree st') ?kids c r = []" "kids_above (tree st') ?kids c r = []"
    using cp c(2) by (simp_all add: kids_below_def kids_above_def)
  then have "tree_ok ?m (?kids(c := [r]))" using link by (simp only: append_Nil)
  moreover have "c \<in> set (us @ vs)" "d \<notin> set (us @ vs)" using c(1) d(3) k(1) tree_okD(6) [OF t, of par] by auto
  ultimately have grant: "\<exists>st2 kids2. raw_request_region slab bits kz st par s n name flags
        [\<lambda>st. fst (the (raw_release_region slab bits st par (rstart (tree st) d) k))] = Some (st2, Some r) \<and>
      tree_ok (tree st2) kids2 \<and> c \<in> set (kids2 par) \<and> d \<notin> set (kids2 par) \<and> kids2 c = [r] \<and>
      rflags (tree st2) c = rflags (tree st) c \<and> rstart (tree st2) r = s \<and> rend (tree st2) r = s + n - 1"
    unfolding req using wait rel grant cp nr same rng
    by (intro exI [of _ "st'\<lparr>tree := ?m\<rparr>"] exI [of _ "?kids(c := [r])"]) (simp add: request_region_wait.simps v)
  have sleeps: "raw_request_region slab bits kz st par s n name flags [] = None" unfolding req using wait by (simp add: request_region_wait.simps)
  show ?thesis using sleeps release_kid [OF t d(1,2,4,5), of slab] d(6) grant by auto
qed

text \<open>
  Two multiplexed regions that are in use, each as \<^verbatim>\<open>__request_region\<close> makes them, below a root.
\<close>

definition muxed_state :: region_state where
  "muxed_state = \<lparr>tree = \<lparr>
       rstart = (\<lambda>r. if r = 2 then 46 else if r = 3 then 100 else 0),
       rend = (\<lambda>r. if r = 2 then 47 else if r = 3 then 101 else 65535),
       rflags = (\<lambda>r. if r = 2 \<or> r = 3 then or (2 ^ 31) (2 ^ 22) else 0), rname = (\<lambda>_. []),
       parent = (\<lambda>r. if r = 2 \<or> r = 3 then Some 9 else None),
       sibling = (\<lambda>r. if r = 2 then Some 3 else None),
       child = (\<lambda>r. if r = 9 then Some 2 else None)\<rparr>,
     bootmem_resource_free = None\<rparr>"

definition muxed_kids :: kids where
  "muxed_kids r = (if r = 9 then [2, 3] else [])"

lemma muxed_tree_ok: "tree_ok (tree muxed_state) muxed_kids"
proof (rule tree_okI)
  have "\<forall>r. \<forall>c\<in>set (muxed_kids r). c < r" by (simp add: muxed_kids_def)
  then show "ranked muxed_kids" unfolding ranked_def by (intro exI [of _ id]) simp
qed (auto simp: muxed_state_def muxed_kids_def within_def below_def split: if_splits)

theorem muxed_region_granted_twice_witness:
  "\<exists>st2 kids2. raw_request_region (\<lambda>_. True) demo_bits (Some 5) muxed_state 9 46 2 ''second'' (2 ^ 22)
      [\<lambda>st. fst (the (raw_release_region (\<lambda>_. True) demo_bits st 9 (rstart (tree st) 3) 2))] = Some (st2, Some 5) \<and>
    tree_ok (tree st2) kids2 \<and> 2 \<in> set (kids2 9) \<and> kids2 2 = [5]"
proof -
  have al: "alloc_resource (Some 5) muxed_state = (muxed_state\<lparr>tree := zeroed (tree muxed_state) 5\<rparr>, Some 5)"
    by (simp add: alloc_resource_def muxed_state_def)
  have u: "unlinked muxed_kids 5" "5 \<noteq> (9 :: nat)" by (simp_all add: unlinked_def muxed_kids_def)
  note m = muxed_state_def muxed_kids_def demo_bits_def
  have c: "2 \<in> set (muxed_kids 9)" "muxed_kids 2 = []" "and (rflags (tree muxed_state) 2) (IORESOURCE_BUSY demo_bits) \<noteq> 0"
    "and (and (rflags (tree muxed_state) 2) (2 ^ 22)) (IORESOURCE_MUXED demo_bits) \<noteq> 0" by (simp_all add: m)
  have range: "rstart (tree muxed_state) 2 \<le> 46" "46 \<le> 46 + 2 - (1 :: u64)" "46 + 2 - 1 \<le> rend (tree muxed_state) 2" by (simp_all add: m)
  have d: "3 \<in> set (muxed_kids 9)" "muxed_kids 3 = []" "3 \<noteq> (2 :: nat)" "and (rflags (tree muxed_state) 3) (IORESOURCE_BUSY demo_bits) \<noteq> 0"
    "rend (tree muxed_state) 3 = rstart (tree muxed_state) 3 + 2 - 1" "and (rflags (tree muxed_state) 3) (IORESOURCE_MUXED demo_bits) \<noteq> 0" by (simp_all add: m)
  show ?thesis using muxed_region_granted_twice [OF muxed_tree_ok al u c range d, of "\<lambda>_. True" "''second''"] by blast
qed

section \<open>Reserving fills the gaps\<close>

lemma first_overlap:
  assumes t: "tree_ok m kids" and se: "rstart m n \<le> rend m n" and f: "find (overlaps m n) (kids q) = Some c"
  shows "c \<in> set (kids q)" "overlaps m n c" "\<forall>x\<in>set (kids q). overlaps m n x \<longrightarrow> x = c \<or> rend m c < rstart m x"
proof -
  obtain us xs where k: "kids q = us @ c # xs" and us: "us = kids_below m kids q n" by (rule overlap_split [OF t se f])
  show "c \<in> set (kids q)" using k by simp
  show "overlaps m n c" using f by (metis find_Some_iff)
  have "\<not> overlaps m n x" if "x \<in> set us" for x using that us by (auto simp: kids_below_def below_def overlaps_def)
  moreover have "rend m c < rstart m x" if "x \<in> set xs" for x
    using tree_okD(4) [OF t, of q] k that by (simp add: sorted_wrt_append below_def)
  ultimately show "\<forall>x\<in>set (kids q). overlaps m n x \<longrightarrow> x = c \<or> rend m c < rstart m x" using k by auto
qed

definition covers :: "res_mem \<Rightarrow> kids \<Rightarrow> nat \<Rightarrow> u64 \<Rightarrow> u64 \<Rightarrow> bool" where
  "covers m kids root a b \<longleftrightarrow> (\<forall>x. a \<le> x \<and> x \<le> b \<longrightarrow> (\<exists>c\<in>set (kids root). rstart m c \<le> x \<and> x \<le> rend m c))"

text \<open>The tree after some of the resources \<open>rs\<close> were added below the root.\<close>

definition grown :: "res_mem \<Rightarrow> kids \<Rightarrow> nat \<Rightarrow> nat set \<Rightarrow> res_mem \<Rightarrow> kids \<Rightarrow> bool" where
  "grown m kids root R m' kids' \<longleftrightarrow>
     tree_ok m' kids' \<and> set (kids root) \<subseteq> set (kids' root) \<and> set (kids' root) \<subseteq> set (kids root) \<union> R \<and>
     (\<forall>q. q \<noteq> root \<longrightarrow> kids' q = kids q) \<and>
     (\<forall>x. x \<notin> R \<longrightarrow> rstart m' x = rstart m x \<and> rend m' x = rend m x \<and> rflags m' x = rflags m x)"

lemma reserve_none:
  assumes "tree_ok (tree st) kids" "within (tree st) r root" "find (overlaps (tree st) r) (kids root) = None"
  shows "reserve_loop slab bits name root st r nx kzs =
    (if nx = None then Some (st\<lparr>tree := linked_in (tree st) kids root r\<rparr>)
     else reserve_loop slab bits name root (st\<lparr>tree := linked_in (tree st) kids root r\<rparr>) (the nx) None kzs)"
  using raw_request_eq [OF assms(1), of root r] assms(2,3) by (subst reserve_loop.simps) (simp add: Let_def)

lemma reserve_conflict:
  assumes "tree_ok (tree st) kids" "within (tree st) r root" "find (overlaps (tree st) r) (kids root) = Some c"
  defines "m \<equiv> tree st"
  shows "reserve_loop slab bits name root st r None kzs =
    (if rstart m c \<le> rstart m r \<and> rend m c \<ge> rend m r then Some (free_resource slab st (Some r))
     else if rstart m c > rstart m r
     then let st2 = st\<lparr>tree := set_range m r (rstart m r, rstart m c - 1)\<rparr>
       in if rend m c < rend m r
          then let (st3, a) = alloc_resource (next_kzalloc kzs) st2
            in if a = None then Some (free_resource slab st3 (Some r))
               else reserve_loop slab bits name root (new_busy bits st3 (the a) name (rend m c + 1, rend m r)) r a (tl kzs)
          else reserve_loop slab bits name root st2 r None kzs
     else reserve_loop slab bits name root (st\<lparr>tree := set_range m r (rend m c + 1, rend m r)\<rparr>) r None kzs)"
  using raw_request_eq [OF assms(1), of root r] assms(2,3) unfolding m_def
  by (subst reserve_loop.simps) (simp add: Let_def split: prod.split)

text \<open>The part of a range below its lowest conflict is free.\<close>

lemma below_conflict:
  assumes t: "tree_ok m kids" and u: "unlinked kids r" "r \<noteq> root" and w: "within m r root"
    and f: "find (overlaps m r) (kids root) = Some c" and lt: "rstart m r < rstart m c"
  defines "b \<equiv> rstart m c - 1"
  shows "clear_range m kids root None (rstart m r) b" "b < rstart m c" "b \<le> rend m r"
proof -
  have se: "rstart m r \<le> rend m r" using w by (simp add: within_def)
  note fo = first_overlap [OF t se f]
  have p: "b < rstart m c" "rstart m r \<le> b" using word_pred_less [OF lt] by (simp_all add: b_def)
  then show "b < rstart m c" by simp
  have ce: "rstart m c \<le> rend m r" "rstart m c \<le> rend m c" using fo(1,2) kids_nonempty_range [OF t] by (auto simp: overlaps_def)
  then show be: "b \<le> rend m r" using p(1) by simp
  have "rend m x < rstart m r \<or> b < rstart m x" if x: "x \<in> set (kids root)" for x
  proof (cases "overlaps m r x")
    case True
    then have "x = c \<or> rend m c < rstart m x" using fo(3) x by blast
    then show ?thesis using p(1) ce(2) by auto
  next
    case False
    then show ?thesis using be by (auto simp: overlaps_def)
  qed
  then show "clear_range m kids root None (rstart m r) b" using p(2) be w by (auto simp: clear_range_def within_def)
qed

lemma grown_refl: "tree_ok m kids \<Longrightarrow> grown m kids root R m kids"
  by (auto simp: grown_def)

lemma grown_trans:
  assumes g: "grown m kids root R m1 k1" "grown m1 k1 root R' m2 k2" and R: "R \<union> R' \<subseteq> R''"
  shows "grown m kids root R'' m2 k2"
proof -
  have "rstart m2 x = rstart m x \<and> rend m2 x = rend m x \<and> rflags m2 x = rflags m x" if "x \<notin> R''" for x
  proof -
    have "x \<notin> R" "x \<notin> R'" using that R by auto
    then show ?thesis using g by (simp add: grown_def)
  qed
  moreover have "set (kids root) \<subseteq> set (k2 root)" "set (k2 root) \<subseteq> set (kids root) \<union> R''" using g R unfolding grown_def by blast+
  ultimately show ?thesis using g by (simp add: grown_def)
qed

lemma grown_from:
  assumes "grown m1 kids root R m' k'" "r \<in> R" "\<forall>x. x \<noteq> r \<longrightarrow> rstart m1 x = rstart m x \<and> rend m1 x = rend m x \<and> rflags m1 x = rflags m x"
  shows "grown m kids root R m' k'"
  using assms unfolding grown_def by metis

lemma covers_grown:
  assumes "covers m kids root a b" "grown m kids root R m' k'" "set (kids root) \<inter> R = {}"
  shows "covers m' k' root a b"
  using assms unfolding covers_def grown_def by (metis disjoint_iff subsetD)

lemma covers_join:
  assumes c: "c \<in> set (kids root)" and low: "rstart m c \<le> a \<or> covers m kids root a (rstart m c - 1)"
    and high: "e \<le> rend m c \<or> covers m kids root (rend m c + 1) e"
  shows "covers m kids root a e"
  unfolding covers_def
proof (intro allI impI)
  fix x
  assume x: "a \<le> x \<and> x \<le> e"
  consider "x < rstart m c" | "rstart m c \<le> x" "x \<le> rend m c" | "rend m c < x" by force
  then show "\<exists>c\<in>set (kids root). rstart m c \<le> x \<and> x \<le> rend m c"
  proof cases
    case 1
    then have "covers m kids root a (rstart m c - 1)" using low x by auto
    then show ?thesis using x word_pred_less [OF 1] unfolding covers_def by blast
  next
    case 2
    then show ?thesis using c by blast
  next
    case 3
    then have "covers m kids root (rend m c + 1) e" using high x by auto
    then show ?thesis using x word_succ_le [OF 3] unfolding covers_def by blast
  qed
qed

text \<open>Adding one resource in a free range.\<close>

lemma grown_link:
  assumes t: "tree_ok m kids" and u: "unlinked kids r" "r \<noteq> root" and c: "clear_range m kids root None a b"
  defines "k1 \<equiv> kids(root := kids_below (set_range m r (a, b)) kids root r @ r # kids_above (set_range m r (a, b)) kids root r)"
  shows "grown m kids root {r} (linked_in (set_range m r (a, b)) kids root r) k1"
    "set (k1 root) = insert r (set (kids root))" "covers (linked_in (set_range m r (a, b)) kids root r) k1 root a b"
proof -
  let ?m = "set_range m r (a, b)"
  have t': "tree_ok ?m kids" by (rule tree_ok_set_range_unlinked [OF t u(1)])
  have ok: "within ?m r root" "find (overlaps ?m r) (kids root) = None" using request_clear_iff [OF u] c by blast+
  then have "\<forall>x\<in>set (kids root). \<not> overlaps ?m r x" by (metis find_None_iff)
  then have k: "kids root = kids_below ?m kids root r @ kids_above ?m kids root r"
    using no_overlap_split [OF t'] ok(1) by (simp add: within_def)
  then show s: "set (k1 root) = insert r (set (kids root))" unfolding k1_def by (metis Un_insert_right fun_upd_same list.simps(15) set_append)
  have "tree_ok (linked_in ?m kids root r) k1" unfolding k1_def by (rule linked_in_ok [OF t' u ok])
  moreover have "\<forall>q. q \<noteq> root \<longrightarrow> k1 q = kids q" by (simp add: k1_def)
  ultimately show "grown m kids root {r} (linked_in ?m kids root r) k1" using s by (auto simp: grown_def)
  show "covers (linked_in ?m kids root r) k1 root a b" unfolding covers_def using s by auto
qed

definition room :: "region_state \<Rightarrow> kids \<Rightarrow> nat \<Rightarrow> nat \<Rightarrow> nat list \<Rightarrow> bool" where
  "room st kids root r rs \<longleftrightarrow>
     tree_ok (tree st) kids \<and> bootmem_resource_free st = None \<and> distinct (r # rs) \<and>
     (\<forall>x\<in>set (r # rs). unlinked kids x \<and> x \<noteq> root) \<and> within (tree st) r root \<and>
     card {c\<in>set (kids root). overlaps (tree st) r c} \<le> length rs"

definition filled :: "region_state \<Rightarrow> kids \<Rightarrow> nat \<Rightarrow> nat set \<Rightarrow> u64 \<Rightarrow> u64 \<Rightarrow> region_state option \<Rightarrow> bool" where
  "filled st kids root R a e x \<longleftrightarrow>
     (\<exists>st' kids'. x = Some st' \<and> grown (tree st) kids root R (tree st') kids' \<and> covers (tree st') kids' root a e)"

lemma grown_mono: "grown m kids root R m' k' \<Longrightarrow> R \<subseteq> R' \<Longrightarrow> grown m kids root R' m' k'"
  unfolding grown_def by blast

lemma filled_link:
  assumes "tree_ok (tree st) kids" "unlinked kids r" "r \<noteq> root" "clear_range (tree st) kids root None a b" "r \<in> R"
  shows "filled st kids root R a b (Some (st\<lparr>tree := linked_in (set_range (tree st) r (a, b)) kids root r\<rparr>))"
  unfolding filled_def
  using grown_mono [OF grown_link(1) [OF assms(1-4)], of R] grown_link(3) [OF assms(1-4)] assms(5)
  by (intro exI conjI) (rule refl, simp_all)

lemma reserve_split_step:
  assumes rm: "room st kids root r (r2 # rs)" and f: "find (overlaps (tree st) r) (kids root) = Some c"
  defines "m \<equiv> tree st"
  assumes lt: "rstart m r < rstart m c" "rend m c < rend m r"
  shows "\<exists>st2 k2. reserve_loop slab bits name root st r None (map Some (r2 # rs)) = reserve_loop slab bits name root st2 r2 None (map Some rs) \<and>
    grown m kids root {r, r2} (tree st2) k2 \<and> set (k2 root) = insert r (set (kids root)) \<and>
    covers (tree st2) k2 root (rstart m r) (rstart m c - 1) \<and> bootmem_resource_free st2 = None \<and>
    rstart (tree st2) r2 = rend m c + 1 \<and> rend (tree st2) r2 = rend m r \<and> rend (tree st2) r = rstart m c - 1"
proof -
  let ?a = "rstart m r" and ?b = "rstart m c - 1"
  have t: "tree_ok m kids" and u: "unlinked kids r" "r \<noteq> root" "unlinked kids r2" "r2 \<noteq> root" "r \<noteq> r2" and w: "within m r root"
    and boot: "bootmem_resource_free st = None" using rm by (auto simp: room_def m_def)
  define m' where "m' = init_resource (zeroed m r2) r2 name (rend m c + 1, rend m r) (IORESOURCE_BUSY bits)"
  define m3 where "m3 = set_range m' r (?a, ?b)"
  have t': "tree_ok m' kids" unfolding m'_def by (rule tree_ok_init [OF tree_ok_zeroed [OF t u(3)] u(3)])
  have o: "rstart m' x = rstart m x \<and> rend m' x = rend m x \<and> rflags m' x = rflags m x" if "x \<noteq> r2" for x
    using that by (simp add: m'_def init_resource_def zeroed_def)
  have "clear_range m kids root None ?a ?b" using below_conflict(1) [OF t u(1,2) w] f lt(1) by (simp add: m_def)
  moreover have "x \<noteq> r2" if "x \<in> set (kids root)" for x using that u(3) by (auto simp: unlinked_def)
  ultimately have cl: "clear_range m' kids root None ?a ?b" using o u(4) by (auto simp: clear_range_def)
  have t3: "tree_ok m3 kids" unfolding m3_def by (rule tree_ok_set_range_unlinked [OF t' u(1)])
  have ok: "within m3 r root" "find (overlaps m3 r) (kids root) = None"
    using request_clear_iff [OF u(1,2), of m' ?a ?b] cl unfolding m3_def by blast+
  have m3: "m3 = init_resource (zeroed (set_range m r (?a, ?b)) r2) r2 name (rend m c + 1, rend m r) (IORESOURCE_BUSY bits)"
    using u(5) by (auto simp: m3_def m'_def init_resource_def zeroed_def set_range_def fun_upd_twist)
  have nc: "\<not> (rstart m c \<le> rstart m r \<and> rend m c \<ge> rend m r)" using lt by auto
  note rc = reserve_conflict [of st kids r root c slab bits name "map Some (r2 # rs)", folded m_def, OF t w f [folded m_def]]
  define st2 where "st2 = st\<lparr>tree := linked_in m3 kids root r\<rparr>"
  define k2 where "k2 = kids(root := kids_below m3 kids root r @ r # kids_above m3 kids root r)"
  have "reserve_loop slab bits name root st r None (map Some (r2 # rs)) =
      reserve_loop slab bits name root (st\<lparr>tree := m3\<rparr>) r (Some r2) (map Some rs)"
    unfolding rc if_not_P [OF nc] using lt boot by (simp add: alloc_resource_def next_kzalloc_def new_busy_def m3 Let_def)
  then have eq: "reserve_loop slab bits name root st r None (map Some (r2 # rs)) = reserve_loop slab bits name root st2 r2 None (map Some rs)"
    using reserve_none [of "st\<lparr>tree := m3\<rparr>" kids r root] t3 ok by (simp add: st2_def)
  note g = grown_link [OF t' u(1,2) cl, folded m3_def, folded k2_def]
  have "grown m kids root {r, r2} (linked_in m3 kids root r) k2"
    by (rule grown_from [where r = r2, OF grown_trans [OF g(1) grown_refl]]) (use g(1) o in \<open>auto simp: grown_def\<close>)
  moreover have "rstart (tree st2) r2 = rend m c + 1" "rend (tree st2) r2 = rend m r" "rend (tree st2) r = rstart m c - 1"
    using u(5) by (simp_all add: st2_def m3_def m'_def init_resource_def)
  moreover have "tree st2 = linked_in m3 kids root r" "bootmem_resource_free st2 = None" using boot by (simp_all add: st2_def)
  ultimately show ?thesis using eq g(2,3) by (intro exI [of _ st2] exI [of _ k2]) (simp only: simp_thms)
qed

lemma unlinked_grown: "grown m kids root R m' k' \<Longrightarrow> unlinked kids x \<Longrightarrow> x \<noteq> root \<Longrightarrow> x \<notin> set (k' root) \<Longrightarrow> unlinked k' x"
  unfolding grown_def unlinked_def by metis

lemma card_shrinks:
  assumes "finite S" "c \<in> S" "T \<subseteq> S - {c}" "card S \<le> Suc n"
  shows "card T \<le> n" "card T < card S"
proof -
  have "card T \<le> card (S - {c})" using assms(1,3) by (simp add: card_mono)
  then show "card T \<le> n" "card T < card S" using assms card_Suc_Diff1 [OF assms(1,2)] by linarith+
qed

text \<open>What is left of a range above its lowest conflict meets fewer children.\<close>

lemma rest_room:
  assumes t: "tree_ok m kids" and w: "within m r root" and f: "find (overlaps m r) (kids root) = Some c" and lt: "rend m c < rend m r"
    and t': "tree_ok m' kids'" and R: "rstart m' r' = rend m c + 1" "rend m' r' = rend m r" "rstart m' root = rstart m root" "rend m' root = rend m root"
    and sub: "\<forall>x\<in>set (kids' root). x \<in> set (kids root) \<and> rstart m' x = rstart m x \<and> rend m' x = rend m x \<or> rend m' x < rstart m c"
  shows "within m' r' root"
    "{x\<in>set (kids' root). overlaps m' r' x} \<subseteq> {x\<in>set (kids root). overlaps m r x} - {c}"
proof -
  have se: "rstart m r \<le> rend m r" using w by (simp add: within_def)
  note fo = first_overlap [OF t se f]
  have up: "rend m c < rend m c + 1" "rend m c + 1 \<le> rend m r" using word_succ_le [OF lt] by simp_all
  have c: "rstart m root \<le> rstart m c" "rstart m c \<le> rend m c" "rstart m r \<le> rend m c"
    using tree_okD(3) [OF t fo(1)] fo(2) by (auto simp: within_def overlaps_def)
  have "rstart m root \<le> rend m c + 1" using c(1,2) up(1) by order
  moreover have "rend m r \<le> rend m root" using w by (simp add: within_def)
  ultimately show "within m' r' root" using up by (simp add: within_def R)
  have "overlaps m r x \<and> x \<in> set (kids root) \<and> x \<noteq> c" if x: "x \<in> set (kids' root)" "overlaps m' r' x" for x
  proof -
    have o: "rend m c + 1 \<le> rend m' x" "rstart m' x \<le> rend m r" using x(2) by (auto simp: overlaps_def R)
    then have "\<not> rend m' x < rstart m c" using c(2) up(1) by order
    then have s: "x \<in> set (kids root)" "rstart m' x = rstart m x" "rend m' x = rend m x" using sub x(1) by blast+
    have "rstart m r \<le> rend m x" using o(1) s(3) c(3) up(1) by order
    moreover have "x \<noteq> c" using o(1) s(3) up(1) by auto
    ultimately show ?thesis using o(2) s by (auto simp: overlaps_def)
  qed
  then show "{x\<in>set (kids' root). overlaps m' r' x} \<subseteq> {x\<in>set (kids root). overlaps m r x} - {c}" by blast
qed

lemma covers_join_grown:
  assumes g: "grown m kids root R m' k'" and c: "c \<in> set (kids root)" "c \<notin> R"
    and "rstart m c \<le> a \<or> covers m' k' root a (rstart m c - 1)" "e \<le> rend m c \<or> covers m' k' root (rend m c + 1) e"
  shows "covers m' k' root a e"
proof -
  have "c \<in> set (k' root)" "rstart m' c = rstart m c" "rend m' c = rend m c" using g c by (auto simp: grown_def)
  then show ?thesis using covers_join [of c k' root m' a e] assms(4,5) by simp
qed

lemma filledI: "x = Some st' \<Longrightarrow> grown (tree st) kids root R (tree st') k' \<Longrightarrow> covers (tree st') k' root a e \<Longrightarrow> filled st kids root R a e x"
  unfolding filled_def by blast

lemma roomD:
  assumes "room st kids root r rs"
  shows "tree_ok (tree st) kids" "unlinked kids r" "r \<noteq> root" "within (tree st) r root" "distinct (r # rs)"
    "\<forall>x\<in>set rs. unlinked kids x \<and> x \<noteq> root" "bootmem_resource_free st = None"
    "card {c\<in>set (kids root). overlaps (tree st) r c} \<le> length rs" "set (kids root) \<inter> set (r # rs) = {}"
    "rstart (tree st) r \<le> rend (tree st) r"
  using assms by (auto simp: room_def unlinked_def within_def)

lemma fills_shift:
  assumes rm: "room st kids root r rs" and f: "find (overlaps (tree st) r) (kids root) = Some c"
    and lt: "rstart (tree st) c \<le> rstart (tree st) r" "rend (tree st) c < rend (tree st) r"
  defines "st2 \<equiv> st\<lparr>tree := set_range (tree st) r (rend (tree st) c + 1, rend (tree st) r)\<rparr>"
  shows "room st2 kids root r rs" "card {x\<in>set (kids root). overlaps (tree st2) r x} < card {x\<in>set (kids root). overlaps (tree st) r x}"
    "filled st2 kids root (set (r # rs)) (rend (tree st) c + 1) (rend (tree st) r) x \<Longrightarrow>
      filled st kids root (set (r # rs)) (rstart (tree st) r) (rend (tree st) r) x"
proof -
  let ?m = "tree st" and ?m2 = "tree st2"
  note R = roomD [OF rm]
  note fo = first_overlap [OF R(1) R(10) f]
  have m2: "?m2 = set_range ?m r (rend ?m c + 1, rend ?m r)" by (simp add: st2_def)
  have t2: "tree_ok ?m2 kids" unfolding m2 by (rule tree_ok_set_range_unlinked [OF R(1,2)])
  have sub: "\<forall>x\<in>set (kids root). x \<in> set (kids root) \<and> rstart ?m2 x = rstart ?m x \<and> rend ?m2 x = rend ?m x \<or> rend ?m2 x < rstart ?m c"
    using R(9) by (auto simp: m2)
  note rest = rest_room [OF R(1,4) f lt(2) t2 _ _ _ _ sub, of r]
  have w2: "within ?m2 r root" using rest(1) R(3) by (simp add: m2)
  have ss: "{x\<in>set (kids root). overlaps ?m2 r x} \<subseteq> {x\<in>set (kids root). overlaps ?m r x} - {c}"
    using rest(2) R(3) by (simp add: m2)
  have c: "c \<in> {x\<in>set (kids root). overlaps ?m r x}" using fo(1,2) by simp
  note sh = card_shrinks [OF _ c ss]
  show "card {x\<in>set (kids root). overlaps ?m2 r x} < card {x\<in>set (kids root). overlaps ?m r x}" using sh(2) [of "length rs"] R(8) by simp
  then show "room st2 kids root r rs" using rm t2 w2 by (auto simp: room_def st2_def)
  assume "filled st2 kids root (set (r # rs)) (rend ?m c + 1) (rend ?m r) x"
  then obtain st' k' where x: "x = Some st'" and g: "grown ?m2 kids root (set (r # rs)) (tree st') k'"
    and cv: "covers (tree st') k' root (rend ?m c + 1) (rend ?m r)" unfolding filled_def by blast
  have g': "grown ?m kids root (set (r # rs)) (tree st') k'" by (rule grown_from [OF g, of r]) (auto simp: m2)
  have "c \<notin> set (r # rs)" using fo(1) R(9) by blast
  then have "covers (tree st') k' root (rstart ?m r) (rend ?m r)" using covers_join_grown [OF g' fo(1)] lt(1) cv by blast
  then show "filled st kids root (set (r # rs)) (rstart ?m r) (rend ?m r) x" using x g' by (rule filledI [rotated -1])
qed

lemma fills_last:
  assumes rm: "room st kids root r rs" and f: "find (overlaps (tree st) r) (kids root) = Some c"
    and lt: "rstart (tree st) r < rstart (tree st) c" "rend (tree st) r \<le> rend (tree st) c"
  shows "filled st kids root (set (r # rs)) (rstart (tree st) r) (rend (tree st) r) (reserve_loop slab bits name root st r None kzs)"
proof -
  let ?m = "tree st" and ?a = "rstart (tree st) r" and ?b = "rstart (tree st) c - 1"
  let ?m2 = "set_range ?m r (?a, ?b)"
  note R = roomD [OF rm]
  note fo = first_overlap [OF R(1) R(10) f]
  have cl: "clear_range ?m kids root None ?a ?b" by (rule below_conflict(1) [OF R(1-4) f lt(1)])
  have ok: "within ?m2 r root" "find (overlaps ?m2 r) (kids root) = None" using request_clear_iff [OF R(2,3), of ?m] cl by blast+
  have "reserve_loop slab bits name root st r None kzs = reserve_loop slab bits name root (st\<lparr>tree := ?m2\<rparr>) r None kzs"
    using reserve_conflict [OF R(1,4) f, of slab bits name kzs] lt by (auto simp: Let_def)
  then have l: "reserve_loop slab bits name root st r None kzs = Some (st\<lparr>tree := linked_in ?m2 kids root r\<rparr>)"
    using reserve_none [of "st\<lparr>tree := ?m2\<rparr>" kids r root slab bits name None kzs] tree_ok_set_range_unlinked [OF R(1,2)] ok by simp
  obtain st' k' where x: "Some (st\<lparr>tree := linked_in ?m2 kids root r\<rparr>) = Some st'" and g: "grown ?m kids root (set (r # rs)) (tree st') k'"
    and cv: "covers (tree st') k' root ?a ?b" using filled_link [OF R(1-3) cl, of "set (r # rs)"] unfolding filled_def by auto
  have "c \<notin> set (r # rs)" using fo(1) R(9) by blast
  then have "covers (tree st') k' root ?a (rend ?m r)" using covers_join_grown [OF g fo(1)] lt(2) cv by blast
  then show ?thesis using l x g by (intro filledI) auto
qed

lemma fills_split:
  assumes rm: "room st kids root r (r2 # rs)" and f: "find (overlaps (tree st) r) (kids root) = Some c"
    and g: "grown (tree st) kids root {r, r2} (tree st2) k2" and k2: "set (k2 root) = insert r (set (kids root))"
    and cv: "covers (tree st2) k2 root (rstart (tree st) r) (rstart (tree st) c - 1)" and b2: "bootmem_resource_free st2 = None"
    and R2: "rstart (tree st2) r2 = rend (tree st) c + 1" "rend (tree st2) r2 = rend (tree st) r" "rend (tree st2) r = rstart (tree st) c - 1"
    and lt: "rstart (tree st) r < rstart (tree st) c" "rend (tree st) c < rend (tree st) r"
  shows "room st2 k2 root r2 rs" "card {x\<in>set (k2 root). overlaps (tree st2) r2 x} < card {x\<in>set (kids root). overlaps (tree st) r x}"
    "filled st2 k2 root (set (r2 # rs)) (rend (tree st) c + 1) (rend (tree st) r) x \<Longrightarrow>
      filled st kids root (set (r # r2 # rs)) (rstart (tree st) r) (rend (tree st) r) x"
proof -
  let ?m = "tree st" and ?m2 = "tree st2"
  note R = roomD [OF rm]
  note fo = first_overlap [OF R(1) R(10) f]
  have t2: "tree_ok ?m2 k2" using g by (simp add: grown_def)
  have root: "root \<notin> {r, r2}" using R(3,6) by auto
  have "rend ?m2 r < rstart ?m c" using R2(3) below_conflict(2) [OF R(1-4) f lt(1)] by simp
  moreover have "rstart ?m2 x = rstart ?m x \<and> rend ?m2 x = rend ?m x" if "x \<in> set (kids root)" for x
    using g R(9) that by (auto simp: grown_def)
  ultimately have sub: "\<forall>x\<in>set (k2 root). x \<in> set (kids root) \<and> rstart ?m2 x = rstart ?m x \<and> rend ?m2 x = rend ?m x \<or> rend ?m2 x < rstart ?m c"
    using k2 by auto
  have rr: "rstart ?m2 root = rstart ?m root" "rend ?m2 root = rend ?m root" using g root by (auto simp: grown_def)
  note rest = rest_room [OF R(1,4) f lt(2) t2 R2(1,2) rr sub]
  have c: "c \<in> {x\<in>set (kids root). overlaps ?m r x}" using fo(1,2) by simp
  note sh = card_shrinks [OF _ c rest(2), of "length rs"]
  show "card {x\<in>set (k2 root). overlaps ?m2 r2 x} < card {x\<in>set (kids root). overlaps ?m r x}" using sh(2) R(8) by simp
  have "unlinked k2 y" if "y \<in> set (r2 # rs)" for y
    using unlinked_grown [OF g, of y] that R(5,6,9) k2 by auto
  then show "room st2 k2 root r2 rs" using t2 b2 R(5,6) rest(1) sh(1) R(8) unfolding room_def by auto
  assume "filled st2 k2 root (set (r2 # rs)) (rend ?m c + 1) (rend ?m r) x"
  then obtain st' k' where x: "x = Some st'" and g2: "grown ?m2 k2 root (set (r2 # rs)) (tree st') k'"
    and cv2: "covers (tree st') k' root (rend ?m c + 1) (rend ?m r)" unfolding filled_def by blast
  have g': "grown ?m kids root (set (r # r2 # rs)) (tree st') k'" by (rule grown_trans [OF g g2]) auto
  have "covers (tree st') k' root (rstart ?m r) (rstart ?m c - 1)" by (rule covers_grown [OF cv g2]) (use k2 R(5,9) in auto)
  moreover have "c \<notin> set (r # r2 # rs)" using fo(1) R(9) by blast
  ultimately have "covers (tree st') k' root (rstart ?m r) (rend ?m r)" using covers_join_grown [OF g' fo(1)] cv2 by blast
  then show "filled st kids root (set (r # r2 # rs)) (rstart ?m r) (rend ?m r) x" using x g' by (intro filledI)
qed

lemma reserve_loop_fills:
  "room st kids root r rs \<Longrightarrow>
    filled st kids root (set (r # rs)) (rstart (tree st) r) (rend (tree st) r) (reserve_loop (\<lambda>_. True) bits name root st r None (map Some rs))"
proof (induction "card {c\<in>set (kids root). overlaps (tree st) r c}" arbitrary: st kids r rs rule: less_induct)
  case less
  let ?m = "tree st" and ?a = "rstart (tree st) r" and ?e = "rend (tree st) r"
  note rm = less.prems
  note R = roomD [OF rm]
  show ?case
  proof (cases "find (overlaps ?m r) (kids root)")
    case None
    then have "clear_range ?m kids root None ?a ?e"
      using R(4) by (auto simp: clear_range_def within_def find_None_iff overlaps_def not_le)
    moreover have "set_range ?m r (?a, ?e) = ?m" by (simp add: set_range_def)
    ultimately show ?thesis using filled_link [OF R(1-3), of _ _ "set (r # rs)"] reserve_none [OF R(1,4) None, of "\<lambda>_. True" bits name None]
      by (metis list.set_intros(1))
  next
    case (Some c)
    note fo = first_overlap [OF R(1,10) Some]
    note conf = reserve_conflict [OF R(1,4) Some, of "\<lambda>_. True" bits name "map Some rs"]
    consider "rstart ?m c \<le> ?a" "?e \<le> rend ?m c" | "rstart ?m c \<le> ?a" "rend ?m c < ?e"
      | "?a < rstart ?m c" "?e \<le> rend ?m c" | "?a < rstart ?m c" "rend ?m c < ?e" by force
    then show ?thesis
    proof cases
      case 1
      then have "reserve_loop (\<lambda>_. True) bits name root st r None (map Some rs) = Some st" using conf by (simp add: free_resource_def)
      moreover have "covers ?m kids root ?a ?e" using covers_join [of c kids root ?m ?a ?e] fo(1) 1 by blast
      ultimately show ?thesis using grown_refl [OF R(1)] by (intro filledI)
    next
      case 2
      note sh = fills_shift [OF rm Some 2]
      show ?thesis using less.hyps [OF sh(2,1)] sh(3) conf 2 by (simp add: not_less)
    next
      case 3
      show ?thesis by (rule fills_last [OF rm Some 3])
    next
      case 4
      have "{c\<in>set (kids root). overlaps ?m r c} \<noteq> {}" using fo(1,2) by blast
      then obtain r2 rs' where rs: "rs = r2 # rs'" using R(8) by (cases rs) auto
      obtain st2 k2 where l: "reserve_loop (\<lambda>_. True) bits name root st r None (map Some (r2 # rs')) =
          reserve_loop (\<lambda>_. True) bits name root st2 r2 None (map Some rs')"
        and st2: "grown ?m kids root {r, r2} (tree st2) k2" "set (k2 root) = insert r (set (kids root))"
          "covers (tree st2) k2 root ?a (rstart ?m c - 1)" "bootmem_resource_free st2 = None"
          "rstart (tree st2) r2 = rend ?m c + 1" "rend (tree st2) r2 = ?e" "rend (tree st2) r = rstart ?m c - 1"
        using reserve_split_step [OF rm [unfolded rs] Some 4, of "\<lambda>_. True" bits name] by blast
      note sp = fills_split [OF rm [unfolded rs] Some st2 4]
      show ?thesis using less.hyps [OF sp(2,1)] sp(3) unfolding rs l st2(5,6) by blast
    qed
  qed
qed

text \<open>
  C36. Reserving a range that lies inside the root, with descriptors to be had, always returns and takes all that is
  free: afterwards every address of the range belongs to a child of the root. The children that were there are
  there still, with their ranges and flags; nothing else but the new descriptors changes, and the tree is well-formed.
\<close>

theorem reserve_region_fills:
  assumes t: "tree_ok (tree st) kids" and boot: "bootmem_resource_free st = None"
    and rng: "rstart (tree st) root \<le> s" "s \<le> e" "e \<le> rend (tree st) root"
    and rs: "distinct rs" "\<forall>x\<in>set rs. unlinked kids x \<and> x \<noteq> root" "length (kids root) < length rs"
  shows "\<exists>st' kids'. reserve_region_with_split (\<lambda>_. True) bits st root s e name (map Some rs) = Some st' \<and>
    tree_ok (tree st') kids' \<and> set (kids root) \<subseteq> set (kids' root) \<and> set (kids' root) \<subseteq> set (kids root) \<union> set rs \<and>
    (\<forall>q. q \<noteq> root \<longrightarrow> kids' q = kids q) \<and>
    (\<forall>x. x \<notin> set rs \<longrightarrow> rstart (tree st') x = rstart (tree st) x \<and> rend (tree st') x = rend (tree st) x \<and> rflags (tree st') x = rflags (tree st) x) \<and>
    (\<forall>x. s \<le> x \<and> x \<le> e \<longrightarrow> (\<exists>c\<in>set (kids' root). rstart (tree st') c \<le> x \<and> x \<le> rend (tree st') c))"
proof -
  obtain r ks where rs': "rs = r # ks" using rs(3) by (cases rs) auto
  define st1 where "st1 = new_busy bits (st\<lparr>tree := zeroed (tree st) r\<rparr>) r name (s, e)"
  have u: "unlinked kids r" "r \<noteq> root" using rs(2) rs' by simp_all
  have m1: "tree st1 = init_resource (zeroed (tree st) r) r name (s, e) (IORESOURCE_BUSY bits)" by (simp add: st1_def new_busy_def)
  have o: "\<forall>x. x \<noteq> r \<longrightarrow> rstart (tree st1) x = rstart (tree st) x \<and> rend (tree st1) x = rend (tree st) x \<and> rflags (tree st1) x = rflags (tree st) x"
    and sr: "rstart (tree st1) r = s" "rend (tree st1) r = e"
    by (simp_all add: m1 init_resource_def zeroed_def)
  have "tree_ok (tree st1) kids" unfolding m1 by (rule tree_ok_init [OF tree_ok_zeroed [OF t u(1)] u(1)])
  moreover have "within (tree st1) r root" using rng o u(2) sr by (simp add: within_def)
  moreover have "card {c\<in>set (kids root). overlaps (tree st1) r c} \<le> length ks"
    using rs(3) rs' card_mono [of "set (kids root)" "{c\<in>set (kids root). overlaps (tree st1) r c}"] card_length [of "kids root"] by force
  ultimately have "room st1 kids root r ks" using rs(1,2) rs' boot by (simp add: room_def st1_def new_busy_def)
  from reserve_loop_fills [OF this, of bits name] obtain st' k' where
    l: "reserve_loop (\<lambda>_. True) bits name root st1 r None (map Some ks) = Some st'"
    and g: "grown (tree st1) kids root (set rs) (tree st') k'" and cv: "covers (tree st') k' root s e"
    unfolding filled_def sr rs' by blast
  have "\<not> (rstart (tree st) root > s \<or> rend (tree st) root < e)" using rng by auto
  then have "reserve_region_with_split (\<lambda>_. True) bits st root s e name (map Some rs) = Some st'"
    using l boot by (simp add: reserve_region_with_split_def raw_reserve_region_with_split_def alloc_resource_def next_kzalloc_def
        rs' st1_def Let_def del: not_less)
  moreover have "grown (tree st) kids root (set rs) (tree st') k'" by (rule grown_from [OF g, of r]) (use o rs' in auto)
  ultimately show ?thesis using cv unfolding grown_def covers_def by (intro exI [of _ st'] exI [of _ k']) simp
qed

theorem reserve_region_fills_witness:
  "\<exists>st' kids'. reserve_region_with_split (\<lambda>_. True) demo_bits demo_state 9 128 1100 ''rsv'' (map Some [20, 21, 22]) = Some st' \<and>
     tree_ok (tree st') kids' \<and> {2, 3} \<subseteq> set (kids' 9) \<and> (\<exists>c\<in>set (kids' 9). rstart (tree st') c \<le> 600 \<and> 600 \<le> rend (tree st') c)"
proof -
  have t: "tree_ok (tree demo_state) demo_kids" "bootmem_resource_free demo_state = None" using demo_tree_ok by (simp_all add: demo_state_def)
  have r: "rstart (tree demo_state) 9 \<le> 128" "(128 :: u64) \<le> 1100" "1100 \<le> rend (tree demo_state) 9" by (simp_all add: demo_state_def demo_mem_def)
  have u: "distinct [20, 21, 22 :: nat]" "\<forall>x\<in>set [20, 21, 22]. unlinked demo_kids x \<and> x \<noteq> 9" "length (demo_kids 9) < length [20, 21, 22 :: nat]"
    by (simp_all add: unlinked_def demo_kids_def)
  have i: "(128 :: u64) \<le> 600 \<and> (600 :: u64) \<le> 1100" and k: "set (demo_kids 9) = {2, 3}" by (simp_all add: demo_kids_def)
  from reserve_region_fills [OF t r u, of demo_bits "''rsv''"] obtain st' kids' where
    "reserve_region_with_split (\<lambda>_. True) demo_bits demo_state 9 128 1100 ''rsv'' (map Some [20, 21, 22]) = Some st'"
    "tree_ok (tree st') kids'" "set (demo_kids 9) \<subseteq> set (kids' 9)"
    "\<forall>x. 128 \<le> x \<and> x \<le> 1100 \<longrightarrow> (\<exists>c\<in>set (kids' 9). rstart (tree st') c \<le> x \<and> x \<le> rend (tree st') c)" by blast
  then show ?thesis unfolding k using i by blast
qed

section \<open>Releasing part of a region\<close>

lemma mem_region_scan:
  assumes "links (sibling m) (get_link m p) (xs @ r # ys)" "\<forall>x\<in>set xs. rstart m x < e \<and> rend m x < e"
    "rstart m r \<le> s" "e \<le> rend m r" "s < e" "and (rflags m r) (IORESOURCE_MEM bits) \<noteq> 0" "and (rflags m r) (IORESOURCE_BUSY bits) \<noteq> 0"
  shows "mem_region_loop bits m s e p = Some (Some (link_after p xs, r))"
  using assms(1,2)
proof (induction xs arbitrary: p)
  case Nil
  have "\<not> rstart m r \<ge> e" using assms(3,5) by order
  then show ?case using Nil assms(3-7) by (subst mem_region_loop.simps) auto
next
  case (Cons x xs)
  have "mem_region_loop bits m s e p = mem_region_loop bits m s e (SiblingOf x)"
    using Cons.prems by (subst mem_region_loop.simps) (auto simp: not_le)
  then show ?case using Cons.IH [of "SiblingOf x"] Cons.prems by simp
qed

lemma shrink_ok:
  assumes t: "tree_ok m kids" and k: "r \<in> set (kids q)" "kids r = []" and ab: "rstart m r \<le> a" "a \<le> b" "b \<le> rend m r"
  shows "tree_ok (set_range m r (a, b)) kids"
proof (rule move_in_place [OF t k(1)])
  have w: "within m r q" by (rule tree_okD(3) [OF t k(1)])
  have "rend m c < a \<or> b < rstart m c" if c: "c \<in> set (kids q)" "Some c \<noteq> Some r" for c
  proof -
    have "below m c r \<or> below m r c" using sorted_wrt_total [OF tree_okD(4) [OF t, of q]] c k(1) by blast
    then show ?thesis using ab by (auto simp: below_def)
  qed
  then show "clear_range m kids q (Some r) a b" using w ab by (auto simp: clear_range_def within_def)
qed (use k ab in simp)

text \<open>The addresses that belong to the children of a resource.\<close>

definition taken :: "res_mem \<Rightarrow> kids \<Rightarrow> nat \<Rightarrow> u64 \<Rightarrow> bool" where
  "taken m kids q x \<longleftrightarrow> (\<exists>c\<in>set (kids q). rstart m c \<le> x \<and> x \<le> rend m c)"

lemma taken_pieces:
  assumes t: "tree_ok m kids" and k: "r \<in> set (kids q)" and se: "rstart m r \<le> s" "e \<le> rend m r"
    and k': "set (kids' q) = set (kids q) - {r} \<union> P" and o: "\<forall>c\<in>set (kids q) - {r}. rstart m' c = rstart m c \<and> rend m' c = rend m c"
    and P: "\<And>x. (\<exists>c\<in>P. rstart m' c \<le> x \<and> x \<le> rend m' c) \<longleftrightarrow> rstart m r \<le> x \<and> x \<le> rend m r \<and> \<not> (s \<le> x \<and> x \<le> e)"
  shows "taken m' kids' q x \<longleftrightarrow> taken m kids q x \<and> \<not> (s \<le> x \<and> x \<le> e)"
proof -
  have other: "\<not> (s \<le> x \<and> x \<le> e)" if c: "c \<in> set (kids q)" "c \<noteq> r" "rstart m c \<le> x" "x \<le> rend m c" for c
  proof -
    have "below m c r \<or> below m r c" using sorted_wrt_total [OF tree_okD(4) [OF t, of q]] c k by blast
    then show ?thesis using se c by (auto simp: below_def)
  qed
  have "taken m' kids' q x \<longleftrightarrow> (\<exists>c\<in>set (kids q) - {r}. rstart m c \<le> x \<and> x \<le> rend m c) \<or> (\<exists>c\<in>P. rstart m' c \<le> x \<and> x \<le> rend m' c)"
    unfolding taken_def k' bex_Un using o by (intro arg_cong2 [where f = "(\<or>)"] bex_cong) auto
  also have "\<dots> \<longleftrightarrow> taken m kids q x \<and> \<not> (s \<le> x \<and> x \<le> e)" unfolding P taken_def using other k by blast
  finally show ?thesis .
qed

lemma taken_free: "taken (tree (free_resource slab st r)) = taken (tree st)"
  by (cases r) (simp_all add: free_resource_def taken_def fun_eq_iff)

definition released :: "res_mem \<Rightarrow> kids \<Rightarrow> nat \<Rightarrow> u64 \<Rightarrow> u64 \<Rightarrow> (region_state \<times> unit result) option \<Rightarrow> bool" where
  "released m kids q s e x \<longleftrightarrow>
     (\<exists>st' kids'. x = Some (st', Inr ()) \<and> tree_ok (tree st') kids' \<and>
       (\<forall>y. taken (tree st') kids' q y \<longleftrightarrow> taken m kids q y \<and> \<not> (s \<le> y \<and> y \<le> e)))"

lemma releasedI:
  "x = Some (st', Inr ()) \<Longrightarrow> tree_ok (tree st') k' \<Longrightarrow>
    (\<And>y. taken (tree st') k' q y \<longleftrightarrow> taken m kids q y \<and> \<not> (s \<le> y \<and> y \<le> e)) \<Longrightarrow> released m kids q s e x"
  unfolding released_def by blast

lemma release_exact:
  assumes t: "tree_ok (tree st) kids" and k: "kids q = us @ r # vs" "kids r = []" and rng: "rstart (tree st) r = s" "rend (tree st) r = e"
    and n: "\<forall>x. new = Some x \<longrightarrow> unlinked kids x \<and> x \<noteq> q"
  defines "m1 \<equiv> set_link (tree st) (link_after (ChildOf q) us) (sibling (tree st) r)"
  shows "released (tree st) kids q s e (Some (free_resource slab (free_resource slab (st\<lparr>tree := m1\<rparr>) (Some r)) new, Inr ()))"
proof -
  let ?k = "kids(q := us @ vs)"
  note ul = unlink_region [OF t k, folded m1_def]
  have d: "distinct (us @ r # vs)" using tree_okD(6) [OF t, of q] k(1) by simp
  have "taken m1 ?k q y \<longleftrightarrow> taken (tree st) kids q y \<and> \<not> (s \<le> y \<and> y \<le> e)" for y
    by (rule taken_pieces [where P = "{}", OF t, of r]) (use k d rng in \<open>auto simp: m1_def\<close>)
  moreover have "tree_ok (tree (free_resource slab (free_resource slab (st\<lparr>tree := m1\<rparr>) (Some r)) new)) ?k"
  proof (cases new)
    case None
    then show ?thesis using tree_ok_free [of "st\<lparr>tree := m1\<rparr>" ?k r slab] ul by (simp add: free_resource_def [of _ _ None])
  next
    case (Some x)
    have "x \<notin> set (kids q)" using n Some by (auto simp: unlinked_def)
    then have "unlinked ?k x" using n Some k(1) by (auto simp: unlinked_def)
    then show ?thesis using Some tree_ok_free [of "st\<lparr>tree := m1\<rparr>" ?k r slab] tree_ok_free ul by simp
  qed
  ultimately show ?thesis by (intro releasedI [OF refl]) (simp_all add: taken_free)
qed

lemma adjust_shrink:
  assumes t: "tree_ok m kids" and k: "r \<in> set (kids q)" "kids r = []" and ab: "rstart m r \<le> a" "a \<le> b" "b \<le> rend m r"
    and n: "a + n - 1 = b"
  shows "raw_adjust_resource m r a n = Some (set_range m r (a, b), Inr ())"
proof -
  have "\<forall>q'. parent m r = Some q' \<longrightarrow> r \<in> set (kids q')" using tree_okD(2) [OF t k(1)] k(1) by simp
  then show ?thesis using raw_adjust_eq [OF t, of r a n] shrink_ok [OF t k ab] ab n by simp
qed

lemma released_shrink:
  assumes t: "tree_ok (tree st) kids" and k: "r \<in> set (kids q)" "kids r = []" and se: "rstart (tree st) r \<le> s" "s \<le> e" "e \<le> rend (tree st) r"
    and ab: "rstart (tree st) r = s \<and> e < rend (tree st) r \<and> a = e + 1 \<and> b = rend (tree st) r \<or>
      rstart (tree st) r < s \<and> e = rend (tree st) r \<and> a = rstart (tree st) r \<and> b = s - 1"
    and n: "\<forall>x. new = Some x \<longrightarrow> unlinked kids x"
  shows "released (tree st) kids q s e (Some (free_resource slab (st\<lparr>tree := set_range (tree st) r (a, b)\<rparr>) new, Inr ()))"
    "rstart (tree st) r \<le> a \<and> a \<le> b \<and> b \<le> rend (tree st) r"
proof -
  let ?m = "tree st" and ?m' = "set_range (tree st) r (a, b)"
  have piece: "rstart ?m r \<le> a \<and> a \<le> b \<and> b \<le> rend ?m r \<and>
      (\<forall>x. a \<le> x \<and> x \<le> b \<longleftrightarrow> rstart ?m r \<le> x \<and> x \<le> rend ?m r \<and> \<not> (s \<le> x \<and> x \<le> e))"
    using ab
  proof (elim disjE conjE)
    assume h: "rstart ?m r = s" "e < rend ?m r" "a = e + 1" "b = rend ?m r"
    have up: "e < e + 1" "e + 1 \<le> rend ?m r" using word_succ_le [OF h(2)] by simp_all
    have i: "e + 1 \<le> x \<longleftrightarrow> \<not> x \<le> e" for x using word_succ_le [of e x] up(1) by auto
    have j: "s \<le> x" if "\<not> x \<le> e" for x using that se(2) by order
    have "s \<le> e + 1" using se(2) up(1) by order
    moreover have "\<not> rend ?m r \<le> e" using h(2) by auto
    ultimately show ?thesis unfolding h(1,3,4) i using j order_refl by blast
  next
    assume h: "rstart ?m r < s" "e = rend ?m r" "a = rstart ?m r" "b = s - 1"
    have dn: "s - 1 < s" "rstart ?m r \<le> s - 1" using word_pred_less [OF h(1)] by simp_all
    have i: "x \<le> s - 1 \<longleftrightarrow> \<not> s \<le> x" for x using word_pred_less [of x s] dn(1) by auto
    have j: "x \<le> rend ?m r" if "\<not> s \<le> x" for x using that se(2,3) by order
    have "s - 1 \<le> rend ?m r" using dn(1) se(2,3) by order
    moreover have "\<not> s \<le> rstart ?m r" using h(1) by auto
    ultimately show ?thesis unfolding h(2,3,4) i using j order_refl by blast
  qed
  then show bounds: "rstart ?m r \<le> a \<and> a \<le> b \<and> b \<le> rend ?m r" by blast
  have "taken ?m' kids q y \<longleftrightarrow> taken ?m kids q y \<and> \<not> (s \<le> y \<and> y \<le> e)" for y
    by (rule taken_pieces [where P = "{r}", OF t k(1)]) (use k(1) se piece in auto)
  moreover have t': "tree_ok ?m' kids" using shrink_ok [OF t k] bounds by blast
  moreover have "tree_ok (tree (free_resource slab (st\<lparr>tree := ?m'\<rparr>) new)) kids"
    using t' n tree_ok_free [of "st\<lparr>tree := ?m'\<rparr>" kids _ slab] by (cases new) (simp_all add: free_resource_def [of _ _ None])
  ultimately show "released ?m kids q s e (Some (free_resource slab (st\<lparr>tree := ?m'\<rparr>) new, Inr ()))"
    by (intro releasedI [OF refl]) (simp_all add: taken_free)
qed

lemma split_prepare:
  assumes t: "tree_ok (tree st) kids" and k: "r \<in> set (kids q)" "kids r = []" and u: "unlinked kids n"
    and lt: "rstart (tree st) r < s" "s \<le> e" "e < rend (tree st) r"
  defines "m' \<equiv> set_range (upper_part (tree st) n r e) r (rstart (tree st) r, s - 1)"
  shows "raw_adjust_resource (upper_part (tree st) n r e) r (rstart (tree st) r) (s - rstart (tree st) r) = Some (m', Inr ())"
    "tree_ok m' kids" "rstart m' r = rstart (tree st) r" "rend m' r = s - 1" "rstart m' n = e + 1" "rend m' n = rend (tree st) r"
    "x \<noteq> n \<Longrightarrow> x \<noteq> r \<Longrightarrow> rstart m' x = rstart (tree st) x \<and> rend m' x = rend (tree st) x"
    "sibling m' n = sibling m' r" "parent m' n = Some q"
proof -
  let ?m = "tree st" and ?mU = "upper_part (tree st) n r e"
  have rn: "r \<noteq> n" using k(1) u by (auto simp: unlinked_def)
  have "child ?m n = None" using tree_okD(1) [OF t, of n] u by (simp add: unlinked_def)
  then have tU: "tree_ok ?mU kids" by (intro tree_ok_other [OF t u]) (auto simp: upper_part_def init_resource_def)
  have U: "rstart ?mU x = rstart ?m x" "rend ?mU x = rend ?m x" if "x \<noteq> n" for x using that by (simp_all add: upper_part_def init_resource_def)
  have dn: "s - 1 < s" "rstart ?m r \<le> s - 1" using word_pred_less [OF lt(1)] by simp_all
  have ab: "rstart ?mU r \<le> rstart ?m r" "s - 1 \<le> rend ?mU r" using U [OF rn] dn(1) lt(2,3) by auto
  show "raw_adjust_resource ?mU r (rstart ?m r) (s - rstart ?m r) = Some (m', Inr ())"
    unfolding m'_def by (rule adjust_shrink [OF tU k ab(1) dn(2) ab(2)]) simp
  show "tree_ok m' kids" unfolding m'_def by (rule shrink_ok [OF tU k ab(1) dn(2) ab(2)])
  show "rstart m' r = rstart ?m r" "rend m' r = s - 1" "rstart m' n = e + 1" "rend m' n = rend ?m r" using rn
    by (simp_all add: m'_def upper_part_def init_resource_def)
  show "rstart m' x = rstart ?m x \<and> rend m' x = rend ?m x" if "x \<noteq> n" "x \<noteq> r" using that U by (simp add: m'_def)
  show "sibling m' n = sibling m' r" "parent m' n = Some q"
    using rn tree_okD(2) [OF t k(1)] by (simp_all add: m'_def upper_part_def init_resource_def)
qed

lemma split_taken:
  assumes t: "tree_ok m kids" and k: "kids q = us @ r # vs" and n: "n \<notin> set (kids q)"
    and lt: "rstart m r < s" "s \<le> e" "e < rend m r"
    and R: "rstart m' r = rstart m r" "rend m' r = s - 1" "rstart m' n = e + 1" "rend m' n = rend m r"
    and O: "\<And>x. x \<noteq> n \<Longrightarrow> x \<noteq> r \<Longrightarrow> rstart m' x = rstart m x \<and> rend m' x = rend m x"
  shows "taken m' (kids(q := (us @ [r]) @ n # vs)) q y \<longleftrightarrow> taken m kids q y \<and> \<not> (s \<le> y \<and> y \<le> e)"
proof (rule taken_pieces [where P = "{r, n}", OF t])
  show "r \<in> set (kids q)" using k by simp
  show "rstart m r \<le> s" "e \<le> rend m r" using lt by auto
  show "set ((kids(q := (us @ [r]) @ n # vs)) q) = set (kids q) - {r} \<union> {r, n}" using k by auto
  show "\<forall>c\<in>set (kids q) - {r}. rstart m' c = rstart m c \<and> rend m' c = rend m c"
  proof
    fix c
    assume c: "c \<in> set (kids q) - {r}"
    then have "c \<noteq> n" "c \<noteq> r" using n by auto
    then show "rstart m' c = rstart m c \<and> rend m' c = rend m c" by (rule O)
  qed
  have dn: "s - 1 < s" using word_pred_less [OF lt(1)] by simp
  have up: "e < e + 1" using word_succ_le [OF lt(3)] by simp
  fix x
  have i: "x \<le> s - 1 \<longleftrightarrow> \<not> s \<le> x" using word_pred_less [of x s] dn by auto
  have j: "e + 1 \<le> x \<longleftrightarrow> \<not> x \<le> e" using word_succ_le [of e x] up by auto
  have l: "x \<le> rend m r" if "\<not> s \<le> x" using that lt by order
  have h: "rstart m r \<le> x" if "\<not> x \<le> e" using that lt by order
  show "(\<exists>c\<in>{r, n}. rstart m' c \<le> x \<and> x \<le> rend m' c) \<longleftrightarrow> rstart m r \<le> x \<and> x \<le> rend m r \<and> \<not> (s \<le> x \<and> x \<le> e)"
    using l h by (simp add: R i j) blast
qed

lemma released_split:
  assumes t: "tree_ok (tree st) kids" and k: "kids q = us @ r # vs" "kids r = []" and u: "unlinked kids n" "n \<noteq> q"
    and lt: "rstart (tree st) r < s" "s \<le> e" "e < rend (tree st) r"
  defines "m' \<equiv> set_range (upper_part (tree st) n r e) r (rstart (tree st) r, s - 1)"
  shows "released (tree st) kids q s e (Some (st\<lparr>tree := set_link m' (SiblingOf r) (Some n)\<rparr>, Inr ()))"
proof -
  let ?m = "tree st" and ?m'' = "set_link m' (SiblingOf r) (Some n)"
  have nk: "n \<notin> set (us @ r # vs)" "n \<notin> set (kids q)" using u(1) k(1) by (metis unlinked_def)+
  then have rk: "r \<in> set (kids q)" using k(1) by auto
  note pr = split_prepare [OF t rk k(2) u(1) lt, folded m'_def]
  note R = pr(3-6) and O = pr(7)
  have dn: "s - 1 < s" using word_pred_less [OF lt(1)] by simp
  have up: "e < e + 1" "e + 1 \<le> rend ?m r" using word_succ_le [OF lt(3)] by simp_all
  have d: "distinct (us @ r # vs)" using tree_okD(6) [OF t, of q] k(1) by simp
  have srt: "sorted_wrt (below ?m) (us @ r # vs)" using tree_okD(4) [OF t, of q] k(1) by simp
  have w: "within ?m r q" by (rule tree_okD(3) [OF t rk])
  have rq: "q \<noteq> n" "q \<noteq> r" using u(2) not_own_kid [OF t, of q] rk by auto
  have eq: "?m'' = set_parent (set_link (set_link m' (SiblingOf n) (get_link m' (SiblingOf r))) (SiblingOf r) (Some n)) n (Some q)"
    using pr(8,9) by (cases m') (auto simp: set_parent_def fun_upd_idem)
  have "rstart ?m q \<le> rstart ?m r" "rend ?m r \<le> rend ?m q" using w by (simp_all add: within_def)
  then have "rstart ?m q \<le> e + 1" "rend ?m r \<le> rend ?m q" using lt(1,2) up(1) by (order, simp)
  then have "within m' n q" using up(2) rq O [of q] R by (simp add: within_def)
  moreover have "below m' x n" if "x \<in> set (us @ [r])" for x
  proof (cases "x = r")
    case True
    have "s - 1 < e + 1" using dn lt(2) up(1) by order
    then show ?thesis using True R by (simp add: below_def)
  next
    case False
    then have "rend ?m x < rstart ?m r" using srt that by (auto simp: sorted_wrt_append below_def)
    then have "rend ?m x < e + 1" using lt(1,2) up(1) by order
    moreover have "x \<noteq> n" using that nk by auto
    ultimately show ?thesis using False O [of x] R by (simp add: below_def)
  qed
  moreover have "below m' n x" if "x \<in> set vs" for x
  proof -
    have "rend ?m r < rstart ?m x" using srt that by (auto simp: sorted_wrt_append below_def)
    moreover have "x \<noteq> n" "x \<noteq> r" using that nk d by auto
    ultimately show ?thesis using O [of x] R by (simp add: below_def)
  qed
  ultimately have "tree_ok ?m'' (kids(q := (us @ [r]) @ n # vs))"
    unfolding eq using tree_ok_link [OF pr(2), of q "us @ [r]" vs n] k(1) u by simp
  moreover have "taken ?m'' (kids(q := (us @ [r]) @ n # vs)) q y \<longleftrightarrow> taken ?m kids q y \<and> \<not> (s \<le> y \<and> y \<le> e)" for y
    by (rule split_taken [OF t k(1) nk(2) lt]) (use R O in simp_all)
  ultimately show "released ?m kids q s e (Some (st\<lparr>tree := ?m''\<rparr>, Inr ()))" by (intro releasedI [OF refl]) simp_all
qed

lemma alloc_same: "alloc_resource kz st = (st1, Some n) \<Longrightarrow> x \<noteq> n \<Longrightarrow>
    rstart (tree st1) x = rstart (tree st) x \<and> rend (tree st1) x = rend (tree st) x \<and> rflags (tree st1) x = rflags (tree st) x"
  by (auto simp: alloc_resource_def zeroed_def split: option.splits)

lemma release_mem_body:
  assumes t: "tree_ok (tree st1) kids" and k: "kids q = us @ r # vs" "kids r = []" and u: "unlinked kids n" "n \<noteq> q"
    and al: "alloc_resource kz st = (st1, Some n)" and ok: "\<not> (s < rstart (tree st) q \<or> s + len - 1 > rend (tree st) q)"
    and loop: "mem_region_loop bits (tree st1) s (s + len - 1) (ChildOf q) = Some (Some (link_after (ChildOf q) us, r))"
    and R: "rstart (tree st1) r \<le> s" "s \<le> s + len - 1" "s + len - 1 \<le> rend (tree st1) r"
  shows "released (tree st1) kids q s (s + len - 1) (release_mem_region_adjustable slab bits kz st q s len)"
proof -
  define e where "e = s + len - 1"
  let ?m = "tree st1"
  have rk: "r \<in> set (kids q)" using k(1) by simp
  have n: "\<forall>x. Some n = Some x \<longrightarrow> unlinked kids x \<and> x \<noteq> q" "\<forall>x. Some n = Some x \<longrightarrow> unlinked kids x" using u by simp_all
  note R' = R [folded e_def]
  note body = release_mem_region_adjustable_def [of slab bits kz st q s len, unfolded Let_def al prod.case e_def [symmetric]
      if_not_P [OF ok [folded e_def]] loop [folded e_def] bind.simps option.case]
  consider "rstart ?m r = s" "rend ?m r = e" | "rstart ?m r = s" "e < rend ?m r" | "rstart ?m r < s" "rend ?m r = e"
    | "rstart ?m r < s" "e < rend ?m r" using R' by force
  then have "released ?m kids q s e (release_mem_region_adjustable slab bits kz st q s len)"
  proof cases
    case 1
    then show ?thesis using release_exact [OF t k 1 n(1)] unfolding body by simp
  next
    case 2
    note sh = released_shrink [OF t rk k(2) R', where a = "e + 1" and b = "rend ?m r" and new = "Some n"]
    have "raw_adjust_resource ?m r (e + 1) (rend ?m r - e) = Some (set_range ?m r (e + 1, rend ?m r), Inr ())"
      by (rule adjust_shrink [OF t rk k(2)]) (use sh(2) 2 n in auto)
    then show ?thesis using sh(1) 2 n(2) less_imp_neq [OF 2(2)] unfolding body by simp
  next
    case 3
    note sh = released_shrink [OF t rk k(2) R', where a = "rstart ?m r" and b = "s - 1" and new = "Some n"]
    have "raw_adjust_resource ?m r (rstart ?m r) (s - rstart ?m r) = Some (set_range ?m r (rstart ?m r, s - 1), Inr ())"
      by (rule adjust_shrink [OF t rk k(2)]) (use sh(2) 3 n in auto)
    then show ?thesis using sh(1) 3 n(2) less_imp_neq [OF 3(1)] unfolding body by simp
  next
    case 4
    note sp = split_prepare(1) [OF t rk k(2) u(1) 4(1) R'(2) 4(2)] released_split [OF t k u 4(1) R'(2) 4(2)]
    then show ?thesis using less_imp_neq [OF 4(1)] less_imp_neq [OF 4(2)] unfolding body by simp
  qed
  then show ?thesis by (simp add: e_def)
qed

text \<open>
  C37. Releasing a range of at least two addresses from a busy memory resource that contains it, is a child of the given parent and has no children,
  always succeeds when a descriptor can be had. Of the addresses below the parent exactly those of the range become
  free, whether it is the whole resource, an end of it or a part in the middle, and the tree is well-formed.
\<close>

theorem release_mem_region_exact:
  assumes t: "tree_ok (tree st) kids" and k: "r \<in> set (kids q)" "kids r = []"
    and al: "alloc_resource kz st = (st1, Some n)" "unlinked kids n" "n \<noteq> q"
    and fl: "and (rflags (tree st) r) (IORESOURCE_MEM bits) \<noteq> 0" "and (rflags (tree st) r) (IORESOURCE_BUSY bits) \<noteq> 0"
    and rng: "rstart (tree st) r \<le> s" "s < s + len - 1" "s + len - 1 \<le> rend (tree st) r"
  shows "\<exists>st' kids'. release_mem_region_adjustable slab bits kz st q s len = Some (st', Inr ()) \<and> tree_ok (tree st') kids' \<and>
    (\<forall>x. taken (tree st') kids' q x \<longleftrightarrow> taken (tree st) kids q x \<and> \<not> (s \<le> x \<and> x \<le> s + len - 1))"
proof -
  define e where "e = s + len - 1"
  define m where "m = tree st1"
  have tm: "tree_ok m kids" unfolding m_def by (rule alloc_resource_tree [OF al(1) t al(2)])
  have same: "rstart m x = rstart (tree st) x \<and> rend m x = rend (tree st) x \<and> rflags m x = rflags (tree st) x" if "x \<noteq> n" for x
    using alloc_same [OF al(1) that] by (simp add: m_def)
  have nk: "c \<noteq> n" if "c \<in> set (kids q)" for c using that al(2) by (auto simp: unlinked_def)
  have tk: "taken m kids q = taken (tree st) kids q" unfolding taken_def using same nk by auto
  note sr = same [OF nk [OF k(1)]]
  have R: "rstart m r \<le> s" "s < e" "s \<le> e" "e \<le> rend m r" using rng sr by (auto simp: e_def)
  have w: "within m r q" by (rule tree_okD(3) [OF tm k(1)])
  then have "\<not> (s < rstart (tree st) q \<or> e > rend (tree st) q)" using R same [of q] al(3) by (auto simp: within_def)
  moreover obtain us vs where kq: "kids q = us @ r # vs" using split_list [OF k(1)] by blast
  have "rstart m x < e \<and> rend m x < e" if "x \<in> set us" for x
  proof -
    have "rend m x < rstart m r" using tree_okD(4) [OF tm, of q] kq that by (simp add: sorted_wrt_append below_def)
    moreover have "rstart m x \<le> rend m x" using kids_nonempty_range [OF tm, of x q] kq that by simp
    ultimately show ?thesis using R(1,2) by (metis order.strict_trans order.strict_trans1 order.strict_trans2)
  qed
  then have loop: "mem_region_loop bits m s e (ChildOf q) = Some (Some (link_after (ChildOf q) us, r))"
    using mem_region_scan [of m "ChildOf q" us r vs e s bits] tree_okD(1) [OF tm, of q] kq R fl sr by simp
  have "released m kids q s e (release_mem_region_adjustable slab bits kz st q s len)"
    using release_mem_body [OF tm [unfolded m_def] kq k(2) al(2,3) al(1) _ loop [unfolded m_def e_def], of slab] R calculation
    by (simp add: m_def e_def)
  then show ?thesis unfolding released_def tk e_def by blast
qed

lemma tree_ok_flags: "tree_ok (m\<lparr>rflags := f\<rparr>) kids = tree_ok m kids"
proof -
  have "within (m\<lparr>rflags := f\<rparr>) = within m" "below (m\<lparr>rflags := f\<rparr>) = below m" by (simp_all add: within_def below_def fun_eq_iff)
  then show ?thesis by (simp add: tree_ok_def)
qed

definition demo_ram :: region_state where
  "demo_ram = \<lparr>tree = demo_mem\<lparr>rflags := (\<lambda>_. or (2 ^ 31) (2 ^ 9))\<rparr>, bootmem_resource_free = None\<rparr>"

theorem release_mem_region_exact_witness:
  "\<exists>st' kids'. release_mem_region_adjustable (\<lambda>_. True) demo_bits (Some 20) demo_ram 9 300 100 = Some (st', Inr ()) \<and>
     tree_ok (tree st') kids' \<and> \<not> taken (tree st') kids' 9 350 \<and> taken (tree st') kids' 9 299 \<and> taken (tree st') kids' 9 400"
proof -
  have t: "tree_ok (tree demo_ram) demo_kids" using demo_tree_ok by (simp add: demo_ram_def tree_ok_flags)
  have k: "2 \<in> set (demo_kids 9)" "demo_kids 2 = []" "unlinked demo_kids 20" by (simp_all add: demo_kids_def unlinked_def)
  have a: "alloc_resource (Some 20) demo_ram = (demo_ram\<lparr>tree := zeroed (tree demo_ram) 20\<rparr>, Some 20)"
    by (simp add: alloc_resource_def demo_ram_def)
  have f: "and (rflags (tree demo_ram) 2) (IORESOURCE_MEM demo_bits) \<noteq> 0" "and (rflags (tree demo_ram) 2) (IORESOURCE_BUSY demo_bits) \<noteq> 0"
    by (simp_all add: demo_ram_def demo_bits_def)
  have r: "rstart (tree demo_ram) 2 \<le> 300" "(300 :: u64) < 300 + 100 - 1" "300 + 100 - 1 \<le> rend (tree demo_ram) 2"
    by (simp_all add: demo_ram_def demo_mem_def)
  have x: "taken (tree demo_ram) demo_kids 9 299" "taken (tree demo_ram) demo_kids 9 400"
    by (simp_all add: taken_def demo_ram_def demo_mem_def demo_kids_def)
  have i: "(300 :: u64) \<le> 350 \<and> (350 :: u64) \<le> 300 + 100 - 1" "\<not> ((300 :: u64) \<le> 299 \<and> (299 :: u64) \<le> 300 + 100 - 1)"
    "\<not> ((300 :: u64) \<le> 400 \<and> (400 :: u64) \<le> 300 + 100 - 1)" by simp_all
  from release_mem_region_exact [OF t k(1,2) a k(3) _ f r, of "\<lambda>_. True"] x i show ?thesis by (metis numeral_eq_iff semiring_norm(83,85,87,88,89))
qed

text \<open>
  A region of one address cannot be released this way: the loop stops at a resource that starts at the end of the
  range.
\<close>

declare mem_region_loop.simps [code] children_inside.simps [code] sibling_before.simps [code]

lemma release_mem_one_address:
  "map_option snd (release_mem_region_adjustable (\<lambda>_. True) demo_bits (Some 20)
     (demo_ram\<lparr>tree := set_range (tree demo_ram) 2 (256, 256)\<rparr>) 9 256 1) = Some (Inl EINVAL)"
  by code_simp

end
