(* ===== verification/Params.thy ===== *)
theory Params
  imports Kernel_Prelude "HOL-Library.Monad_Syntax"
begin

text \<open>
  Kernel and module parameters (\<^verbatim>\<open>params.c\<close>): the command line is split into arguments in place, by writing
  terminators into the buffer, and every argument is handed to the operations of its parameter.

  The buffer is the list of its characters and a pointer into it is an index; an access outside the buffer has no
  result (\<open>None\<close>). The operations of a parameter get the buffer as well, because some of them write to it. The character
  class \<open>isspace\<close>, \<open>skip_spaces\<close> and the number parsers belong to the kernel's library and are arguments.
\<close>

type_synonym buffer = string

abbreviation NUL :: char where "NUL \<equiv> CHR 0x00"

definition char_at :: "buffer \<Rightarrow> nat \<Rightarrow> char option" where
  "char_at buf i = (if i < length buf then Some (buf ! i) else None)"

text \<open>The C string at a pointer.\<close>

definition cstr :: "buffer \<Rightarrow> nat \<Rightarrow> string" where
  "cstr buf p = takeWhile (\<lambda>c. c \<noteq> NUL) (drop p buf)"

section \<open>Names\<close>

definition dash2underscore :: "char \<Rightarrow> char" where
  "dash2underscore c = (if c = CHR ''-'' then CHR ''_'' else c)"

fun parameqn :: "buffer \<Rightarrow> buffer \<Rightarrow> nat \<Rightarrow> bool option" where
  "parameqn a b 0 = Some True"
| "parameqn (x # a) (y # b) (Suc n) = (if dash2underscore x \<noteq> dash2underscore y then Some False else parameqn a b n)"
| "parameqn _ _ (Suc n) = None"

definition parameq :: "buffer \<Rightarrow> buffer \<Rightarrow> bool option" where
  "parameq a b = parameqn a b (length (cstr a 0) + 1)"

section \<open>Splitting the buffer\<close>

text \<open>The loop of \<^verbatim>\<open>next_arg\<close>: the length of the argument and the place of its first equals sign (0 if there is none).\<close>

function scan_arg :: "(char \<Rightarrow> bool) \<Rightarrow> buffer \<Rightarrow> nat \<Rightarrow> nat \<Rightarrow> nat \<Rightarrow> bool \<Rightarrow> (nat \<times> nat) option" where
  "scan_arg isspace buf args i equals in_quote =
     (if length buf \<le> args + i then None
      else let c = buf ! (args + i)
        in if c = NUL then Some (i, equals)
           else if isspace c \<and> \<not> in_quote then Some (i, equals)
           else scan_arg isspace buf args (i + 1) (if equals = 0 \<and> c = CHR ''='' then i else equals)
                  (if c = CHR 0x22 then \<not> in_quote else in_quote))"
  by pat_completeness auto
termination
  by (relation "measure (\<lambda>(isspace, buf, args, i, equals, in_quote). length buf - (args + i))") auto

declare scan_arg.simps [simp del]

text \<open>Overwrite a closing quote with a terminator.\<close>

definition drop_quote :: "buffer \<Rightarrow> nat \<Rightarrow> buffer option" where
  "drop_quote buf i = do { c \<leftarrow> char_at buf i; Some (if c = CHR 0x22 then buf[i := NUL] else buf) }"

text \<open>\<^verbatim>\<open>next_arg\<close> returns the buffer, the start of the next argument and the pointers to the name and to the value.\<close>

definition next_arg ::
  "(char \<Rightarrow> bool) \<Rightarrow> (buffer \<Rightarrow> nat \<Rightarrow> nat) \<Rightarrow> buffer \<Rightarrow> nat \<Rightarrow> (buffer \<times> nat \<times> nat \<times> nat option) option" where
  "next_arg isspace skip_spaces buf args0 = do {
     c0 \<leftarrow> char_at buf args0;
     let quoted = (c0 = CHR 0x22);
     let args = (if quoted then args0 + 1 else args0);
     (i, equals) \<leftarrow> scan_arg isspace buf args 0 0 quoted;
     (buf1, val) \<leftarrow>
       (if equals = 0 then Some (buf, None)
        else do {
          let buf1 = buf[args + equals := NUL];
          let val = args + equals + 1;
          c \<leftarrow> char_at buf1 val;
          (buf2, val) \<leftarrow>
            (if c = CHR 0x22 then do { buf2 \<leftarrow> drop_quote buf1 (args + i - 1); Some (buf2, val + 1) }
             else Some (buf1, val));
          buf3 \<leftarrow> (if quoted then drop_quote buf2 (args + i - 1) else Some buf2);
          Some (buf3, Some val)
        });
     c \<leftarrow> char_at buf1 (args + i);
     let (buf2, next) = (if c \<noteq> NUL then (buf1[args + i := NUL], args + i + 1) else (buf1, args + i));
     Some (buf2, skip_spaces buf2 next, args, val)
   }"

section \<open>Handing over the arguments\<close>

text \<open>
  A parameter: \<open>kp_noarg\<close> is the flag of its operations that allows a missing value, \<open>kp_set\<close> stores a value. It gets
  the state of the parameters, the buffer and the pointer to the value (nothing for a null pointer).
\<close>

type_synonym 's setter = "'s \<Rightarrow> buffer \<Rightarrow> nat option \<Rightarrow> ('s \<times> buffer \<times> unit result) option"

record 's kernel_param =
  kp_name :: buffer
  kp_level :: int
  kp_noarg :: bool
  kp_set :: "'s setter"

type_synonym 's unknown_handler = "'s \<Rightarrow> buffer \<Rightarrow> nat \<Rightarrow> nat option \<Rightarrow> ('s \<times> buffer \<times> unit result) option"

text \<open>The arguments of \<^verbatim>\<open>parse_args\<close> that stay the same for all arguments of the command line.\<close>

record 's parse_env =
  pe_isspace :: "char \<Rightarrow> bool"
  pe_skip_spaces :: "buffer \<Rightarrow> nat \<Rightarrow> nat"
  pe_params :: "'s kernel_param list"
  pe_min_level :: int
  pe_max_level :: int
  pe_unknown :: "'s unknown_handler option"

fun parse_one_loop ::
  "'s parse_env \<Rightarrow> 's kernel_param list \<Rightarrow> 's \<Rightarrow> buffer \<Rightarrow> nat \<Rightarrow> nat option \<Rightarrow> ('s \<times> buffer \<times> unit result) option" where
  "parse_one_loop env [] st buf param val =
     (case pe_unknown env of
        Some handle_unknown \<Rightarrow> handle_unknown st buf param val
      | None \<Rightarrow> Some (st, buf, Inl ENOENT))"
| "parse_one_loop env (kp # params) st buf param val = do {
     eq \<leftarrow> parameq (drop param buf) (kp_name kp);
     if eq
     then if kp_level kp < pe_min_level env \<or> kp_level kp > pe_max_level env then Some (st, buf, Inr ())
          else if val = None \<and> \<not> kp_noarg kp then Some (st, buf, Inl EINVAL)
          else kp_set kp st buf val
     else parse_one_loop env params st buf param val
   }"

definition parse_one :: "'s parse_env \<Rightarrow> 's \<Rightarrow> buffer \<Rightarrow> nat \<Rightarrow> nat option \<Rightarrow> ('s \<times> buffer \<times> unit result) option" where
  "parse_one env st buf param val = parse_one_loop env (pe_params env) st buf param val"

partial_function (option) parse_args_loop :: "'s parse_env \<Rightarrow> 's \<Rightarrow> buffer \<Rightarrow> nat \<Rightarrow> ('s \<times> buffer \<times> unit result) option" where
  "parse_args_loop env st buf args = do {
     c \<leftarrow> char_at buf args;
     if c = NUL then Some (st, buf, Inr ())
     else do {
       (buf1, nxt, param, val) \<leftarrow> next_arg (pe_isspace env) (pe_skip_spaces env) buf args;
       (st1, buf2, ret) \<leftarrow> parse_one env st buf1 param val;
       if ret = Inr () then parse_args_loop env st1 buf2 nxt else Some (st1, buf2, ret)
     }
   }"

definition parse_args :: "'s parse_env \<Rightarrow> 's \<Rightarrow> buffer \<Rightarrow> nat \<Rightarrow> ('s \<times> buffer \<times> unit result) option" where
  "parse_args env st buf args = parse_args_loop env st buf (pe_skip_spaces env buf args)"

section \<open>What an argument is\<close>

text \<open>
  The specification works on the text of the command line. An argument ends at the first space outside quotes; its name
  ends at the first equals sign after its first character, and the rest is the value. Quotes around the value, or a
  closing quote that matches a quote before the name, do not belong to the value.
\<close>

fun split_token :: "(char \<Rightarrow> bool) \<Rightarrow> bool \<Rightarrow> string \<Rightarrow> string \<times> string" where
  "split_token isspace in_quote [] = ([], [])"
| "split_token isspace in_quote (c # cs) =
     (if isspace c \<and> \<not> in_quote then ([], c # cs)
      else map_prod (Cons c) (\<lambda>r. r) (split_token isspace (in_quote \<noteq> (c = CHR 0x22)) cs))"

definition split_equals :: "string \<Rightarrow> (string \<times> string) option" where
  "split_equals tok =
     (let p = take 1 tok @ takeWhile (\<lambda>c. c \<noteq> CHR ''='') (drop 1 tok)
      in if length p = length tok then None else Some (p, drop (length p + 1) tok))"

definition strip_last :: "string \<Rightarrow> string" where
  "strip_last v = (if v \<noteq> [] \<and> last v = CHR 0x22 then butlast v else v)"

definition unquote :: "bool \<Rightarrow> string \<Rightarrow> string" where
  "unquote quoted v = (if v \<noteq> [] \<and> hd v = CHR 0x22 then strip_last (tl v) else if quoted then strip_last v else v)"

text \<open>An argument with the pointers to its parts: the name, and the value if there is one.\<close>

type_synonym arg = "(nat \<times> string) \<times> (nat \<times> string) option"

definition arg_of :: "nat \<Rightarrow> bool \<Rightarrow> string \<Rightarrow> arg" where
  "arg_of a quoted tok =
     (case split_equals tok of
        None \<Rightarrow> ((a, tok), None)
      | Some (p, v) \<Rightarrow> ((a, p), Some (a + length p + 1 + (if v \<noteq> [] \<and> hd v = CHR 0x22 then 1 else 0), unquote quoted v)))"

lemma split_token_append: "fst (split_token isp q s) @ snd (split_token isp q s) = s"
  by (induction isp q s rule: split_token.induct) auto

lemma split_token_rest: "snd (split_token isp q s) \<noteq> [] \<Longrightarrow> isp (hd (snd (split_token isp q s)))"
  by (induction isp q s rule: split_token.induct) auto

function args_of :: "(char \<Rightarrow> bool) \<Rightarrow> nat \<Rightarrow> string \<Rightarrow> arg list" where
  "args_of isspace a s =
     (if s = [] then []
      else if isspace (hd s) then args_of isspace (a + 1) (tl s)
      else let quoted = hd s = CHR 0x22; s1 = (if quoted then tl s else s); a1 = (if quoted then a + 1 else a);
               (tok, rest) = split_token isspace quoted s1
        in arg_of a1 quoted tok # args_of isspace (a1 + length tok) rest)"
  by pat_completeness auto
termination
proof (relation "measure (\<lambda>(isspace, a, s). length s)", goal_cases)
  case (3 isspace a s quoted s1 a1 y tok rest)
  have t: "(tok, rest) = split_token isspace quoted s1" using 3 by simp
  have r: "tok @ rest = s1" using split_token_append [of isspace quoted s1] unfolding t [symmetric] by simp
  have "tok \<noteq> []" if "\<not> quoted" using that t 3(1-5) by (cases s) (auto simp: map_prod_def split: prod.splits)
  then have "length tok \<noteq> 0 \<or> quoted" by (metis length_0_conv)
  moreover have "length s1 = length tok + length rest" using r by (metis length_append)
  moreover have "length s1 = (if quoted then length s - 1 else length s)" "0 < length s" using 3 by simp_all
  ultimately have "length rest < length s" by (cases quoted; simp only: if_True if_False; arith)
  then show ?case by simp
qed auto

declare args_of.simps [simp del]

section \<open>The loop finds the argument\<close>

fun equals_pos :: "nat \<Rightarrow> string \<Rightarrow> nat" where
  "equals_pos i [] = 0"
| "equals_pos i (c # cs) = (if c = CHR ''='' \<and> i \<noteq> 0 then i else equals_pos (i + 1) cs)"

lemma scan_arg_eq:
  assumes "drop (a + i) buf = s @ NUL # post" "NUL \<notin> set s"
  shows "scan_arg isp buf a i equals q =
    Some (i + length (fst (split_token isp q s)), if equals \<noteq> 0 then equals else equals_pos i (fst (split_token isp q s)))"
  using assms
proof (induction isp q s arbitrary: i equals rule: split_token.induct)
  case (1 isp q)
  then have "a + i < length buf" "buf ! (a + i) = NUL" by (metis append_Nil drop_eq_Nil linorder_not_le list.distinct(1))
    (use 1 in \<open>metis append_Nil drop_eq_Nil hd_drop_conv_nth linorder_not_le list.distinct(1) list.sel(1)\<close>)
  then show ?case by (simp add: scan_arg.simps [of isp buf a i])
next
  case (2 isp q c cs)
  then have h: "a + i < length buf" "buf ! (a + i) = c" "c \<noteq> NUL"
    by (metis append_Cons drop_eq_Nil linorder_not_le list.distinct(1))
      (use 2 in \<open>metis append_Cons drop_eq_Nil hd_drop_conv_nth linorder_not_le list.distinct(1) list.sel(1)\<close>, use 2 in auto)
  have "drop (a + (i + 1)) buf = cs @ NUL # post" using 2(2) by (metis append_Cons drop_Suc drop_tl add_Suc_right Suc_eq_plus1 list.sel(3))
  then have IH: "\<not> (isp c \<and> \<not> q) \<Longrightarrow> scan_arg isp buf a (i + 1) e (q \<noteq> (c = CHR 0x22)) =
      Some (i + 1 + length (fst (split_token isp (q \<noteq> (c = CHR 0x22)) cs)),
        if e \<noteq> 0 then e else equals_pos (i + 1) (fst (split_token isp (q \<noteq> (c = CHR 0x22)) cs)))" for e
    using 2(1) [of "i + 1" e] 2(3) by simp
  have "(if c = CHR 0x22 then \<not> q else q) = (q \<noteq> (c = CHR 0x22))" by auto
  then show ?case using h IH by (auto simp: scan_arg.simps [of isp buf a i] Let_def)
qed

lemma equals_pos_take: "i \<noteq> 0 \<Longrightarrow> equals_pos i cs =
    (let p = takeWhile (\<lambda>c. c \<noteq> CHR ''='') cs in if length p = length cs then 0 else i + length p)"
  by (induction cs arbitrary: i) (auto simp: Let_def)

lemma equals_pos_split: "equals_pos 0 tok = (case split_equals tok of None \<Rightarrow> 0 | Some (p, v) \<Rightarrow> length p)"
  by (cases tok) (auto simp: split_equals_def equals_pos_take Let_def)

lemma split_equalsD:
  assumes "split_equals tok = Some (p, v)"
  shows "tok = p @ CHR ''='' # v" "p \<noteq> []"
proof -
  let ?w = "takeWhile (\<lambda>c. c \<noteq> CHR ''='') (drop 1 tok)"
  have p: "p = take 1 tok @ ?w" "length p \<noteq> length tok" "v = drop (length p + 1) tok"
    using assms by (auto simp: split_equals_def Let_def split: if_splits)
  then obtain c cs where c: "tok = c # cs" by (cases tok) auto
  then have l: "length ?w < length cs" using p(1,2) length_takeWhile_le [of "\<lambda>c. c \<noteq> CHR ''=''" cs] by simp
  have "cs = ?w @ cs ! length ?w # drop (length ?w + 1) cs"
    using l c by (metis Suc_eq_plus1 drop0 drop_Suc_Cons append_take_drop_id id_take_nth_drop takeWhile_eq_take One_nat_def)
  moreover have "cs ! length ?w = CHR ''=''" using nth_length_takeWhile [of "\<lambda>c. c \<noteq> CHR ''=''" cs] l c by simp
  ultimately show "tok = p @ CHR ''='' # v" using c p(1,3) by simp
  show "p \<noteq> []" using p(1) c by simp
qed

section \<open>One argument, in the buffer\<close>

text \<open>What the terminators leave of an argument: \<open>marked\<close> is its text with the terminators written into it.\<close>

definition mark_quote :: "string \<Rightarrow> string" where
  "mark_quote v = (if v \<noteq> [] \<and> last v = CHR 0x22 then butlast v @ [NUL] else v)"

definition marked :: "bool \<Rightarrow> string \<Rightarrow> string" where
  "marked quoted tok =
     (case split_equals tok of
        None \<Rightarrow> tok
      | Some (p, v) \<Rightarrow> p @ NUL # (if quoted \<or> v \<noteq> [] \<and> hd v = CHR 0x22 then mark_quote v else v))"

lemma length_mark_quote [simp]: "length (mark_quote v) = length v"
  by (simp add: mark_quote_def)

lemma mark_quote_twice [simp]: "mark_quote (mark_quote v) = mark_quote v"
  by (simp add: mark_quote_def)

lemma length_marked [simp]: "length (marked quoted tok) = length tok"
  by (auto simp: marked_def dest: split_equalsD split: option.splits)

lemma char_at_middle: "length xs = n \<Longrightarrow> char_at (xs @ c # ys) n = Some c"
  by (auto simp: char_at_def)

lemma update_middle: "length xs = n \<Longrightarrow> (xs @ c # ys)[n := d] = xs @ d # ys"
  by (auto simp: list_update_append)

lemma drop_quote_last:
  assumes "n = length xs + length v"
  shows "drop_quote (xs @ NUL # v @ ys) n = Some (xs @ NUL # mark_quote v @ ys)"
proof (cases "v = []")
  case True
  then show ?thesis using assms by (simp add: drop_quote_def char_at_middle mark_quote_def)
next
  case False
  then have v: "v = butlast v @ [last v]" by simp
  have eq: "xs @ NUL # v @ ys = (xs @ NUL # butlast v) @ last v # ys" by (subst v) simp
  have n: "length (xs @ NUL # butlast v) = n" using assms False by (cases v) auto
  show ?thesis using False v unfolding drop_quote_def eq char_at_middle [OF n] update_middle [OF n]
    by (auto simp: mark_quote_def)
qed

text \<open>The part of \<^verbatim>\<open>next_arg\<close> for an argument with a value: the quotes around the value are removed.\<close>

lemma value_block:
  assumes A: "length A = a" and pv: "split_equals tok = Some (p, v)" and D: "D \<noteq> CHR 0x22"
  shows "(do {
          c \<leftarrow> char_at (A @ p @ NUL # v @ D # E) (a + length p + 1);
          (buf2, val) \<leftarrow>
            (if c = CHR 0x22 then do { buf2 \<leftarrow> drop_quote (A @ p @ NUL # v @ D # E) (a + length tok - 1); Some (buf2, a + length p + 1 + 1) }
             else Some (A @ p @ NUL # v @ D # E, a + length p + 1));
          buf3 \<leftarrow> (if quoted then drop_quote buf2 (a + length tok - 1) else Some buf2);
          Some (buf3, Some val)
        }) = Some (A @ marked quoted tok @ D # E, map_option fst (snd (arg_of a quoted tok)))"
proof -
  have t: "tok = p @ CHR ''='' # v" using split_equalsD [OF pv] by auto
  have v0: "char_at (A @ p @ NUL # v @ D # E) (a + length p + 1) = Some (hd (v @ [D]))"
    using char_at_middle [of "A @ p @ [NUL]" "a + length p + 1"] A by (cases v) simp_all
  define k where "k = a + length tok - 1"
  have lt: "length tok = length p + length v + 1" using t by simp
  have dq: "drop_quote (A @ p @ NUL # v @ D # E) k = Some (A @ p @ NUL # mark_quote v @ D # E)"
    if "length tok = length p + length v + 1" for v using k_def that drop_quote_last [of _ "A @ p" v "D # E"] A by (simp add: add.assoc)
  have m: "A @ p @ NUL # (if quoted \<or> v \<noteq> [] \<and> hd v = CHR 0x22 then mark_quote v else v) @ D # E = A @ marked quoted tok @ D # E"
    by (simp add: marked_def pv)
  have hv: "hd (v @ [D]) = CHR 0x22 \<longleftrightarrow> v \<noteq> [] \<and> hd v = CHR 0x22" using D by (cases v) auto
  show ?thesis
    unfolding v0 m [symmetric] k_def [symmetric] by (auto simp: hv dq [OF lt] dq [of "mark_quote v"] dq [of "[]", simplified] lt arg_of_def pv)
qed

lemma next_arg_eq:
  assumes buf: "buf = pre @ s @ NUL # post" and s: "NUL \<notin> set s" "s \<noteq> []" and isp: "\<not> isp (CHR 0x22)" "\<not> isp NUL"
    and quoted: "quoted = (hd s = CHR 0x22)" and a: "a = length pre + (if quoted then 1 else 0)"
    and tok: "split_token isp quoted (if quoted then tl s else s) = (tok, rest)"
    and buf': "buf' = take a buf @ marked quoted tok @ NUL # tl (rest @ NUL # post)"
  shows "next_arg isp sk buf (length pre) =
    Some (buf', sk buf' (a + length tok + (if rest = [] then 0 else 1)), a, map_option fst (snd (arg_of a quoted tok)))"
proof -
  define A D E where "A = take a buf" "D = hd (rest @ NUL # post)" "E = tl (rest @ NUL # post)"
  have s1: "(if quoted then tl s else s) = tok @ rest" using split_token_append tok by (metis fst_conv snd_conv)
  have la: "a \<le> length buf" using a buf s(2) by (cases s) auto
  then have A: "length A = a" by (simp add: A_D_E_def)
  have dr: "drop a buf = (if quoted then tl s else s) @ NUL # post" using a buf s(2) by (cases s) auto
  have "D # E = rest @ NUL # post" by (simp add: A_D_E_def)
  then have "drop a buf = tok @ D # E" using dr s1 by simp
  then have eqbuf: "buf = A @ tok @ D # E" using append_take_drop_id [of a buf] by (simp add: A_D_E_def(1))
  have D: "D = NUL \<longleftrightarrow> rest = []" "D \<noteq> CHR 0x22"
    using isp split_token_rest [of isp quoted "if quoted then tl s else s"] tok by (cases rest; auto simp: A_D_E_def)+
  have c0: "char_at buf (length pre) = Some (hd s)" using buf s(2) by (cases s) (auto simp: char_at_middle)
  have n1: "NUL \<notin> set (if quoted then tl s else s)" using s by (cases s) auto
  have scan: "scan_arg isp buf a 0 0 quoted = Some (length tok, case split_equals tok of None \<Rightarrow> 0 | Some (p, v) \<Rightarrow> length p)"
    using scan_arg_eq [of a 0 buf "if quoted then tl s else s" post isp 0 quoted] dr n1 tok by (simp add: equals_pos_split)
  have last: "char_at (A @ marked quoted tok @ D # E) (a + length tok) = Some D"
    "(A @ marked quoted tok @ D # E)[a + length tok := NUL] = A @ marked quoted tok @ NUL # E"
    using A char_at_middle [of "A @ marked quoted tok"] update_middle [of "A @ marked quoted tok"] by simp_all
  have D0: "A @ marked quoted tok @ D # E = buf'" if "rest = []" using that D(1) buf' by (simp add: A_D_E_def)
  have b': "buf' = A @ marked quoted tok @ NUL # E" using buf' by (simp add: A_D_E_def)
  have a': "(if quoted then length pre + 1 else length pre) = a" using a by simp
  note unf = next_arg_def [of isp sk buf "length pre", unfolded c0 Option.bind.bind_lunit Let_def, folded quoted, unfolded a' scan Option.bind.bind_lunit prod.case]
  show ?thesis
  proof (cases "split_equals tok")
    case None
    have m: "marked quoted tok = tok" using None by (simp add: marked_def)
    have e: "A @ marked quoted tok @ D # E = buf" using eqbuf m by simp
    show ?thesis unfolding unf using last [unfolded e] D D0 [unfolded e] b' None by (simp add: arg_of_def)
  next
    case (Some pv)
    then obtain p v where pv: "split_equals tok = Some (p, v)" by (cases pv) auto
    have t: "tok = p @ CHR ''='' # v" "p \<noteq> []" using split_equalsD [OF pv] by auto
    have b1: "buf[a + length p := NUL] = A @ p @ NUL # v @ D # E"
      using update_middle [of "A @ p" "a + length p" "CHR ''=''"] A by (simp add: eqbuf t)
    note blk = value_block [OF A pv D(2), of E quoted]
    have ne: "length p \<noteq> 0" using t by simp
    show ?thesis unfolding unf pv option.case prod.case b1 if_not_P [OF ne] blk Option.bind.bind_lunit
      using last D D0 b' by auto
  qed
qed

lemma takeWhile_nul: "NUL \<notin> set s \<Longrightarrow> takeWhile (\<lambda>c. c \<noteq> NUL) (s @ NUL # r) = s"
  by (induction s) auto

lemma marked_name:
  assumes "NUL \<notin> set tok"
  shows "takeWhile (\<lambda>c. c \<noteq> NUL) (marked quoted tok @ NUL # r) = snd (fst (arg_of a quoted tok))"
proof (cases "split_equals tok")
  case (Some pv)
  then obtain p v where pv: "split_equals tok = Some (p, v)" by (cases pv) auto
  then have "NUL \<notin> set p" using assms split_equalsD(1) [OF pv] by auto
  then show ?thesis by (simp add: marked_def arg_of_def pv takeWhile_nul)
qed (use assms in \<open>simp add: marked_def arg_of_def takeWhile_nul\<close>)

lemma takeWhile_mark:
  assumes "NUL \<notin> set v"
  shows "takeWhile (\<lambda>c. c \<noteq> NUL) (mark_quote v @ NUL # r) = strip_last v"
proof -
  have "NUL \<notin> set (butlast v)" using assms by (meson in_set_butlastD)
  then show ?thesis using assms by (simp add: mark_quote_def strip_last_def takeWhile_nul)
qed

lemma drop1_mark: "v \<noteq> [] \<Longrightarrow> drop 1 (mark_quote v @ ys) = (if tl v = [] then ys else mark_quote (tl v) @ ys)"
  by (cases v) (auto simp: mark_quote_def)

lemma marked_value:
  assumes n: "NUL \<notin> set tok" and v: "snd (arg_of a quoted tok) = Some (vp, w)"
  shows "a \<le> vp" "vp + length w \<le> a + length tok" "takeWhile (\<lambda>c. c \<noteq> NUL) (drop (vp - a) (marked quoted tok @ NUL # r)) = w"
proof -
  obtain p u where pu: "split_equals tok = Some (p, u)" using v by (auto simp: arg_of_def split: option.splits)
  have tok: "tok = p @ CHR ''='' # u" using split_equalsD [OF pu] by simp
  have nu: "NUL \<notin> set u" "NUL \<notin> set (tl u)" using n tok by (cases u; auto)+
  have w: "w = unquote quoted u" and vp: "vp = a + length p + 1 + (if u \<noteq> [] \<and> hd u = CHR 0x22 then 1 else 0)"
    using v by (auto simp: arg_of_def pu)
  show "a \<le> vp" by (simp add: vp)
  have "length (strip_last x) \<le> length x" for x by (simp add: strip_last_def)
  from this [of u] this [of "tl u"] show "vp + length w \<le> a + length tok" by (cases u) (auto simp: vp w unquote_def tok)
  show "takeWhile (\<lambda>c. c \<noteq> NUL) (drop (vp - a) (marked quoted tok @ NUL # r)) = w"
  proof (cases "u \<noteq> [] \<and> hd u = CHR 0x22")
    case True
    then have "drop (vp - a) (marked quoted tok @ NUL # r) = drop 1 (mark_quote u @ NUL # r)" by (simp add: vp marked_def pu)
    also have "\<dots> = (if tl u = [] then NUL # r else mark_quote (tl u) @ NUL # r)" using True drop1_mark by blast
    finally show ?thesis using True takeWhile_mark [OF nu(2)] by (simp add: w unquote_def strip_last_def)
  next
    case False
    then have "drop (vp - a) (marked quoted tok @ NUL # r) = (if quoted then mark_quote u else u) @ NUL # r"
      by (auto simp: vp marked_def pu)
    then show ?thesis using False takeWhile_mark [OF nu(1)] takeWhile_nul [OF nu(1)] by (auto simp: w unquote_def)
  qed
qed

section \<open>Names are compared up to dashes\<close>

lemma dash2underscore_nul [simp]: "dash2underscore x = NUL \<longleftrightarrow> x = NUL" "NUL = dash2underscore x \<longleftrightarrow> x = NUL"
  "dash2underscore NUL = NUL"
  by (auto simp: dash2underscore_def)

lemma parameqn_nul:
  "NUL \<notin> set s \<Longrightarrow> NUL \<notin> set t \<Longrightarrow>
    parameqn (s @ NUL # a) (t @ NUL # b) (length s + 1) = Some (map dash2underscore s = map dash2underscore t)"
proof (induction s arbitrary: t)
  case Nil
  then show ?case by (cases t) auto
next
  case (Cons x s)
  then show ?case by (cases t) auto
qed

lemma cstr_split: "NUL \<in> set (drop p buf) \<Longrightarrow> \<exists>r. drop p buf = cstr buf p @ NUL # r \<and> NUL \<notin> set (cstr buf p)"
  unfolding cstr_def
proof (induction "drop p buf" arbitrary: p)
  case (Cons c r)
  have r: "r = drop (Suc p) buf" using Cons(2) by (metis drop_Suc drop_tl list.sel(3))
  show ?case
  proof (cases "c = NUL")
    case False
    then have "NUL \<in> set (drop (Suc p) buf)" using Cons(2,3) r by (metis set_ConsD)
    from Cons(1) [OF r this] show ?thesis unfolding Cons(2) [symmetric] using False r by auto
  qed (use Cons(2) [symmetric] in auto)
qed simp

lemma parameq_eq:
  assumes "NUL \<in> set (drop p buf)" "NUL \<in> set name"
  shows "parameq (drop p buf) name = Some (map dash2underscore (cstr buf p) = map dash2underscore (cstr name 0))"
proof -
  obtain r where r: "drop p buf = cstr buf p @ NUL # r" "NUL \<notin> set (cstr buf p)" using cstr_split [OF assms(1)] by blast
  obtain q where q: "name = cstr name 0 @ NUL # q" "NUL \<notin> set (cstr name 0)" using cstr_split [of 0 name] assms(2) by auto
  have c: "cstr (drop p buf) 0 = cstr buf p" by (simp add: cstr_def)
  show ?thesis unfolding parameq_def c using parameqn_nul [OF r(2) q(2), of r q] r(1) q(1) by metis
qed

section \<open>The contract of the operations\<close>

text \<open>An operation may write to its argument, but not to what surrounds it.\<close>

definition agree_outside :: "nat \<Rightarrow> nat \<Rightarrow> buffer \<Rightarrow> buffer \<Rightarrow> bool" where
  "agree_outside lo hi b b' \<longleftrightarrow> length b' = length b \<and> take lo b' = take lo b \<and> drop hi b' = drop hi b"

lemma agree_outside_refl [simp]: "agree_outside lo hi b b"
  by (simp add: agree_outside_def)

lemma agree_outside_trans [trans]: "agree_outside lo hi a b \<Longrightarrow> agree_outside lo hi b c \<Longrightarrow> agree_outside lo hi a c"
  by (simp add: agree_outside_def)

lemma agree_outside_mono:
  assumes "agree_outside lo hi b b'" "lo' \<le> lo" "hi \<le> hi'"
  shows "agree_outside lo' hi' b b'"
proof -
  have "take lo' b' = take lo' (take lo b')" "take lo' b = take lo' (take lo b)" using assms(2) by simp_all
  moreover have "drop hi' b' = drop (hi' - hi) (drop hi b')" "drop hi' b = drop (hi' - hi) (drop hi b)" using assms(3) by simp_all
  ultimately show ?thesis using assms(1) unfolding agree_outside_def by metis
qed

text \<open>
  The operation \<open>setr\<close> of a parameter, seen from the parser: it returns, and what it stores and returns depends on
  the text of the value (and on where it is) only. A null pointer is passed only if the operation allows that.
\<close>

locale param_setter =
  fixes noarg :: bool
    and setr :: "'s setter"
    and aset :: "'s \<Rightarrow> (nat \<times> string) option \<Rightarrow> 's \<times> unit result"
  assumes set_none: "noarg \<Longrightarrow> setr st buf None = Some (fst (aset st None), buf, snd (aset st None))"
    and set_some: "NUL \<in> set (drop v buf) \<Longrightarrow> \<exists>buf'. setr st buf (Some v) =
      Some (fst (aset st (Some (v, cstr buf v))), buf', snd (aset st (Some (v, cstr buf v)))) \<and>
      agree_outside v (v + length (cstr buf v)) buf buf'"

text \<open>The handler of unknown arguments may write to the whole argument, from its name to the end of its value.\<close>

definition arg_end :: "buffer \<Rightarrow> nat \<Rightarrow> nat option \<Rightarrow> nat" where
  "arg_end buf param val = (let q = (case val of None \<Rightarrow> param | Some v \<Rightarrow> v) in q + length (cstr buf q))"

locale unknown_setter =
  fixes handle :: "'s unknown_handler"
    and ahandle :: "'s \<Rightarrow> arg \<Rightarrow> 's \<times> unit result"
  assumes handle: "NUL \<in> set (drop param buf) \<Longrightarrow> \<forall>v. val = Some v \<longrightarrow> param \<le> v \<and> NUL \<in> set (drop v buf) \<Longrightarrow>
    \<exists>buf'. handle st buf param val =
      Some (fst (ahandle st ((param, cstr buf param), map_option (\<lambda>v. (v, cstr buf v)) val)), buf',
        snd (ahandle st ((param, cstr buf param), map_option (\<lambda>v. (v, cstr buf v)) val))) \<and>
      agree_outside param (arg_end buf param val) buf buf'"

text \<open>What all handlers together do, on the texts: the first parameter whose name matches gets the value.\<close>

record 's arg_spec =
  as_set :: "'s kernel_param \<Rightarrow> 's \<Rightarrow> (nat \<times> string) option \<Rightarrow> 's \<times> unit result"
  as_unknown :: "'s \<Rightarrow> arg \<Rightarrow> 's \<times> unit result"

definition names :: "'s kernel_param \<Rightarrow> string \<Rightarrow> bool" where
  "names kp p \<longleftrightarrow> map dash2underscore p = map dash2underscore (cstr (kp_name kp) 0)"

definition spec_one :: "'s parse_env \<Rightarrow> 's arg_spec \<Rightarrow> 's \<Rightarrow> arg \<Rightarrow> 's \<times> unit result" where
  "spec_one env spec st arg =
     (case find (\<lambda>kp. names kp (snd (fst arg))) (pe_params env) of
        Some kp \<Rightarrow>
          if \<not> (pe_min_level env \<le> kp_level kp \<and> kp_level kp \<le> pe_max_level env) then (st, Inr ())
          else if snd arg = None \<and> \<not> kp_noarg kp then (st, Inl EINVAL)
          else as_set spec kp st (snd arg)
      | None \<Rightarrow> if pe_unknown env = None then (st, Inl ENOENT) else as_unknown spec st arg)"

fun spec_args :: "'s parse_env \<Rightarrow> 's arg_spec \<Rightarrow> 's \<Rightarrow> arg list \<Rightarrow> 's \<times> unit result" where
  "spec_args env spec st [] = (st, Inr ())"
| "spec_args env spec st (arg # args) =
     (let (st', r) = spec_one env spec st arg in if r = Inr () then spec_args env spec st' args else (st', r))"

section \<open>Parsing does what the texts say\<close>

lemma args_of_skip: "args_of isp a s = args_of isp (a + length (takeWhile isp s)) (dropWhile isp s)"
proof (induction s arbitrary: a)
  case (Cons c s)
  show ?case
  proof (cases "isp c")
    case True
    then have "args_of isp a (c # s) = args_of isp (a + 1) s" by (simp add: args_of.simps [of isp a "c # s"])
    then show ?thesis using Cons [of "a + 1"] True by simp
  qed simp
qed simp

lemma drop_nul: "drop a buf = xs @ NUL # ys \<Longrightarrow> n \<le> length xs \<Longrightarrow> NUL \<in> set (drop (a + n) buf)"
  using drop_drop [of n a buf] by (simp add: add.commute) (metis in_set_conv_decomp)

text \<open>What the buffer holds at an argument whose token was marked: its name and its value, up to the end of the token.\<close>

lemma marked_arg:
  assumes d: "drop a buf = marked quoted tok @ NUL # E" and nt: "NUL \<notin> set tok" and arg: "arg = arg_of a quoted tok"
  shows "((a, cstr buf a), map_option (\<lambda>v. (v, cstr buf v)) (map_option fst (snd arg))) = arg" "NUL \<in> set (drop a buf)"
    and "\<forall>v. map_option fst (snd arg) = Some v \<longrightarrow> a \<le> v \<and> NUL \<in> set (drop v buf)"
    and "arg_end buf a (map_option fst (snd arg)) \<le> a + length tok"
proof -
  have nul1: "NUL \<in> set (drop (a + k) buf)" if "k \<le> length tok" for k using drop_nul [OF d] that by simp
  have name: "cstr buf a = snd (fst arg)" "fst (fst arg) = a" using marked_name [OF nt] unfolding cstr_def d arg
    by (auto simp: arg_of_def split: option.splits)
  have val: "a \<le> v \<and> v + length (cstr buf v) \<le> a + length tok \<and> NUL \<in> set (drop v buf) \<and> cstr buf v = w" if "snd arg = Some (v, w)" for v w
  proof -
    note mv = marked_value [OF nt that [unfolded arg]]
    have "drop v buf = drop (v - a) (drop a buf)" using mv(1) by simp
    then have "cstr buf v = w" using mv(3) by (simp only: cstr_def d)
    then show ?thesis using mv(1,2) nul1 [of "v - a"] by simp
  qed
  show "((a, cstr buf a), map_option (\<lambda>v. (v, cstr buf v)) (map_option fst (snd arg))) = arg"
    using name val by (cases arg; cases "fst arg"; cases "snd arg") auto
  show "NUL \<in> set (drop a buf)" using nul1 [of 0] by simp
  show "\<forall>v. map_option fst (snd arg) = Some v \<longrightarrow> a \<le> v \<and> NUL \<in> set (drop v buf)" using val by auto
  show "arg_end buf a (map_option fst (snd arg)) \<le> a + length tok"
  proof (cases "snd arg")
    case None
    then have "snd (fst arg) = tok" by (auto simp: arg arg_of_def split: option.splits)
    then show ?thesis using None name by (simp add: arg_end_def)
  qed (use val in \<open>auto simp: arg_end_def\<close>)
qed

lemma drop_spaces:
  assumes d: "drop n buf = NUL # tl (rest @ NUL # post)" and hr: "rest \<noteq> [] \<Longrightarrow> isp (hd rest)"
  shows "drop (n + length (takeWhile isp rest)) buf = dropWhile isp rest @ NUL # post"
proof (cases rest)
  case Nil
  then show ?thesis using d by simp
next
  case (Cons c r)
  have "drop (n + length (takeWhile isp rest)) buf = drop (length (takeWhile isp rest)) (drop n buf)" by (simp add: add.commute)
  also have "\<dots> = drop (length (takeWhile isp r)) ((takeWhile isp r @ dropWhile isp r) @ NUL # post)"
    using d Cons hr by simp
  finally show ?thesis using Cons hr by (simp del: takeWhile_dropWhile_id)
qed

locale cmdline =
  fixes env :: "'s parse_env"
    and spec :: "'s arg_spec"
  assumes quote: "\<not> pe_isspace env (CHR 0x22)"
    and nul: "\<not> pe_isspace env NUL"
    and skip: "pe_skip_spaces env buf p = p + length (takeWhile (pe_isspace env) (drop p buf))"
    and params: "kp \<in> set (pe_params env) \<Longrightarrow> NUL \<in> set (kp_name kp) \<and> param_setter (kp_noarg kp) (kp_set kp) (as_set spec kp)"
    and unknown: "pe_unknown env = Some h \<Longrightarrow> unknown_setter h (as_unknown spec)"
begin

lemma kp_set_eq:
  assumes kp: "kp \<in> set (pe_params env)" and v: "\<forall>v. val = Some v \<longrightarrow> param \<le> v \<and> NUL \<in> set (drop v buf)" "val = None \<Longrightarrow> kp_noarg kp"
    and R_def: "R = as_set spec kp st (map_option (\<lambda>v. (v, cstr buf v)) val)"
  shows "\<exists>buf'. kp_set kp st buf val = Some (fst R, buf', snd R) \<and> agree_outside param (arg_end buf param val) buf buf'"
proof -
  have ps: "param_setter (kp_noarg kp) (kp_set kp) (as_set spec kp)" using params kp by blast
  show ?thesis
  proof (cases val)
    case None
    then show ?thesis using param_setter.set_none [OF ps v(2)] by (auto simp: R_def)
  next
    case (Some w)
    then have "NUL \<in> set (drop w buf)" "param \<le> w" using v(1) by auto
    from param_setter.set_some [OF ps this(1), of st] this(2) Some show ?thesis
      by (auto simp: R_def arg_end_def intro: agree_outside_mono)
  qed
qed

lemma parse_one_loop_eq:
  assumes p: "NUL \<in> set (drop param buf)" and v: "\<forall>v. val = Some v \<longrightarrow> param \<le> v \<and> NUL \<in> set (drop v buf)"
    and ks: "set ks \<subseteq> set (pe_params env)"
    and arg_def: "arg = ((param, cstr buf param), map_option (\<lambda>v. (v, cstr buf v)) val)"
    and R_def: "R = spec_one (env\<lparr>pe_params := ks\<rparr>) spec st arg"
  shows "\<exists>buf'. parse_one_loop env ks st buf param val = Some (fst R, buf', snd R) \<and> agree_outside param (arg_end buf param val) buf buf'"
  using ks unfolding R_def
proof (induction ks)
  case Nil
  show ?case
  proof (cases "pe_unknown env")
    case None
    then show ?thesis by (auto simp: spec_one_def)
  next
    case (Some h)
    from unknown_setter.handle [OF unknown [OF Some] p v, of st] show ?thesis by (auto simp: spec_one_def Some arg_def)
  qed
next
  case (Cons k ks)
  have k: "k \<in> set (pe_params env)" "NUL \<in> set (kp_name k)" using Cons(2) params by auto
  have eq: "parameq (drop param buf) (kp_name k) = Some (names k (cstr buf param))" using parameq_eq [OF p k(2)] by (simp add: names_def)
  show ?case
  proof (cases "names k (cstr buf param)")
    case True
    note kp_set_eq [OF k(1) v _ refl, of st]
    then show ?thesis using True eq by (cases val) (auto simp: spec_one_def arg_def not_le)
  next
    case False
    then have "spec_one (env\<lparr>pe_params := k # ks\<rparr>) spec st arg = spec_one (env\<lparr>pe_params := ks\<rparr>) spec st arg"
      by (auto simp: spec_one_def arg_def split: option.split)
    then show ?thesis using Cons eq False by simp
  qed
qed

lemma parse_one_eq:
  assumes "NUL \<in> set (drop param buf)" "\<forall>v. val = Some v \<longrightarrow> param \<le> v \<and> NUL \<in> set (drop v buf)"
    "R = spec_one env spec st ((param, cstr buf param), map_option (\<lambda>v. (v, cstr buf v)) val)"
  shows "\<exists>buf'. parse_one env st buf param val = Some (fst R, buf', snd R) \<and> agree_outside param (arg_end buf param val) buf buf'"
  using parse_one_loop_eq [OF assms(1,2) subset_refl refl refl, of st] assms(3) by (simp add: parse_one_def)

text \<open>One round of the loop: the argument that comes first in the text is handed over, and the rest of the text is still there.\<close>

lemma parse_round:
  assumes buf: "buf = pre @ s @ NUL # post" and s: "NUL \<notin> set s" "s \<noteq> []"
    and q: "quoted = (hd s = CHR 0x22)" and a: "a = length pre + (if quoted then 1 else 0)"
    and tok: "split_token (pe_isspace env) quoted (if quoted then tl s else s) = (tok, rest)"
    and R: "R = spec_one env spec st (arg_of a quoted tok)"
  shows "\<exists>buf1 nxt param val buf2 pre2. next_arg (pe_isspace env) (pe_skip_spaces env) buf (length pre) = Some (buf1, nxt, param, val) \<and>
    parse_one env st buf1 param val = Some (fst R, buf2, snd R) \<and>
    buf2 = pre2 @ dropWhile (pe_isspace env) rest @ NUL # post \<and> nxt = length pre2 \<and>
    length pre2 = a + length tok + length (takeWhile (pe_isspace env) rest)"
proof -
  define E where "E = tl (rest @ NUL # post)"
  define buf1 where "buf1 = take a buf @ marked quoted tok @ NUL # E"
  define sp where "sp = (if rest = [] then 0 else 1 :: nat)"
  define arg where "arg = arg_of a quoted tok"
  note n = next_arg_eq [OF buf s quote nul q a tok buf1_def [unfolded E_def], folded arg_def sp_def]
  have tr: "tok @ rest = (if quoted then tl s else s)" using split_token_append tok by (metis fst_conv snd_conv)
  have "NUL \<notin> set (tok @ rest)" unfolding tr using s by (cases s) auto
  then have nt: "NUL \<notin> set tok" by simp
  have "length (tok @ rest) = length s - (if quoted then 1 else 0)" unfolding tr by simp
  moreover have "0 < length s" "length buf = length pre + length s + 1 + length post" using s(2) buf by simp_all
  ultimately have la: "a + length tok \<le> length buf" "a \<le> length buf" unfolding a by (auto split: if_splits)
  have d1: "drop a buf1 = marked quoted tok @ NUL # E" using la by (simp add: buf1_def)
  note ma = marked_arg [OF d1 nt arg_def]
  have R': "R = spec_one env spec st ((a, cstr buf1 a), map_option (\<lambda>v. (v, cstr buf1 v)) (map_option fst (snd arg)))" unfolding ma(1) by (simp add: R arg_def)
  obtain buf2 where p: "parse_one env st buf1 a (map_option fst (snd arg)) = Some (fst R, buf2, snd R)"
    "agree_outside a (a + length tok) buf1 buf2"
    using parse_one_eq [OF ma(2,3) R'] agree_outside_mono [OF _ order_refl ma(4)] by auto
  have d2: "drop (a + length tok) buf2 = NUL # E" using p(2) la by (simp add: agree_outside_def buf1_def)
  define k where "k = a + length tok + length (takeWhile (pe_isspace env) rest)"
  have tw: "takeWhile (pe_isspace env) (x @ NUL # post) = takeWhile (pe_isspace env) x" for x using nul by (induction x) auto
  have hr: "rest \<noteq> [] \<Longrightarrow> pe_isspace env (hd rest)" using split_token_rest [of "pe_isspace env" quoted] tok by (metis snd_conv)
  have nxt: "pe_skip_spaces env buf1 (a + length tok + sp) = k"
  proof (cases rest)
    case (Cons c r)
    then have "drop (a + length tok + sp) buf1 = r @ NUL # post" using la by (simp add: buf1_def E_def sp_def)
    then show ?thesis unfolding skip using Cons hr tw [of r] by (simp add: k_def sp_def)
  qed (use la nul in \<open>simp add: skip k_def sp_def buf1_def\<close>)
  have "drop k buf2 = dropWhile (pe_isspace env) rest @ NUL # post" unfolding k_def using drop_spaces [OF d2 [unfolded E_def]] hr by blast
  moreover have "length (take k buf2) = k"
    using d2 by (metis calculation drop_eq_Nil length_take min.absorb2 nat_le_linear Nil_is_append_conv list.distinct(1))
  ultimately show ?thesis using n p(1) nxt append_take_drop_id [of k buf2]
    by (intro exI [of _ buf1] exI [of _ k] exI [of _ a] exI [of _ "map_option fst (snd arg)"] exI [of _ buf2] exI [of _ "take k buf2"])
      (simp add: k_def)
qed

lemma parse_args_loop_eq:
  assumes "buf = pre @ s @ NUL # post" "NUL \<notin> set s" "s \<noteq> [] \<longrightarrow> \<not> pe_isspace env (hd s)"
    and "R = spec_args env spec st (args_of (pe_isspace env) (length pre) s)"
  shows "\<exists>buf'. parse_args_loop env st buf (length pre) = Some (fst R, buf', snd R)"
  using assms
proof (induction "length s" arbitrary: s pre buf st R rule: less_induct)
  case less
  note unf = parse_args_loop.simps [of env st buf "length pre"]
  show ?case
  proof (cases "s = []")
    case True
    then show ?thesis using less.prems unf by (simp add: char_at_middle args_of.simps [of _ _ "[]"])
  next
    case False
    define quoted where "quoted = (hd s = CHR 0x22)"
    define a where "a = length pre + (if quoted then 1 else 0)"
    obtain tok rest where tok: "split_token (pe_isspace env) quoted (if quoted then tl s else s) = (tok, rest)" by fastforce
    define R1 where "R1 = spec_one env spec st (arg_of a quoted tok)"
    obtain buf1 nxt param val buf2 pre2 where r: "next_arg (pe_isspace env) (pe_skip_spaces env) buf (length pre) = Some (buf1, nxt, param, val)"
      "parse_one env st buf1 param val = Some (fst R1, buf2, snd R1)" "buf2 = pre2 @ dropWhile (pe_isspace env) rest @ NUL # post" "nxt = length pre2"
      "length pre2 = a + length tok + length (takeWhile (pe_isspace env) rest)"
      using parse_round [OF less.prems(1,2) False quoted_def a_def tok R1_def] by blast
    have c: "char_at buf (length pre) = Some (hd s)" "hd s \<noteq> NUL" using False less.prems(1,2) by (cases s; auto simp: char_at_middle)+
    have tr: "tok @ rest = (if quoted then tl s else s)" using split_token_append tok by (metis fst_conv snd_conv)
    have args: "args_of (pe_isspace env) (length pre) s = arg_of a quoted tok # args_of (pe_isspace env) nxt (dropWhile (pe_isspace env) rest)"
      using args_of_skip [of "pe_isspace env" "a + length tok" rest] False less.prems(3) tok r(4,5)
      by (simp add: args_of.simps [of _ _ s] Let_def quoted_def a_def split: if_splits)
    have "length rest < length s"
    proof -
      have "tok \<noteq> [] \<or> quoted" using tok False less.prems(3) by (cases quoted; cases s; auto simp: map_prod_def split: prod.splits)
      then show ?thesis using False arg_cong [OF tr, of length] by (cases s; cases tok; auto split: if_splits)
    qed
    then have len: "length (dropWhile (pe_isspace env) rest) < length s" using length_dropWhile_le [of "pe_isspace env" rest] by simp
    have "NUL \<notin> set (tok @ rest)" unfolding tr using less.prems(2) False by (cases s) auto
    then have nr: "NUL \<notin> set (dropWhile (pe_isspace env) rest)" using set_dropWhileD by fastforce
    have hd: "dropWhile (pe_isspace env) rest \<noteq> [] \<longrightarrow> \<not> pe_isspace env (hd (dropWhile (pe_isspace env) rest))" using hd_dropWhile by blast
    note IH = less.hyps [OF len r(3) nr hd refl, of "fst R1"]
    show ?thesis using IH c r(1,2,4) less.prems(4) unfolding unf args by (cases R1) (auto simp: R1_def [symmetric])
  qed
qed

lemma parse_args_eq:
  assumes buf: "drop args buf = s @ NUL # post" "NUL \<notin> set s"
    and R: "R = spec_args env spec st (args_of (pe_isspace env) args s)"
  shows "\<exists>buf'. parse_args env st buf args = Some (fst R, buf', snd R)"
proof -
  define sp where "sp = takeWhile (pe_isspace env) s"
  define s' where "s' = dropWhile (pe_isspace env) s"
  have s: "s = sp @ s'" by (simp add: sp_def s'_def)
  have "args \<le> length buf" using buf(1) by (metis drop_all le_cases append_is_Nil_conv list.distinct(1))
  moreover have "buf = take args buf @ s @ NUL # post" using buf(1) append_take_drop_id [of args buf] by simp
  ultimately have b: "buf = (take args buf @ sp) @ s' @ NUL # post" "length (take args buf @ sp) = args + length sp" using s by simp_all
  have "takeWhile (pe_isspace env) (s @ NUL # post) = sp" using nul unfolding sp_def by (induction s) auto
  then have skip': "pe_skip_spaces env buf args = length (take args buf @ sp)" using b(2) buf(1) by (simp add: skip)
  have n': "NUL \<notin> set s'" using buf(2) unfolding s by simp
  have h': "s' \<noteq> [] \<longrightarrow> \<not> pe_isspace env (hd s')" unfolding s'_def using hd_dropWhile [of "pe_isspace env" s] by simp
  note loop = parse_args_loop_eq [OF b(1) n' h' refl, of st]
  have "args_of (pe_isspace env) args s = args_of (pe_isspace env) (length (take args buf @ sp)) s'"
    using args_of_skip [of "pe_isspace env" args s, folded sp_def s'_def] b(2) by simp
  with loop show ?thesis unfolding parse_args_def skip' R by (simp only:)
qed

end

text \<open>
  C8. Parsing a command line in place returns for every terminated buffer and never reads or writes outside it: it hands
  the arguments of the text, in their order, each with its name and its value as separate C strings, to the first
  parameter whose name matches up to dashes and underscores (or to the handler of unknown arguments), and stops at
  the first error.
\<close>

theorem parse_args_correct:
  assumes "cmdline env spec" "NUL \<in> set (drop args buf)"
  shows "\<exists>buf'. parse_args env st buf args =
    Some (fst (spec_args env spec st (args_of (pe_isspace env) args (cstr buf args))), buf',
      snd (spec_args env spec st (args_of (pe_isspace env) args (cstr buf args))))"
proof -
  obtain post where "drop args buf = cstr buf args @ NUL # post" "NUL \<notin> set (cstr buf args)" using cstr_split [OF assms(2)] by blast
  from cmdline.parse_args_eq [OF assms(1) this refl] show ?thesis .
qed

section \<open>Parsing inverts printing\<close>

text \<open>Arguments written down with their values in quotes, with spaces between them.\<close>

definition print_arg :: "string \<times> string option \<Rightarrow> string" where
  "print_arg x = (case x of (p, None) \<Rightarrow> p | (p, Some v) \<Rightarrow> p @ CHR ''='' # CHR 0x22 # v @ [CHR 0x22])"

fun print_args :: "(string \<times> string option) list \<Rightarrow> string" where
  "print_args [] = []"
| "print_args (x # xs) = print_arg x @ CHR '' '' # print_args xs"

definition printable :: "(char \<Rightarrow> bool) \<Rightarrow> string \<times> string option \<Rightarrow> bool" where
  "printable isspace x \<longleftrightarrow> fst x \<noteq> [] \<and> list_all (\<lambda>c. \<not> isspace c \<and> c \<noteq> CHR 0x22 \<and> c \<noteq> CHR ''='' \<and> c \<noteq> NUL) (fst x) \<and>
     (case snd x of None \<Rightarrow> True | Some v \<Rightarrow> list_all (\<lambda>c. c \<noteq> CHR 0x22 \<and> c \<noteq> NUL) v)"

definition text_of :: "arg \<Rightarrow> string \<times> string option" where
  "text_of arg = (snd (fst arg), map_option snd (snd arg))"

lemma split_token_plain:
  "list_all (\<lambda>c. \<not> isp c \<and> c \<noteq> CHR 0x22) s \<Longrightarrow> split_token isp False (s @ r) = map_prod ((@) s) (\<lambda>r. r) (split_token isp False r)"
  by (induction s) (auto simp: map_prod_def split: prod.splits)

lemma split_token_quoted:
  "list_all (\<lambda>c. c \<noteq> CHR 0x22) v \<Longrightarrow> split_token isp True (v @ r) = map_prod ((@) v) (\<lambda>r. r) (split_token isp True r)"
  by (induction v) (auto simp: map_prod_def split: prod.splits)

lemma split_token_print:
  assumes "printable isp x" "isp (CHR '' '')" "\<not> isp (CHR 0x22)" "\<not> isp (CHR ''='')"
  shows "split_token isp False (print_arg x @ CHR '' '' # r) = (print_arg x, CHR '' '' # r)"
proof -
  obtain p v where x: "x = (p, v)" by fastforce
  have p: "list_all (\<lambda>c. \<not> isp c \<and> c \<noteq> CHR 0x22) p" using assms(1) by (auto simp: printable_def x list_all_iff)
  show ?thesis
  proof (cases v)
    case None
    then show ?thesis using split_token_plain [OF p] assms by (simp add: x print_arg_def)
  next
    case (Some w)
    then have "list_all (\<lambda>c. c \<noteq> CHR 0x22) w" using assms(1) by (auto simp: printable_def x list_all_iff)
    from split_token_quoted [OF this] show ?thesis using split_token_plain [OF p] assms Some by (simp add: x print_arg_def)
  qed
qed

lemma arg_of_print:
  assumes "printable isp x"
  shows "text_of (arg_of a False (print_arg x)) = x"
proof -
  obtain c p v where x: "x = (c # p, v)" using assms by (cases x; cases "fst x") (auto simp: printable_def)
  have p: "\<forall>d\<in>set p. d \<noteq> CHR ''=''" using assms by (auto simp: printable_def x list_all_iff)
  then have tw: "takeWhile (\<lambda>c. c \<noteq> CHR ''='') (p @ r) = p @ takeWhile (\<lambda>c. c \<noteq> CHR ''='') r" for r by simp
  show ?thesis
  proof (cases v)
    case None
    have "takeWhile (\<lambda>c. c \<noteq> CHR ''='') p = p" using p by (simp add: takeWhile_eq_all_conv)
    note [simp] = this
    show ?thesis using None by (simp add: x print_arg_def Let_def arg_of_def split_equals_def text_of_def)
  next
    case (Some w)
    then show ?thesis using tw by (simp add: x print_arg_def arg_of_def split_equals_def text_of_def unquote_def strip_last_def)
  qed
qed

lemma args_of_print:
  assumes "list_all (printable isp) xs" "isp (CHR '' '')" "\<not> isp (CHR 0x22)" "\<not> isp (CHR ''='')"
  shows "map text_of (args_of isp a (print_args xs)) = xs"
  using assms(1)
proof (induction xs arbitrary: a)
  case Nil
  then show ?case by (simp add: args_of.simps)
next
  case (Cons x xs)
  define t where "t = print_arg x"
  have t: "t \<noteq> []" "\<not> isp (hd t)" "hd t \<noteq> CHR 0x22"
    using Cons(2) by (cases x; cases "fst x"; auto simp: t_def print_arg_def printable_def split: option.splits)+
  have "args_of isp a (print_args (x # xs)) = arg_of a False t # args_of isp (a + length t) (CHR '' '' # print_args xs)"
    using t split_token_print [of isp x "print_args xs"] Cons(2) assms(2-4)
    by (simp add: args_of.simps [of isp a "t @ CHR '' '' # print_args xs"] t_def [symmetric] hd_append)
  also have "args_of isp (a + length t) (CHR '' '' # print_args xs) = args_of isp (a + length t + 1) (print_args xs)"
    using assms(2) by (simp add: args_of.simps [of isp "a + length t"])
  finally show ?case using Cons arg_of_print [of isp x a] by (simp add: t_def)
qed

text \<open>A handler that keeps a list of the arguments it was given.\<close>

definition record_arg :: "(string \<times> string option) list unknown_handler" where
  "record_arg st buf param val = Some (st @ [(cstr buf param, map_option (cstr buf) val)], buf, Inr ())"

definition record_env :: "(char \<Rightarrow> bool) \<Rightarrow> (buffer \<Rightarrow> nat \<Rightarrow> nat) \<Rightarrow> (string \<times> string option) list parse_env" where
  "record_env isp sk = \<lparr>pe_isspace = isp, pe_skip_spaces = sk, pe_params = [], pe_min_level = 0, pe_max_level = 0, pe_unknown = Some record_arg\<rparr>"

definition record_spec :: "(string \<times> string option) list arg_spec" where
  "record_spec = \<lparr>as_set = \<lambda>_ st _. (st, Inr ()), as_unknown = \<lambda>st arg. (st @ [text_of arg], Inr ())\<rparr>"

interpretation recorder: unknown_setter record_arg "\<lambda>st arg. (st @ [text_of arg], Inr ())"
  by unfold_locales (simp add: record_arg_def text_of_def option.map_comp comp_def)

lemma spec_args_record: "spec_args (record_env isp sk) record_spec st as = (st @ map text_of as, Inr ())"
  by (induction as arbitrary: st) (simp_all add: spec_one_def record_env_def record_spec_def)

lemma record_cmdline:
  assumes "\<not> isp (CHR 0x22)" "\<not> isp NUL" "\<forall>buf p. sk buf p = p + length (takeWhile isp (drop p buf))"
  shows "cmdline (record_env isp sk) record_spec"
  using assms recorder.unknown_setter_axioms by (auto simp: cmdline_def record_env_def record_spec_def)

text \<open>
  C38. A command line of arguments written with their values in quotes is parsed into exactly these arguments, whatever
  spaces and equals signs the values contain.
\<close>

theorem parse_args_roundtrip:
  assumes "\<not> isp (CHR 0x22)" "\<not> isp NUL" "isp (CHR '' '')" "\<not> isp (CHR ''='')"
    and "\<forall>buf p. sk buf p = p + length (takeWhile isp (drop p buf))"
    and "list_all (printable isp) xs"
  shows "\<exists>buf'. parse_args (record_env isp sk) [] (print_args xs @ [NUL]) 0 = Some (xs, buf', Inr ())"
proof -
  have "NUL \<notin> set (print_arg x)" if "printable isp x" for x
    using that by (cases x; cases "snd x") (auto simp: printable_def print_arg_def list_all_iff)
  then have "NUL \<notin> set (print_args xs)" using assms(6) by (induction xs) simp_all
  from cmdline.parse_args_eq [OF record_cmdline [OF assms(1,2,5)] _ this refl, of 0 "print_args xs @ [NUL]" "[]" "[]"]
  show ?thesis using args_of_print [OF assms(6,3,1,4)] by (simp add: spec_args_record) (simp add: record_env_def)
qed

definition demo_isspace :: "char \<Rightarrow> bool" where
  "demo_isspace c \<longleftrightarrow> c = CHR '' ''"

definition demo_skip :: "buffer \<Rightarrow> nat \<Rightarrow> nat" where
  "demo_skip buf p = p + length (takeWhile demo_isspace (drop p buf))"

theorem parse_args_roundtrip_witness:
  "\<exists>buf'. parse_args (record_env demo_isspace demo_skip) [] (print_args [(''root'', Some ''a b=c''), (''quiet'', None)] @ [NUL]) 0 =
    Some ([(''root'', Some ''a b=c''), (''quiet'', None)], buf', Inr ())"
  by (rule parse_args_roundtrip) (simp_all add: demo_isspace_def demo_skip_def printable_def)

text \<open>
  The closing quote of an argument without a value is not removed: the quotes around a single word with spaces
  become part of its name.
\<close>

declare parse_args_loop.simps [code]

lemma quoted_name_keeps_quote:
  "map_option fst (parse_args (record_env demo_isspace demo_skip) [] (CHR 0x22 # ''a b'' @ [CHR 0x22, NUL]) 0) =
    Some [(''a b'' @ [CHR 0x22], None)]"
  by code_simp

end
