(* ===== verification/Param_Ops.thy ===== *)
theory Param_Ops
  imports Params
begin

text \<open>
  The operations of the standard parameter types (\<^verbatim>\<open>params.c\<close>): booleans, numbers, strings and arrays. The variables that
  the parameters set are memory by address, one map for each type; \<open>kmalloced_params\<close> is the list of the strings
  that were allocated for parameters, and \<open>kmallocs\<close> are the results of the allocations that follow. The parsers of
  booleans and numbers (\<^verbatim>\<open>strtobool\<close>, \<^verbatim>\<open>kstrtoint\<close> and so on) are arguments.
\<close>

datatype charp = Null | In_Args nat | Allocated nat

record param_vars =
  bools :: "nat \<Rightarrow> bool"
  nums :: "nat \<Rightarrow> int"
  charps :: "nat \<Rightarrow> charp"
  strings :: "nat \<Rightarrow> string"
  kmalloced_params :: "(nat \<times> string) list"
  kmallocs :: "nat option list"

section \<open>Strings\<close>

text \<open>\<^verbatim>\<open>kmalloc_parameter\<close> followed by the copy of the string.\<close>

definition kmalloc_parameter :: "param_vars \<Rightarrow> string \<Rightarrow> param_vars \<times> charp" where
  "kmalloc_parameter st s =
     (case kmallocs st of
        Some p # rest \<Rightarrow> (st\<lparr>kmalloced_params := (p, s) # kmalloced_params st, kmallocs := rest\<rparr>, Allocated p)
      | None # rest \<Rightarrow> (st\<lparr>kmallocs := rest\<rparr>, Null)
      | [] \<Rightarrow> (st, Null))"

fun remove_first :: "nat \<Rightarrow> (nat \<times> string) list \<Rightarrow> (nat \<times> string) list" where
  "remove_first p [] = []"
| "remove_first p (x # xs) = (if fst x = p then xs else x # remove_first p xs)"

definition maybe_kfree_parameter :: "param_vars \<Rightarrow> charp \<Rightarrow> param_vars" where
  "maybe_kfree_parameter st param =
     (case param of Allocated p \<Rightarrow> st\<lparr>kmalloced_params := remove_first p (kmalloced_params st)\<rparr> | _ \<Rightarrow> st)"

definition param_set_charp :: "bool \<Rightarrow> nat \<Rightarrow> param_vars setter" where
  "param_set_charp slab_is_available arg st buf val = do {
     v \<leftarrow> val;
     if length (cstr buf v) > 1024 then Some (st, buf, Inl ENOSPC)
     else let st1 = maybe_kfree_parameter st (charps st arg)
       in if slab_is_available
          then let (st2, p) = kmalloc_parameter st1 (cstr buf v); st3 = st2\<lparr>charps := (charps st2)(arg := p)\<rparr>
            in Some (st3, buf, if p = Null then Inl ENOMEM else Inr ())
          else Some (st1\<lparr>charps := (charps st1)(arg := In_Args v)\<rparr>, buf, Inr ())
   }"

definition param_free_charp :: "param_vars \<Rightarrow> nat \<Rightarrow> param_vars" where
  "param_free_charp st arg = maybe_kfree_parameter st (charps st arg)"

text \<open>The string a variable points to.\<close>

definition charp_string :: "param_vars \<Rightarrow> buffer \<Rightarrow> charp \<Rightarrow> string option" where
  "charp_string st buf p =
     (case p of Null \<Rightarrow> None | In_Args v \<Rightarrow> Some (cstr buf v) | Allocated q \<Rightarrow> map_of (kmalloced_params st) q)"

text \<open>A string that is copied into an array of \<open>maxlen\<close> characters.\<close>

definition param_set_copystring :: "nat \<Rightarrow> nat \<Rightarrow> param_vars setter" where
  "param_set_copystring maxlen arg st buf val = do {
     v \<leftarrow> val;
     if length (cstr buf v) + 1 > maxlen then Some (st, buf, Inl ENOSPC)
     else Some (st\<lparr>strings := (strings st)(arg := cstr buf v)\<rparr>, buf, Inr ())
   }"

text \<open>\<^verbatim>\<open>strlcpy\<close> copies what fits and returns the length of the whole string.\<close>

definition param_get_string :: "nat \<Rightarrow> nat \<Rightarrow> param_vars \<Rightarrow> string \<times> nat" where
  "param_get_string maxlen arg st = (take (maxlen - 1) (strings st arg), length (strings st arg))"

section \<open>Booleans and numbers\<close>

type_synonym bool_parser = "string \<Rightarrow> bool result"
type_synonym num_parser = "string \<Rightarrow> int result"

text \<open>\<^verbatim>\<open>param_set_bool\<close> with the place to store the result: the two variants below use a local variable.\<close>

definition bool_of_val :: "bool_parser \<Rightarrow> buffer \<Rightarrow> nat option \<Rightarrow> bool result" where
  "bool_of_val strtobool buf val = strtobool (case val of None \<Rightarrow> ''1'' | Some v \<Rightarrow> cstr buf v)"

definition param_set_bool :: "bool_parser \<Rightarrow> nat \<Rightarrow> param_vars setter" where
  "param_set_bool strtobool arg st buf val =
     (case bool_of_val strtobool buf val of
        Inl e \<Rightarrow> Some (st, buf, Inl e)
      | Inr b \<Rightarrow> Some (st\<lparr>bools := (bools st)(arg := b)\<rparr>, buf, Inr ()))"

definition param_get_bool :: "nat \<Rightarrow> param_vars \<Rightarrow> string" where
  "param_get_bool arg st = (if bools st arg then ''Y'' else ''N'')"

definition param_set_invbool :: "bool_parser \<Rightarrow> nat \<Rightarrow> param_vars setter" where
  "param_set_invbool strtobool arg st buf val =
     (case bool_of_val strtobool buf val of
        Inl e \<Rightarrow> Some (st, buf, Inl e)
      | Inr b \<Rightarrow> Some (st\<lparr>bools := (bools st)(arg := \<not> b)\<rparr>, buf, Inr ()))"

definition param_get_invbool :: "nat \<Rightarrow> param_vars \<Rightarrow> string" where
  "param_get_invbool arg st = (if bools st arg then ''N'' else ''Y'')"

definition param_set_bint :: "bool_parser \<Rightarrow> nat \<Rightarrow> param_vars setter" where
  "param_set_bint strtobool arg st buf val =
     (case bool_of_val strtobool buf val of
        Inl e \<Rightarrow> Some (st, buf, Inl e)
      | Inr b \<Rightarrow> Some (st\<lparr>nums := (nums st)(arg := of_bool b)\<rparr>, buf, Inr ()))"

text \<open>The operations of \<^verbatim>\<open>STANDARD_PARAM_DEF\<close>, one for each integer type, that is for each parser.\<close>

definition param_set_num :: "num_parser \<Rightarrow> nat \<Rightarrow> param_vars setter" where
  "param_set_num strtolfn arg st buf val = do {
     v \<leftarrow> val;
     case strtolfn (cstr buf v) of
       Inl e \<Rightarrow> Some (st, buf, Inl e)
     | Inr n \<Rightarrow> Some (st\<lparr>nums := (nums st)(arg := n)\<rparr>, buf, Inr ())
   }"

section \<open>Arrays\<close>

text \<open>
  The loop of \<^verbatim>\<open>param_array\<close>, which writes terminators over the commas. It returns the number of elements stored, too; \<open>elems\<close>
  is the operation of the elements, by their address.
\<close>

partial_function (option) param_array_loop ::
  "(nat \<Rightarrow> 's setter) \<Rightarrow> nat \<Rightarrow> nat \<Rightarrow> nat \<Rightarrow> nat \<Rightarrow> nat \<Rightarrow> 's \<Rightarrow> buffer \<Rightarrow> ('s \<times> buffer \<times> nat \<times> unit result) option" where
  "param_array_loop elems mx elemsize arg num val st buf =
     (if num = mx then Some (st, buf, num, Inl EINVAL)
      else do {
        let len = length (takeWhile (\<lambda>c. c \<noteq> CHR '','') (cstr buf val));
        save \<leftarrow> char_at buf (val + len);
        (st1, buf1, ret) \<leftarrow> elems arg st (buf[val + len := NUL]) (Some val);
        if ret \<noteq> Inr () then Some (st1, buf1, num, ret)
        else if save = CHR '','' then param_array_loop elems mx elemsize (arg + elemsize) (num + 1) (val + len + 1) st1 buf1
        else Some (st1, buf1, num + 1, Inr ())
      })"

definition param_array ::
  "(nat \<Rightarrow> 's setter) \<Rightarrow> nat \<Rightarrow> nat \<Rightarrow> nat \<Rightarrow> nat \<Rightarrow> 's \<Rightarrow> buffer \<Rightarrow> nat \<Rightarrow> ('s \<times> buffer \<times> nat \<times> unit result) option" where
  "param_array elems mn mx elem elemsize st buf val = do {
     (st1, buf1, num, ret) \<leftarrow> param_array_loop elems mx elemsize elem 0 val st buf;
     Some (st1, buf1, num, if ret = Inr () \<and> num < mn then Inl EINVAL else ret)
   }"

record kparam_array =
  arr_max :: nat
  arr_elemsize :: nat
  arr_num :: "nat option"
  arr_elem :: nat

definition param_array_set :: "(nat \<Rightarrow> param_vars setter) \<Rightarrow> kparam_array \<Rightarrow> param_vars setter" where
  "param_array_set elems arr st buf val = do {
     v \<leftarrow> val;
     (st1, buf1, num, ret) \<leftarrow> param_array elems 1 (arr_max arr) (arr_elem arr) (arr_elemsize arr) st buf v;
     Some (case arr_num arr of None \<Rightarrow> st1 | Some n \<Rightarrow> st1\<lparr>nums := (nums st1)(n := int num)\<rparr>, buf1, ret)
   }"

definition arr_len :: "kparam_array \<Rightarrow> param_vars \<Rightarrow> nat" where
  "arr_len arr st = (case arr_num arr of None \<Rightarrow> arr_max arr | Some k \<Rightarrow> nat (nums st k))"

text \<open>The loop of \<^verbatim>\<open>param_array_get\<close>, from element \<open>i\<close> on: \<open>out\<close> is what is in the output buffer so far.\<close>

fun array_get_loop :: "(nat \<Rightarrow> param_vars \<Rightarrow> string result) \<Rightarrow> kparam_array \<Rightarrow> param_vars \<Rightarrow> nat \<Rightarrow> nat \<Rightarrow> string \<Rightarrow> string result" where
  "array_get_loop get arr st i 0 out = Inr out"
| "array_get_loop get arr st i (Suc n) out =
     (let out1 = (if i \<noteq> 0 then out @ '','' else out)
      in case get (arr_elem arr + arr_elemsize arr * i) st of
           Inl e \<Rightarrow> Inl e
         | Inr s \<Rightarrow> array_get_loop get arr st (i + 1) n (out1 @ s))"

definition param_array_get :: "(nat \<Rightarrow> param_vars \<Rightarrow> string result) \<Rightarrow> kparam_array \<Rightarrow> param_vars \<Rightarrow> string result" where
  "param_array_get get arr st = array_get_loop get arr st 0 (arr_len arr st) []"

definition param_array_free :: "(param_vars \<Rightarrow> nat \<Rightarrow> param_vars) \<Rightarrow> kparam_array \<Rightarrow> param_vars \<Rightarrow> param_vars" where
  "param_array_free free arr st = foldl (\<lambda>st i. free st (arr_elem arr + arr_elemsize arr * i)) st [0..<arr_len arr st]"

section \<open>The operations keep the contract of the parser\<close>

lemma setter_noneI:
  assumes "\<And>st buf v. NUL \<in> set (drop v buf) \<Longrightarrow> setr st buf (Some v) =
      Some (fst (aset st (Some (v, cstr buf v))), buf, snd (aset st (Some (v, cstr buf v))))"
  shows "param_setter False setr aset"
  by unfold_locales (auto simp: assms)

lemma setterI:
  assumes "\<And>st buf val. setr st buf val =
      Some (fst (aset st (map_option (\<lambda>v. (v, cstr buf v)) val)), buf, snd (aset st (map_option (\<lambda>v. (v, cstr buf v)) val)))"
  shows "param_setter noarg setr aset"
  by unfold_locales (auto simp: assms)

text \<open>What the operations store, as functions of the text.\<close>

definition store_result :: "('a \<Rightarrow> 's \<Rightarrow> 's) \<Rightarrow> 's \<Rightarrow> 'a result \<Rightarrow> 's \<times> unit result" where
  "store_result f st r = (case r of Inl e \<Rightarrow> (st, Inl e) | Inr x \<Rightarrow> (f x st, Inr ()))"

definition text_or_1 :: "(nat \<times> string) option \<Rightarrow> string" where
  "text_or_1 v = (case v of None \<Rightarrow> ''1'' | Some (_, s) \<Rightarrow> s)"

definition set_bool_at :: "nat \<Rightarrow> bool \<Rightarrow> param_vars \<Rightarrow> param_vars" where
  "set_bool_at arg b st = st\<lparr>bools := (bools st)(arg := b)\<rparr>"

definition set_num_at :: "nat \<Rightarrow> int \<Rightarrow> param_vars \<Rightarrow> param_vars" where
  "set_num_at arg n st = st\<lparr>nums := (nums st)(arg := n)\<rparr>"

definition num_spec :: "num_parser \<Rightarrow> nat \<Rightarrow> param_vars \<Rightarrow> (nat \<times> string) option \<Rightarrow> param_vars \<times> unit result" where
  "num_spec strtolfn arg st v = store_result (set_num_at arg) st (strtolfn (snd (the v)))"

definition charp_spec :: "bool \<Rightarrow> nat \<Rightarrow> param_vars \<Rightarrow> (nat \<times> string) option \<Rightarrow> param_vars \<times> unit result" where
  "charp_spec slab arg st v =
     (let (p, s) = the v; st1 = maybe_kfree_parameter st (charps st arg); (st2, q) = kmalloc_parameter st1 s
      in if length s > 1024 then (st, Inl ENOSPC)
         else if slab then (st2\<lparr>charps := (charps st2)(arg := q)\<rparr>, if q = Null then Inl ENOMEM else Inr ())
         else (st1\<lparr>charps := (charps st1)(arg := In_Args p)\<rparr>, Inr ()))"

interpretation bool: param_setter True "param_set_bool strtobool arg" "\<lambda>st v. store_result (set_bool_at arg) st (strtobool (text_or_1 v))"
  by (rule setterI) (auto simp: param_set_bool_def bool_of_val_def store_result_def set_bool_at_def text_or_1_def split: option.splits sum.splits)

interpretation invbool: param_setter False "param_set_invbool strtobool arg" "\<lambda>st v. store_result (\<lambda>b. set_bool_at arg (\<not> b)) st (strtobool (text_or_1 v))"
  by (rule setterI) (auto simp: param_set_invbool_def bool_of_val_def store_result_def set_bool_at_def text_or_1_def split: option.splits sum.splits)

interpretation bint: param_setter True "param_set_bint strtobool arg" "\<lambda>st v. store_result (\<lambda>b. set_num_at arg (of_bool b)) st (strtobool (text_or_1 v))"
  by (rule setterI) (auto simp: param_set_bint_def bool_of_val_def store_result_def set_num_at_def text_or_1_def split: option.splits sum.splits)

interpretation num: param_setter False "param_set_num strtolfn arg" "num_spec strtolfn arg"
  by (rule setter_noneI) (auto simp: param_set_num_def num_spec_def store_result_def set_num_at_def split: sum.splits)

interpretation copystring: param_setter False "param_set_copystring maxlen arg"
    "\<lambda>st v. if length (snd (the v)) + 1 > maxlen then (st, Inl ENOSPC) else (st\<lparr>strings := (strings st)(arg := snd (the v))\<rparr>, Inr ())"
  by (rule setter_noneI) (auto simp: param_set_copystring_def)

interpretation charp: param_setter False "param_set_charp slab arg" "charp_spec slab arg"
  by (rule setter_noneI) (auto simp: param_set_charp_def charp_spec_def Let_def split: prod.splits)

section \<open>Arrays store the pieces between the commas\<close>

function commas :: "nat \<Rightarrow> string \<Rightarrow> (nat \<times> string) list" where
  "commas p s =
     (let x = takeWhile (\<lambda>c. c \<noteq> CHR '','') s
      in if length x = length s then [(p, s)] else (p, x) # commas (p + length x + 1) (drop (length x + 1) s))"
  by pat_completeness auto
termination
proof (relation "measure (\<lambda>(p, s). length s)", goal_cases)
  case (2 p s x)
  then have "length x < length s" using length_takeWhile_le [of "\<lambda>c. c \<noteq> CHR '',''" s] by simp
  then show ?case by simp
qed auto

declare commas.simps [simp del]

fun spec_elems ::
  "(nat \<Rightarrow> 's \<Rightarrow> (nat \<times> string) option \<Rightarrow> 's \<times> unit result) \<Rightarrow> nat \<Rightarrow> nat \<Rightarrow> nat \<Rightarrow> nat \<Rightarrow> 's \<Rightarrow> (nat \<times> string) list \<Rightarrow> 's \<times> nat \<times> unit result" where
  "spec_elems aelems mx elemsize arg num st [] = (st, num, Inr ())"
| "spec_elems aelems mx elemsize arg num st (x # xs) =
     (if num = mx then (st, num, Inl EINVAL)
      else let (st1, ret) = aelems arg st (Some x)
        in if ret \<noteq> Inr () then (st1, num, ret) else spec_elems aelems mx elemsize (arg + elemsize) (num + 1) st1 xs)"

lemma agree_outside_update: "lo \<le> i \<Longrightarrow> i < hi \<Longrightarrow> agree_outside lo hi b (b[i := c])"
  by (simp add: agree_outside_def)

lemma comma_split:
  assumes "length (takeWhile (\<lambda>c. c \<noteq> CHR '','') s) < length s"
  shows "s = takeWhile (\<lambda>c. c \<noteq> CHR '','') s @ CHR '','' # drop (length (takeWhile (\<lambda>c. c \<noteq> CHR '','') s) + 1) s"
proof -
  let ?x = "takeWhile (\<lambda>c. c \<noteq> CHR '','') s"
  have "s ! length ?x = CHR '',''" using nth_length_takeWhile [of "\<lambda>c. c \<noteq> CHR '',''" s] assms by simp
  then show ?thesis using assms by (metis Suc_eq_plus1 id_take_nth_drop takeWhile_eq_take)
qed

text \<open>The element before a comma: the comma is overwritten, the element is set, and the rest of the buffer stays as it is.\<close>

lemma array_element:
  assumes el: "param_setter False elem aelem" and buf: "buf = pre @ x @ CHR '','' # s' @ NUL # r" "length pre = v" and nx: "NUL \<notin> set x"
    and b1: "b1 = buf[v + length x := NUL]"
  shows "\<exists>b. elem st b1 (Some v) = Some (fst (aelem st (Some (v, x))), b, snd (aelem st (Some (v, x)))) \<and>
    drop (v + length x + 1) b = s' @ NUL # r \<and> agree_outside v (v + length x + 1 + length s') buf b"
proof -
  have e1: "b1 = pre @ x @ NUL # s' @ NUL # r" unfolding b1 using buf update_middle [of "pre @ x"] by simp
  then have d1: "drop v b1 = x @ NUL # s' @ NUL # r" using buf(2) by simp
  then have c1: "cstr b1 v = x" "NUL \<in> set (drop v b1)" using takeWhile_nul [OF nx] by (simp_all add: cstr_def)
  from param_setter.set_some [OF el c1(2), of st, unfolded c1(1)] obtain b where
    b: "elem st b1 (Some v) = Some (fst (aelem st (Some (v, x))), b, snd (aelem st (Some (v, x))))" "agree_outside v (v + length x) b1 b" by blast
  have "drop (v + length x + 1) b = drop (v + length x + 1) b1"
    using agree_outside_mono [OF b(2) order_refl, of "v + length x + 1"] by (simp add: agree_outside_def)
  then have "drop (v + length x + 1) b = s' @ NUL # r" using e1 buf(2) by simp
  moreover have "agree_outside v (v + length x + 1 + length s') buf b"
    using agree_outside_update [of v "v + length x" "v + length x + 1 + length s'" buf NUL]
      agree_outside_mono [OF b(2) order_refl, of "v + length x + 1 + length s'"]
    by (auto simp: b1 intro: agree_outside_trans)
  ultimately show ?thesis using b(1) by blast
qed

lemma param_array_loop_eq:
  assumes el: "\<forall>a. param_setter False (elems a) (aelems a)"
    and "drop v buf = s @ NUL # r" "NUL \<notin> set s" "R = spec_elems aelems mx elemsize arg num st (commas v s)"
  shows "\<exists>buf'. param_array_loop elems mx elemsize arg num v st buf = Some (fst R, buf', snd R) \<and> agree_outside v (v + length s) buf buf'"
  using assms(2-)
proof (induction "length s" arbitrary: s v buf arg num st R rule: less_induct)
  case less
  define x where "x = takeWhile (\<lambda>c. c \<noteq> CHR '','') s"
  note unf = param_array_loop.simps [of elems mx elemsize arg num v st buf]
  have c: "cstr buf v = s" using less.prems(1,2) takeWhile_nul by (simp add: cstr_def)
  have lx: "length x \<le> length s" by (simp add: x_def length_takeWhile_le)
  have lv: "v < length buf" using less.prems(1) by (metis drop_eq_Nil linorder_not_le append_is_Nil_conv list.distinct(1))
  then have buf: "buf = take v buf @ s @ NUL # r" "length (take v buf) = v" using less.prems(1) append_take_drop_id [of v buf] by simp_all
  have nx: "NUL \<notin> set x" using less.prems(2) by (auto simp: x_def dest: set_takeWhileD)
  show ?case
  proof (cases "num = mx")
    case True
    have "commas v s \<noteq> []" by (simp add: commas.simps [of v s] Let_def)
    then have "R = (st, num, Inl EINVAL)" using True less.prems(3) by (cases "commas v s") auto
    then show ?thesis using True unfolding unf by auto
  next
    case False
    show ?thesis
    proof (cases "length x = length s")
      case True
      then have sv: "char_at buf (v + length x) = Some NUL" "buf[v + length x := NUL] = buf"
        using char_at_middle [of "take v buf @ s"] update_middle [of "take v buf @ s"] buf by (metis length_append append_assoc)+
      have "NUL \<in> set (drop v buf)" using less.prems(1) by simp
      from param_setter.set_some [OF spec [OF el, of arg] this, of st, unfolded c] obtain b where
        b: "elems arg st buf (Some v) = Some (fst (aelems arg st (Some (v, s))), b, snd (aelems arg st (Some (v, s))))" "agree_outside v (v + length s) buf b" by blast
      have "commas v s = [(v, s)]" using True by (simp add: commas.simps [of v s] x_def)
      then show ?thesis using b sv False less.prems(3) unfolding unf
        by (auto simp: c x_def [symmetric] split: prod.splits)
    next
      case less_x: False
      define s' where "s' = drop (length x + 1) s"
      have sx: "s = x @ CHR '','' # s'" using comma_split less_x lx by (simp add: s'_def x_def)
      have bx: "buf = take v buf @ x @ CHR '','' # s' @ NUL # r" using buf(1) sx by simp
      have sv: "char_at buf (v + length x) = Some (CHR '','')" by (subst buf(1)) (use buf(2) sx char_at_middle [of "take v buf @ x"] in simp)
      define b1 where "b1 = buf[v + length x := NUL]"
      obtain b where b: "elems arg st b1 (Some v) = Some (fst (aelems arg st (Some (v, x))), b, snd (aelems arg st (Some (v, x))))"
        and d: "drop (v + length x + 1) b = s' @ NUL # r" and ag': "agree_outside v (v + length x + 1 + length s') buf b"
        using array_element [OF spec [OF el, of arg] bx buf(2) nx b1_def] by blast
      have ls: "length s' < length s" "v + length x + 1 + length s' = v + length s" "NUL \<notin> set s'" using sx less.prems(2) by auto
      note IH = less.hyps [OF ls(1) d ls(3) refl, of "arg + elemsize" "num + 1" "fst (aelems arg st (Some (v, x)))"]
      have ag: "agree_outside v (v + length s) buf b" using ag' unfolding ls(2) .
      have cm: "commas v s = (v, x) # commas (v + length x + 1) s'" using less_x by (simp add: commas.simps [of v s] x_def s'_def Let_def)
      show ?thesis using IH [unfolded ls(2)] b sv False less.prems(3) ag agree_outside_trans [OF ag agree_outside_mono [of "v + length x + 1" "v + length s" b _ v "v + length s"]]
        unfolding unf by (auto simp: c cm x_def [symmetric] b1_def [symmetric] split: prod.splits)
    qed
  qed
qed

lemma spec_elems_count:
  "snd (snd (spec_elems aelems mx elemsize arg num st xs)) = Inr () \<Longrightarrow> fst (snd (spec_elems aelems mx elemsize arg num st xs)) = num + length xs"
proof (induction xs arbitrary: arg num st)
  case (Cons x xs)
  obtain st1 ret where "aelems arg st (Some x) = (st1, ret)" by fastforce
  then show ?case using Cons(2) Cons(1) [of "arg + elemsize" "num + 1" st1] by (auto split: if_splits)
qed simp

lemma commas_nonempty: "commas p s \<noteq> []"
  by (simp add: commas.simps [of p s] Let_def)

definition array_spec ::
  "(nat \<Rightarrow> param_vars \<Rightarrow> (nat \<times> string) option \<Rightarrow> param_vars \<times> unit result) \<Rightarrow> kparam_array \<Rightarrow> param_vars \<Rightarrow> (nat \<times> string) option \<Rightarrow> param_vars \<times> unit result" where
  "array_spec aelems arr st v =
     (let (st1, num, ret) = spec_elems aelems (arr_max arr) (arr_elemsize arr) (arr_elem arr) 0 st (commas (fst (the v)) (snd (the v)))
      in (case arr_num arr of None \<Rightarrow> st1 | Some n \<Rightarrow> set_num_at n (int num) st1, ret))"

lemma param_array_setter:
  assumes el: "\<forall>a. param_setter False (elems a) (aelems a)"
  shows "param_setter False (param_array_set elems arr) (array_spec aelems arr)"
proof (unfold_locales, goal_cases)
  case (2 v buf st)
  obtain r where r: "drop v buf = cstr buf v @ NUL # r" "NUL \<notin> set (cstr buf v)" using cstr_split [OF 2] by blast
  define R where "R = spec_elems aelems (arr_max arr) (arr_elemsize arr) (arr_elem arr) 0 st (commas v (cstr buf v))"
  obtain st1 num ret where R: "R = (st1, num, ret)" by (cases R)
  have "ret = Inr () \<Longrightarrow> 1 \<le> num" using spec_elems_count [of aelems "arr_max arr" "arr_elemsize arr" "arr_elem arr" 0 st "commas v (cstr buf v)"]
      commas_nonempty [of v "cstr buf v"] R unfolding R_def by (cases "commas v (cstr buf v)") auto
  moreover obtain buf' where "param_array_loop elems (arr_max arr) (arr_elemsize arr) (arr_elem arr) 0 v st buf = Some (st1, buf', num, ret)"
      "agree_outside v (v + length (cstr buf v)) buf buf'" using param_array_loop_eq [OF el r R_def] R by auto
  ultimately show ?case using R unfolding R_def
    by (auto simp: param_array_set_def param_array_def array_spec_def set_num_at_def split: option.splits)
qed simp

interpretation num_array: param_setter False "param_array_set (param_set_num strtolfn) arr"
    "array_spec (num_spec strtolfn) arr"
  by (rule param_array_setter) (simp add: num.param_setter_axioms)

interpretation charp_array: param_setter False "param_array_set (param_set_charp slab) arr" "array_spec (charp_spec slab) arr"
  by (rule param_array_setter) (simp add: charp.param_setter_axioms)

section \<open>Reading an array back\<close>

fun commas_tail :: "string list \<Rightarrow> string" where
  "commas_tail [] = []"
| "commas_tail (x # xs) = '','' @ x @ commas_tail xs"

lemma commas_join: "snd (hd (commas p s)) @ commas_tail (map snd (tl (commas p s))) = s"
proof (induction p s rule: commas.induct)
  case (1 p s)
  define x where "x = takeWhile (\<lambda>c. c \<noteq> CHR '','') s"
  show ?case
  proof (cases "length x = length s")
    case True
    then show ?thesis by (simp add: commas.simps [of p s] x_def)
  next
    case False
    define xs where "xs = commas (p + length x + 1) (drop (length x + 1) s)"
    have c: "commas p s = (p, x) # xs" using False by (simp add: commas.simps [of p s] x_def xs_def Let_def)
    have "xs \<noteq> []" by (simp add: xs_def commas_nonempty)
    moreover have "snd (hd xs) @ commas_tail (map snd (tl xs)) = drop (length x + 1) s" using 1 [OF x_def] False by (simp add: xs_def)
    moreover have "s = x @ CHR '','' # drop (length x + 1) s"
    proof -
      have "length x < length s" using False length_takeWhile_le [of "\<lambda>c. c \<noteq> CHR '',''" s] by (simp add: x_def)
      then show ?thesis using nth_length_takeWhile [of "\<lambda>c. c \<noteq> CHR '',''" s] unfolding x_def
        by (metis Suc_eq_plus1 id_take_nth_drop takeWhile_eq_take)
    qed
    ultimately show ?thesis unfolding c by (cases xs) auto
  qed
qed

lemma array_get_loop_eq:
  assumes "i \<noteq> 0 \<or> n = 0" "\<forall>j<n. get (arr_elem arr + arr_elemsize arr * (i + j)) st = Inr (xs ! j)" "length xs = n"
  shows "array_get_loop get arr st i n out = Inr (out @ commas_tail xs)"
  using assms
proof (induction xs arbitrary: i n out)
  case (Cons x xs)
  then obtain m where m: "n = Suc m" by (cases n) auto
  have "get (arr_elem arr + arr_elemsize arr * i) st = Inr x" using Cons(3) m by (metis add.right_neutral nth_Cons_0 zero_less_Suc)
  moreover have "\<forall>j<m. get (arr_elem arr + arr_elemsize arr * (i + 1 + j)) st = Inr (xs ! j)"
    using Cons(3) m by (metis Suc_less_eq add.assoc nth_Cons_Suc plus_1_eq_Suc)
  ultimately show ?case using Cons(1) [of "i + 1" m "out @ '','' @ x"] Cons(2,4) m by simp
qed simp

lemma spec_elems_nums:
  assumes "0 < elemsize" "map (\<lambda>x. strtolfn (snd x)) xs = map Inr ns" "num + length xs \<le> mx"
  shows "\<exists>st'. spec_elems (num_spec strtolfn) mx elemsize arg num st xs = (st', num + length xs, Inr ()) \<and>
    (\<forall>j<length xs. nums st' (arg + elemsize * j) = ns ! j) \<and> (\<forall>a<arg. nums st' a = nums st a)"
  using assms(2,3)
proof (induction xs arbitrary: arg num st ns)
  case (Cons x xs)
  then obtain n ms where ns: "ns = n # ms" "strtolfn (snd x) = Inr n" "map (\<lambda>x. strtolfn (snd x)) xs = map Inr ms" by (cases ns) auto
  from Cons.IH [OF ns(3), of "num + 1" "arg + elemsize" "set_num_at arg n st"] Cons.prems(2) obtain st' where
    st': "spec_elems (num_spec strtolfn) mx elemsize (arg + elemsize) (num + 1) (set_num_at arg n st) xs =
        (st', num + 1 + length xs, Inr ())" "\<forall>j<length xs. nums st' (arg + elemsize + elemsize * j) = ms ! j"
      "\<forall>a<arg + elemsize. nums st' a = nums (set_num_at arg n st) a" by auto
  have "nums st' (arg + elemsize * j) = ns ! j" if "j < length (x # xs)" for j
    using that st'(2,3) ns(1) assms(1) by (cases j) (auto simp: set_num_at_def algebra_simps)
  moreover have "num_spec strtolfn arg st (Some x) = (set_num_at arg n st, Inr ())" by (simp add: num_spec_def store_result_def ns(2))
  moreover have "\<forall>a<arg. nums st' a = nums st a" using st'(3) by (simp add: set_num_at_def)
  ultimately show ?case using st'(1) Cons.prems(2) by auto
qed simp

text \<open>
  C39. An array of numbers is read back as it was written: storing a text of numbers with commas between them succeeds if
  they fit, and reading the parameter then gives the text. The array has a count variable, outside its elements, or, without
  one, as many elements as the text has numbers.
\<close>

theorem param_array_roundtrip:
  assumes buf: "NUL \<in> set (drop v buf)" and s: "s = cstr buf v"
    and parse: "\<forall>x\<in>set (commas v s). \<exists>n. strtolfn (snd x) = Inr n \<and> show_num n = snd x"
    and len: "length (commas v s) \<le> arr_max arr" and size: "0 < arr_elemsize arr"
    and num: "case arr_num arr of None \<Rightarrow> length (commas v s) = arr_max arr
      | Some k \<Rightarrow> \<forall>j<arr_max arr. k \<noteq> arr_elem arr + arr_elemsize arr * j"
  shows "\<exists>st' buf'. param_array_set (param_set_num strtolfn) arr st buf (Some v) = Some (st', buf', Inr ()) \<and>
    param_array_get (\<lambda>a st. Inr (show_num (nums st a))) arr st' = Inr s"
proof -
  define xs where "xs = commas v s"
  define ns where "ns = map (\<lambda>x. projr (strtolfn (snd x))) xs"
  have ns: "map (\<lambda>x. strtolfn (snd x)) xs = map Inr ns" "map show_num ns = map snd xs" using parse by (auto simp: xs_def ns_def)
  obtain st1 where st1: "spec_elems (num_spec strtolfn) (arr_max arr) (arr_elemsize arr) (arr_elem arr) 0 st xs = (st1, length xs, Inr ())"
    "\<forall>j<length xs. nums st1 (arr_elem arr + arr_elemsize arr * j) = ns ! j"
    using spec_elems_nums [OF size ns(1), of 0 "arr_max arr" "arr_elem arr" st] len by (auto simp: xs_def)
  define st2 where "st2 = (case arr_num arr of None \<Rightarrow> st1 | Some k \<Rightarrow> set_num_at k (int (length xs)) st1)"
  have sp: "array_spec (num_spec strtolfn) arr st (Some (v, s)) = (st2, Inr ())" using st1(1) by (simp add: array_spec_def xs_def st2_def split: option.split)
  have at: "nums st2 (arr_elem arr + arr_elemsize arr * j) = ns ! j" if "j < length xs" for j
  proof -
    have "j < arr_max arr" using that len by (simp add: xs_def)
    then show ?thesis using st1(2) that num by (auto simp: st2_def set_num_at_def split: option.splits)
  qed
  have ln: "arr_len arr st2 = length xs" using num by (auto simp: arr_len_def st2_def set_num_at_def xs_def split: option.splits)
  obtain x ys where xs: "xs = x # ys" using commas_nonempty xs_def by (metis neq_Nil_conv)
  have sh: "show_num (ns ! j) = snd (xs ! j)" if "j < length xs" for j using ns(2) that by (metis length_map nth_map)
  have "array_get_loop (\<lambda>a st. Inr (show_num (nums st a))) arr st2 1 (length ys) (snd x) = Inr (snd x @ commas_tail (map snd ys))"
    using at [of "Suc _"] sh [of "Suc _"] by (intro array_get_loop_eq) (auto simp: xs)
  then have "param_array_get (\<lambda>a st. Inr (show_num (nums st a))) arr st2 = Inr (snd x @ commas_tail (map snd ys))"
    using at [of 0] sh [of 0] ln by (simp add: param_array_get_def xs)
  also have "snd x @ commas_tail (map snd ys) = s" using commas_join [of v s] by (simp add: xs_def [symmetric] xs)
  finally show ?thesis using num_array.set_some [OF buf, of strtolfn arr st] sp by (auto simp: s)
qed

section \<open>Allocated strings\<close>

text \<open>
  The strings on the list are exactly the ones that some variable points to, and no two variables share one; the
  allocations to come are different from each other and from what is in use.
\<close>

fun fresh :: "nat option list \<Rightarrow> nat set \<Rightarrow> bool" where
  "fresh [] S = True"
| "fresh (None # ps) S = fresh ps S"
| "fresh (Some p # ps) S = (p \<notin> S \<and> fresh ps (insert p S))"

lemma fresh_mono: "fresh ps S \<Longrightarrow> T \<subseteq> S \<Longrightarrow> fresh ps T"
proof (induction ps S arbitrary: T rule: fresh.induct)
  case (3 p ps S)
  then show ?case using insert_mono [of T S p] by auto
qed simp_all

definition charps_ok :: "param_vars \<Rightarrow> bool" where
  "charps_ok st \<longleftrightarrow> distinct (map fst (kmalloced_params st)) \<and>
     (\<forall>p. p \<in> fst ` set (kmalloced_params st) \<longleftrightarrow> (\<exists>a. charps st a = Allocated p)) \<and>
     (\<forall>a b p. charps st a = Allocated p \<and> charps st b = Allocated p \<longrightarrow> a = b) \<and>
     fresh (kmallocs st) (fst ` set (kmalloced_params st))"

lemma remove_first_distinct:
  "distinct (map fst xs) \<Longrightarrow> remove_first p xs = filter (\<lambda>x. fst x \<noteq> p) xs"
  by (induction xs) (auto intro!: filter_True [symmetric] simp: image_iff)

lemma map_of_filter_key: "q \<noteq> p \<Longrightarrow> map_of (filter (\<lambda>x. fst x \<noteq> p) xs) q = map_of xs q"
  by (induction xs) auto

text \<open>Freeing the string of a variable that is about to be overwritten.\<close>

lemma kfree_ok:
  assumes "charps_ok st" and st1_def: "st1 = maybe_kfree_parameter st (charps st arg)"
  shows "charps st1 = charps st" "kmallocs st1 = kmallocs st" "distinct (map fst (kmalloced_params st1))"
    "p \<in> fst ` set (kmalloced_params st1) \<longleftrightarrow> (\<exists>a. a \<noteq> arg \<and> charps st a = Allocated p)"
    "a \<noteq> arg \<Longrightarrow> charp_string st1 buf (charps st a) = charp_string st buf (charps st a)"
    "fresh (kmallocs st1) (fst ` set (kmalloced_params st1))"
proof -
  have km: "kmalloced_params st1 = (case charps st arg of Allocated p \<Rightarrow> filter (\<lambda>x. fst x \<noteq> p) (kmalloced_params st) | _ \<Rightarrow> kmalloced_params st)"
    using assms(1) by (auto simp: st1_def maybe_kfree_parameter_def charps_ok_def remove_first_distinct split: charp.splits)
  show "charps st1 = charps st" and same: "kmallocs st1 = kmallocs st" by (auto simp: st1_def maybe_kfree_parameter_def split: charp.splits)
  show "distinct (map fst (kmalloced_params st1))" using assms(1)
    by (auto simp: km charps_ok_def distinct_map_filter split: charp.splits)
  have old: "(\<exists>x. (p, x) \<in> set (kmalloced_params st)) \<longleftrightarrow> (\<exists>a. charps st a = Allocated p)" for p
  proof -
    have "(\<exists>x. (p, x) \<in> set (kmalloced_params st)) \<longleftrightarrow> p \<in> fst ` set (kmalloced_params st)" by force
    then show ?thesis using assms(1) unfolding charps_ok_def by blast
  qed
  show new: "p \<in> fst ` set (kmalloced_params st1) \<longleftrightarrow> (\<exists>a. a \<noteq> arg \<and> charps st a = Allocated p)" for p
  proof -
    have "p \<in> fst ` set (kmalloced_params st1) \<longleftrightarrow> (\<exists>x. (p, x) \<in> set (kmalloced_params st)) \<and> charps st arg \<noteq> Allocated p"
      by (force simp: km image_iff split: charp.splits)
    then show ?thesis using old assms(1) unfolding charps_ok_def by metis
  qed
  show "charp_string st1 buf (charps st a) = charp_string st buf (charps st a)" if "a \<noteq> arg"
  proof -
    have "x \<noteq> y" if "charps st a = Allocated x" "charps st arg = Allocated y" for x y
      using that \<open>a \<noteq> arg\<close> assms(1) unfolding charps_ok_def by metis
    then show ?thesis by (auto simp: charp_string_def km map_of_filter_key split: charp.splits)
  qed
  have "fst ` set (kmalloced_params st1) \<subseteq> fst ` set (kmalloced_params st)" by (auto simp: km split: charp.splits)
  then show "fresh (kmallocs st1) (fst ` set (kmalloced_params st1))" using assms(1) fresh_mono unfolding same charps_ok_def by blast
qed

lemma kmalloc_ok:
  assumes "distinct (map fst (kmalloced_params st))" "fresh (kmallocs st) (fst ` set (kmalloced_params st))" "kmalloc_parameter st s = (st2, q)"
  shows "charps st2 = charps st" "distinct (map fst (kmalloced_params st2))" "fresh (kmallocs st2) (fst ` set (kmalloced_params st2))"
    "q = Null \<and> kmalloced_params st2 = kmalloced_params st \<or>
     (\<exists>p. q = Allocated p \<and> p \<notin> fst ` set (kmalloced_params st) \<and> kmalloced_params st2 = (p, s) # kmalloced_params st)"
  using assms by (auto simp: kmalloc_parameter_def split: list.splits option.splits)

lemma charp_string_cons: "c \<noteq> Allocated p \<Longrightarrow> kmalloced_params st2 = (p, s) # kmalloced_params st \<Longrightarrow> charp_string st2 buf c = charp_string st buf c"
  by (auto simp: charp_string_def split: charp.splits)

lemma param_set_charp_cases:
  assumes "st1 = maybe_kfree_parameter st (charps st arg)" "kmalloc_parameter st1 (cstr buf v) = (st2, q)"
  shows "param_set_charp slab arg st buf (Some v) =
    Some (if length (cstr buf v) > 1024 then (st, buf, Inl ENOSPC)
      else if slab then (st2\<lparr>charps := (charps st2)(arg := q)\<rparr>, buf, if q = Null then Inl ENOMEM else Inr ())
      else (st1\<lparr>charps := (charps st1)(arg := In_Args v)\<rparr>, buf, Inr ()))"
  using assms by (simp add: param_set_charp_def Let_def)

lemma charps_ok_alloc:
  assumes ok: "charps_ok st" and st1: "st1 = maybe_kfree_parameter st (charps st arg)" and q: "kmalloc_parameter st1 s = (st2, q)"
    and st3_def: "st3 = st2\<lparr>charps := (charps st2)(arg := q)\<rparr>"
  shows "charps_ok st3" "a \<noteq> arg \<Longrightarrow> charp_string st3 buf (charps st3 a) = charp_string st buf (charps st a)"
    "q \<noteq> Null \<Longrightarrow> charp_string st3 buf (charps st3 arg) = Some s"
proof -
  note k = kfree_ok [OF ok st1]
  note m = kmalloc_ok [OF k(3,6) q]
  have used: "charps st a \<noteq> Allocated p" if "p \<notin> fst ` set (kmalloced_params st1)" "a \<noteq> arg" for a p using that k(4) by blast
  have inj: "charps st a = Allocated p \<Longrightarrow> charps st b = Allocated p \<Longrightarrow> a = b" for a b p using ok unfolding charps_ok_def by blast
  have "(\<forall>p. p \<in> fst ` set (kmalloced_params st2) \<longleftrightarrow> (\<exists>a. charps st3 a = Allocated p))"
  proof
    fix p
    have "(\<exists>a. charps st3 a = Allocated p) \<longleftrightarrow> q = Allocated p \<or> (\<exists>a. a \<noteq> arg \<and> charps st a = Allocated p)"
      by (auto simp: st3_def m(1) k(1))
    moreover have "p \<in> fst ` set (kmalloced_params st2) \<longleftrightarrow> q = Allocated p \<or> p \<in> fst ` set (kmalloced_params st1)" using m(4) by auto
    ultimately show "p \<in> fst ` set (kmalloced_params st2) \<longleftrightarrow> (\<exists>a. charps st3 a = Allocated p)" using k(4) by simp
  qed
  moreover have "\<forall>a b p. charps st3 a = Allocated p \<and> charps st3 b = Allocated p \<longrightarrow> a = b"
  proof -
    have c: "charps st3 a = (if a = arg then q else charps st a)" for a by (simp add: st3_def m(1) k(1))
    have "charps st a \<noteq> Allocated p" if "q = Allocated p" "a \<noteq> arg" for a p using m(4) that used by fastforce
    then show ?thesis unfolding c by (metis inj)
  qed
  moreover have f: "kmalloced_params st3 = kmalloced_params st2" "kmallocs st3 = kmallocs st2" by (simp_all add: st3_def)
  ultimately show "charps_ok st3" using m(2,3) unfolding charps_ok_def f by (intro conjI)
  show "charp_string st3 buf (charps st3 a) = charp_string st buf (charps st a)" if a: "a \<noteq> arg"
  proof -
    have "charp_string st3 buf (charps st a) = charp_string st1 buf (charps st a)"
      using m(4) used [OF _ a] by (auto simp: charp_string_def st3_def split: charp.splits)
    then show ?thesis using k(5) [OF a] a by (simp add: st3_def m(1) k(1))
  qed
  show "charp_string st3 buf (charps st3 arg) = Some s" if "q \<noteq> Null"
    using that m(4) by (auto simp: charp_string_def st3_def)
qed

lemma charps_ok_early:
  assumes ok: "charps_ok st" and st1: "st1 = maybe_kfree_parameter st (charps st arg)"
    and st3_def: "st3 = st1\<lparr>charps := (charps st1)(arg := In_Args v)\<rparr>"
  shows "charps_ok st3" "a \<noteq> arg \<Longrightarrow> charp_string st3 buf (charps st3 a) = charp_string st buf (charps st a)"
proof -
  note k = kfree_ok [OF ok st1]
  have inj: "charps st a = Allocated p \<Longrightarrow> charps st b = Allocated p \<Longrightarrow> a = b" for a b p using ok unfolding charps_ok_def by blast
  show "charps_ok st3" using k(3,4,6) inj by (auto simp: charps_ok_def st3_def k(1))
  show "charp_string st3 buf (charps st3 a) = charp_string st buf (charps st a)" if "a \<noteq> arg"
    using k(5) [OF that, of buf] that by (simp add: charp_string_def st3_def k(1) cong: charp.case_cong)
qed

definition charp_do :: "bool \<Rightarrow> buffer \<Rightarrow> param_vars \<Rightarrow> nat \<times> nat \<Rightarrow> param_vars" where
  "charp_do slab buf st x = fst (the (param_set_charp slab (fst x) st buf (Some (snd x))))"

lemma param_set_charp_ok:
  assumes ok: "charps_ok st"
  shows "\<exists>st' ret. param_set_charp slab arg st buf (Some v) = Some (st', buf, ret) \<and> charps_ok st' \<and>
    (\<forall>a. a \<noteq> arg \<longrightarrow> charp_string st' buf (charps st' a) = charp_string st buf (charps st a)) \<and>
    (ret = Inr () \<and> charp_string st' buf (charps st' arg) = Some (cstr buf v) \<or>
     ret = Inl ENOSPC \<and> st' = st \<and> length (cstr buf v) > 1024 \<or> ret = Inl ENOMEM \<and> charps st' arg = Null)"
proof -
  define st1 where "st1 = maybe_kfree_parameter st (charps st arg)"
  obtain st2 q where q: "kmalloc_parameter st1 (cstr buf v) = (st2, q)" by fastforce
  note eq = param_set_charp_cases [OF st1_def q, of slab]
  consider "length (cstr buf v) > 1024" | "\<not> length (cstr buf v) > 1024" "slab" | "\<not> length (cstr buf v) > 1024" "\<not> slab" by blast
  then show ?thesis
  proof cases
    case 2
    define st3 where "st3 = st2\<lparr>charps := (charps st2)(arg := q)\<rparr>"
    have "q = Null \<Longrightarrow> charps st3 arg = Null" by (simp add: st3_def)
    then show ?thesis unfolding eq using charps_ok_alloc [OF ok st1_def q st3_def] 2
      by (intro exI [of _ st3] exI [of _ "if q = Null then Inl ENOMEM else Inr ()"]) (auto simp: st3_def [symmetric])
  next
    case 3
    define st3 where "st3 = st1\<lparr>charps := (charps st1)(arg := In_Args v)\<rparr>"
    have "charp_string st3 buf (charps st3 arg) = Some (cstr buf v)" by (simp add: st3_def charp_string_def)
    then show ?thesis unfolding eq using charps_ok_early [OF ok st1_def st3_def] 3 by (auto simp: st3_def [symmetric])
  qed (use ok in \<open>simp add: eq\<close>)
qed

interpretation charps: step_system "charp_do slab buf" charps_ok
proof
  show "charps_ok (charp_do slab buf s e)" if "charps_ok s" for s e
    using param_set_charp_ok [OF that, of slab "fst e" buf "snd e"] by (auto simp: charp_do_def)
qed

text \<open>
  C40. After any sequence of assignments to string parameters the allocated strings are exactly those in use, each by
  one variable: nothing leaks, nothing is freed while a variable points to it. The next assignment returns and makes its
  variable point to the new text without changing what the other variables say, or reports that the text is too
  long (and changes nothing) or that there is no memory (and leaves a null pointer).
\<close>

theorem charp_params_sound:
  assumes "charps_ok st"
  shows "\<exists>st1 st2 ret. st1 = foldl (charp_do slab buf) st ops \<and> charps_ok st1 \<and>
    param_set_charp slab arg st1 buf (Some v) = Some (st2, buf, ret) \<and> charps_ok st2 \<and>
    (\<forall>a. a \<noteq> arg \<longrightarrow> charp_string st2 buf (charps st2 a) = charp_string st1 buf (charps st1 a)) \<and>
    (ret = Inr () \<and> charp_string st2 buf (charps st2 arg) = Some (cstr buf v) \<or>
     ret = Inl ENOSPC \<and> st2 = st1 \<and> length (cstr buf v) > 1024 \<or> ret = Inl ENOMEM \<and> charps st2 arg = Null)"
  using charps.run_inv [OF assms, of slab buf ops] param_set_charp_ok [of "foldl (charp_do slab buf) st ops" slab arg buf v] by blast

section \<open>Examples\<close>

definition no_vars :: param_vars where
  "no_vars = \<lparr>bools = \<lambda>_. False, nums = \<lambda>_. 0, charps = \<lambda>_. Null, strings = \<lambda>_. [], kmalloced_params = [], kmallocs = [Some 7, Some 8, None]\<rparr>"

theorem charp_params_sound_witness:
  "charps_ok (foldl (charp_do True (''abc'' @ [NUL])) no_vars [(2, 0), (3, 1)])"
  using charp_params_sound [of no_vars True "''abc'' @ [NUL]" "[(2, 0), (3, 1)]" 4 0]
  by (auto simp: charps_ok_def no_vars_def)

definition demo_digit :: num_parser where
  "demo_digit s = (case s of [c] \<Rightarrow> if CHR ''0'' = c then Inr 0 else if CHR ''1'' = c then Inr 1 else if CHR ''2'' = c then Inr 2 else Inl EINVAL | _ \<Rightarrow> Inl EINVAL)"

definition demo_bool :: bool_parser where
  "demo_bool s = (if s = ''1'' \<or> s = ''y'' then Inr True else if s = ''0'' \<or> s = ''n'' then Inr False else Inl EINVAL)"

definition demo_show :: "int \<Rightarrow> string" where
  "demo_show n = (if n = 0 then ''0'' else if n = 1 then ''1'' else ''2'')"

definition demo_arr :: kparam_array where
  "demo_arr = \<lparr>arr_max = 4, arr_elemsize = 4, arr_num = Some 50, arr_elem = 100\<rparr>"

declare param_array_loop.simps [code]

theorem param_array_roundtrip_witness:
  "\<exists>st' buf'. param_array_set (param_set_num demo_digit) demo_arr no_vars (''2,0,1'' @ [NUL]) (Some 0) = Some (st', buf', Inr ()) \<and>
    param_array_get (\<lambda>a st. Inr (demo_show (nums st a))) demo_arr st' = Inr ''2,0,1''"
proof -
  have c: "cstr (''2,0,1'' @ [NUL]) 0 = ''2,0,1''" by code_simp
  have "commas 0 ''2,0,1'' = [(0, ''2''), (2, ''0''), (4, ''1'')]" by code_simp
  then show ?thesis using param_array_roundtrip [of 0 "''2,0,1'' @ [NUL]" "''2,0,1''" demo_digit demo_show demo_arr no_vars] c
    by (auto simp: demo_digit_def demo_show_def demo_arr_def)
qed

definition debug_param :: "param_vars kernel_param" where
  "debug_param = \<lparr>kp_name = ''de_bug'' @ [NUL], kp_level = 0, kp_noarg = True, kp_set = param_set_bool demo_bool 1\<rparr>"

definition ports_param :: "param_vars kernel_param" where
  "ports_param = \<lparr>kp_name = ''ports'' @ [NUL], kp_level = 0, kp_noarg = False, kp_set = param_array_set (param_set_num demo_digit) demo_arr\<rparr>"

definition demo_env :: "param_vars parse_env" where
  "demo_env = \<lparr>pe_isspace = demo_isspace, pe_skip_spaces = demo_skip, pe_params = [debug_param, ports_param],
     pe_min_level = 0, pe_max_level = 0, pe_unknown = None\<rparr>"

definition demo_spec :: "param_vars arg_spec" where
  "demo_spec = \<lparr>as_set = \<lambda>kp. if kp_noarg kp then \<lambda>st v. store_result (set_bool_at 1) st (demo_bool (text_or_1 v))
       else array_spec (num_spec demo_digit) demo_arr,
     as_unknown = \<lambda>st _. (st, Inr ())\<rparr>"

lemma demo_cmdline: "cmdline demo_env demo_spec"
  using bool.param_setter_axioms [of demo_bool 1] num_array.param_setter_axioms [of demo_digit demo_arr]
  by (auto simp: cmdline_def demo_env_def demo_spec_def demo_isspace_def demo_skip_def debug_param_def ports_param_def)

interpretation demo: cmdline demo_env demo_spec
  by (rule demo_cmdline)

theorem parse_args_correct_witness:
  "\<exists>st' buf'. parse_args demo_env no_vars (''de-bug ports=2,1'' @ [NUL]) 0 = Some (st', buf', Inr ()) \<and>
    bools st' 1 \<and> nums st' 100 = 2 \<and> nums st' 104 = 1 \<and> nums st' 50 = 2"
proof -
  define b where "b = ''de-bug ports=2,1'' @ [NUL]"
  define R where "R = spec_args demo_env demo_spec no_vars (args_of (pe_isspace demo_env) 0 (cstr b 0))"
  have "snd R = Inr () \<and> bools (fst R) 1 \<and> nums (fst R) 100 = 2 \<and> nums (fst R) 104 = 1 \<and> nums (fst R) 50 = 2"
    unfolding R_def b_def by code_simp
  moreover have "NUL \<in> set (drop 0 b)" by (simp add: b_def)
  ultimately show ?thesis using parse_args_correct [OF demo_cmdline, of 0 b no_vars] unfolding R_def b_def by auto
qed

end
