(* ===== verification/Pid_Map.thy ===== *)
theory Pid_Map
  imports Kernel_Prelude "HOL-Library.Monad_Syntax"
begin

text \<open>
  Allocation of process ids (\<^verbatim>\<open>pid.c\<close>): the bitmaps of a pid namespace, which are allocated page by page on first
  use, the search for the next free id, and the search for the next id in use.

  The model is one task at a time, except for the update of \<^verbatim>\<open>last_pid\<close>, which takes what other tasks do to it between
  the attempts as an argument. The searches in a bitmap (\<^verbatim>\<open>find_next_zero_bit\<close>, \<^verbatim>\<open>find_next_bit\<close>) belong to the kernel's
  library and are the fields of \<open>bit_lib\<close>; \<open>kzalloc\<close> says in which rounds of the loop a page can be allocated.
\<close>

type_synonym bitmap = "nat \<Rightarrow> bool"

record bit_lib =
  find_next_zero_bit :: "bitmap \<Rightarrow> nat \<Rightarrow> nat \<Rightarrow> nat"
  find_next_bit :: "bitmap \<Rightarrow> nat \<Rightarrow> nat \<Rightarrow> nat"

record pid_conf =
  BITS_PER_PAGE :: nat
  PIDMAP_ENTRIES :: nat
  PID_MAX_LIMIT :: nat
  pid_max :: nat

definition RESERVED_PIDS :: nat where "RESERVED_PIDS = 300"

record pidmap =
  nr_free :: int
  page :: "bitmap option"

record pid_namespace =
  pidmaps :: "nat \<Rightarrow> pidmap"
  last_pid :: nat

definition init_pid_ns :: "pid_conf \<Rightarrow> pid_namespace" where
  "init_pid_ns c = \<lparr>pidmaps = \<lambda>_. \<lparr>nr_free = int (BITS_PER_PAGE c), page = None\<rparr>, last_pid = 0\<rparr>"

definition mk_pid :: "pid_conf \<Rightarrow> nat \<Rightarrow> nat \<Rightarrow> nat" where
  "mk_pid c k off = k * BITS_PER_PAGE c + off"

definition set_map :: "pid_namespace \<Rightarrow> nat \<Rightarrow> pidmap \<Rightarrow> pid_namespace" where
  "set_map ns k m = ns\<lparr>pidmaps := (pidmaps ns)(k := m)\<rparr>"

text \<open>Clearing a bit of a page that was never allocated would be a null dereference.\<close>

definition free_pidmap :: "pid_conf \<Rightarrow> pid_namespace \<Rightarrow> nat \<Rightarrow> pid_namespace option" where
  "free_pidmap c ns nr =
     (let k = nr div BITS_PER_PAGE c; offset = nr mod BITS_PER_PAGE c; m = pidmaps ns k
      in do {
        pg \<leftarrow> page m;
        Some (set_map ns k \<lparr>nr_free = nr_free m + 1, page = Some (pg(offset := False))\<rparr>)
      })"

section \<open>The last id\<close>

definition pid_before :: "nat \<Rightarrow> nat \<Rightarrow> nat \<Rightarrow> bool" where
  "pid_before base a b \<longleftrightarrow> (of_nat a - of_nat base :: u32) < of_nat b - of_nat base"

text \<open>
  The loop around \<^verbatim>\<open>cmpxchg\<close>: \<open>cur\<close> is the value in memory, \<open>others\<close> what other tasks do to it before each of the
  further attempts. The result is the value in memory when the loop ends.
\<close>

fun set_last_pid :: "(nat \<Rightarrow> nat) list \<Rightarrow> nat \<Rightarrow> nat \<Rightarrow> nat \<Rightarrow> nat \<Rightarrow> nat option" where
  "set_last_pid others cur base pid prev =
     (let last_write = cur; cur' = (if cur = prev then pid else cur)
      in if prev \<noteq> last_write \<and> pid_before base last_write pid
         then (case others of [] \<Rightarrow> None | f # fs \<Rightarrow> set_last_pid fs (f cur') base pid last_write)
         else Some cur')"

section \<open>Allocation\<close>

text \<open>The inner loop: the offset of the bit that was set, or nothing if this page has no free id.\<close>

partial_function (option) scan_page :: "pid_conf \<Rightarrow> bit_lib \<Rightarrow> bitmap \<Rightarrow> nat \<Rightarrow> nat \<Rightarrow> nat option option" where
  "scan_page c lib pg k offset =
     (if \<not> pg offset then Some (Some offset)
      else let offset' = find_next_zero_bit lib pg (BITS_PER_PAGE c) offset
        in if offset' \<ge> BITS_PER_PAGE c then Some None
           else if mk_pid c k offset' \<ge> pid_max c then Some None
           else scan_page c lib pg k offset')"

definition take_bit_of :: "pid_namespace \<Rightarrow> nat \<Rightarrow> bitmap \<Rightarrow> nat \<Rightarrow> pid_namespace" where
  "take_bit_of ns k pg offset = set_map ns k \<lparr>nr_free = nr_free (pidmaps ns k) - 1, page = Some (pg(offset := True))\<rparr>"

definition install_page :: "bool \<Rightarrow> pid_namespace \<Rightarrow> nat \<Rightarrow> pid_namespace" where
  "install_page ok ns k =
     (if page (pidmaps ns k) = None \<and> ok then set_map ns k ((pidmaps ns k)\<lparr>page := Some (\<lambda>_. False)\<rparr>) else ns)"

text \<open>The outer loop, with the number of rounds left and the number of the round; \<open>last\<close> is \<^verbatim>\<open>last_pid\<close> as read at the start.\<close>

fun alloc_loop ::
  "pid_conf \<Rightarrow> bit_lib \<Rightarrow> (nat \<Rightarrow> bool) \<Rightarrow> nat \<Rightarrow> nat \<Rightarrow> nat \<Rightarrow> pid_namespace \<Rightarrow> nat \<Rightarrow> nat \<Rightarrow> (pid_namespace \<times> nat option) option" where
  "alloc_loop c lib kzalloc lst 0 i ns k offset = Some (ns, None)"
| "alloc_loop c lib kzalloc lst (Suc n) i ns k offset =
     (let ns1 = install_page (kzalloc i) ns k
      in case page (pidmaps ns1 k) of
           None \<Rightarrow> Some (ns1, None)
         | Some pg \<Rightarrow> do {
             found \<leftarrow> (if nr_free (pidmaps ns1 k) \<noteq> 0 then scan_page c lib pg k offset else Some None);
             case found of
               Some off \<Rightarrow> do {
                 l \<leftarrow> set_last_pid [] (last_pid ns1) lst (mk_pid c k off) lst;
                 Some ((take_bit_of ns1 k pg off)\<lparr>last_pid := l\<rparr>, Some (mk_pid c k off))
               }
             | None \<Rightarrow>
                 if k < (pid_max c - 1) div BITS_PER_PAGE c then alloc_loop c lib kzalloc lst n (i + 1) ns1 (k + 1) 0
                 else if lst = RESERVED_PIDS then Some (ns1, None)
                 else alloc_loop c lib kzalloc lst n (i + 1) ns1 0 RESERVED_PIDS
           })"

definition DIV_ROUND_UP :: "nat \<Rightarrow> nat \<Rightarrow> nat" where
  "DIV_ROUND_UP n d = (n + d - 1) div d"

definition alloc_pidmap :: "pid_conf \<Rightarrow> bit_lib \<Rightarrow> (nat \<Rightarrow> bool) \<Rightarrow> pid_namespace \<Rightarrow> (pid_namespace \<times> nat option) option" where
  "alloc_pidmap c lib kzalloc ns =
     (let lst = last_pid ns;
          pid = (if lst + 1 \<ge> pid_max c then RESERVED_PIDS else lst + 1);
          offset = pid mod BITS_PER_PAGE c;
          max_scan = DIV_ROUND_UP (pid_max c) (BITS_PER_PAGE c) - (if offset = 0 then 1 else 0)
      in alloc_loop c lib kzalloc lst (max_scan + 1) 0 ns (pid div BITS_PER_PAGE c) offset)"

section \<open>Walking the ids in use\<close>

fun next_loop :: "pid_conf \<Rightarrow> bit_lib \<Rightarrow> pid_namespace \<Rightarrow> nat \<Rightarrow> nat \<Rightarrow> nat \<Rightarrow> nat option" where
  "next_loop c lib ns 0 k offset = None"
| "next_loop c lib ns (Suc n) k offset =
     (case page (pidmaps ns k) of
        None \<Rightarrow> next_loop c lib ns n (k + 1) 0
      | Some pg \<Rightarrow>
          let offset' = find_next_bit lib pg (BITS_PER_PAGE c) offset
          in if offset' < BITS_PER_PAGE c then Some (mk_pid c k offset') else next_loop c lib ns n (k + 1) 0)"

definition next_pidmap :: "pid_conf \<Rightarrow> bit_lib \<Rightarrow> pid_namespace \<Rightarrow> nat \<Rightarrow> nat option" where
  "next_pidmap c lib ns lst =
     (if lst \<ge> PID_MAX_LIMIT c then None
      else let k = (lst + 1) div BITS_PER_PAGE c
        in next_loop c lib ns (PIDMAP_ENTRIES c - k) k ((lst + 1) mod BITS_PER_PAGE c))"

section \<open>Assumptions and the invariant\<close>

text \<open>What the searches in a bitmap promise: the first such bit from the offset on, or the size.\<close>

definition bit_lib_ok :: "bit_lib \<Rightarrow> bool" where
  "bit_lib_ok lib \<longleftrightarrow> (\<forall>pg n i. i \<le> n \<longrightarrow>
     (let z = find_next_zero_bit lib pg n i in i \<le> z \<and> z \<le> n \<and> (\<forall>j. i \<le> j \<and> j < z \<longrightarrow> pg j) \<and> (z < n \<longrightarrow> \<not> pg z)) \<and>
     (let z = find_next_bit lib pg n i in i \<le> z \<and> z \<le> n \<and> (\<forall>j. i \<le> j \<and> j < z \<longrightarrow> \<not> pg j) \<and> (z < n \<longrightarrow> pg z)))"

lemma next_zero_bit:
  assumes "bit_lib_ok lib" "i \<le> n" "z = find_next_zero_bit lib pg n i"
  shows "i \<le> z" "z \<le> n" "\<forall>j. i \<le> j \<and> j < z \<longrightarrow> pg j" "z < n \<longrightarrow> \<not> pg z"
  using assms(1) [unfolded bit_lib_ok_def Let_def, rule_format, OF assms(2), of pg] unfolding assms(3) by auto

lemma next_one_bit:
  assumes "bit_lib_ok lib" "i \<le> n" "z = find_next_bit lib pg n i"
  shows "i \<le> z" "z \<le> n" "\<forall>j. i \<le> j \<and> j < z \<longrightarrow> \<not> pg j" "z < n \<longrightarrow> pg z"
  using assms(1) [unfolded bit_lib_ok_def Let_def, rule_format, OF assms(2), of pg] unfolding assms(3) by auto

definition pid_conf_ok :: "pid_conf \<Rightarrow> bool" where
  "pid_conf_ok c \<longleftrightarrow> RESERVED_PIDS < BITS_PER_PAGE c \<and> RESERVED_PIDS < pid_max c \<and> pid_max c \<le> PID_MAX_LIMIT c \<and>
     PID_MAX_LIMIT c \<le> PIDMAP_ENTRIES c * BITS_PER_PAGE c"

text \<open>A page that is not there has no bit set.\<close>

definition bit_set :: "pidmap \<Rightarrow> nat \<Rightarrow> bool" where
  "bit_set m i = (case page m of None \<Rightarrow> False | Some pg \<Rightarrow> pg i)"

definition used :: "pid_conf \<Rightarrow> pid_namespace \<Rightarrow> nat set" where
  "used c ns = {p. bit_set (pidmaps ns (p div BITS_PER_PAGE c)) (p mod BITS_PER_PAGE c)}"

text \<open>Every page counts its free bits.\<close>

definition pidmap_ok :: "pid_conf \<Rightarrow> pid_namespace \<Rightarrow> bool" where
  "pidmap_ok c ns \<longleftrightarrow> (\<forall>k. nr_free (pidmaps ns k) = int (card {i. i < BITS_PER_PAGE c \<and> \<not> bit_set (pidmaps ns k) i}))"

text \<open>Installing empty pages changes nothing that counts.\<close>

definition quiet :: "pid_conf \<Rightarrow> pid_namespace \<Rightarrow> pid_namespace \<Rightarrow> bool" where
  "quiet c ns ns' \<longleftrightarrow> (\<forall>k. nr_free (pidmaps ns' k) = nr_free (pidmaps ns k) \<and> bit_set (pidmaps ns' k) = bit_set (pidmaps ns k)) \<and>
     last_pid ns' = last_pid ns"

lemma quiet_refl [simp]: "quiet c ns ns"
  by (simp add: quiet_def)

lemma quiet_trans: "quiet c a b \<Longrightarrow> quiet c b d \<Longrightarrow> quiet c a d"
  by (simp add: quiet_def)

lemma quiet_used: "quiet c ns ns' \<Longrightarrow> used c ns' = used c ns"
  by (simp add: quiet_def used_def)

lemma quiet_ok: "quiet c ns ns' \<Longrightarrow> pidmap_ok c ns \<Longrightarrow> pidmap_ok c ns'"
  by (simp add: quiet_def pidmap_ok_def)

lemma install_quiet: "quiet c ns (install_page ok ns k)"
  by (auto simp: quiet_def install_page_def set_map_def bit_set_def fun_eq_iff)

lemma install_page_cases: "page (pidmaps (install_page ok ns k) k) = None \<Longrightarrow> \<not> ok"
  by (auto simp: install_page_def set_map_def split: if_splits)

section \<open>The search in one page\<close>

lemma find_upt_Some: "find P [a..<b] = Some p \<longleftrightarrow> a \<le> p \<and> p < b \<and> P p \<and> (\<forall>j. a \<le> j \<and> j < p \<longrightarrow> \<not> P j)"
proof
  assume "find P [a..<b] = Some p"
  then obtain i where i: "i < length [a..<b]" "P ([a..<b] ! i)" "p = [a..<b] ! i" "\<forall>j<i. \<not> P ([a..<b] ! j)" by (auto simp: find_Some_iff)
  have "\<not> P j" if "a \<le> j" "j < p" for j using i that by (auto dest: spec [of _ "j - a"])
  then show "a \<le> p \<and> p < b \<and> P p \<and> (\<forall>j. a \<le> j \<and> j < p \<longrightarrow> \<not> P j)" using i by auto
next
  assume "a \<le> p \<and> p < b \<and> P p \<and> (\<forall>j. a \<le> j \<and> j < p \<longrightarrow> \<not> P j)"
  then show "find P [a..<b] = Some p" by (auto simp: find_Some_iff intro!: exI [of _ "p - a"])
qed

lemma find_upt_None: "find P [a..<b] = None \<longleftrightarrow> (\<forall>j. a \<le> j \<and> j < b \<longrightarrow> \<not> P j)"
  by (auto simp: find_None_iff)

lemma find_append_case: "find P (xs @ ys) = (case find P xs of None \<Rightarrow> find P ys | Some x \<Rightarrow> Some x)"
  by (induction xs) auto

lemma find_upt_split: "a \<le> m \<Longrightarrow> m \<le> b \<Longrightarrow> find P [a..<b] = (case find P [a..<m] of None \<Rightarrow> find P [m..<b] | Some p \<Rightarrow> Some p)"
  using upt_add_eq_append [of a m "b - m"] by (simp add: find_append_case)

lemma scan_page_eq:
  assumes lib: "bit_lib_ok lib" and o: "offset < BITS_PER_PAGE c" "mk_pid c k offset < pid_max c"
  shows "scan_page c lib pg k offset =
    Some (find (\<lambda>i. \<not> pg i) [offset..<min (BITS_PER_PAGE c) (pid_max c - k * BITS_PER_PAGE c)])"
proof (cases "pg offset")
  case False
  then have "find (\<lambda>i. \<not> pg i) [offset..<min (BITS_PER_PAGE c) (pid_max c - k * BITS_PER_PAGE c)] = Some offset"
    using o by (auto simp: find_upt_Some mk_pid_def)
  then show ?thesis using False by (simp add: scan_page.simps [of c lib pg k offset])
next
  case True
  define z where "z = find_next_zero_bit lib pg (BITS_PER_PAGE c) offset"
  note z = next_zero_bit [OF lib less_imp_le [OF o(1)] z_def]
  show ?thesis
  proof (cases "z < BITS_PER_PAGE c \<and> mk_pid c k z < pid_max c")
    case ok: True
    then have "find (\<lambda>i. \<not> pg i) [offset..<min (BITS_PER_PAGE c) (pid_max c - k * BITS_PER_PAGE c)] = Some z"
      using z by (auto simp: find_upt_Some mk_pid_def)
    moreover have "scan_page c lib pg k z = Some (Some z)" using ok z(4) by (simp add: scan_page.simps [of c lib pg k z])
    ultimately show ?thesis using ok True by (simp add: scan_page.simps [of c lib pg k offset] z_def [symmetric])
  next
    case no: False
    then have "find (\<lambda>i. \<not> pg i) [offset..<min (BITS_PER_PAGE c) (pid_max c - k * BITS_PER_PAGE c)] = None"
      using z by (auto simp: find_upt_None mk_pid_def)
    then show ?thesis using no True by (auto simp: scan_page.simps [of c lib pg k offset] z_def [symmetric])
  qed
qed

text \<open>The same in terms of ids.\<close>

lemma find_upt_shift: "find P [a + d..<b + d] = map_option (\<lambda>i. i + d) (find (\<lambda>i. P (i + d)) [a..<b])" for d :: nat
proof -
  have "find P (map f xs) = map_option f (find (\<lambda>i. P (f i)) xs)" for f and xs :: "nat list" by (induction xs) auto
  moreover have "[a + d..<b + d] = map (\<lambda>i. i + d) [a..<b]" by (induction b) auto
  ultimately show ?thesis by simp
qed

lemma page_find:
  assumes "page (pidmaps ns k) = Some pg" "k * BITS_PER_PAGE c \<le> pid_max c" "0 < BITS_PER_PAGE c"
  shows "find (\<lambda>p. p \<notin> used c ns) [mk_pid c k offset..<min (pid_max c) ((k + 1) * BITS_PER_PAGE c)] =
    map_option (mk_pid c k) (find (\<lambda>i. \<not> pg i) [offset..<min (BITS_PER_PAGE c) (pid_max c - k * BITS_PER_PAGE c)])"
proof -
  let ?B = "BITS_PER_PAGE c"
  have u: "i + k * ?B \<in> used c ns \<longleftrightarrow> pg i" if "i < ?B" for i using that assms(1) by (simp add: used_def bit_set_def)
  have m: "min (pid_max c) ((k + 1) * ?B) = min ?B (pid_max c - k * ?B) + k * ?B" using assms(2) by (simp add: min_def) linarith
  have o: "mk_pid c k offset = offset + k * ?B" by (simp add: mk_pid_def)
  have "find (\<lambda>p. p \<notin> used c ns) [mk_pid c k offset..<min (pid_max c) ((k + 1) * ?B)] =
      map_option (\<lambda>i. i + k * ?B) (find (\<lambda>i. i + k * ?B \<notin> used c ns) [offset..<min ?B (pid_max c - k * ?B)])"
    unfolding m o by (rule find_upt_shift)
  also have "find (\<lambda>i. i + k * ?B \<notin> used c ns) [offset..<min ?B (pid_max c - k * ?B)] = find (\<lambda>i. \<not> pg i) [offset..<min ?B (pid_max c - k * ?B)]"
    using u by (intro find_cong) auto
  finally show ?thesis by (simp add: mk_pid_def add.commute cong: option.map_cong)
qed

lemma full_page:
  assumes "pidmap_ok c ns" "page (pidmaps ns k) = Some pg" "nr_free (pidmaps ns k) = 0"
  shows "find (\<lambda>i. \<not> pg i) [offset..<min (BITS_PER_PAGE c) n] = None"
proof -
  have "card {i. i < BITS_PER_PAGE c \<and> \<not> pg i} = 0" using assms by (simp add: pidmap_ok_def bit_set_def)
  then have "{i. i < BITS_PER_PAGE c \<and> \<not> pg i} = {}" by (simp add: card_eq_0_iff)
  then show ?thesis by (auto simp: find_upt_None)
qed

section \<open>Taking an id\<close>

definition claim :: "pid_conf \<Rightarrow> pid_namespace \<Rightarrow> nat \<Rightarrow> pid_namespace" where
  "claim c ns p = (take_bit_of ns (p div BITS_PER_PAGE c) (bit_set (pidmaps ns (p div BITS_PER_PAGE c))) (p mod BITS_PER_PAGE c))\<lparr>last_pid := p\<rparr>"

lemma div_mod_eq_iff: "0 < b \<Longrightarrow> q div b = p div b \<Longrightarrow> q mod b = p mod b \<longleftrightarrow> q = p" for p q b :: nat
  by (metis div_mod_decomp)

lemma used_claim: "0 < BITS_PER_PAGE c \<Longrightarrow> used c (claim c ns p) = insert p (used c ns)"
  by (auto simp: used_def claim_def take_bit_of_def set_map_def bit_set_def div_mod_eq_iff split: if_splits option.splits)

lemma claim_ok:
  assumes ok: "pidmap_ok c ns" and p: "p \<notin> used c ns" and B: "0 < BITS_PER_PAGE c"
  shows "pidmap_ok c (claim c ns p)" "used c (claim c ns p) = insert p (used c ns)" "last_pid (claim c ns p) = p"
proof -
  let ?k = "p div BITS_PER_PAGE c" and ?o = "p mod BITS_PER_PAGE c"
  define S where "S = {i. i < BITS_PER_PAGE c \<and> \<not> bit_set (pidmaps ns ?k) i}"
  have o: "?o \<in> S" using p B by (simp add: S_def used_def)
  have "{i. i < BITS_PER_PAGE c \<and> \<not> bit_set (pidmaps (claim c ns p) ?k) i} = S - {?o}"
    by (auto simp: S_def claim_def take_bit_of_def set_map_def bit_set_def)
  moreover have "int (card (S - {?o})) = int (card S) - 1"
  proof -
    have "0 < card S" using o by (auto simp: card_gt_0_iff S_def)
    then show ?thesis using o by (simp add: S_def of_nat_diff Suc_leI)
  qed
  moreover have "nr_free (pidmaps ns ?k) = int (card S)" using ok by (simp add: pidmap_ok_def S_def)
  ultimately show "pidmap_ok c (claim c ns p)" using ok unfolding pidmap_ok_def
    by (auto simp: claim_def take_bit_of_def set_map_def)
  show "used c (claim c ns p) = insert p (used c ns)" using used_claim [OF B] .
  show "last_pid (claim c ns p) = p" by (simp add: claim_def)
qed

lemma take_bit_claim:
  assumes "page (pidmaps ns k) = Some pg" "i < BITS_PER_PAGE c"
  shows "(take_bit_of ns k pg i)\<lparr>last_pid := mk_pid c k i\<rparr> = claim c ns (mk_pid c k i)"
proof -
  have "bit_set (pidmaps ns k) = pg" using assms(1) by (simp add: bit_set_def fun_eq_iff)
  moreover have "mk_pid c k i div BITS_PER_PAGE c = k" "mk_pid c k i mod BITS_PER_PAGE c = i" using assms(2) by (simp_all add: mk_pid_def)
  ultimately show ?thesis by (simp add: claim_def)
qed

lemma set_last_pid_alone: "set_last_pid others base base pid base = Some pid"
  by simp

section \<open>The search through the pages\<close>

definition last_map :: "pid_conf \<Rightarrow> nat" where
  "last_map c = (pid_max c - 1) div BITS_PER_PAGE c"

lemma last_map_bounds:
  assumes "pid_conf_ok c"
  shows "0 < BITS_PER_PAGE c" "0 < pid_max c" "k \<le> last_map c \<longleftrightarrow> k * BITS_PER_PAGE c < pid_max c" "pid_max c \<le> (last_map c + 1) * BITS_PER_PAGE c"
proof -
  show B: "0 < BITS_PER_PAGE c" and m: "0 < pid_max c" using assms by (auto simp: pid_conf_ok_def)
  show "k \<le> last_map c \<longleftrightarrow> k * BITS_PER_PAGE c < pid_max c" using B m by (auto simp: last_map_def less_eq_div_iff_mult_less_eq)
  have "pid_max c - 1 < (last_map c + 1) * BITS_PER_PAGE c" using B unfolding last_map_def
    by (metis Suc_eq_plus1 dividend_less_times_div mult.commute mult_Suc add.commute)
  then show "pid_max c \<le> (last_map c + 1) * BITS_PER_PAGE c" using m by linarith
qed

text \<open>One round: either the search goes on with the next page, or it ends because no page could be allocated.\<close>

lemma alloc_round:
  assumes lib: "bit_lib_ok lib" and c: "pid_conf_ok c" and ok: "pidmap_ok c ns" and lst: "last_pid ns = lst"
    and off: "offset < BITS_PER_PAGE c" "mk_pid c k offset < pid_max c"
    and ns1: "ns1 = install_page (kzalloc i) ns k" and pg: "page (pidmaps ns1 k) = Some pg"
  shows "alloc_loop c lib kzalloc lst (Suc n) i ns k offset =
    (case find (\<lambda>p. p \<notin> used c ns) [mk_pid c k offset..<min (pid_max c) ((k + 1) * BITS_PER_PAGE c)] of
       Some p \<Rightarrow> Some (claim c ns1 p, Some p)
     | None \<Rightarrow>
         if k < last_map c then alloc_loop c lib kzalloc lst n (i + 1) ns1 (k + 1) 0
         else if lst = RESERVED_PIDS then Some (ns1, None)
         else alloc_loop c lib kzalloc lst n (i + 1) ns1 0 RESERVED_PIDS)"
proof -
  have q: "quiet c ns ns1" by (simp add: ns1 install_quiet)
  have ok1: "pidmap_ok c ns1" and u: "used c ns1 = used c ns" and l: "last_pid ns1 = lst"
    using quiet_ok [OF q ok] quiet_used [OF q] q lst by (simp_all add: quiet_def)
  define F where "F = find (\<lambda>i. \<not> pg i) [offset..<min (BITS_PER_PAGE c) (pid_max c - k * BITS_PER_PAGE c)]"
  have scan: "(if nr_free (pidmaps ns1 k) \<noteq> 0 then scan_page c lib pg k offset else Some None) = Some F"
    using scan_page_eq [OF lib off] full_page [OF ok1 pg] by (simp add: F_def)
  have fr: "find (\<lambda>p. p \<notin> used c ns) [mk_pid c k offset..<min (pid_max c) ((k + 1) * BITS_PER_PAGE c)] = map_option (mk_pid c k) F"
    using page_find [OF pg, of c offset] off by (simp add: u F_def mk_pid_def)
  have "f < BITS_PER_PAGE c" if "F = Some f" for f using that by (simp add: F_def find_upt_Some)
  then show ?thesis unfolding fr using scan pg l
    by (cases F) (simp_all add: ns1 [symmetric] take_bit_claim [OF pg] last_map_def [symmetric] del: One_nat_def)
qed

lemma find_next_page:
  assumes o: "offset < BITS_PER_PAGE c" and k: "mk_pid c (k + 1) 0 < pid_max c"
  shows "find P [mk_pid c k offset..<min (pid_max c) ((k + Suc n) * BITS_PER_PAGE c)] =
    (case find P [mk_pid c k offset..<min (pid_max c) ((k + 1) * BITS_PER_PAGE c)] of
       None \<Rightarrow> find P [mk_pid c (k + 1) 0..<min (pid_max c) ((k + 1 + n) * BITS_PER_PAGE c)]
     | Some p \<Rightarrow> Some p)"
proof -
  let ?B = "BITS_PER_PAGE c"
  have mk: "mk_pid c (k + 1) 0 = (k + 1) * ?B" by (simp add: mk_pid_def)
  then have kB: "(k + 1) * ?B \<le> pid_max c" using k by simp
  then have m1: "min (pid_max c) ((k + 1) * ?B) = (k + 1) * ?B" and n1: "k + 1 + n = k + Suc n" by simp_all
  have "(k + 1) * ?B \<le> (k + Suc n) * ?B" by (rule mult_le_mono1) simp
  then show ?thesis unfolding m1 mk n1 using kB o by (intro find_upt_split) (simp_all add: mk_pid_def)
qed

lemma alloc_up:
  assumes lib: "bit_lib_ok lib" and c: "pid_conf_ok c"
    and "pidmap_ok c ns" "last_pid ns = lst" "k \<le> last_map c" "offset < BITS_PER_PAGE c" "mk_pid c k offset < pid_max c"
  shows "(\<exists>ns' i'. quiet c ns ns' \<and> alloc_loop c lib kzalloc lst n i ns k offset =
      (case find (\<lambda>p. p \<notin> used c ns) [mk_pid c k offset..<min (pid_max c) ((k + n) * BITS_PER_PAGE c)] of
         Some p \<Rightarrow> Some (claim c ns' p, Some p)
       | None \<Rightarrow> if n \<le> last_map c - k \<or> lst = RESERVED_PIDS then Some (ns', None)
           else alloc_loop c lib kzalloc lst (n - (last_map c - k + 1)) i' ns' 0 RESERVED_PIDS)) \<or>
    (\<exists>j ns'. \<not> kzalloc j \<and> quiet c ns ns' \<and> alloc_loop c lib kzalloc lst n i ns k offset = Some (ns', None))"
  using assms(3-)
proof (induction n arbitrary: i ns k offset)
  case 0
  have "find (\<lambda>p. p \<notin> used c ns) [mk_pid c k offset..<min (pid_max c) ((k + 0) * BITS_PER_PAGE c)] = None" by (simp add: find_upt_None mk_pid_def)
  then show ?case by (intro disjI1 exI [of _ ns] exI [of _ i]) simp
next
  case (Suc n)
  let ?B = "BITS_PER_PAGE c"
  note b = last_map_bounds [OF c]
  define ns1 where "ns1 = install_page (kzalloc i) ns k"
  have q: "quiet c ns ns1" by (simp add: ns1_def install_quiet)
  show ?case
  proof (cases "page (pidmaps ns1 k)")
    case None
    then have "\<not> kzalloc i" using install_page_cases by (simp add: ns1_def)
    moreover have "alloc_loop c lib kzalloc lst (Suc n) i ns k offset = Some (ns1, None)" using None by (simp add: ns1_def [symmetric])
    ultimately show ?thesis using q by blast
  next
    case (Some pg)
    note round = alloc_round [where kzalloc = kzalloc and i = i, OF lib c Suc.prems(1,2,4,5) ns1_def Some, of n]
    show ?thesis
    proof (cases "k < last_map c")
      case False
      then have k: "k = last_map c" using Suc.prems(3) by simp
      have "pid_max c \<le> (k + 1) * ?B" "(k + 1) * ?B \<le> (k + Suc n) * ?B" using b(4) k by simp_all
      then have "min (pid_max c) ((k + Suc n) * ?B) = min (pid_max c) ((k + 1) * ?B)" by linarith
      then show ?thesis using round q k by (intro disjI1 exI [of _ ns1] exI [of _ "i + 1"]) (simp split: option.splits)
    next
      case True
      have ok1: "pidmap_ok c ns1" "last_pid ns1 = lst" "used c ns1 = used c ns" using q quiet_ok Suc.prems(1,2) quiet_used by (auto simp: quiet_def)
      have k1: "k + 1 \<le> last_map c" "mk_pid c (k + 1) 0 < pid_max c" using True b(3) [of "k + 1"] by (simp_all add: mk_pid_def)
      note sp = find_next_page [OF Suc.prems(4) k1(2), of "\<lambda>p. p \<notin> used c ns" n]
      note IH = Suc.IH [OF ok1(1,2) k1(1) b(1) k1(2), of "i + 1", unfolded ok1(3)]
      have le: "n \<le> last_map c - (k + 1) \<longleftrightarrow> Suc n \<le> last_map c - k" and sub: "n - (last_map c - (k + 1) + 1) = Suc n - (last_map c - k + 1)"
        using True by linarith+
      show ?thesis
      proof (cases "find (\<lambda>p. p \<notin> used c ns) [mk_pid c k offset..<min (pid_max c) ((k + 1) * ?B)]")
        case (Some p)
        then show ?thesis using q unfolding sp round by (intro disjI1 exI [of _ ns1] exI [of _ i]) simp
      next
        case None
        show ?thesis unfolding sp round None option.case if_P [OF True] using IH [unfolded le sub] quiet_trans [OF q] by blast
      qed
    qed
  qed
qed

text \<open>
  The specification: the first free id after the last one, or, when there is none up to the limit, the first free one
  above the reserved ids. (When the last id is the first one above the reserved ids, the search does not start again.)
\<close>

definition next_free :: "pid_conf \<Rightarrow> nat set \<Rightarrow> nat \<Rightarrow> nat option" where
  "next_free c U lst =
     (case find (\<lambda>p. p \<notin> U) [(if lst + 1 \<ge> pid_max c then RESERVED_PIDS else lst + 1)..<pid_max c] of
        Some p \<Rightarrow> Some p
      | None \<Rightarrow> if lst = RESERVED_PIDS then None else find (\<lambda>p. p \<notin> U) [RESERVED_PIDS..<pid_max c])"

lemma round_up_pages:
  assumes "pid_conf_ok c"
  shows "DIV_ROUND_UP (pid_max c) (BITS_PER_PAGE c) = last_map c + 1"
proof -
  note b = last_map_bounds [OF assms]
  have "pid_max c + BITS_PER_PAGE c - 1 = (pid_max c - 1) + BITS_PER_PAGE c" using b(2) by linarith
  moreover have "(pid_max c - 1 + BITS_PER_PAGE c) div BITS_PER_PAGE c = (pid_max c - 1) div BITS_PER_PAGE c + 1"
    by (rule div_add_self2) (use b(1) in simp)
  ultimately show ?thesis by (simp only: DIV_ROUND_UP_def last_map_def)
qed

lemma find_upt_cut:
  assumes "\<forall>p. m \<le> p \<and> p < b \<longrightarrow> \<not> P p" "m \<le> b"
  shows "find P [a..<m] = find P [a..<b]"
proof (cases "find P [a..<b]")
  case None
  then have "find P [a..<m] = None" using assms(2) unfolding find_upt_None by auto
  then show ?thesis using None by simp
next
  case (Some p)
  then have "find P [a..<m] = Some p" using assms unfolding find_upt_Some by (metis not_le)
  then show ?thesis using Some by simp
qed

text \<open>The scan after the search has wrapped around, when everything from \<open>st\<close> on is in use.\<close>

lemma alloc_wrapped:
  assumes lib: "bit_lib_ok lib" and c: "pid_conf_ok c" and ok: "pidmap_ok c ns" "last_pid ns = lst"
    and n: "n \<le> last_map c + 1" "st \<le> n * BITS_PER_PAGE c" and full: "\<And>p. st \<le> p \<Longrightarrow> p < pid_max c \<Longrightarrow> p \<in> used c ns"
  shows "(\<exists>ns'. quiet c ns ns' \<and> alloc_loop c lib kzalloc lst n i ns 0 RESERVED_PIDS =
      Some (case find (\<lambda>p. p \<notin> used c ns) [RESERVED_PIDS..<pid_max c] of Some p \<Rightarrow> (claim c ns' p, Some p) | None \<Rightarrow> (ns', None))) \<or>
    (\<exists>j ns'. \<not> kzalloc j \<and> quiet c ns ns' \<and> alloc_loop c lib kzalloc lst n i ns 0 RESERVED_PIDS = Some (ns', None))"
proof -
  define F where "F = find (\<lambda>p. p \<notin> used c ns) [RESERVED_PIDS..<pid_max c]"
  define r where "r = alloc_loop c lib kzalloc lst n i ns 0 RESERVED_PIDS"
  have r0: "mk_pid c 0 RESERVED_PIDS < pid_max c" "RESERVED_PIDS < BITS_PER_PAGE c" using c by (simp_all add: pid_conf_ok_def mk_pid_def)
  have "p \<in> used c ns" if "min (pid_max c) ((0 + n) * BITS_PER_PAGE c) \<le> p" "p < pid_max c" for p
    using full [of p] n(2) that by simp
  then have F: "find (\<lambda>p. p \<notin> used c ns) [mk_pid c 0 RESERVED_PIDS..<min (pid_max c) ((0 + n) * BITS_PER_PAGE c)] = F"
    unfolding F_def mk_pid_def mult_0 add_0 by (intro find_upt_cut) auto
  have none: "n - (last_map c - 0 + 1) = 0" using n(1) by simp
  show ?thesis
    using alloc_up [OF lib c ok _ r0(2,1), of kzalloc n i, unfolded F none, folded r_def] unfolding r_def [symmetric] F_def [symmetric]
    by (cases F) auto
qed

lemma alloc_pidmap_eq:
  assumes lib: "bit_lib_ok lib" and c: "pid_conf_ok c" and ok: "pidmap_ok c ns"
  shows "(\<exists>ns'. quiet c ns ns' \<and> alloc_pidmap c lib kzalloc ns =
      Some (case next_free c (used c ns) (last_pid ns) of Some p \<Rightarrow> (claim c ns' p, Some p) | None \<Rightarrow> (ns', None))) \<or>
    (\<exists>j ns'. \<not> kzalloc j \<and> quiet c ns ns' \<and> alloc_pidmap c lib kzalloc ns = Some (ns', None))"
proof -
  let ?B = "BITS_PER_PAGE c" and ?free = "\<lambda>p. p \<notin> used c ns"
  define lst where "lst = last_pid ns"
  define st where "st = (if lst + 1 \<ge> pid_max c then RESERVED_PIDS else lst + 1)"
  define k z where "k = st div ?B" and "z = (if st mod ?B = 0 then 1 else 0 :: nat)"
  define n where "n = last_map c + 1 - z + 1"
  note b = last_map_bounds [OF c]
  have al: "alloc_pidmap c lib kzalloc ns = alloc_loop c lib kzalloc lst n 0 ns k (st mod ?B)"
    unfolding alloc_pidmap_def Let_def lst_def [symmetric] st_def [symmetric] round_up_pages [OF c] by (simp add: n_def k_def z_def)
  have st: "st < pid_max c" "mk_pid c k (st mod ?B) = st" using c by (auto simp: st_def pid_conf_ok_def mk_pid_def k_def)
  have kB: "k * ?B \<le> st" "st < (k + 1) * ?B" using b(1) by (simp_all add: k_def dividend_less_times_div mult.commute)
  have k: "k \<le> last_map c" using kB(1) st(1) b(3) [of k] by simp
  have n: "last_map c - k + 1 \<le> n" "n - (last_map c - k + 1) = k + 1 - z" using k by (auto simp: n_def z_def)
  have m1: "min (pid_max c) ((k + n) * ?B) = pid_max c"
  proof -
    have "(last_map c + 1) * ?B \<le> (k + n) * ?B" using n(1) k by (intro mult_le_mono1) simp
    then show ?thesis using b(4) by simp
  qed
  have s0: "mk_pid c k (st mod ?B) < pid_max c" "st mod ?B < ?B" using st b(1) by simp_all
  have nf: "next_free c (used c ns) lst = (case find ?free [st..<pid_max c] of Some p \<Rightarrow> Some p | None \<Rightarrow> if lst = RESERVED_PIDS then None else find ?free [RESERVED_PIDS..<pid_max c])"
    by (simp add: next_free_def st_def)
  have not_le: "\<not> n \<le> last_map c - k" using n(1) by simp
  note up1 = alloc_up [OF lib c ok lst_def [symmetric] k s0(2,1), of kzalloc n 0, unfolded m1 st(2) n(2), folded al]
  show ?thesis
  proof (cases "find ?free [st..<pid_max c] = None \<and> lst \<noteq> RESERVED_PIDS")
    case False
    then show ?thesis using up1 unfolding lst_def [symmetric] nf by (auto split: option.splits)
  next
    case True
    then consider ns1 i' where "quiet c ns ns1" "alloc_pidmap c lib kzalloc ns = alloc_loop c lib kzalloc lst (k + 1 - z) i' ns1 0 RESERVED_PIDS"
      | j ns1 where "\<not> kzalloc j" "quiet c ns ns1" "alloc_pidmap c lib kzalloc ns = Some (ns1, None)"
      using up1 not_le by (simp only: True simp_thms if_False option.case) blast
    then show ?thesis
    proof cases
      case 1
      have ok1: "pidmap_ok c ns1" "last_pid ns1 = lst" "used c ns1 = used c ns" using 1(1) ok quiet_ok quiet_used by (auto simp: quiet_def lst_def)
      have le: "st \<le> (k + 1 - z) * ?B" using kB by (auto simp: z_def k_def)
      have full: "p \<in> used c ns1" if "st \<le> p" "p < pid_max c" for p using True that ok1(3) by (auto simp: find_upt_None)
      have kz: "k + 1 - z \<le> last_map c + 1" using k by simp
      define r F where "r = alloc_loop c lib kzalloc lst (k + 1 - z) i' ns1 0 RESERVED_PIDS"
        and "F = find (\<lambda>p. p \<notin> used c ns1) [RESERVED_PIDS..<pid_max c]"
      have "next_free c (used c ns) lst = F" using True by (simp add: nf ok1(3) F_def)
      then show ?thesis using 1(2) [folded r_def] quiet_trans [OF 1(1)] alloc_wrapped [OF lib c ok1(1,2) kz le full, of kzalloc i', folded r_def F_def]
        unfolding lst_def [symmetric] by metis
    next
      case 2
      then show ?thesis by blast
    qed
  qed
qed

text \<open>
  Allocation returns: it takes the first free id after the last one, or starts again above the reserved ids, marks
  exactly this id as used and remembers it; it fails only if there is no such id (and nothing changes), or if a
  page of the bitmap could not be allocated.
\<close>

lemma alloc_pidmap_next_free:
  assumes lib: "bit_lib_ok lib" and c: "pid_conf_ok c" and ok: "pidmap_ok c ns"
  shows "\<exists>ns' r. alloc_pidmap c lib kzalloc ns = Some (ns', r) \<and> pidmap_ok c ns' \<and>
    (case r of
       Some p \<Rightarrow> next_free c (used c ns) (last_pid ns) = Some p \<and> p < pid_max c \<and> p \<notin> used c ns \<and>
         used c ns' = insert p (used c ns) \<and> last_pid ns' = p
     | None \<Rightarrow> used c ns' = used c ns \<and> last_pid ns' = last_pid ns \<and>
         (next_free c (used c ns) (last_pid ns) = None \<or> (\<exists>i. \<not> kzalloc i)))"
proof -
  have quiet: "pidmap_ok c ns'" "used c ns' = used c ns" "last_pid ns' = last_pid ns" if "quiet c ns ns'" for ns'
    using that ok quiet_ok quiet_used by (auto simp: quiet_def)
  have free: "p < pid_max c" "p \<notin> used c ns" if "next_free c (used c ns) (last_pid ns) = Some p" for p
    using that by (auto simp: next_free_def find_upt_Some split: option.splits if_splits)
  note cl = claim_ok [OF _ _ last_map_bounds(1) [OF c]]
  from alloc_pidmap_eq [OF assms, of kzalloc] show ?thesis
  proof (elim disjE exE conjE, goal_cases)
    case (1 ns')
    show ?case
    proof (cases "next_free c (used c ns) (last_pid ns)")
      case None
      then show ?thesis using 1(2) quiet [OF 1(1)] by simp
    next
      case (Some p)
      then show ?thesis using 1(2) free [OF Some] cl [OF quiet(1) [OF 1(1)], of p] quiet(2) [OF 1(1)] by simp
    qed
  next
    case (2 j ns')
    then show ?case using quiet [OF 2(2)] by (intro exI [of _ ns'] exI [of _ None]) auto
  qed
qed

section \<open>Freeing an id\<close>

lemma free_pidmap_ok:
  assumes c: "pid_conf_ok c" and ok: "pidmap_ok c ns" and p: "p \<in> used c ns"
  shows "\<exists>ns'. free_pidmap c ns p = Some ns' \<and> pidmap_ok c ns' \<and> used c ns' = used c ns - {p} \<and> last_pid ns' = last_pid ns"
proof -
  let ?B = "BITS_PER_PAGE c" and ?k = "p div BITS_PER_PAGE c" and ?o = "p mod BITS_PER_PAGE c"
  have B: "0 < ?B" using c by (simp add: pid_conf_ok_def)
  obtain pg where pg: "page (pidmaps ns ?k) = Some pg" "pg ?o" using p by (auto simp: used_def bit_set_def split: option.splits)
  define ns' where "ns' = set_map ns ?k \<lparr>nr_free = nr_free (pidmaps ns ?k) + 1, page = Some (pg(?o := False))\<rparr>"
  define S where "S = {i. i < ?B \<and> \<not> bit_set (pidmaps ns ?k) i}"
  have "{i. i < ?B \<and> \<not> bit_set (pidmaps ns' ?k) i} = insert ?o S" using B pg by (auto simp: S_def ns'_def set_map_def bit_set_def)
  moreover have "?o \<notin> S" "finite S" using pg by (auto simp: S_def bit_set_def)
  moreover have "nr_free (pidmaps ns ?k) = int (card S)" using ok by (simp add: pidmap_ok_def S_def)
  ultimately have "pidmap_ok c ns'" using ok by (auto simp: pidmap_ok_def ns'_def set_map_def)
  moreover have "used c ns' = used c ns - {p}" using B pg
    by (auto simp: used_def ns'_def set_map_def bit_set_def div_mod_eq_iff split: if_splits)
  moreover have "free_pidmap c ns p = Some ns'" using pg by (simp add: free_pidmap_def ns'_def Let_def)
  ultimately show ?thesis by (auto simp: ns'_def set_map_def)
qed

section \<open>Walking through the ids\<close>

lemma next_loop_eq:
  assumes lib: "bit_lib_ok lib" and B: "0 < BITS_PER_PAGE c"
  shows "offset < BITS_PER_PAGE c \<Longrightarrow> next_loop c lib ns n k offset = find (\<lambda>p. p \<in> used c ns) [mk_pid c k offset..<max (mk_pid c k offset) ((k + n) * BITS_PER_PAGE c)]"
proof (induction n arbitrary: k offset)
  case 0
  then show ?case by (simp add: mk_pid_def)
next
  case (Suc n)
  let ?B = "BITS_PER_PAGE c"
  have "(k + 1) * ?B \<le> (k + Suc n) * ?B" by (rule mult_le_mono1) simp
  moreover have "mk_pid c k offset \<le> (k + 1) * ?B" using Suc.prems by (simp add: mk_pid_def)
  moreover have m: "mk_pid c (k + 1) 0 = (k + 1) * ?B" "k + 1 + n = k + Suc n" by (simp_all add: mk_pid_def)
  ultimately have "max (mk_pid c k offset) ((k + Suc n) * ?B) = (k + Suc n) * ?B" "max ((k + 1) * ?B) ((k + Suc n) * ?B) = (k + Suc n) * ?B"
    "find (\<lambda>p. p \<in> used c ns) [mk_pid c k offset..<(k + Suc n) * ?B] =
      (case find (\<lambda>p. p \<in> used c ns) [mk_pid c k offset..<(k + 1) * ?B] of
         None \<Rightarrow> find (\<lambda>p. p \<in> used c ns) [(k + 1) * ?B..<(k + Suc n) * ?B] | Some p \<Rightarrow> Some p)"
    by (linarith, linarith, intro find_upt_split)
  then have sp: "find (\<lambda>p. p \<in> used c ns) [mk_pid c k offset..<max (mk_pid c k offset) ((k + Suc n) * ?B)] =
      (case find (\<lambda>p. p \<in> used c ns) [mk_pid c k offset..<(k + 1) * ?B] of
         None \<Rightarrow> next_loop c lib ns n (k + 1) 0 | Some p \<Rightarrow> Some p)"
    unfolding Suc.IH [OF B] m by (simp only:)
  have u: "mk_pid c k i \<in> used c ns \<longleftrightarrow> bit_set (pidmaps ns k) i" if "i < ?B" for i using that by (simp add: used_def mk_pid_def)
  have range: "\<exists>i<?B. offset \<le> i \<and> p = mk_pid c k i" if "mk_pid c k offset \<le> p" "p < (k + 1) * ?B" for p
    using that by (intro exI [of _ "p - k * ?B"]) (auto simp: mk_pid_def)
  show ?case
  proof (cases "page (pidmaps ns k)")
    case None
    then have "find (\<lambda>p. p \<in> used c ns) [mk_pid c k offset..<(k + 1) * ?B] = None"
      using range u by (force simp: find_upt_None bit_set_def)
    then show ?thesis using None unfolding sp by simp
  next
    case (Some pg)
    define z where "z = find_next_bit lib pg ?B offset"
    note z = next_one_bit [OF lib less_imp_le [OF Suc.prems] z_def]
    have bs: "bit_set (pidmaps ns k) i = pg i" for i using Some by (simp add: bit_set_def)
    have "find (\<lambda>p. p \<in> used c ns) [mk_pid c k offset..<(k + 1) * ?B] = (if z < ?B then Some (mk_pid c k z) else None)"
    proof (cases "z < ?B")
      case True
      have "p \<notin> used c ns" if lo: "mk_pid c k offset \<le> p" and hi: "p < mk_pid c k z" for p
      proof -
        have "p < (k + 1) * ?B" using hi True by (simp add: mk_pid_def)
        then obtain i where "i < ?B" "offset \<le> i" "p = mk_pid c k i" using range [OF lo] by blast
        then show ?thesis using z(3) hi u bs by (auto simp: mk_pid_def)
      qed
      then show ?thesis using True z(1,4) u bs by (auto simp: find_upt_Some mk_pid_def)
    next
      case False
      then show ?thesis using range u bs z(2,3) by (force simp: find_upt_None)
    qed
    then show ?thesis using Some unfolding sp by (simp add: z_def [symmetric])
  qed
qed

lemma next_pidmap_eq:
  assumes lib: "bit_lib_ok lib" and c: "pid_conf_ok c"
  shows "next_pidmap c lib ns lst =
    (if lst < PID_MAX_LIMIT c then find (\<lambda>p. p \<in> used c ns) [lst + 1..<PIDMAP_ENTRIES c * BITS_PER_PAGE c] else None)"
proof (cases "lst < PID_MAX_LIMIT c")
  case True
  let ?B = "BITS_PER_PAGE c" and ?k = "(lst + 1) div BITS_PER_PAGE c" and ?E = "PIDMAP_ENTRIES c"
  have B: "0 < ?B" and l: "lst + 1 \<le> ?E * ?B" using c True by (auto simp: pid_conf_ok_def)
  have mk: "mk_pid c ?k ((lst + 1) mod ?B) = lst + 1" unfolding mk_pid_def by (rule div_mult_mod_eq)
  have "?k \<le> ?E" using div_le_mono [OF l, of ?B] B by simp
  then have "?k + (?E - ?k) = ?E" by simp
  moreover have "(lst + 1) mod ?B < ?B" using B by simp
  moreover have "\<not> PID_MAX_LIMIT c \<le> lst" using True by simp
  ultimately show ?thesis using next_loop_eq [OF lib B, of "(lst + 1) mod ?B" ns "?E - ?k" ?k] True l
    by (simp only: next_pidmap_def Let_def mk if_False if_True max.absorb2 True_implies_equals)
qed (simp add: next_pidmap_def)

section \<open>The last id among several tasks\<close>

text \<open>When the loop ends, the value in memory is the own id, or one that comes after it, counted from where the search started.\<close>

lemma set_last_pid_latest:
  "set_last_pid others cur base pid prev = Some l \<Longrightarrow> l = pid \<or> \<not> pid_before base l pid"
  by (induction others arbitrary: cur prev) (auto simp: Let_def split: if_splits)

section \<open>The allocator implements a set of ids\<close>

datatype pid_op = Alloc_Pid | Free_Pid nat

text \<open>Callers free only ids that are in use.\<close>

definition pid_do :: "pid_conf \<Rightarrow> bit_lib \<Rightarrow> pid_namespace \<Rightarrow> pid_op \<Rightarrow> pid_namespace" where
  "pid_do c lib ns e =
     (case e of
        Alloc_Pid \<Rightarrow> fst (the (alloc_pidmap c lib (\<lambda>_. True) ns))
      | Free_Pid p \<Rightarrow> if p \<in> used c ns then the (free_pidmap c ns p) else ns)"

definition pid_spec :: "pid_conf \<Rightarrow> nat set \<times> nat \<Rightarrow> pid_op \<Rightarrow> nat set \<times> nat" where
  "pid_spec c s e =
     (case e of
        Alloc_Pid \<Rightarrow> (case next_free c (fst s) (snd s) of None \<Rightarrow> s | Some p \<Rightarrow> (insert p (fst s), p))
      | Free_Pid p \<Rightarrow> (fst s - {p}, snd s))"

interpretation pids: refinement_system "pid_do c lib" "pid_spec c" "\<lambda>ns. (used c ns, last_pid ns)"
    "\<lambda>ns. pidmap_ok c ns \<and> bit_lib_ok lib \<and> pid_conf_ok c" "\<lambda>_. True"
proof
  fix ns e
  assume "pidmap_ok c ns \<and> bit_lib_ok lib \<and> pid_conf_ok c"
  then have ok: "pidmap_ok c ns" and lib: "bit_lib_ok lib" and c: "pid_conf_ok c" by auto
  have "pidmap_ok c (pid_do c lib ns e) \<and> (used c (pid_do c lib ns e), last_pid (pid_do c lib ns e)) = pid_spec c (used c ns, last_pid ns) e"
  proof (cases e)
    case Alloc_Pid
    obtain ns' r where "alloc_pidmap c lib (\<lambda>_. True) ns = Some (ns', r)" "pidmap_ok c ns'"
      "case r of
         Some p \<Rightarrow> next_free c (used c ns) (last_pid ns) = Some p \<and> p < pid_max c \<and> p \<notin> used c ns \<and>
           used c ns' = insert p (used c ns) \<and> last_pid ns' = p
       | None \<Rightarrow> used c ns' = used c ns \<and> last_pid ns' = last_pid ns \<and>
           (next_free c (used c ns) (last_pid ns) = None \<or> (\<exists>i :: nat. \<not> True))"
      using alloc_pidmap_next_free [OF lib c ok, of "\<lambda>_. True"] by blast
    then show ?thesis using Alloc_Pid by (cases r) (simp_all add: pid_do_def pid_spec_def)
  next
    case (Free_Pid p)
    show ?thesis
    proof (cases "p \<in> used c ns")
      case True
      from free_pidmap_ok [OF c ok this] obtain ns' where "free_pidmap c ns p = Some ns'" "pidmap_ok c ns'" "used c ns' = used c ns - {p}"
        "last_pid ns' = last_pid ns" by blast
      then show ?thesis using Free_Pid True by (simp add: pid_do_def pid_spec_def)
    qed (use Free_Pid ok in \<open>simp add: pid_do_def pid_spec_def\<close>)
  qed
  then show "pidmap_ok c (pid_do c lib ns e) \<and> bit_lib_ok lib \<and> pid_conf_ok c"
    and "(used c (pid_do c lib ns e), last_pid (pid_do c lib ns e)) = pid_spec c (used c ns, last_pid ns) e" using lib c by auto
qed

lemma init_pid_ns_ok: "pidmap_ok c (init_pid_ns c)" "used c (init_pid_ns c) = {}"
  by (simp_all add: pidmap_ok_def init_pid_ns_def bit_set_def used_def)

text \<open>
  C9. Under any sequence of allocations and releases the bitmaps implement a set of ids: every allocation adds the next
  free id, every release removes its id, the pages count their free bits, and walking through the ids in use
  from any id on finds the next one in the set.
\<close>

theorem pidmap_refines_set:
  assumes "bit_lib_ok lib" "pid_conf_ok c" "pidmap_ok c ns"
  shows "pidmap_ok c (foldl (pid_do c lib) ns es) \<and>
    (used c (foldl (pid_do c lib) ns es), last_pid (foldl (pid_do c lib) ns es)) = foldl (pid_spec c) (used c ns, last_pid ns) es \<and>
    next_pidmap c lib (foldl (pid_do c lib) ns es) lst =
      (if lst < PID_MAX_LIMIT c then find (\<lambda>p. p \<in> fst (foldl (pid_spec c) (used c ns, last_pid ns) es)) [lst + 1..<PIDMAP_ENTRIES c * BITS_PER_PAGE c]
       else None)"
proof -
  have r: "pidmap_ok c (foldl (pid_do c lib) ns es)"
    "(used c (foldl (pid_do c lib) ns es), last_pid (foldl (pid_do c lib) ns es)) = foldl (pid_spec c) (used c ns, last_pid ns) es"
    using pids.run_refines [of c ns lib es] assms by (auto simp: list_all_iff)
  then show ?thesis using next_pidmap_eq [OF assms(1,2)] by (metis fst_conv)
qed

definition demo_bits :: bit_lib where
  "demo_bits = \<lparr>find_next_zero_bit = \<lambda>pg n i. case find (\<lambda>j. \<not> pg j) [i..<n] of None \<Rightarrow> n | Some j \<Rightarrow> j,
     find_next_bit = \<lambda>pg n i. case find pg [i..<n] of None \<Rightarrow> n | Some j \<Rightarrow> j\<rparr>"

definition demo_pids :: pid_conf where
  "demo_pids = \<lparr>BITS_PER_PAGE = 512, PIDMAP_ENTRIES = 2, PID_MAX_LIMIT = 1024, pid_max = 302\<rparr>"

lemma demo_bits_ok: "bit_lib_ok demo_bits"
  by (auto simp: bit_lib_ok_def demo_bits_def Let_def find_upt_Some find_upt_None split: option.splits)

lemma demo_pids_ok: "pid_conf_ok demo_pids"
  by (simp add: pid_conf_ok_def demo_pids_def RESERVED_PIDS_def)

theorem pidmap_refines_set_witness:
  "used demo_pids (foldl (pid_do demo_pids demo_bits) (init_pid_ns demo_pids) [Alloc_Pid, Alloc_Pid, Free_Pid 1]) = {2}"
proof -
  have "foldl (pid_spec demo_pids) ({}, 0) [Alloc_Pid, Alloc_Pid, Free_Pid 1] = ({2}, 2)" by code_simp
  then show ?thesis
    using pidmap_refines_set [OF demo_bits_ok demo_pids_ok init_pid_ns_ok(1), of "[Alloc_Pid, Alloc_Pid, Free_Pid 1]" 0]
    by (simp add: init_pid_ns_ok(2)) (simp add: init_pid_ns_def)
qed

text \<open>
  The search does not come back to the first id above the reserved ones if it started just after it: this id is free,
  all others are in use, and the allocation fails.
\<close>

definition crowded :: pid_namespace where
  "crowded = \<lparr>pidmaps = (\<lambda>k. if k = 0 then \<lparr>nr_free = 211, page = Some (\<lambda>i. i < 302 \<and> i \<noteq> 300)\<rparr> else \<lparr>nr_free = 512, page = None\<rparr>), last_pid = 300\<rparr>"

declare scan_page.simps [code]

lemma alloc_misses_first_pid:
  "map_option snd (alloc_pidmap demo_pids demo_bits (\<lambda>_. True) crowded) = Some None" "300 \<notin> used demo_pids crowded"
  by code_simp (simp add: used_def crowded_def demo_pids_def bit_set_def)

end
