(* ===== verification/Pids.thy ===== *)
theory Pids
  imports Pid_Map
begin

text \<open>
  Process ids in nested pid namespaces (\<^verbatim>\<open>pid.c\<close>): a \<^verbatim>\<open>struct pid\<close> has a number in its namespace and in every namespace
  above it. The objects are in memory: namespaces and pids have addresses, a number of a pid is its entry at the
  level of the namespace, and the hash table has chains of such entries.

  Not part of these sources, and therefore arguments: the results of the allocators, the hash function, the bit that
  allows new pids in a namespace (\<^verbatim>\<open>PIDNS_HASH_ADDING\<close>), and whether the preparations for the first process of a
  namespace fail. References on a namespace are counted as the calls of \<^verbatim>\<open>get_pid_ns\<close> less those of \<^verbatim>\<open>put_pid_ns\<close>;
  waking the reaper, scheduling work and calling back after a grace period are recorded as events.
\<close>

record upid =
  u_nr :: nat
  u_ns :: nat

record pid_struct =
  p_level :: nat
  p_numbers :: "nat \<Rightarrow> upid"
  p_count :: int

record pid_space =
  sp_map :: pid_namespace
  sp_parent :: "nat option"
  sp_level :: nat
  nr_hashed :: u32

datatype pid_event = Wake_Reaper nat | Schedule_Work nat | Call_Rcu nat

record pid_world =
  spaces :: "nat \<Rightarrow> pid_space"
  pids :: "nat \<Rightarrow> pid_struct"
  pid_hash :: "nat \<Rightarrow> (nat \<times> nat) list"
  ns_refs :: "nat \<Rightarrow> int"
  events :: "pid_event list"

record pid_env =
  pid_conf :: pid_conf
  pid_bits :: bit_lib
  pid_hashfn :: "nat \<Rightarrow> nat \<Rightarrow> nat"
  PIDNS_HASH_ADDING :: u32

definition upd_space :: "nat \<Rightarrow> (pid_space \<Rightarrow> pid_space) \<Rightarrow> pid_world \<Rightarrow> pid_world" where
  "upd_space x f w = w\<lparr>spaces := (spaces w)(x := f (spaces w x))\<rparr>"

definition set_number :: "nat \<Rightarrow> nat \<Rightarrow> upid \<Rightarrow> pid_world \<Rightarrow> pid_world" where
  "set_number p i u w = w\<lparr>pids := (pids w)(p := (pids w p)\<lparr>p_numbers := (p_numbers (pids w p))(i := u)\<rparr>)\<rparr>"

section \<open>Looking up\<close>

text \<open>An entry of a chain is a pid and the level of its number.\<close>

definition entry_is :: "pid_world \<Rightarrow> nat \<Rightarrow> nat \<Rightarrow> nat \<times> nat \<Rightarrow> bool" where
  "entry_is w nr ns e \<longleftrightarrow> u_nr (p_numbers (pids w (fst e)) (snd e)) = nr \<and> u_ns (p_numbers (pids w (fst e)) (snd e)) = ns"

definition find_pid_ns :: "pid_env \<Rightarrow> pid_world \<Rightarrow> nat \<Rightarrow> nat \<Rightarrow> nat option" where
  "find_pid_ns env w nr ns = map_option fst (find (entry_is w nr ns) (pid_hash w (pid_hashfn env nr ns)))"

definition pid_nr_ns :: "pid_world \<Rightarrow> nat option \<Rightarrow> nat \<Rightarrow> nat" where
  "pid_nr_ns w pid ns =
     (case pid of
        None \<Rightarrow> 0
      | Some p \<Rightarrow>
          if sp_level (spaces w ns) \<le> p_level (pids w p)
          then let u = p_numbers (pids w p) (sp_level (spaces w ns)) in if u_ns u = ns then u_nr u else 0
          else 0)"

text \<open>The first pid with a number of at least \<open>nr\<close>: from number to number in use, until one is in the hash table.\<close>

partial_function (option) find_ge_pid :: "pid_env \<Rightarrow> pid_world \<Rightarrow> nat \<Rightarrow> nat \<Rightarrow> nat option option" where
  "find_ge_pid env w ns nr =
     (let pid = find_pid_ns env w nr ns
      in if pid \<noteq> None then Some pid
         else let nr' = next_pidmap (pid_conf env) (pid_bits env) (sp_map (spaces w ns)) nr
           in if nr' = None \<or> the nr' = 0 then Some None else find_ge_pid env w ns (the nr'))"

section \<open>Freeing numbers\<close>

definition free_number :: "pid_env \<Rightarrow> nat \<Rightarrow> nat \<Rightarrow> pid_world \<Rightarrow> pid_world option" where
  "free_number env p i w =
     (let u = p_numbers (pids w p) i
      in do {
        m \<leftarrow> free_pidmap (pid_conf env) (sp_map (spaces w (u_ns u))) (u_nr u);
        Some (upd_space (u_ns u) (\<lambda>s. s\<lparr>sp_map := m\<rparr>) w)
      })"

text \<open>The loops over \<^verbatim>\<open>free_pidmap\<close>, for the levels from \<open>i\<close> on.\<close>

fun free_numbers :: "pid_env \<Rightarrow> nat \<Rightarrow> nat \<Rightarrow> nat \<Rightarrow> pid_world \<Rightarrow> pid_world option" where
  "free_numbers env p i 0 w = Some w"
| "free_numbers env p i (Suc n) w = do { w1 \<leftarrow> free_number env p i w; free_numbers env p (i + 1) n w1 }"

section \<open>Allocation\<close>

text \<open>
  The loop over the namespaces, from the own one up: \<open>n\<close> is the level plus one. The result has the level plus one at
  which the loop was left, 0 after the last round.
\<close>

fun alloc_numbers :: "pid_env \<Rightarrow> (nat \<Rightarrow> nat \<Rightarrow> bool) \<Rightarrow> nat \<Rightarrow> nat \<Rightarrow> nat \<Rightarrow> pid_world \<Rightarrow> (pid_world \<times> nat) option" where
  "alloc_numbers env kzalloc p 0 tmp w = Some (w, 0)"
| "alloc_numbers env kzalloc p (Suc i) tmp w = do {
     (m, r) \<leftarrow> alloc_pidmap (pid_conf env) (pid_bits env) (kzalloc tmp) (sp_map (spaces w tmp));
     let w1 = upd_space tmp (\<lambda>s. s\<lparr>sp_map := m\<rparr>) w;
     case r of
       None \<Rightarrow> Some (w1, Suc i)
     | Some nr \<Rightarrow>
         let w2 = set_number p i \<lparr>u_nr = nr, u_ns = tmp\<rparr> w1
         in if i = 0 then Some (w2, 0)
            else do { parent \<leftarrow> sp_parent (spaces w tmp); alloc_numbers env kzalloc p i parent w2 }
   }"

text \<open>The loop that enters the numbers into the hash table, from the own level down.\<close>

definition hash_number :: "pid_env \<Rightarrow> nat \<Rightarrow> nat \<Rightarrow> pid_world \<Rightarrow> pid_world" where
  "hash_number env p i w =
     (let u = p_numbers (pids w p) i; b = pid_hashfn env (u_nr u) (u_ns u)
      in upd_space (u_ns u) (\<lambda>s. s\<lparr>nr_hashed := nr_hashed s + 1\<rparr>) (w\<lparr>pid_hash := (pid_hash w)(b := (p, i) # pid_hash w b)\<rparr>))"

fun hash_numbers :: "pid_env \<Rightarrow> nat \<Rightarrow> nat \<Rightarrow> pid_world \<Rightarrow> pid_world" where
  "hash_numbers env p 0 w = w"
| "hash_numbers env p (Suc i) w = hash_numbers env p i (hash_number env p i w)"

definition alloc_pid ::
  "pid_env \<Rightarrow> nat option \<Rightarrow> (nat \<Rightarrow> nat \<Rightarrow> bool) \<Rightarrow> (upid \<Rightarrow> bool) \<Rightarrow> nat \<Rightarrow> pid_world \<Rightarrow> (pid_world \<times> nat option) option" where
  "alloc_pid env cache kzalloc prepare_fails ns w =
     (case cache of
        None \<Rightarrow> Some (w, None)
      | Some p \<Rightarrow>
          let level = sp_level (spaces w ns);
              out_free = (\<lambda>n w. do { w' \<leftarrow> free_numbers env p n (level + 1 - n) w; Some (w', None) })
          in do {
            (w1, n) \<leftarrow> alloc_numbers env kzalloc p (level + 1) ns (w\<lparr>pids := (pids w)(p := (pids w p)\<lparr>p_level := level\<rparr>)\<rparr>);
            if n \<noteq> 0 then out_free n w1
            else if prepare_fails (p_numbers (pids w1 p) level) then out_free 0 w1
            else let w2 = w1\<lparr>ns_refs := (ns_refs w1)(ns := ns_refs w1 ns + 1), pids := (pids w1)(p := (pids w1 p)\<lparr>p_count := 1\<rparr>)\<rparr>
              in if and (nr_hashed (spaces w2 ns)) (PIDNS_HASH_ADDING env) = 0 then out_free 0 w2
                 else Some (hash_numbers env p (level + 1) w2, Some p)
          })"

definition disable_pid_allocation :: "pid_env \<Rightarrow> nat \<Rightarrow> pid_world \<Rightarrow> pid_world" where
  "disable_pid_allocation env ns w = upd_space ns (\<lambda>s. s\<lparr>nr_hashed := and (nr_hashed s) (not (PIDNS_HASH_ADDING env))\<rparr>) w"

section \<open>Releasing a pid\<close>

definition unhash_number :: "pid_env \<Rightarrow> nat \<Rightarrow> nat \<Rightarrow> pid_world \<Rightarrow> pid_world" where
  "unhash_number env p i w =
     (let u = p_numbers (pids w p) i; x = u_ns u; b = pid_hashfn env (u_nr u) x;
          w1 = w\<lparr>pid_hash := (pid_hash w)(b := remove1 (p, i) (pid_hash w b))\<rparr>;
          n = nr_hashed (spaces w x) - 1; w2 = upd_space x (\<lambda>s. s\<lparr>nr_hashed := n\<rparr>) w1
      in if n = 2 \<or> n = 1 then w2\<lparr>events := events w2 @ [Wake_Reaper x]\<rparr>
         else if n = PIDNS_HASH_ADDING env then (upd_space x (\<lambda>s. s\<lparr>nr_hashed := 0\<rparr>) w2)\<lparr>events := events w2 @ [Schedule_Work x]\<rparr>
         else if n = 0 then w2\<lparr>events := events w2 @ [Schedule_Work x]\<rparr>
         else w2)"

definition free_pid :: "pid_env \<Rightarrow> nat \<Rightarrow> pid_world \<Rightarrow> pid_world option" where
  "free_pid env p w =
     (let level = p_level (pids w p); w1 = foldl (\<lambda>w i. unhash_number env p i w) w [0..<level + 1]
      in do { w2 \<leftarrow> free_numbers env p 0 (level + 1) w1; Some (w2\<lparr>events := events w2 @ [Call_Rcu p]\<rparr>) })"

text \<open>\<^verbatim>\<open>put_pid\<close> also says whether the memory of the pid was freed.\<close>

definition put_pid :: "pid_world \<Rightarrow> nat option \<Rightarrow> pid_world \<times> bool" where
  "put_pid w pid =
     (case pid of
        None \<Rightarrow> (w, False)
      | Some p \<Rightarrow>
          let ns = u_ns (p_numbers (pids w p) (p_level (pids w p))); n = p_count (pids w p);
              w1 = (if n = 1 then w else w\<lparr>pids := (pids w)(p := (pids w p)\<lparr>p_count := n - 1\<rparr>)\<rparr>)
          in if n = 1 \<or> n - 1 = 0 then (w1\<lparr>ns_refs := (ns_refs w1)(ns := ns_refs w1 ns - 1)\<rparr>, True) else (w1, False))"

section \<open>The tree of namespaces\<close>

definition ns_tree :: "pid_world \<Rightarrow> bool" where
  "ns_tree w \<longleftrightarrow> (\<forall>x. case sp_parent (spaces w x) of
     None \<Rightarrow> sp_level (spaces w x) = 0 | Some y \<Rightarrow> sp_level (spaces w x) = Suc (sp_level (spaces w y)))"

fun up :: "pid_world \<Rightarrow> nat \<Rightarrow> nat \<Rightarrow> nat" where
  "up w 0 x = x"
| "up w (Suc k) x = up w k (the (sp_parent (spaces w x)))"

text \<open>The namespace at a level, from a namespace up.\<close>

definition anc :: "pid_world \<Rightarrow> nat \<Rightarrow> nat \<Rightarrow> nat" where
  "anc w x j = up w (sp_level (spaces w x) - j) x"

lemma anc_self [simp]: "sp_level (spaces w x) = i \<Longrightarrow> anc w x i = x"
  by (simp add: anc_def)

lemma parent_level:
  assumes "ns_tree w" "sp_parent (spaces w x) = Some y"
  shows "sp_level (spaces w x) = Suc (sp_level (spaces w y))"
proof -
  have "case sp_parent (spaces w x) of None \<Rightarrow> sp_level (spaces w x) = 0 | Some y \<Rightarrow> sp_level (spaces w x) = Suc (sp_level (spaces w y))"
    using assms(1) unfolding ns_tree_def by blast
  then show ?thesis using assms(2) by simp
qed

lemma anc_parent:
  assumes "ns_tree w" "sp_parent (spaces w x) = Some y" "j \<le> sp_level (spaces w y)"
  shows "anc w x j = anc w y j"
proof -
  have "sp_level (spaces w x) = Suc (sp_level (spaces w y))" using parent_level [OF assms(1,2)] .
  then show ?thesis using assms(2,3) by (simp add: anc_def Suc_diff_le)
qed

lemma ns_parent:
  assumes "ns_tree w" "sp_level (spaces w x) = Suc i"
  obtains y where "sp_parent (spaces w x) = Some y" "sp_level (spaces w y) = i"
proof -
  have "case sp_parent (spaces w x) of None \<Rightarrow> sp_level (spaces w x) = 0 | Some y \<Rightarrow> sp_level (spaces w x) = Suc (sp_level (spaces w y))"
    using assms(1) unfolding ns_tree_def by blast
  then show thesis using assms(2) that by (cases "sp_parent (spaces w x)") auto
qed

lemma anc_level:
  assumes "ns_tree w"
  shows "j \<le> sp_level (spaces w x) \<Longrightarrow> sp_level (spaces w (anc w x j)) = j"
proof (induction "sp_level (spaces w x)" arbitrary: x)
  case (Suc i)
  obtain y where y: "sp_parent (spaces w x) = Some y" "sp_level (spaces w y) = i" using ns_parent [OF assms Suc(2) [symmetric]] .
  show ?case
  proof (cases "j = Suc i")
    case False
    then show ?thesis using Suc y anc_parent [OF assms y(1)] by simp
  qed (use Suc in simp)
qed simp

text \<open>What allocation does not touch.\<close>

definition same_tree :: "pid_world \<Rightarrow> pid_world \<Rightarrow> bool" where
  "same_tree w w' \<longleftrightarrow> (\<forall>x. sp_parent (spaces w' x) = sp_parent (spaces w x) \<and> sp_level (spaces w' x) = sp_level (spaces w x))"

lemma same_tree_up: "same_tree w w' \<Longrightarrow> up w' k x = up w k x"
  by (induction k arbitrary: x) (auto simp: same_tree_def)

lemma same_tree_anc: "same_tree w w' \<Longrightarrow> anc w' x j = anc w x j"
  by (simp add: anc_def same_tree_up) (simp add: same_tree_def)

lemma same_tree_tree: "same_tree w w' \<Longrightarrow> ns_tree w \<Longrightarrow> ns_tree w'"
  by (simp add: ns_tree_def same_tree_def cong: option.case_cong)

definition used_in :: "pid_env \<Rightarrow> pid_world \<Rightarrow> nat \<Rightarrow> nat set" where
  "used_in env w x = used (pid_conf env) (sp_map (spaces w x))"

definition maps_ok :: "pid_env \<Rightarrow> pid_world \<Rightarrow> bool" where
  "maps_ok env w \<longleftrightarrow> (\<forall>x. pidmap_ok (pid_conf env) (sp_map (spaces w x)))"

section \<open>Allocation on every level\<close>

definition fresh_number :: "pid_env \<Rightarrow> pid_world \<Rightarrow> upid \<Rightarrow> bool" where
  "fresh_number env w u \<longleftrightarrow> u_nr u \<notin> used_in env w (u_ns u) \<and>
     next_free (pid_conf env) (used_in env w (u_ns u)) (last_pid (sp_map (spaces w (u_ns u)))) = Some (u_nr u)"

text \<open>The numbers of \<open>p\<close> on the levels from \<open>lo\<close> up to below \<open>hi\<close> are allocated, and nothing else happened.\<close>

definition numbered :: "pid_env \<Rightarrow> pid_world \<Rightarrow> nat \<Rightarrow> nat \<Rightarrow> nat \<Rightarrow> nat \<Rightarrow> pid_world \<Rightarrow> bool" where
  "numbered env w p x lo hi w' \<longleftrightarrow> same_tree w w' \<and> maps_ok env w' \<and> (\<forall>y. nr_hashed (spaces w' y) = nr_hashed (spaces w y)) \<and>
     pid_hash w' = pid_hash w \<and> ns_refs w' = ns_refs w \<and> events w' = events w \<and>
     p_level (pids w' p) = p_level (pids w p) \<and>
     (\<forall>j. \<not> (lo \<le> j \<and> j < hi) \<longrightarrow> p_numbers (pids w' p) j = p_numbers (pids w p) j) \<and>
     (\<forall>j. lo \<le> j \<and> j < hi \<longrightarrow> u_ns (p_numbers (pids w' p) j) = anc w x j \<and> fresh_number env w (p_numbers (pids w' p) j) \<and>
        used_in env w' (anc w x j) = insert (u_nr (p_numbers (pids w' p) j)) (used_in env w (anc w x j))) \<and>
     (\<forall>y. (\<forall>j. lo \<le> j \<and> j < hi \<longrightarrow> y \<noteq> anc w x j) \<longrightarrow> used_in env w' y = used_in env w y)"

lemma alloc_numbers_round:
  assumes lib: "bit_lib_ok (pid_bits env)" and c: "pid_conf_ok (pid_conf env)" and ok: "maps_ok env w"
  shows "\<exists>m r. alloc_pidmap (pid_conf env) (pid_bits env) (kzalloc x) (sp_map (spaces w x)) = Some (m, r) \<and>
    maps_ok env (upd_space x (\<lambda>s. s\<lparr>sp_map := m\<rparr>) w) \<and>
    (case r of
       None \<Rightarrow> used (pid_conf env) m = used_in env w x
     | Some nr \<Rightarrow> used (pid_conf env) m = insert nr (used_in env w x) \<and> fresh_number env w \<lparr>u_nr = nr, u_ns = x\<rparr>)"
proof -
  have "pidmap_ok (pid_conf env) (sp_map (spaces w x))" using ok by (simp add: maps_ok_def)
  from alloc_pidmap_next_free [OF lib c this, of "kzalloc x"] obtain m r where
    "alloc_pidmap (pid_conf env) (pid_bits env) (kzalloc x) (sp_map (spaces w x)) = Some (m, r)" "pidmap_ok (pid_conf env) m"
    and r: "case r of
       Some p \<Rightarrow> next_free (pid_conf env) (used (pid_conf env) (sp_map (spaces w x))) (last_pid (sp_map (spaces w x))) = Some p \<and>
         p < pid_max (pid_conf env) \<and> p \<notin> used (pid_conf env) (sp_map (spaces w x)) \<and>
         used (pid_conf env) m = insert p (used (pid_conf env) (sp_map (spaces w x))) \<and> last_pid m = p
     | None \<Rightarrow> used (pid_conf env) m = used (pid_conf env) (sp_map (spaces w x)) \<and> last_pid m = last_pid (sp_map (spaces w x)) \<and>
         (next_free (pid_conf env) (used (pid_conf env) (sp_map (spaces w x))) (last_pid (sp_map (spaces w x))) = None \<or> (\<exists>i. \<not> kzalloc x i))" by blast
  then show ?thesis using ok r by (intro exI [of _ m] exI [of _ r]) (auto simp: maps_ok_def upd_space_def used_in_def fresh_number_def split: option.splits)
qed

lemma numbered_none:
  assumes "maps_ok env (upd_space x (\<lambda>s. s\<lparr>sp_map := m\<rparr>) w)" "used (pid_conf env) m = used_in env w x"
  shows "numbered env w p x n n (upd_space x (\<lambda>s. s\<lparr>sp_map := m\<rparr>) w)"
  using assms(1) unfolding numbered_def same_tree_def by (auto simp: upd_space_def used_in_def assms(2) [unfolded used_in_def])

lemma numbered_one:
  assumes "maps_ok env (upd_space x (\<lambda>s. s\<lparr>sp_map := m\<rparr>) w)" "used (pid_conf env) m = insert nr (used_in env w x)"
    "fresh_number env w \<lparr>u_nr = nr, u_ns = x\<rparr>" "sp_level (spaces w x) = i"
  shows "numbered env w p x i (Suc i) (set_number p i \<lparr>u_nr = nr, u_ns = x\<rparr> (upd_space x (\<lambda>s. s\<lparr>sp_map := m\<rparr>) w))"
proof -
  have j: "i \<le> j \<and> j < Suc i \<longleftrightarrow> j = i" for j by auto
  show ?thesis using assms(1,3,4) unfolding numbered_def same_tree_def j
    by (auto simp: upd_space_def set_number_def used_in_def maps_ok_def assms(2) [unfolded used_in_def])
qed

lemma numbered_trans:
  assumes tree: "ns_tree w" and y: "sp_parent (spaces w x) = Some y" "sp_level (spaces w y) = i"
    and a: "numbered env w p x (Suc i) (Suc (Suc i)) w2" and b: "numbered env w2 p y n (Suc i) w'"
    and eq: "\<forall>z. z \<noteq> x \<longrightarrow> sp_map (spaces w2 z) = sp_map (spaces w z)" and n: "n \<le> Suc i"
  shows "numbered env w p x n (Suc (Suc i)) w'"
proof -
  have lx: "sp_level (spaces w x) = Suc i" using parent_level [OF tree y(1)] y(2) by simp
  have st: "same_tree w w2" "same_tree w2 w'" using a b by (auto simp: numbered_def)
  have an: "anc w2 y j = anc w x j" if "j < Suc i" for j using anc_parent [OF tree y(1), of j] same_tree_anc [OF st(1)] y(2) that by simp
  have ax: "anc w x (Suc i) = x" using lx by simp
  have ne: "anc w x j \<noteq> x" if "j < Suc i" for j using anc_level [OF tree, of j x] lx that by (metis less_imp_le less_irrefl)
  have ux: "used_in env w2 (anc w x j) = used_in env w (anc w x j)" "sp_map (spaces w2 (anc w x j)) = sp_map (spaces w (anc w x j))"
    if "j < Suc i" for j using eq ne [OF that] by (auto simp: used_in_def)
  have low: "u_ns (p_numbers (pids w' p) j) = anc w x j \<and> fresh_number env w (p_numbers (pids w' p) j) \<and>
      used_in env w' (anc w x j) = insert (u_nr (p_numbers (pids w' p) j)) (used_in env w (anc w x j))" if "n \<le> j" "j < Suc i" for j
  proof -
    have "u_ns (p_numbers (pids w' p) j) = anc w2 y j" "fresh_number env w2 (p_numbers (pids w' p) j)"
      "used_in env w' (anc w2 y j) = insert (u_nr (p_numbers (pids w' p) j)) (used_in env w2 (anc w2 y j))" using b that unfolding numbered_def by blast+
    then show ?thesis using an ux that by (auto simp: fresh_number_def)
  qed
  have top: "p_numbers (pids w' p) (Suc i) = p_numbers (pids w2 p) (Suc i)" "used_in env w' x = used_in env w2 x"
    "u_ns (p_numbers (pids w2 p) (Suc i)) = x" "fresh_number env w (p_numbers (pids w2 p) (Suc i))"
    "used_in env w2 x = insert (u_nr (p_numbers (pids w2 p) (Suc i))) (used_in env w x)"
  proof -
    show "p_numbers (pids w' p) (Suc i) = p_numbers (pids w2 p) (Suc i)" using b by (simp add: numbered_def)
    have "\<forall>j. n \<le> j \<and> j < Suc i \<longrightarrow> x \<noteq> anc w2 y j" using an ne by metis
    then show "used_in env w' x = used_in env w2 x" using b unfolding numbered_def by blast
    show "u_ns (p_numbers (pids w2 p) (Suc i)) = x" "fresh_number env w (p_numbers (pids w2 p) (Suc i))"
      "used_in env w2 x = insert (u_nr (p_numbers (pids w2 p) (Suc i))) (used_in env w x)"
      using a ax unfolding numbered_def by (metis lessI order_refl)+
  qed
  have rest: "used_in env w' z = used_in env w z" if "\<forall>j. n \<le> j \<and> j < Suc (Suc i) \<longrightarrow> z \<noteq> anc w x j" for z
  proof -
    have "z \<noteq> x" "\<forall>j. n \<le> j \<and> j < Suc i \<longrightarrow> z \<noteq> anc w2 y j" using that n ax an by (metis lessI, metis less_SucI)
    then have "used_in env w' z = used_in env w2 z" using b unfolding numbered_def by blast
    then show ?thesis using eq \<open>z \<noteq> x\<close> by (simp add: used_in_def)
  qed
  have all: "u_ns (p_numbers (pids w' p) j) = anc w x j \<and> fresh_number env w (p_numbers (pids w' p) j) \<and>
      used_in env w' (anc w x j) = insert (u_nr (p_numbers (pids w' p) j)) (used_in env w (anc w x j))" if "n \<le> j" "j < Suc (Suc i)" for j
    using low [of j] that top ax by (cases "j = Suc i") auto
  have same: "same_tree w w'" using st by (simp add: same_tree_def)
  have out: "p_numbers (pids w' p) j = p_numbers (pids w p) j" if "\<not> (n \<le> j \<and> j < Suc (Suc i))" for j
  proof -
    have "\<not> (n \<le> j \<and> j < Suc i)" "\<not> (Suc i \<le> j \<and> j < Suc (Suc i))" using that n by auto
    then show ?thesis using a b unfolding numbered_def by metis
  qed
  show ?thesis unfolding numbered_def using a b same all rest out by (simp add: numbered_def)
qed

lemma alloc_numbers_ok:
  assumes lib: "bit_lib_ok (pid_bits env)" and c: "pid_conf_ok (pid_conf env)"
  shows "ns_tree w \<Longrightarrow> maps_ok env w \<Longrightarrow> sp_level (spaces w x) = i \<Longrightarrow>
    \<exists>w' n. alloc_numbers env kzalloc p (Suc i) x w = Some (w', n) \<and> n \<le> Suc i \<and> numbered env w p x n (Suc i) w'"
proof (induction i arbitrary: x w)
  case (0 x w)
  obtain m r where m: "alloc_pidmap (pid_conf env) (pid_bits env) (kzalloc x) (sp_map (spaces w x)) = Some (m, r)"
    "maps_ok env (upd_space x (\<lambda>s. s\<lparr>sp_map := m\<rparr>) w)"
    and r: "case r of None \<Rightarrow> used (pid_conf env) m = used_in env w x
       | Some nr \<Rightarrow> used (pid_conf env) m = insert nr (used_in env w x) \<and> fresh_number env w \<lparr>u_nr = nr, u_ns = x\<rparr>"
    using alloc_numbers_round [OF lib c 0(2), of kzalloc x] by blast
  show ?case
  proof (cases r)
    case None
    then show ?thesis using m(1) numbered_none [OF m(2)] r by auto
  next
    case (Some nr)
    then show ?thesis using m(1) numbered_one [OF m(2) _ _ 0(3)] r by auto
  qed
next
  case (Suc i)
  obtain m r where m: "alloc_pidmap (pid_conf env) (pid_bits env) (kzalloc x) (sp_map (spaces w x)) = Some (m, r)"
    "maps_ok env (upd_space x (\<lambda>s. s\<lparr>sp_map := m\<rparr>) w)"
    and r: "case r of None \<Rightarrow> used (pid_conf env) m = used_in env w x
       | Some nr \<Rightarrow> used (pid_conf env) m = insert nr (used_in env w x) \<and> fresh_number env w \<lparr>u_nr = nr, u_ns = x\<rparr>"
    using alloc_numbers_round [OF lib c Suc.prems(2), of kzalloc x] by blast
  show ?case
  proof (cases r)
    case None
    then show ?thesis using m(1) numbered_none [OF m(2)] r by auto
  next
    case (Some nr)
    obtain y where y: "sp_parent (spaces w x) = Some y" "sp_level (spaces w y) = i" using ns_parent [OF Suc.prems(1,3)] .
    define w2 where "w2 = set_number p (Suc i) \<lparr>u_nr = nr, u_ns = x\<rparr> (upd_space x (\<lambda>s. s\<lparr>sp_map := m\<rparr>) w)"
    have one: "numbered env w p x (Suc i) (Suc (Suc i)) w2" unfolding w2_def using numbered_one [OF m(2) _ _ Suc.prems(3)] r Some by simp
    then have st: "same_tree w w2" "maps_ok env w2" by (auto simp: numbered_def)
    obtain w' n where w': "alloc_numbers env kzalloc p (Suc i) y w2 = Some (w', n)" "n \<le> Suc i" "numbered env w2 p y n (Suc i) w'"
      using Suc.IH [OF same_tree_tree [OF st(1) Suc.prems(1)] st(2), of y] st(1) y(2) by (auto simp: same_tree_def)
    have "\<forall>z. z \<noteq> x \<longrightarrow> sp_map (spaces w2 z) = sp_map (spaces w z)" by (simp add: w2_def set_number_def upd_space_def)
    from numbered_trans [OF Suc.prems(1) y one w'(3) this w'(2)] show ?thesis using m(1) w'(1,2) y(1) Some by (auto simp: w2_def [symmetric])
  qed
qed

section \<open>Giving numbers back\<close>

text \<open>What the release of numbers does not touch.\<close>

definition only_maps :: "pid_world \<Rightarrow> pid_world \<Rightarrow> bool" where
  "only_maps w w' \<longleftrightarrow> same_tree w w' \<and> (\<forall>y. nr_hashed (spaces w' y) = nr_hashed (spaces w y)) \<and> pids w' = pids w \<and>
     pid_hash w' = pid_hash w \<and> ns_refs w' = ns_refs w \<and> events w' = events w"

lemma free_number_ok:
  assumes c: "pid_conf_ok (pid_conf env)" and ok: "maps_ok env w" and u: "u = p_numbers (pids w p) i" "u_nr u \<in> used_in env w (u_ns u)"
  shows "\<exists>w'. free_number env p i w = Some w' \<and> maps_ok env w' \<and> only_maps w w' \<and>
    (\<forall>y. used_in env w' y = (if y = u_ns u then used_in env w y - {u_nr u} else used_in env w y))"
proof -
  have "pidmap_ok (pid_conf env) (sp_map (spaces w (u_ns u)))" using ok by (simp add: maps_ok_def)
  from free_pidmap_ok [OF c this, of "u_nr u"] u(2) obtain m where
    m: "free_pidmap (pid_conf env) (sp_map (spaces w (u_ns u))) (u_nr u) = Some m" "pidmap_ok (pid_conf env) m"
      "used (pid_conf env) m = used_in env w (u_ns u) - {u_nr u}" by (auto simp: used_in_def)
  show ?thesis using m(1) ok m(2)
    by (auto simp: free_number_def u(1) [symmetric] maps_ok_def only_maps_def same_tree_def upd_space_def used_in_def m(3) [unfolded used_in_def])
qed

lemma free_numbers_ok:
  assumes c: "pid_conf_ok (pid_conf env)"
  shows "maps_ok env w \<Longrightarrow> \<forall>j. i \<le> j \<and> j < i + n \<longrightarrow> u_nr (p_numbers (pids w p) j) \<in> used_in env w (u_ns (p_numbers (pids w p) j)) \<Longrightarrow>
      inj_on (\<lambda>j. u_ns (p_numbers (pids w p) j)) {i..<i + n} \<Longrightarrow>
    \<exists>w'. free_numbers env p i n w = Some w' \<and> maps_ok env w' \<and> only_maps w w' \<and>
      (\<forall>y. used_in env w' y = used_in env w y - {u_nr (p_numbers (pids w p) j) | j. i \<le> j \<and> j < i + n \<and> u_ns (p_numbers (pids w p) j) = y})"
proof (induction n arbitrary: i w)
  case 0
  then show ?case by (auto simp: only_maps_def same_tree_def)
next
  case (Suc n)
  define u where "u = p_numbers (pids w p)"
  obtain w1 where w1: "free_number env p i w = Some w1" "maps_ok env w1" "only_maps w w1"
    "\<forall>y. used_in env w1 y = (if y = u_ns (u i) then used_in env w y - {u_nr (u i)} else used_in env w y)"
    using free_number_ok [OF c Suc.prems(1) refl, of p i] Suc.prems(2) by (auto simp: u_def)
  have u1: "p_numbers (pids w1 p) = u" using w1(3) by (simp add: only_maps_def u_def)
  have ne: "u_ns (u j) \<noteq> u_ns (u i)" if "i + 1 \<le> j" "j < i + 1 + n" for j
    using inj_onD [OF Suc.prems(3), of j i] that by (auto simp: u_def)
  have a: "\<forall>j. i + 1 \<le> j \<and> j < i + 1 + n \<longrightarrow> u_nr (p_numbers (pids w1 p) j) \<in> used_in env w1 (u_ns (p_numbers (pids w1 p) j))"
    using w1(4) ne Suc.prems(2) unfolding u1 by (auto simp: u_def)
  have b: "inj_on (\<lambda>j. u_ns (p_numbers (pids w1 p) j)) {i + 1..<i + 1 + n}"
    unfolding u1 u_def by (rule inj_on_subset [OF Suc.prems(3)]) auto
  from Suc.IH [OF w1(2) a b] obtain w' where w': "free_numbers env p (i + 1) n w1 = Some w'" "maps_ok env w'" "only_maps w1 w'"
    "\<forall>y. used_in env w' y = used_in env w1 y - {u_nr (u j) | j. i + 1 \<le> j \<and> j < i + 1 + n \<and> u_ns (u j) = y}" unfolding u1 by blast
  have "{u_nr (u j) | j. i \<le> j \<and> j < i + Suc n \<and> u_ns (u j) = y} =
      (if y = u_ns (u i) then insert (u_nr (u i)) else (\<lambda>S. S)) {u_nr (u j) | j. i + 1 \<le> j \<and> j < i + 1 + n \<and> u_ns (u j) = y}" for y
  proof -
    have "i \<le> j \<and> j < i + Suc n \<longleftrightarrow> j = i \<or> i + 1 \<le> j \<and> j < i + 1 + n" for j by auto
    then have key: "(\<exists>j. (i \<le> j \<and> j < i + Suc n) \<and> Q j) \<longleftrightarrow> Q i \<or> (\<exists>j. (i + 1 \<le> j \<and> j < i + 1 + n) \<and> Q j)" for Q
      by (simp only:) blast
    show ?thesis
    proof (rule set_eqI)
      show "a \<in> {u_nr (u j) | j. i \<le> j \<and> j < i + Suc n \<and> u_ns (u j) = y} \<longleftrightarrow> a \<in> (if y = u_ns (u i) then insert (u_nr (u i)) else (\<lambda>S. S))
          {u_nr (u j) | j. i + 1 \<le> j \<and> j < i + 1 + n \<and> u_ns (u j) = y}" for a
        using key [of "\<lambda>j. a = u_nr (u j) \<and> u_ns (u j) = y"] by (cases "y = u_ns (u i)") (simp_all del: add_Suc_right, blast+)
    qed
  qed
  then have "\<forall>y. used_in env w' y = used_in env w y - {u_nr (u j) | j. i \<le> j \<and> j < i + Suc n \<and> u_ns (u j) = y}"
    using w'(4) w1(4) by (auto split: if_splits)
  moreover have "only_maps w w'" using w1(3) w'(3) by (auto simp: only_maps_def same_tree_def)
  ultimately show ?case using w1(1) w'(1,2) by (auto simp: u_def)
qed

text \<open>Numbers that were just allocated are given back without a trace.\<close>

lemma numbered_inj:
  assumes "ns_tree w" "numbered env w p x lo hi w'" "hi \<le> Suc (sp_level (spaces w x))"
  shows "inj_on (\<lambda>j. u_ns (p_numbers (pids w' p) j)) {lo..<hi}"
proof (rule inj_onI)
  fix i j
  assume "i \<in> {lo..<hi}" "j \<in> {lo..<hi}" and eq: "u_ns (p_numbers (pids w' p) i) = u_ns (p_numbers (pids w' p) j)"
  then have "u_ns (p_numbers (pids w' p) i) = anc w x i" "u_ns (p_numbers (pids w' p) j) = anc w x j" "i \<le> sp_level (spaces w x)" "j \<le> sp_level (spaces w x)"
    using assms(2,3) by (auto simp: numbered_def)
  then show "i = j" using eq anc_level [OF assms(1)] by metis
qed

lemma free_numbered:
  assumes c: "pid_conf_ok (pid_conf env)" and tree: "ns_tree w" and n: "numbered env w p x lo hi w1" "lo \<le> hi" "hi \<le> Suc (sp_level (spaces w x))"
    and w2: "pids w2 p = (pids w1 p)\<lparr>p_count := k\<rparr>" "\<forall>y. sp_map (spaces w2 y) = sp_map (spaces w1 y)"
  shows "\<exists>w'. free_numbers env p lo (hi - lo) w2 = Some w' \<and> maps_ok env w' \<and> only_maps w2 w' \<and> (\<forall>y. used_in env w' y = used_in env w y)"
proof -
  define u where "u = p_numbers (pids w1 p)"
  have u2: "p_numbers (pids w2 p) = u" using w2(1) by (simp add: u_def)
  have us: "used_in env w2 = used_in env w1" "maps_ok env w2" using w2(2) n(1) by (simp_all add: used_in_def maps_ok_def numbered_def fun_eq_iff)
  have un: "u_ns (u j) = anc w x j" "u_nr (u j) \<notin> used_in env w (anc w x j)" "used_in env w1 (anc w x j) = insert (u_nr (u j)) (used_in env w (anc w x j))"
    if "lo \<le> j" "j < hi" for j using n(1) that unfolding numbered_def fresh_number_def u_def by metis+
  have hi: "lo + (hi - lo) = hi" using n(2) by simp
  have inj: "inj_on (\<lambda>j. u_ns (u j)) {lo..<hi}" using numbered_inj [OF tree n(1,3)] by (simp add: u_def)
  have "\<forall>j. lo \<le> j \<and> j < hi \<longrightarrow> u_nr (u j) \<in> used_in env w2 (u_ns (u j))" using un us by simp
  then obtain w' where w': "free_numbers env p lo (hi - lo) w2 = Some w'" "maps_ok env w'" "only_maps w2 w'"
    "\<forall>y. used_in env w' y = used_in env w1 y - {u_nr (u j) | j. lo \<le> j \<and> j < hi \<and> u_ns (u j) = y}"
    using free_numbers_ok [OF c us(2), of lo "hi - lo" p] inj unfolding u2 hi us(1) by blast
  have "used_in env w1 y - {u_nr (u j) | j. lo \<le> j \<and> j < hi \<and> u_ns (u j) = y} = used_in env w y" for y
  proof (cases "\<exists>j. lo \<le> j \<and> j < hi \<and> u_ns (u j) = y")
    case True
    then obtain j where j: "lo \<le> j" "j < hi" "u_ns (u j) = y" by blast
    have "i = j" if "lo \<le> i" "i < hi" "u_ns (u i) = y" for i using inj_onD [OF inj, of i j] that j by simp
    then have "{u_nr (u i) | i. lo \<le> i \<and> i < hi \<and> u_ns (u i) = y} = {u_nr (u j)}" using j by blast
    then show ?thesis using un [OF j(1,2)] j(3) by auto
  next
    case False
    then have "used_in env w1 y = used_in env w y" using n(1) un(1) unfolding numbered_def by metis
    moreover have "{u_nr (u j) | j. lo \<le> j \<and> j < hi \<and> u_ns (u j) = y} = {}" using False by blast
    ultimately show ?thesis by (simp only: Diff_empty)
  qed
  then show ?thesis using w' by auto
qed

section \<open>Entering the numbers into the hash table\<close>

definition bucket :: "pid_env \<Rightarrow> upid \<Rightarrow> nat" where
  "bucket env u = pid_hashfn env (u_nr u) (u_ns u)"

lemma hash_numbers_frame:
  "pids (hash_numbers env p n w) = pids w" "ns_refs (hash_numbers env p n w) = ns_refs w" "same_tree w (hash_numbers env p n w)"
  "sp_map (spaces (hash_numbers env p n w) y) = sp_map (spaces w y)"
  by (induction n arbitrary: w) (auto simp: hash_number_def Let_def upd_space_def same_tree_def)

lemma hash_numbers_chain:
  "pid_hash (hash_numbers env p n w) b =
    map (Pair p) (filter (\<lambda>i. bucket env (p_numbers (pids w p) i) = b) [0..<n]) @ pid_hash w b"
  by (induction n arbitrary: w) (auto simp: hash_number_def Let_def upd_space_def bucket_def)

lemma find_hashed:
  assumes "j < n" "inj_on (\<lambda>i. u_ns (p_numbers (pids w p) i)) {0..<n}"
  shows "find_pid_ns env (hash_numbers env p n w) (u_nr (p_numbers (pids w p) j)) (u_ns (p_numbers (pids w p) j)) = Some p"
proof -
  let ?u = "p_numbers (pids w p)" and ?w = "hash_numbers env p n w"
  define xs where "xs = filter (\<lambda>i. bucket env (?u i) = bucket env (?u j)) [0..<n]"
  have j: "j \<in> set xs" using assms(1) by (simp add: xs_def)
  have e: "entry_is ?w (u_nr (?u j)) (u_ns (?u j)) (p, i) \<longleftrightarrow> i = j" if "i \<in> set xs" for i
    using that assms inj_onD [OF assms(2), of i j] by (auto simp: entry_is_def hash_numbers_frame(1) xs_def)
  have "find (entry_is ?w (u_nr (?u j)) (u_ns (?u j))) (map (Pair p) xs) \<noteq> None" using j e by (auto simp: find_None_iff)
  then obtain y where "find (entry_is ?w (u_nr (?u j)) (u_ns (?u j))) (map (Pair p) xs) = Some y" by auto
  moreover from this have "y \<in> set (map (Pair p) xs)" by (metis find_Some_iff nth_mem)
  ultimately show ?thesis
    using hash_numbers_chain [of env p n w "bucket env (?u j)"]
    by (auto simp: find_pid_ns_def bucket_def [symmetric] find_append_case xs_def)
qed

section \<open>Allocation is all or nothing\<close>

declare hash_numbers.simps [simp del] free_numbers.simps [simp del] alloc_numbers.simps [simp del]

text \<open>The stages of an allocation: the pid with its level, with its numbers, and with its reference.\<close>

definition with_level :: "pid_world \<Rightarrow> nat \<Rightarrow> nat \<Rightarrow> pid_world" where
  "with_level w p L = w\<lparr>pids := (pids w)(p := (pids w p)\<lparr>p_level := L\<rparr>)\<rparr>"

definition with_ref :: "pid_world \<Rightarrow> nat \<Rightarrow> nat \<Rightarrow> pid_world" where
  "with_ref w p ns = w\<lparr>ns_refs := (ns_refs w)(ns := ns_refs w ns + 1), pids := (pids w)(p := (pids w p)\<lparr>p_count := 1\<rparr>)\<rparr>"

lemma alloc_pid_stages:
  assumes L: "L = sp_level (spaces w ns)" and w1: "alloc_numbers env kzalloc p (L + 1) ns (with_level w p L) = Some (w1, n)"
  shows "alloc_pid env (Some p) kzalloc prepare_fails ns w =
      (if n \<noteq> 0 then do { w' \<leftarrow> free_numbers env p n (Suc L - n) w1; Some (w', None) }
       else if prepare_fails (p_numbers (pids w1 p) L) then do { w' \<leftarrow> free_numbers env p 0 (Suc L) w1; Some (w', None) }
       else if and (nr_hashed (spaces w1 ns)) (PIDNS_HASH_ADDING env) = 0 then do { w' \<leftarrow> free_numbers env p 0 (Suc L) (with_ref w1 p ns); Some (w', None) }
       else Some (hash_numbers env p (Suc L) (with_ref w1 p ns), Some p))"
proof -
  have s: "spaces (with_ref w1 p ns) = spaces w1" by (simp add: with_ref_def)
  show ?thesis
    unfolding alloc_pid_def option.case Let_def L [symmetric] with_level_def [symmetric] w1 Option.bind.bind_lunit prod.case with_ref_def [symmetric] s
      Suc_eq_plus1 diff_zero by (rule refl)
qed

lemma with_level_same:
  assumes "maps_ok env w"
  shows "same_tree w (with_level w p L)" "maps_ok env (with_level w p L)" "used_in env (with_level w p L) = used_in env w"
    "fresh_number env (with_level w p L) = fresh_number env w" "anc (with_level w p L) x j = anc w x j"
proof -
  show t: "same_tree w (with_level w p L)" by (simp add: same_tree_def with_level_def)
  show "maps_ok env (with_level w p L)" "used_in env (with_level w p L) = used_in env w" "fresh_number env (with_level w p L) = fresh_number env w"
    using assms by (simp_all add: maps_ok_def used_in_def fresh_number_def with_level_def fun_eq_iff)
  show "anc (with_level w p L) x j = anc w x j" using same_tree_anc [OF t] .
qed

lemma alloc_pid_undo:
  assumes c: "pid_conf_ok (pid_conf env)" and tree: "ns_tree w0" and num: "numbered env w0 p ns n (Suc L) w1" "n \<le> Suc L" and L: "L = sp_level (spaces w0 ns)"
    and wx: "wx = w1 \<or> wx = with_ref w1 p ns"
  shows "\<exists>w'. free_numbers env p n (Suc L - n) wx = Some w' \<and> ns_tree w' \<and> maps_ok env w' \<and> (\<forall>y. used_in env w' y = used_in env w0 y) \<and>
    pid_hash w' = pid_hash w0"
proof -
  have e: "pids wx p = (pids w1 p)\<lparr>p_count := p_count (pids wx p)\<rparr>" "spaces wx = spaces w1" "pid_hash wx = pid_hash w0"
    using wx num(1) by (auto simp: with_ref_def numbered_def)
  have t: "ns_tree wx" using same_tree_tree [OF _ tree] num(1) e(2) by (simp add: numbered_def ns_tree_def same_tree_def)
  have hi: "Suc L \<le> Suc (sp_level (spaces w0 ns))" using L by simp
  from free_numbered [OF c tree num hi e(1), unfolded e(2)] obtain w' where "free_numbers env p n (Suc L - n) wx = Some w'" "maps_ok env w'" "only_maps wx w'"
    "\<forall>y. used_in env w' y = used_in env w0 y" by blast
  then show ?thesis using e(3) same_tree_tree [OF _ t] by (auto simp: only_maps_def)
qed

lemma alloc_pid_found:
  assumes tree: "ns_tree w0" and num: "numbered env w0 p ns 0 (Suc L) w1" and L: "L = sp_level (spaces w0 ns)"
    and w3: "w3 = hash_numbers env p (Suc L) (with_ref w1 p ns)"
  shows "ns_tree w3" "maps_ok env w3" "p_level (pids w3 p) = p_level (pids w0 p)"
    "j \<le> L \<Longrightarrow> u = p_numbers (pids w3 p) j \<Longrightarrow> u_ns u = anc w0 ns j \<and> fresh_number env w0 u \<and>
       used_in env w3 (anc w0 ns j) = insert (u_nr u) (used_in env w0 (anc w0 ns j)) \<and> find_pid_ns env w3 (u_nr u) (u_ns u) = Some p"
    "\<forall>j. j \<le> L \<longrightarrow> y \<noteq> anc w0 ns j \<Longrightarrow> used_in env w3 y = used_in env w0 y"
proof -
  have hi: "Suc L \<le> Suc (sp_level (spaces w0 ns))" using L by simp
  have inj: "inj_on (\<lambda>j. u_ns (p_numbers (pids (with_ref w1 p ns) p) j)) {0..<Suc L}"
    using numbered_inj [OF tree num hi] by (simp add: with_ref_def)
  have n3: "p_numbers (pids w3 p) = p_numbers (pids w1 p)" and u3: "used_in env w3 = used_in env w1"
    by (simp_all add: w3 hash_numbers_frame with_ref_def used_in_def fun_eq_iff)
  show "maps_ok env w3" "p_level (pids w3 p) = p_level (pids w0 p)"
    using num by (simp_all add: w3 hash_numbers_frame with_ref_def maps_ok_def numbered_def)
  have "same_tree w0 w1" "same_tree (with_ref w1 p ns) w3" using num by (simp_all add: numbered_def w3 hash_numbers_frame(3))
  then have "same_tree w0 w3" by (simp add: same_tree_def with_ref_def)
  then show "ns_tree w3" using same_tree_tree tree by blast
  show "u_ns u = anc w0 ns j \<and> fresh_number env w0 u \<and> used_in env w3 (anc w0 ns j) = insert (u_nr u) (used_in env w0 (anc w0 ns j)) \<and>
      find_pid_ns env w3 (u_nr u) (u_ns u) = Some p" if j: "j \<le> L" and u: "u = p_numbers (pids w3 p) j"
  proof -
    have "find_pid_ns env w3 (u_nr u) (u_ns u) = Some p"
      using find_hashed [OF _ inj, of j env] j by (simp add: w3 u hash_numbers_frame)
    moreover have "u_ns u = anc w0 ns j \<and> fresh_number env w0 u \<and> used_in env w1 (anc w0 ns j) = insert (u_nr u) (used_in env w0 (anc w0 ns j))"
      using num j unfolding numbered_def u n3 by (metis le0 le_imp_less_Suc)
    ultimately show ?thesis by (simp add: u3)
  qed
  show "used_in env w3 y = used_in env w0 y" if "\<forall>j. j \<le> L \<longrightarrow> y \<noteq> anc w0 ns j"
    using num that unfolding numbered_def u3 by (metis less_Suc_eq_le)
qed

section \<open>Releasing\<close>

lemma unhash_frame:
  "pids (unhash_number env p i w) = pids w" "sp_map (spaces (unhash_number env p i w) y) = sp_map (spaces w y)"
  "same_tree w (unhash_number env p i w)"
  "pid_hash (unhash_number env p i w) b =
    (if bucket env (p_numbers (pids w p) i) = b then remove1 (p, i) (pid_hash w b) else pid_hash w b)"
  by (auto simp: unhash_number_def Let_def upd_space_def same_tree_def bucket_def)

lemma unhash_numbers:
  "pids (foldl (\<lambda>w i. unhash_number env p i w) w is) = pids w"
  "sp_map (spaces (foldl (\<lambda>w i. unhash_number env p i w) w is) y) = sp_map (spaces w y)"
  "pid_hash (foldl (\<lambda>w i. unhash_number env p i w) w is) b =
    foldl (\<lambda>l i. if bucket env (p_numbers (pids w p) i) = b then remove1 (p, i) l else l) (pid_hash w b) is"
  by (induction "is" arbitrary: w) (auto simp: unhash_frame)

lemma foldl_remove_heads:
  "foldl (\<lambda>l i. if Q i then remove1 (p, i) l else l) (map (Pair p) (filter Q xs) @ ys) xs = ys"
  by (induction xs) auto

text \<open>Releasing a pid that was just allocated.\<close>

lemma free_pid_found:
  assumes c: "pid_conf_ok (pid_conf env)" and tree: "ns_tree w0" and num: "numbered env w0 p ns 0 (Suc L) w1" and L: "L = sp_level (spaces w0 ns)"
    and lev: "p_level (pids w0 p) = L" and w3: "w3 = hash_numbers env p (Suc L) (with_ref w1 p ns)"
  shows "\<exists>w'. free_pid env p w3 = Some w' \<and> (\<forall>y. used_in env w' y = used_in env w0 y) \<and> pid_hash w' = pid_hash w0"
proof -
  define w4 where "w4 = foldl (\<lambda>w i. unhash_number env p i w) w3 [0..<L + 1]"
  have p3: "pids w3 = pids (with_ref w1 p ns)" by (simp add: w3 hash_numbers_frame)
  have p4: "pids w4 = pids w3" "sp_map (spaces w4 y) = sp_map (spaces w1 y)" for y
    by (simp_all add: w4_def unhash_numbers w3 hash_numbers_frame with_ref_def del: upt_Suc)
  have h1: "pid_hash (with_ref w1 p ns) = pid_hash w0" using num by (simp add: with_ref_def numbered_def)
  have h4: "pid_hash w4 = pid_hash w0"
    using foldl_remove_heads [of "\<lambda>i. bucket env (p_numbers (pids (with_ref w1 p ns) p) i) = _" p "[0..<Suc L]"]
    by (intro ext) (simp add: w4_def unhash_numbers p3 w3 hash_numbers_chain h1 hash_numbers_frame del: upt_Suc)
  have hi: "Suc L \<le> Suc (sp_level (spaces w0 ns))" using L by simp
  have lv: "p_level (pids w3 p) = L" using num lev by (simp add: p3 with_ref_def numbered_def)
  have "pids w4 p = (pids w1 p)\<lparr>p_count := 1\<rparr>" "\<forall>y. sp_map (spaces w4 y) = sp_map (spaces w1 y)" by (simp_all add: p4 p3 with_ref_def)
  from free_numbered [OF c tree num le0 hi this]
  obtain w' where "free_numbers env p 0 (L + 1) w4 = Some w'" "only_maps w4 w'" "\<forall>y. used_in env w' y = used_in env w0 y" by auto
  then show ?thesis using h4 by (auto simp: free_pid_def lv Let_def w4_def [symmetric] only_maps_def used_in_def simp del: upt_Suc One_nat_def add_Suc_right Suc_eq_plus1)
qed

text \<open>
  C12. Allocating a pid returns. If it succeeds, the pid has a number in its namespace and in every namespace above it: the
  next free number there, marked as used, under which the pid is found in the hash table; no other namespace
  changes, and releasing the pid takes back exactly these numbers and entries. If it fails for whatever reason, every
  namespace has the numbers it had before, and the hash table is as before.
\<close>

theorem alloc_pid_all_or_nothing:
  assumes lib: "bit_lib_ok (pid_bits env)" and c: "pid_conf_ok (pid_conf env)" and tree: "ns_tree w" and ok: "maps_ok env w"
  shows "\<exists>w' r. alloc_pid env cache kzalloc prepare_fails ns w = Some (w', r) \<and> ns_tree w' \<and> maps_ok env w' \<and>
    (case r of
       None \<Rightarrow> (\<forall>y. used_in env w' y = used_in env w y) \<and> pid_hash w' = pid_hash w
     | Some p \<Rightarrow> cache = Some p \<and> p_level (pids w' p) = sp_level (spaces w ns) \<and>
         (\<forall>j u. j \<le> sp_level (spaces w ns) \<and> u = p_numbers (pids w' p) j \<longrightarrow>
            u_ns u = anc w ns j \<and> fresh_number env w u \<and> used_in env w' (anc w ns j) = insert (u_nr u) (used_in env w (anc w ns j)) \<and>
            find_pid_ns env w' (u_nr u) (u_ns u) = Some p) \<and>
         (\<forall>y. (\<forall>j. j \<le> sp_level (spaces w ns) \<longrightarrow> y \<noteq> anc w ns j) \<longrightarrow> used_in env w' y = used_in env w y) \<and>
         (\<exists>w''. free_pid env p w' = Some w'' \<and> (\<forall>y. used_in env w'' y = used_in env w y) \<and> pid_hash w'' = pid_hash w))"
proof (cases cache)
  case None
  then show ?thesis using tree ok by (simp add: alloc_pid_def)
next
  case (Some p)
  define L where "L = sp_level (spaces w ns)"
  define w0 where "w0 = with_level w p L"
  note s0 = with_level_same [OF ok, of p L, folded w0_def]
  have L0: "L = sp_level (spaces w0 ns)" "p_level (pids w0 p) = L" "pid_hash w0 = pid_hash w" by (simp_all add: w0_def with_level_def L_def)
  have tree0: "ns_tree w0" using same_tree_tree [OF s0(1) tree] .
  obtain w1 n where w1: "alloc_numbers env kzalloc p (L + 1) ns w0 = Some (w1, n)" "n \<le> Suc L" "numbered env w0 p ns n (Suc L) w1"
    using alloc_numbers_ok [OF lib c tree0 s0(2) L0(1) [symmetric], of kzalloc p] by auto
  note unf = alloc_pid_stages [OF L_def w1(1) [unfolded w0_def], of prepare_fails]
  note undo = alloc_pid_undo [OF c tree0 w1(3,2) L0(1), unfolded s0(3) L0(3)]
  show ?thesis
  proof (cases "n \<noteq> 0 \<or> prepare_fails (p_numbers (pids w1 p) L) \<or> and (nr_hashed (spaces w1 ns)) (PIDNS_HASH_ADDING env) = 0")
    case True
    then show ?thesis using undo [of w1] undo [of "with_ref w1 p ns"] unfolding Some unf by (cases "n = 0") auto
  next
    case False
    define w3 where "w3 = hash_numbers env p (Suc L) (with_ref w1 p ns)"
    have n0: "numbered env w0 p ns 0 (Suc L) w1" using w1(3) False by simp
    note fnd = alloc_pid_found [OF tree0 n0 L0(1) w3_def, unfolded s0(3-5) L0(2)]
    note rel = free_pid_found [OF c tree0 n0 L0(1,2) w3_def, unfolded s0(3) L0(3)]
    have r: "alloc_pid env cache kzalloc prepare_fails ns w = Some (w3, Some p)" using False unfolding Some unf w3_def by simp
    have "\<forall>j u. j \<le> L \<and> u = p_numbers (pids w3 p) j \<longrightarrow>
        u_ns u = anc w ns j \<and> fresh_number env w u \<and> used_in env w3 (anc w ns j) = insert (u_nr u) (used_in env w (anc w ns j)) \<and>
        find_pid_ns env w3 (u_nr u) (u_ns u) = Some p" using fnd(4) by blast
    moreover have "\<forall>y. (\<forall>j. j \<le> L \<longrightarrow> y \<noteq> anc w ns j) \<longrightarrow> used_in env w3 y = used_in env w y" using fnd(5) by blast
    ultimately show ?thesis using r fnd(1-3) rel Some unfolding L_def [symmetric] by (intro exI [of _ w3] exI [of _ "Some p"]) (simp only: option.case simp_thms)
  qed
qed

section \<open>The first pid from a number on\<close>

lemma find_ge_pid_eq:
  assumes lib: "bit_lib_ok (pid_bits env)" and c: "pid_conf_ok (pid_conf env)"
    and hashed: "\<forall>n. find_pid_ns env w n ns \<noteq> None \<longrightarrow> n \<in> used_in env w ns \<and> n < PID_MAX_LIMIT (pid_conf env)"
  shows "find_ge_pid env w ns nr =
    Some (Option.bind (find (\<lambda>n. find_pid_ns env w n ns \<noteq> None) [nr..<PID_MAX_LIMIT (pid_conf env)]) (\<lambda>n. find_pid_ns env w n ns))"
proof (induction "PID_MAX_LIMIT (pid_conf env) - nr" arbitrary: nr rule: less_induct)
  case less
  let ?L = "PID_MAX_LIMIT (pid_conf env)" and ?E = "PIDMAP_ENTRIES (pid_conf env) * BITS_PER_PAGE (pid_conf env)"
  define F where "F n = find_pid_ns env w n ns" for n
  note unf = find_ge_pid.simps [of env w ns nr, unfolded F_def [symmetric] Let_def]
  note nxt = next_pidmap_eq [OF lib c, of "sp_map (spaces w ns)" nr, folded used_in_def]
  have LE: "?L \<le> ?E" using c by (simp add: pid_conf_ok_def)
  have "find_ge_pid env w ns nr = Some (Option.bind (find (\<lambda>n. F n \<noteq> None) [nr..<?L]) F)"
  proof (cases "F nr")
    case (Some p)
    then have "nr < ?L" using hashed by (simp add: F_def)
    then have "find (\<lambda>n. F n \<noteq> None) [nr..<?L] = Some nr" using Some by (auto simp: find_upt_Some)
    then show ?thesis using Some by (simp add: unf)
  next
    case None
    show ?thesis
    proof (cases "next_pidmap (pid_conf env) (pid_bits env) (sp_map (spaces w ns)) nr")
      case no: None
      have "F n = None" if "nr \<le> n" "n < ?L" for n
      proof -
        have "nr < ?L" using that by simp
        then have "find (\<lambda>p. p \<in> used_in env w ns) [nr + 1..<?E] = None" using no nxt by simp
        then have "n \<notin> used_in env w ns \<or> n = nr" using that LE by (cases "n = nr") (auto simp: find_upt_None)
        then show ?thesis using hashed None by (auto simp: F_def)
      qed
      then have "find (\<lambda>n. F n \<noteq> None) [nr..<?L] = None" by (simp add: find_upt_None)
      then show ?thesis using None no by (simp add: unf)
    next
      case (Some m)
      then have nr: "nr < ?L" "find (\<lambda>p. p \<in> used_in env w ns) [nr + 1..<?E] = Some m" using nxt by (auto split: if_splits)
      then have m: "nr < m" "\<forall>j. nr + 1 \<le> j \<and> j < m \<longrightarrow> j \<notin> used_in env w ns" by (auto simp: find_upt_Some)
      have F0: "F n = None" if "nr \<le> n" "n < m" for n using that m(2) hashed None by (cases "n = nr") (auto simp: F_def)
      have "find (\<lambda>n. F n \<noteq> None) [nr..<?L] = find (\<lambda>n. F n \<noteq> None) [m..<?L]"
      proof (cases "m \<le> ?L")
        case True
        then have "find (\<lambda>n. F n \<noteq> None) [nr..<m] = None" using F0 by (simp add: find_upt_None)
        then show ?thesis using find_upt_split [of nr m ?L "\<lambda>n. F n \<noteq> None"] m(1) True by simp
      next
        case False
        then have "find (\<lambda>n. F n \<noteq> None) [nr..<?L] = None" using F0 by (simp add: find_upt_None)
        then show ?thesis using False by simp
      qed
      moreover have "?L - m < ?L - nr" using m(1) nr(1) by simp
      ultimately show ?thesis using less.hyps [of m, unfolded F_def [symmetric]] None Some m(1) by (simp add: unf)
    qed
  qed
  moreover have "F = (\<lambda>n. find_pid_ns env w n ns)" by (simp add: F_def fun_eq_iff)
  ultimately show ?case by simp
qed

section \<open>Examples\<close>

definition demo_pid_env :: pid_env where
  "demo_pid_env = \<lparr>pid_conf = demo_pids, pid_bits = demo_bits, pid_hashfn = (\<lambda>nr ns. nr mod 4), PIDNS_HASH_ADDING = 2 ^ 31\<rparr>"

text \<open>Namespace 1 below namespace 0; \<open>hashed\<close> is the counter of namespace 1.\<close>

definition demo_world :: "u32 \<Rightarrow> pid_world" where
  "demo_world hashed = \<lparr>spaces = (\<lambda>x. \<lparr>sp_map = init_pid_ns demo_pids, sp_parent = (if x = 1 then Some 0 else None), sp_level = (if x = 1 then 1 else 0),
       nr_hashed = hashed\<rparr>),
     pids = (\<lambda>_. \<lparr>p_level = 0, p_numbers = (\<lambda>_. \<lparr>u_nr = 0, u_ns = 0\<rparr>), p_count = 0\<rparr>),
     pid_hash = (\<lambda>_. []), ns_refs = (\<lambda>_. 0), events = []\<rparr>"

lemma demo_world_ok: "ns_tree (demo_world h)" "maps_ok demo_pid_env (demo_world h)"
  using init_pid_ns_ok(1) [of demo_pids] by (auto simp: ns_tree_def maps_ok_def demo_world_def demo_pid_env_def)

theorem alloc_pid_all_or_nothing_witness:
  "\<exists>w' r. alloc_pid demo_pid_env (Some 5) (\<lambda>_ _. True) (\<lambda>_. False) 1 (demo_world (2 ^ 31)) = Some (w', r) \<and> maps_ok demo_pid_env w'"
  using alloc_pid_all_or_nothing [of demo_pid_env "demo_world (2 ^ 31)" "Some 5" "\<lambda>_ _. True" "\<lambda>_. False" 1] demo_bits_ok demo_pids_ok demo_world_ok
  by (auto simp: demo_pid_env_def)

lemma alloc_pid_example:
  "map_option (\<lambda>(w, r). (r, pid_nr_ns w r 0, pid_nr_ns w r 1, find_pid_ns demo_pid_env w 1 0))
    (alloc_pid demo_pid_env (Some 5) (\<lambda>_ _. True) (\<lambda>_. False) 1 (demo_world (2 ^ 31))) = Some (Some 5, 1, 1, Some 5)"
  by code_simp

text \<open>
  In a namespace that takes no more pids the allocation fails, but keeps the reference that it took on the
  namespace.
\<close>

lemma alloc_pid_leaks_reference:
  "map_option (\<lambda>(w, r). (r, ns_refs w 1)) (alloc_pid demo_pid_env (Some 5) (\<lambda>_ _. True) (\<lambda>_. False) 1 (demo_world 0)) = Some (None, 1)"
  by code_simp

end
