(* ===== verification/Cpu_Stop.thy ===== *)
theory Cpu_Stop
  imports Kernel_Prelude "HOL-Library.Monad_Syntax"
begin

text \<open>
  The stopper threads (\<^verbatim>\<open>stop_machine.c\<close>): every CPU has a queue of works and a thread that runs them, and the caller of
  \<^verbatim>\<open>stop_cpus\<close> waits for a shared counter to reach zero. The works of a queue are in the order of the list, and a work
  is in one queue at most. A completion is the number of times it was completed.

  Between two accesses to shared data the threads of other CPUs may run: a thread takes a work under the lock of its
  queue, runs the function and stores its result, and signals, in three steps. A function is given by its result on
  each CPU. \<open>None\<close> as the value of an operation is a dereference of a null or dangling pointer. The model also counts, for each \<open>done\<close>
  and each CPU, how often a work was run.
\<close>

section \<open>Data\<close>

record cpu_stop_done =
  nr_todo :: int
  executed :: bool
  done_ret :: int
  fired :: nat

record 'f cpu_stop_work =
  work_fn :: 'f
  work_done :: "nat option"

datatype 'f stopper_pc = Idle | Taken "'f cpu_stop_work" | Ran "'f cpu_stop_work"

record 'f cpu_stopper =
  enabled :: bool
  works :: "'f cpu_stop_work list"
  thread :: "'f stopper_pc"

record 'f stop_sys =
  stoppers :: "nat \<Rightarrow> 'f cpu_stopper"
  dones :: "nat \<Rightarrow> cpu_stop_done option"
  to_queue :: "nat list"
  runs :: "nat \<Rightarrow> nat \<Rightarrow> nat"

section \<open>Operations\<close>

definition cpu_stop_init_done :: "nat \<Rightarrow> cpu_stop_done" where
  "cpu_stop_init_done nr = \<lparr>nr_todo = int nr, executed = False, done_ret = 0, fired = 0\<rparr>"

definition signal_done :: "bool \<Rightarrow> cpu_stop_done \<Rightarrow> cpu_stop_done" where
  "signal_done ex dn =
     (let dn1 = if ex then dn\<lparr>executed := True\<rparr> else dn; n = nr_todo dn - 1
      in dn1\<lparr>nr_todo := n, fired := if n = 0 then fired dn + 1 else fired dn\<rparr>)"

definition cpu_stop_signal_done :: "nat option \<Rightarrow> bool \<Rightarrow> 'f stop_sys \<Rightarrow> 'f stop_sys option" where
  "cpu_stop_signal_done dp ex st =
     (case dp of
        None \<Rightarrow> Some st
      | Some d \<Rightarrow> do { dn \<leftarrow> dones st d; Some (st\<lparr>dones := (dones st)(d \<mapsto> signal_done ex dn)\<rparr>) })"

definition set_stopper :: "nat \<Rightarrow> 'f cpu_stopper \<Rightarrow> 'f stop_sys \<Rightarrow> 'f stop_sys" where
  "set_stopper cpu sp st = st\<lparr>stoppers := (stoppers st)(cpu := sp)\<rparr>"

definition cpu_stop_queue_work :: "nat \<Rightarrow> 'f cpu_stop_work \<Rightarrow> 'f stop_sys \<Rightarrow> 'f stop_sys option" where
  "cpu_stop_queue_work cpu work st =
     (let stopper = stoppers st cpu
      in if enabled stopper then Some (set_stopper cpu (stopper\<lparr>works := works stopper @ [work]\<rparr>) st)
         else cpu_stop_signal_done (work_done work) False st)"

text \<open>One CPU of the loop of \<^verbatim>\<open>queue_stop_cpus_work\<close>, and the whole loop.\<close>

definition queue_next :: "'f \<Rightarrow> nat \<Rightarrow> 'f stop_sys \<Rightarrow> 'f stop_sys option" where
  "queue_next f d st =
     (case to_queue st of
        [] \<Rightarrow> Some st
      | cpu # cpus \<Rightarrow> cpu_stop_queue_work cpu \<lparr>work_fn = f, work_done = Some d\<rparr> (st\<lparr>to_queue := cpus\<rparr>))"

fun queue_stop_cpus_work :: "nat list \<Rightarrow> 'f \<Rightarrow> nat \<Rightarrow> 'f stop_sys \<Rightarrow> 'f stop_sys option" where
  "queue_stop_cpus_work [] f d st = Some st"
| "queue_stop_cpus_work (cpu # cpus) f d st =
     do { st1 \<leftarrow> cpu_stop_queue_work cpu \<lparr>work_fn = f, work_done = Some d\<rparr> st; queue_stop_cpus_work cpus f d st1 }"

definition stop_one_cpu_nowait :: "nat \<Rightarrow> 'f \<Rightarrow> 'f stop_sys \<Rightarrow> 'f stop_sys option" where
  "stop_one_cpu_nowait cpu f st = cpu_stop_queue_work cpu \<lparr>work_fn = f, work_done = None\<rparr> st"

text \<open>The start of \<^verbatim>\<open>__stop_cpus\<close>, with the CPUs of the mask in order, and its result once the completion has fired.\<close>

definition stop_cpus_start :: "nat list \<Rightarrow> nat \<Rightarrow> 'f stop_sys \<Rightarrow> 'f stop_sys" where
  "stop_cpus_start cpus d st = st\<lparr>dones := (dones st)(d \<mapsto> cpu_stop_init_done (length cpus)), to_queue := cpus\<rparr>"

definition stop_result :: "cpu_stop_done \<Rightarrow> int result" where
  "stop_result dn = (if executed dn then Inr (done_ret dn) else Inl ENOENT)"

definition cpu_stop_should_run :: "nat \<Rightarrow> 'f stop_sys \<Rightarrow> bool" where
  "cpu_stop_should_run cpu st \<longleftrightarrow> works (stoppers st cpu) \<noteq> []"

text \<open>Storing the result: the work may have no \<^verbatim>\<open>done\<close>, which only matters for results other than 0.\<close>

definition store_ret :: "nat option \<Rightarrow> int \<Rightarrow> 'f stop_sys \<Rightarrow> 'f stop_sys option" where
  "store_ret dp r st =
     (if r = 0 then Some st
      else do { d \<leftarrow> dp; dn \<leftarrow> dones st d; Some (st\<lparr>dones := (dones st)(d \<mapsto> dn\<lparr>done_ret := r\<rparr>)\<rparr>) })"

definition count_run :: "nat option \<Rightarrow> nat \<Rightarrow> 'f stop_sys \<Rightarrow> 'f stop_sys" where
  "count_run dp cpu st =
     (case dp of None \<Rightarrow> st | Some d \<Rightarrow> st\<lparr>runs := (runs st)(d := (runs st d)(cpu := runs st d cpu + 1))\<rparr>)"

text \<open>A step of the thread of a CPU.\<close>

definition cpu_stopper_thread :: "('f \<Rightarrow> nat \<Rightarrow> int) \<Rightarrow> nat \<Rightarrow> 'f stop_sys \<Rightarrow> 'f stop_sys option" where
  "cpu_stopper_thread call cpu st =
     (let stopper = stoppers st cpu
      in case thread stopper of
           Idle \<Rightarrow>
             (case works stopper of
                [] \<Rightarrow> Some st
              | work # ws \<Rightarrow> Some (set_stopper cpu (stopper\<lparr>works := ws, thread := Taken work\<rparr>) st))
         | Taken work \<Rightarrow>
             store_ret (work_done work) (call (work_fn work) cpu)
               (count_run (work_done work) cpu (set_stopper cpu (stopper\<lparr>thread := Ran work\<rparr>) st))
         | Ran work \<Rightarrow> cpu_stop_signal_done (work_done work) True (set_stopper cpu (stopper\<lparr>thread := Idle\<rparr>) st))"

text \<open>Parking signals the works of the queue, and leaves them in it.\<close>

fun signal_works :: "'f cpu_stop_work list \<Rightarrow> 'f stop_sys \<Rightarrow> 'f stop_sys option" where
  "signal_works [] st = Some st"
| "signal_works (work # ws) st = do { st1 \<leftarrow> cpu_stop_signal_done (work_done work) False st; signal_works ws st1 }"

definition cpu_stop_park :: "nat \<Rightarrow> 'f stop_sys \<Rightarrow> 'f stop_sys option" where
  "cpu_stop_park cpu st =
     do { st1 \<leftarrow> signal_works (works (stoppers st cpu)) st;
          Some (set_stopper cpu ((stoppers st1 cpu)\<lparr>enabled := False\<rparr>) st1) }"

definition cpu_stop_unpark :: "nat \<Rightarrow> 'f stop_sys \<Rightarrow> 'f stop_sys" where
  "cpu_stop_unpark cpu st = set_stopper cpu ((stoppers st cpu)\<lparr>enabled := True\<rparr>) st"

section \<open>A call of stop\_cpus\<close>

text \<open>While a caller queues and waits, the threads that have something to do take steps.\<close>

inductive stop_cpus_next :: "('f \<Rightarrow> nat \<Rightarrow> int) \<Rightarrow> 'f \<Rightarrow> nat \<Rightarrow> 'f stop_sys \<Rightarrow> 'f stop_sys \<Rightarrow> bool" for call f d where
  queue: "to_queue st \<noteq> [] \<Longrightarrow> queue_next f d st = Some st' \<Longrightarrow> stop_cpus_next call f d st st'"
| thread: "thread (stoppers st cpu) \<noteq> Idle \<or> cpu_stop_should_run cpu st \<Longrightarrow> cpu_stopper_thread call cpu st = Some st'
    \<Longrightarrow> stop_cpus_next call f d st st'"

text \<open>No step of a CPU goes wrong: works have a \<^verbatim>\<open>done\<close> that exists, or none and the result 0.\<close>

definition work_ok :: "('f \<Rightarrow> nat \<Rightarrow> int) \<Rightarrow> 'f stop_sys \<Rightarrow> nat \<Rightarrow> 'f cpu_stop_work \<Rightarrow> bool" where
  "work_ok call st cpu work = (case work_done work of None \<Rightarrow> call (work_fn work) cpu = 0 | Some d \<Rightarrow> dones st d \<noteq> None)"

definition held :: "'f cpu_stopper \<Rightarrow> 'f cpu_stop_work list" where
  "held sp = (case thread sp of Idle \<Rightarrow> [] | Taken w \<Rightarrow> [w] | Ran w \<Rightarrow> [w])"

definition sys_ok :: "('f \<Rightarrow> nat \<Rightarrow> int) \<Rightarrow> 'f stop_sys \<Rightarrow> bool" where
  "sys_ok call st \<longleftrightarrow> (\<forall>cpu. \<forall>w \<in> set (works (stoppers st cpu)) \<union> set (held (stoppers st cpu)). work_ok call st cpu w)"

text \<open>The works of one request on a CPU: in the queue, taken, and run as often as counted.\<close>

definition mine :: "nat \<Rightarrow> 'f cpu_stop_work \<Rightarrow> bool" where
  "mine d w \<longleftrightarrow> work_done w = Some d"

definition took :: "nat \<Rightarrow> 'f cpu_stopper \<Rightarrow> bool" where
  "took d sp = (case thread sp of Taken w \<Rightarrow> mine d w | _ \<Rightarrow> False)"

definition has_run :: "nat \<Rightarrow> 'f cpu_stopper \<Rightarrow> bool" where
  "has_run d sp = (case thread sp of Ran w \<Rightarrow> mine d w | _ \<Rightarrow> False)"

definition cpu_ok :: "'f \<Rightarrow> nat \<Rightarrow> bool \<Rightarrow> bool \<Rightarrow> 'f cpu_stopper \<Rightarrow> nat \<Rightarrow> bool" where
  "cpu_ok f d listed inq sp n \<longleftrightarrow>
     of_bool inq + length (filter (mine d) (works sp)) + of_bool (took d sp) + n = (of_bool (listed \<and> (enabled sp \<or> inq)) :: nat) \<and>
     (has_run d sp \<longrightarrow> n = 1) \<and> (\<forall>w \<in> set (works sp) \<union> set (held sp). mine d w \<longrightarrow> work_fn w = f)"

definition pending :: "nat \<Rightarrow> 'f stop_sys \<Rightarrow> nat set" where
  "pending d st =
     {cpu. cpu \<in> set (to_queue st) \<or> filter (mine d) (works (stoppers st cpu)) \<noteq> [] \<or> took d (stoppers st cpu) \<or> has_run d (stoppers st cpu)}"

definition ret_ok :: "('f \<Rightarrow> nat \<Rightarrow> int) \<Rightarrow> 'f \<Rightarrow> (nat \<Rightarrow> nat) \<Rightarrow> int \<Rightarrow> bool" where
  "ret_ok call f n r \<longleftrightarrow> r = 0 \<and> (\<forall>cpu. 0 < n cpu \<longrightarrow> call f cpu = 0) \<or> r \<noteq> 0 \<and> (\<exists>cpu. 0 < n cpu \<and> r = call f cpu)"

definition request_inv :: "('f \<Rightarrow> nat \<Rightarrow> int) \<Rightarrow> 'f \<Rightarrow> nat \<Rightarrow> nat list \<Rightarrow> 'f stop_sys \<Rightarrow> bool" where
  "request_inv call f d cpus st \<longleftrightarrow>
     distinct (to_queue st) \<and> set (to_queue st) \<subseteq> set cpus \<and>
     (\<forall>cpu. cpu_ok f d (cpu \<in> set cpus) (cpu \<in> set (to_queue st)) (stoppers st cpu) (runs st d cpu)) \<and>
     (\<exists>dn. dones st d = Some dn \<and> nr_todo dn = int (card (pending d st)) \<and> fired dn = of_bool (pending d st = {}) \<and>
        (executed dn \<longleftrightarrow> (\<exists>cpu. 0 < runs st d cpu \<and> \<not> has_run d (stoppers st cpu))) \<and> ret_ok call f (runs st d) (done_ret dn))"

lemma set_stopper_simps [simp]:
  "stoppers (set_stopper cpu sp st) = (stoppers st)(cpu := sp)" "dones (set_stopper cpu sp st) = dones st"
  "to_queue (set_stopper cpu sp st) = to_queue st" "runs (set_stopper cpu sp st) = runs st"
  by (simp_all add: set_stopper_def)

lemma count_run_simps [simp]:
  "stoppers (count_run dp cpu st) = stoppers st" "dones (count_run dp cpu st) = dones st" "to_queue (count_run dp cpu st) = to_queue st"
  by (simp_all add: count_run_def split: option.split)

lemma runs_count_run:
  "runs (count_run (work_done w) cpu st) d = (if mine d w then (runs st d)(cpu := runs st d cpu + 1) else runs st d)"
  by (auto simp: count_run_def mine_def split: option.split)

lemma cpu_stop_signal_done_Some:
  assumes "cpu_stop_signal_done (work_done w) ex st = Some st'"
  shows "stoppers st' = stoppers st" "to_queue st' = to_queue st" "runs st' = runs st"
    and "dones st' d = (if mine d w then map_option (signal_done ex) (dones st d) else dones st d)"
  using assms by (auto simp: cpu_stop_signal_done_def mine_def split: option.splits Option.bind_splits)

lemma store_ret_Some:
  assumes "store_ret (work_done w) r st = Some st'"
  shows "stoppers st' = stoppers st" "to_queue st' = to_queue st" "runs st' = runs st"
    and "dones st' d = (if mine d w \<and> r \<noteq> 0 then map_option (\<lambda>dn. dn\<lparr>done_ret := r\<rparr>) (dones st d) else dones st d)"
  using assms by (auto simp: store_ret_def mine_def split: if_splits Option.bind_splits)

lemma pending_finite:
  assumes "request_inv call f d cpus st"
  shows "finite (pending d st)"
proof (rule finite_subset)
  show "pending d st \<subseteq> set cpus"
  proof
    fix cpu assume "cpu \<in> pending d st"
    moreover have "cpu_ok f d (cpu \<in> set cpus) (cpu \<in> set (to_queue st)) (stoppers st cpu) (runs st d cpu)"
      using assms by (simp add: request_inv_def)
    ultimately show "cpu \<in> set cpus"
      by (cases "cpu \<in> set cpus") (auto simp: pending_def cpu_ok_def filter_empty_conv)
  qed
qed simp

lemma signal_counts:
  assumes "finite P" "cpu \<in> P" "nr_todo dn = int (card P)" "fired dn = of_bool (P = {})"
  shows "nr_todo (signal_done ex dn) = int (card (P - {cpu}))" "fired (signal_done ex dn) = of_bool (P - {cpu} = {})"
proof -
  have n: "nr_todo dn - 1 = int (card (P - {cpu}))"
    using card_Suc_Diff1 [OF assms(1,2)] assms(3) by linarith
  have z: "nr_todo dn - 1 = 0 \<longleftrightarrow> P - {cpu} = {}"
    unfolding n using assms(1) by (simp only: of_nat_eq_0_iff card_0_eq finite_Diff)
  show "nr_todo (signal_done ex dn) = int (card (P - {cpu}))"
    using n by (simp add: signal_done_def Let_def)
  show "fired (signal_done ex dn) = of_bool (P - {cpu} = {})"
    using z assms(2,4) by (auto simp: signal_done_def Let_def)
qed

text \<open>A step that changes one CPU only: what has to be shown of that CPU and of the counters.\<close>

lemma request_invI:
  assumes inv: "request_inv call f d cpus st"
    and st': "stoppers st' = (stoppers st)(cpu := sp)" "distinct (to_queue st')" "set (to_queue st') \<subseteq> set cpus"
      "\<And>c. c \<noteq> cpu \<Longrightarrow> c \<in> set (to_queue st') \<longleftrightarrow> c \<in> set (to_queue st)" "runs st' d = (runs st d)(cpu := n)"
    and ok: "cpu_ok f d (cpu \<in> set cpus) (cpu \<in> set (to_queue st')) sp n"
    and dn: "dones st' d = Some dn" "nr_todo dn = int (card (pending d st'))" "fired dn = of_bool (pending d st' = {})"
      "executed dn \<longleftrightarrow> (\<exists>c. 0 < runs st' d c \<and> \<not> has_run d (stoppers st' c))" "ret_ok call f (runs st' d) (done_ret dn)"
  shows "request_inv call f d cpus st'"
proof -
  have "cpu_ok f d (c \<in> set cpus) (c \<in> set (to_queue st')) (stoppers st' c) (runs st' d c)" for c
  proof (cases "c = cpu")
    case False
    then show ?thesis
      using inv st'(1,5) st'(4) [OF False] by (simp add: request_inv_def)
  qed (use st'(1,5) ok in simp)
  with st' dn show ?thesis
    by (auto simp: request_inv_def)
qed

lemma pending_upd:
  assumes "stoppers st' = (stoppers st)(cpu := sp)" "\<And>c. c \<noteq> cpu \<Longrightarrow> c \<in> set (to_queue st') \<longleftrightarrow> c \<in> set (to_queue st)"
  shows "pending d st' =
    (if cpu \<in> set (to_queue st') \<or> filter (mine d) (works sp) \<noteq> [] \<or> took d sp \<or> has_run d sp then insert cpu (pending d st) else pending d st - {cpu})"
  using assms by (auto simp: pending_def)

lemma request_invD:
  assumes "request_inv call f d cpus st"
  shows "cpu_ok f d (cpu \<in> set cpus) (cpu \<in> set (to_queue st)) (stoppers st cpu) (runs st d cpu)"
    and "distinct (to_queue st)" "set (to_queue st) \<subseteq> set cpus"
    and "\<exists>dn. dones st d = Some dn \<and> nr_todo dn = int (card (pending d st)) \<and> fired dn = of_bool (pending d st = {}) \<and>
        (executed dn \<longleftrightarrow> (\<exists>cpu. 0 < runs st d cpu \<and> \<not> has_run d (stoppers st cpu))) \<and> ret_ok call f (runs st d) (done_ret dn)"
  using assms by (simp_all add: request_inv_def)

text \<open>Steps that leave the counters of the request alone.\<close>

lemma quiet_inv:
  assumes inv: "request_inv call f d cpus st" and st: "stoppers st' = (stoppers st)(cpu := sp)" "runs st' d = runs st d" "dones st' d = dones st d"
    and tq: "distinct (to_queue st')" "set (to_queue st') \<subseteq> set cpus" "\<And>c. c \<noteq> cpu \<Longrightarrow> c \<in> set (to_queue st') \<longleftrightarrow> c \<in> set (to_queue st)"
    and ok: "cpu_ok f d (cpu \<in> set cpus) (cpu \<in> set (to_queue st')) sp (runs st d cpu)"
    and run: "has_run d sp = has_run d (stoppers st cpu)"
    and pend: "cpu \<in> set (to_queue st') \<or> filter (mine d) (works sp) \<noteq> [] \<or> took d sp \<or> has_run d sp \<longleftrightarrow> cpu \<in> pending d st"
  shows "request_inv call f d cpus st'"
proof -
  obtain dn where dn: "dones st d = Some dn" "nr_todo dn = int (card (pending d st))" "fired dn = of_bool (pending d st = {})"
    "executed dn \<longleftrightarrow> (\<exists>cpu. 0 < runs st d cpu \<and> \<not> has_run d (stoppers st cpu))" "ret_ok call f (runs st d) (done_ret dn)"
    using request_invD(4) [OF inv] by blast
  have p: "pending d st' = pending d st"
    using pending_upd [OF st(1) tq(3), of d] pend by auto
  have h: "has_run d (stoppers st' c) = has_run d (stoppers st c)" for c
    using run st(1) by simp
  show ?thesis
    by (rule request_invI [OF inv st(1) tq _ ok]) (use dn p h st in auto)
qed

lemma take_inv:
  assumes inv: "request_inv call f d cpus st" and idle: "thread (stoppers st cpu) = Idle" "works (stoppers st cpu) = w # ws"
  shows "request_inv call f d cpus (set_stopper cpu ((stoppers st cpu)\<lparr>works := ws, thread := Taken w\<rparr>) st)"
proof (rule quiet_inv [OF inv])
  let ?sp = "(stoppers st cpu)\<lparr>works := ws, thread := Taken w\<rparr>"
  have ok: "cpu_ok f d (cpu \<in> set cpus) (cpu \<in> set (to_queue st)) (stoppers st cpu) (runs st d cpu)"
    by (rule request_invD(1) [OF inv])
  then show "cpu_ok f d (cpu \<in> set cpus) (cpu \<in> set (to_queue (set_stopper cpu ?sp st))) ?sp (runs st d cpu)"
    using idle by (cases "mine d w") (simp_all add: cpu_ok_def took_def has_run_def held_def)
  show "cpu \<in> set (to_queue (set_stopper cpu ?sp st)) \<or> filter (mine d) (works ?sp) \<noteq> [] \<or> took d ?sp \<or> has_run d ?sp
      \<longleftrightarrow> cpu \<in> pending d st"
    using idle by (cases "mine d w") (auto simp: pending_def took_def has_run_def)
qed (use request_invD(2,3) [OF inv] idle in \<open>simp_all add: has_run_def\<close>)

lemma ran_inv:
  assumes inv: "request_inv call f d cpus st" and taken: "thread (stoppers st cpu) = Taken w"
    and st': "store_ret (work_done w) (call (work_fn w) cpu)
      (count_run (work_done w) cpu (set_stopper cpu ((stoppers st cpu)\<lparr>thread := Ran w\<rparr>) st)) = Some st'"
  shows "request_inv call f d cpus st'"
proof (cases "mine d w")
  case False
  show ?thesis
    using request_invD(2,3) [OF inv] request_invD(1) [OF inv, of cpu] taken False store_ret_Some [OF st']
    by (intro quiet_inv [OF inv, of _ cpu]) (auto simp: runs_count_run cpu_ok_def took_def has_run_def held_def pending_def)
next
  case True
  note st = store_ret_Some [OF st']
  obtain dn where dn: "dones st d = Some dn" "nr_todo dn = int (card (pending d st))" "fired dn = of_bool (pending d st = {})"
    "executed dn \<longleftrightarrow> (\<exists>cpu. 0 < runs st d cpu \<and> \<not> has_run d (stoppers st cpu))" "ret_ok call f (runs st d) (done_ret dn)"
    using request_invD(4) [OF inv] by blast
  have ok: "cpu_ok f d (cpu \<in> set cpus) (cpu \<in> set (to_queue st)) (stoppers st cpu) (runs st d cpu)"
    by (rule request_invD(1) [OF inv])
  then have f: "work_fn w = f" and n: "runs st d cpu = 0"
    using taken True by (auto simp: cpu_ok_def took_def held_def of_bool_def split: if_splits)
  let ?sp = "(stoppers st cpu)\<lparr>thread := Ran w\<rparr>" and ?r = "call f cpu"
  let ?dn = "if ?r \<noteq> 0 then dn\<lparr>done_ret := ?r\<rparr> else dn"
  have s: "stoppers st' = (stoppers st)(cpu := ?sp)" "to_queue st' = to_queue st" "dones st' d = Some ?dn"
    using st dn(1) True f by auto
  have r: "runs st' d = (runs st d)(cpu := 1)"
    using st(3) True n by (simp add: runs_count_run)
  have p: "pending d st' = pending d st"
    using pending_upd [OF s(1), of d] s(2) True taken by (auto simp: pending_def took_def has_run_def)
  have h: "0 < runs st' d c \<and> \<not> has_run d (stoppers st' c) \<longleftrightarrow> 0 < runs st d c \<and> \<not> has_run d (stoppers st c)" for c
    using s(1) r n True by (cases "c = cpu") (simp_all add: has_run_def)
  have "ret_ok call f (runs st' d) (done_ret ?dn)"
    using dn(5) r n by (auto simp: ret_ok_def split: if_splits)
  moreover have "cpu_ok f d (cpu \<in> set cpus) (cpu \<in> set (to_queue st')) ?sp 1"
    using ok taken True n s(2) by (auto simp: cpu_ok_def took_def has_run_def held_def)
  ultimately show ?thesis
    using request_invD(2,3) [OF inv] dn p h s r by (intro request_invI [OF inv s(1), of 1 ?dn]) auto
qed

text \<open>Signals of the request: one CPU is no longer pending.\<close>

lemma finish_inv:
  assumes inv: "request_inv call f d cpus st" and st: "stoppers st' = (stoppers st)(cpu := sp)" "runs st' d = runs st d"
    and dn': "dones st' d = map_option (signal_done ex) (dones st d)"
    and tq: "distinct (to_queue st')" "set (to_queue st') \<subseteq> set cpus" "\<And>c. c \<noteq> cpu \<Longrightarrow> c \<in> set (to_queue st') \<longleftrightarrow> c \<in> set (to_queue st)"
    and ok: "cpu_ok f d (cpu \<in> set cpus) (cpu \<in> set (to_queue st')) sp (runs st d cpu)"
    and was: "cpu \<in> pending d st" and gone: "cpu \<notin> set (to_queue st')" "filter (mine d) (works sp) = []" "\<not> took d sp" "\<not> has_run d sp"
    and ex: "ex \<longleftrightarrow> 0 < runs st d cpu"
  shows "request_inv call f d cpus st'"
proof -
  obtain dn where dn: "dones st d = Some dn" "nr_todo dn = int (card (pending d st))" "fired dn = of_bool (pending d st = {})"
    "executed dn \<longleftrightarrow> (\<exists>cpu. 0 < runs st d cpu \<and> \<not> has_run d (stoppers st cpu))" "ret_ok call f (runs st d) (done_ret dn)"
    using request_invD(4) [OF inv] by blast
  have p: "pending d st' = pending d st - {cpu}"
    using pending_upd [OF st(1) tq(3), of d] gone by simp
  have e: "executed (signal_done ex dn) \<longleftrightarrow> executed dn \<or> ex" "done_ret (signal_done ex dn) = done_ret dn"
    by (auto simp: signal_done_def Let_def)
  have "executed dn \<or> ex \<longleftrightarrow> (\<exists>c. 0 < runs st' d c \<and> \<not> has_run d (stoppers st' c))"
    using dn(4) st gone(4) ex by (auto split: if_splits)
  then show ?thesis
    using dn e p st dn' signal_counts [OF pending_finite [OF inv] was dn(2,3), of ex]
    by (intro request_invI [OF inv st(1) tq _ ok, of "signal_done ex dn"]) auto
qed

lemma signal_inv:
  assumes inv: "request_inv call f d cpus st" and ran: "thread (stoppers st cpu) = Ran w"
    and st': "cpu_stop_signal_done (work_done w) True (set_stopper cpu ((stoppers st cpu)\<lparr>thread := Idle\<rparr>) st) = Some st'"
  shows "request_inv call f d cpus st'"
proof -
  note st = cpu_stop_signal_done_Some [OF st']
  have ok: "cpu_ok f d (cpu \<in> set cpus) (cpu \<in> set (to_queue st)) (stoppers st cpu) (runs st d cpu)"
    by (rule request_invD(1) [OF inv])
  show ?thesis
  proof (cases "mine d w")
    case True
    then have "runs st d cpu = 1" "cpu \<in> set cpus" "enabled (stoppers st cpu)" "cpu \<notin> set (to_queue st)" "filter (mine d) (works (stoppers st cpu)) = []"
      using ok ran by (auto simp: cpu_ok_def has_run_def of_bool_def split: if_splits)
    with True show ?thesis
      using st ok ran request_invD(2,3) [OF inv]
      by (intro finish_inv [OF inv, of _ cpu "(stoppers st cpu)\<lparr>thread := Idle\<rparr>" True]) (auto simp: cpu_ok_def took_def has_run_def held_def pending_def)
  next
    case False
    then show ?thesis
      using st ok ran request_invD(2,3) [OF inv]
      by (intro quiet_inv [OF inv, of _ cpu]) (auto simp: cpu_ok_def took_def has_run_def held_def pending_def)
  qed
qed

lemma thread_inv:
  assumes inv: "request_inv call f d cpus st" and st': "cpu_stopper_thread call cpu st = Some st'"
  shows "request_inv call f d cpus st'"
proof (cases "thread (stoppers st cpu)")
  case Idle
  then show ?thesis
    using st' inv take_inv [OF inv Idle] by (auto simp: cpu_stopper_thread_def Let_def split: list.splits)
next
  case (Taken w)
  then show ?thesis
    using st' ran_inv [OF inv Taken] by (simp add: cpu_stopper_thread_def Let_def)
next
  case (Ran w)
  then show ?thesis
    using st' signal_inv [OF inv Ran] by (simp add: cpu_stopper_thread_def Let_def)
qed

lemma queue_inv:
  assumes inv: "request_inv call f d cpus st" and st': "queue_next f d st = Some st'"
  shows "request_inv call f d cpus st'"
proof (cases "to_queue st")
  case Nil
  then show ?thesis
    using st' inv by (simp add: queue_next_def)
next
  case (Cons cpu rest)
  let ?st = "st\<lparr>to_queue := rest\<rparr>" and ?w = "\<lparr>work_fn = f, work_done = Some d\<rparr>"
  have ok: "cpu_ok f d (cpu \<in> set cpus) True (stoppers st cpu) (runs st d cpu)"
    using request_invD(1) [OF inv, of cpu] Cons by simp
  then have n: "runs st d cpu = 0" "filter (mine d) (works (stoppers st cpu)) = []" "\<not> took d (stoppers st cpu)" "\<not> has_run d (stoppers st cpu)"
    by (auto simp: cpu_ok_def of_bool_def split: if_splits)
  have tq: "distinct rest" "set rest \<subseteq> set cpus" "cpu \<in> set cpus" "cpu \<notin> set rest"
    using request_invD(2,3) [OF inv] Cons by auto
  have w: "mine d ?w"
    by (simp add: mine_def)
  show ?thesis
  proof (cases "enabled (stoppers st cpu)")
    case True
    then have "st' = set_stopper cpu ((stoppers st cpu)\<lparr>works := works (stoppers st cpu) @ [?w]\<rparr>) ?st"
      using st' Cons by (simp add: queue_next_def cpu_stop_queue_work_def Let_def)
    then show ?thesis
      using ok n tq w True Cons
      by (intro quiet_inv [OF inv, of _ cpu]) (auto simp: cpu_ok_def took_def has_run_def held_def pending_def)
  next
    case False
    then have "cpu_stop_signal_done (work_done ?w) False ?st = Some st'"
      using st' Cons by (simp add: queue_next_def cpu_stop_queue_work_def Let_def)
    from cpu_stop_signal_done_Some [OF this] show ?thesis
      using ok n tq w False Cons
      by (intro finish_inv [OF inv, of _ cpu "stoppers st cpu" False]) (auto simp: cpu_ok_def pending_def)
  qed
qed

section \<open>Progress\<close>

text \<open>Every step of a thread returns, and how many steps are left on the first \<open>nr\<close> CPUs.\<close>

definition thread_todo :: "'f cpu_stopper \<Rightarrow> nat" where
  "thread_todo sp = 3 * length (works sp) + (case thread sp of Idle \<Rightarrow> 0 | Taken w \<Rightarrow> 2 | Ran w \<Rightarrow> 1)"

definition stop_todo :: "nat \<Rightarrow> 'f stop_sys \<Rightarrow> nat" where
  "stop_todo nr st = 4 * length (to_queue st) + (\<Sum>cpu<nr. thread_todo (stoppers st cpu))"

definition request_ok :: "('f \<Rightarrow> nat \<Rightarrow> int) \<Rightarrow> 'f \<Rightarrow> nat \<Rightarrow> nat list \<Rightarrow> nat \<Rightarrow> (nat \<Rightarrow> bool) \<Rightarrow> 'f stop_sys \<Rightarrow> bool" where
  "request_ok call f d cpus nr en st \<longleftrightarrow>
     request_inv call f d cpus st \<and> sys_ok call st \<and> set cpus \<subseteq> {..<nr} \<and> (\<forall>cpu. enabled (stoppers st cpu) = en cpu) \<and>
     (\<forall>cpu. nr \<le> cpu \<longrightarrow> works (stoppers st cpu) = [] \<and> thread (stoppers st cpu) = Idle)"

lemma sum_thread_todo:
  assumes "cpu < nr"
  shows "(\<Sum>c<nr. thread_todo (((stoppers st)(cpu := sp)) c)) + thread_todo (stoppers st cpu)
    = (\<Sum>c<nr. thread_todo (stoppers st c)) + thread_todo sp"
  using assms by (simp add: sum.remove [of "{..<nr}" cpu])

lemma sys_okI:
  assumes "sys_ok call st" "stoppers st' = (stoppers st)(cpu := sp)" "\<And>d. dones st d \<noteq> None \<Longrightarrow> dones st' d \<noteq> None"
    and "\<And>w. w \<in> set (works sp) \<union> set (held sp) \<Longrightarrow> work_ok call st' cpu w"
  shows "sys_ok call st'"
proof -
  have "work_ok call st' c w" if "w \<in> set (works (stoppers st' c)) \<union> set (held (stoppers st' c))" for c w
  proof (cases "c = cpu")
    case False
    then have "work_ok call st c w"
      using assms(1,2) that by (simp add: sys_ok_def)
    then show ?thesis
      using assms(3) by (cases "work_done w") (auto simp: work_ok_def)
  qed (use assms(2,4) that in auto)
  then show ?thesis
    by (simp add: sys_ok_def)
qed

lemma work_ok_mono: "work_ok call st cpu w \<Longrightarrow> (\<And>d. dones st d \<noteq> None \<Longrightarrow> dones st' d \<noteq> None) \<Longrightarrow> work_ok call st' cpu w"
  by (cases "work_done w") (auto simp: work_ok_def)

lemma sys_ok_mono:
  assumes "sys_ok call st" "stoppers st' = stoppers st" "\<And>d. dones st d \<noteq> None \<Longrightarrow> dones st' d \<noteq> None"
  shows "sys_ok call st'"
  unfolding sys_ok_def assms(2)
proof (intro allI ballI)
  fix cpu w assume "w \<in> set (works (stoppers st cpu)) \<union> set (held (stoppers st cpu))"
  then have "work_ok call st cpu w"
    using assms(1) by (simp add: sys_ok_def)
  then show "work_ok call st' cpu w"
    by (rule work_ok_mono [OF _ assms(3)])
qed

lemma work_ok_total:
  assumes "work_ok call st cpu w" "dones st1 = dones st"
  shows "\<exists>st'. store_ret (work_done w) (call (work_fn w) cpu) st1 = Some st'" "\<exists>st'. cpu_stop_signal_done (work_done w) ex st1 = Some st'"
  using assms by (auto simp: work_ok_def store_ret_def cpu_stop_signal_done_def split: option.splits)

lemma thread_moves:
  assumes wok: "\<And>w. w \<in> set (works (stoppers st cpu)) \<union> set (held (stoppers st cpu)) \<Longrightarrow> work_ok call st cpu w"
    and busy: "thread (stoppers st cpu) \<noteq> Idle \<or> cpu_stop_should_run cpu st"
  shows "\<exists>st' sp. cpu_stopper_thread call cpu st = Some st' \<and> stoppers st' = (stoppers st)(cpu := sp) \<and> to_queue st' = to_queue st \<and>
    (\<forall>d. dones st d \<noteq> None \<longrightarrow> dones st' d \<noteq> None) \<and> set (works sp) \<union> set (held sp) \<subseteq> set (works (stoppers st cpu)) \<union> set (held (stoppers st cpu)) \<and>
    enabled sp = enabled (stoppers st cpu) \<and> thread_todo sp < thread_todo (stoppers st cpu)"
proof (cases "thread (stoppers st cpu)")
  case Idle
  then obtain w ws where "works (stoppers st cpu) = w # ws"
    using busy by (auto simp: cpu_stop_should_run_def neq_Nil_conv)
  with Idle show ?thesis
    by (intro exI [of _ "(stoppers st cpu)\<lparr>works := ws, thread := Taken w\<rparr>"] exI)
      (auto simp: cpu_stopper_thread_def Let_def held_def thread_todo_def)
next
  case (Taken w)
  let ?sp = "(stoppers st cpu)\<lparr>thread := Ran w\<rparr>"
  have "work_ok call st cpu w"
    using wok Taken by (simp add: held_def)
  then obtain st' where st':
    "store_ret (work_done w) (call (work_fn w) cpu) (count_run (work_done w) cpu (set_stopper cpu ?sp st)) = Some st'"
    using work_ok_total(1) by (metis count_run_simps(2) set_stopper_simps(2))
  with store_ret_Some [OF st'] Taken show ?thesis
    by (intro exI [of _ st'] exI [of _ ?sp]) (auto simp: cpu_stopper_thread_def Let_def held_def thread_todo_def)
next
  case (Ran w)
  let ?sp = "(stoppers st cpu)\<lparr>thread := Idle\<rparr>"
  have "work_ok call st cpu w"
    using wok Ran by (simp add: held_def)
  then obtain st' where st':
    "cpu_stop_signal_done (work_done w) True (set_stopper cpu ?sp st) = Some st'"
    using work_ok_total(2) by (metis set_stopper_simps(2))
  with cpu_stop_signal_done_Some [OF st'] Ran show ?thesis
    by (intro exI [of _ st'] exI [of _ ?sp]) (auto simp: cpu_stopper_thread_def Let_def held_def thread_todo_def)
qed

lemma thread_step:
  assumes ok: "sys_ok call st" and busy: "thread (stoppers st cpu) \<noteq> Idle \<or> cpu_stop_should_run cpu st"
  obtains st' sp where "cpu_stopper_thread call cpu st = Some st'" "stoppers st' = (stoppers st)(cpu := sp)"
    "to_queue st' = to_queue st" "sys_ok call st'" "enabled sp = enabled (stoppers st cpu)" "thread_todo sp < thread_todo (stoppers st cpu)"
proof -
  have wok: "work_ok call st cpu w" if "w \<in> set (works (stoppers st cpu)) \<union> set (held (stoppers st cpu))" for w
    using ok that by (auto simp: sys_ok_def)
  obtain st' sp where g: "cpu_stopper_thread call cpu st = Some st'" "stoppers st' = (stoppers st)(cpu := sp)" "to_queue st' = to_queue st"
    "\<forall>d. dones st d \<noteq> None \<longrightarrow> dones st' d \<noteq> None" "set (works sp) \<union> set (held sp) \<subseteq> set (works (stoppers st cpu)) \<union> set (held (stoppers st cpu))"
    "enabled sp = enabled (stoppers st cpu)" "thread_todo sp < thread_todo (stoppers st cpu)"
    using thread_moves [OF wok busy] by metis
  have "sys_ok call st'"
  proof (rule sys_okI [OF ok g(2)])
    show "work_ok call st' cpu w" if "w \<in> set (works sp) \<union> set (held sp)" for w
      by (rule work_ok_mono [OF wok]) (use g(4,5) that in blast)+
  qed (use g(4) in blast)
  with g that show ?thesis
    by blast
qed

lemma request_ok_queue:
  assumes ok: "request_ok call f d cpus nr en st" and tq: "to_queue st \<noteq> []"
  shows "\<exists>st'. queue_next f d st = Some st' \<and> request_ok call f d cpus nr en st' \<and> stop_todo nr st' < stop_todo nr st"
proof -
  obtain cpu rest where Cons: "to_queue st = cpu # rest"
    using tq by (cases "to_queue st") auto
  let ?w = "\<lparr>work_fn = f, work_done = Some d\<rparr>" and ?st = "st\<lparr>to_queue := rest\<rparr>"
  have inv: "request_inv call f d cpus st" and sys: "sys_ok call st"
    using ok by (simp_all add: request_ok_def)
  have cpu: "cpu < nr"
    using ok request_invD(3) [OF inv] Cons by (auto simp: request_ok_def)
  obtain dn where dn: "dones st d = Some dn"
    using request_invD(4) [OF inv] by blast
  show ?thesis
  proof (cases "enabled (stoppers st cpu)")
    case True
    let ?sp = "(stoppers st cpu)\<lparr>works := works (stoppers st cpu) @ [?w]\<rparr>"
    have st': "queue_next f d st = Some (set_stopper cpu ?sp ?st)"
      using True Cons by (simp add: queue_next_def cpu_stop_queue_work_def Let_def)
    have "work_ok call (set_stopper cpu ?sp ?st) cpu w" if "w \<in> set (works ?sp) \<union> set (held ?sp)" for w
    proof (cases "w = ?w")
      case False
      then have "work_ok call st cpu w"
        using that sys by (auto simp: sys_ok_def held_def)
      then show ?thesis
        by (rule work_ok_mono) simp
    qed (simp add: work_ok_def dn)
    then have "sys_ok call (set_stopper cpu ?sp ?st)"
      by (intro sys_okI [OF sys, of _ cpu ?sp]) simp_all
    moreover have "stop_todo nr (set_stopper cpu ?sp ?st) < stop_todo nr st"
      using sum_thread_todo [OF cpu, of st ?sp] Cons by (simp add: stop_todo_def thread_todo_def)
    ultimately show ?thesis
      using st' queue_inv [OF inv st'] ok cpu by (auto simp: request_ok_def)
  next
    case False
    let ?st' = "?st\<lparr>dones := (dones st)(d \<mapsto> signal_done False dn)\<rparr>"
    have st': "queue_next f d st = Some ?st'"
      using False Cons dn by (simp add: queue_next_def cpu_stop_queue_work_def cpu_stop_signal_done_def Let_def)
    have "sys_ok call ?st'"
      by (rule sys_ok_mono [OF sys]) (auto split: if_splits)
    moreover have "stop_todo nr ?st' < stop_todo nr st"
      using Cons by (simp add: stop_todo_def)
    ultimately show ?thesis
      using st' queue_inv [OF inv st'] ok by (auto simp: request_ok_def)
  qed
qed

lemma request_ok_thread:
  assumes ok: "request_ok call f d cpus nr en st" and busy: "thread (stoppers st cpu) \<noteq> Idle \<or> cpu_stop_should_run cpu st"
  shows "\<exists>st'. cpu_stopper_thread call cpu st = Some st' \<and> request_ok call f d cpus nr en st' \<and> stop_todo nr st' < stop_todo nr st"
proof -
  have inv: "request_inv call f d cpus st" and sys: "sys_ok call st"
    using ok by (simp_all add: request_ok_def)
  have cpu: "cpu < nr"
    using ok busy by (auto simp: request_ok_def cpu_stop_should_run_def not_le [symmetric])
  obtain st' sp where st': "cpu_stopper_thread call cpu st = Some st'" "stoppers st' = (stoppers st)(cpu := sp)"
    "to_queue st' = to_queue st" "sys_ok call st'" "enabled sp = enabled (stoppers st cpu)" "thread_todo sp < thread_todo (stoppers st cpu)"
    by (rule thread_step [OF sys busy])
  have "stop_todo nr st' < stop_todo nr st"
    using sum_thread_todo [OF cpu, of st sp] st' by (simp add: stop_todo_def)
  moreover have "request_ok call f d cpus nr en st'"
    using ok thread_inv [OF inv st'(1)] st' cpu by (auto simp: request_ok_def)
  ultimately show ?thesis
    using st'(1) by blast
qed

lemma request_next:
  assumes "stop_cpus_next call f d st st'" "request_ok call f d cpus nr en st"
  shows "request_ok call f d cpus nr en st' \<and> stop_todo nr st' < stop_todo nr st"
  using assms(1)
proof cases
  case queue
  then show ?thesis
    using request_ok_queue [OF assms(2)] by auto
next
  case (thread cpu)
  then show ?thesis
    using request_ok_thread [OF assms(2), of cpu] by auto
qed

interpretation request: transition_system "stop_cpus_next call f d" "request_ok call f d cpus nr en" for call f d cpus nr en
  by unfold_locales (simp add: request_next)

lemma request_not_stuck:
  assumes ok: "request_ok call f d cpus nr en st" and pend: "cpu \<in> pending d st"
  shows "\<exists>st'. stop_cpus_next call f d st st'"
proof (cases "to_queue st = []")
  case True
  then have "thread (stoppers st cpu) \<noteq> Idle \<or> cpu_stop_should_run cpu st"
    using pend by (auto simp: pending_def took_def has_run_def cpu_stop_should_run_def)
  then show ?thesis
    using request_ok_thread [OF ok] by (blast intro: stop_cpus_next.thread)
next
  case False
  then show ?thesis
    using request_ok_queue [OF ok] by (blast intro: stop_cpus_next.queue)
qed

text \<open>What \<^verbatim>\<open>stop_cpus\<close> promises to return, for the CPUs it ran the function on.\<close>

definition stop_cpus_spec :: "('f \<Rightarrow> nat \<Rightarrow> int) \<Rightarrow> 'f \<Rightarrow> nat set \<Rightarrow> int result \<Rightarrow> bool" where
  "stop_cpus_spec call f on res \<longleftrightarrow>
     (if on = {} then res = Inl ENOENT
      else if \<forall>cpu\<in>on. call f cpu = 0 then res = Inr 0
      else \<exists>cpu\<in>on. call f cpu \<noteq> 0 \<and> res = Inr (call f cpu))"

lemma request_result:
  assumes ok: "request_ok call f d cpus nr en st" and idle: "pending d st = {}" and dn: "dones st d = Some dn"
  shows "runs st d = (\<lambda>cpu. of_bool (cpu \<in> set cpus \<and> en cpu)) \<and> stop_cpus_spec call f {cpu \<in> set cpus. en cpu} (stop_result dn)"
proof -
  have inv: "request_inv call f d cpus st" and en: "\<And>cpu. enabled (stoppers st cpu) = en cpu"
    using ok by (simp_all add: request_ok_def)
  have quiet: "cpu \<notin> set (to_queue st)" "filter (mine d) (works (stoppers st cpu)) = []" "\<not> took d (stoppers st cpu)" "\<not> has_run d (stoppers st cpu)" for cpu
    using idle by (auto simp: pending_def)
  have n: "runs st d cpu = of_bool (cpu \<in> set cpus \<and> en cpu)" for cpu
    using request_invD(1) [OF inv, of cpu] quiet [of cpu] en by (simp add: cpu_ok_def)
  have "executed dn \<longleftrightarrow> (\<exists>cpu. 0 < runs st d cpu)" "ret_ok call f (runs st d) (done_ret dn)"
    using request_invD(4) [OF inv] dn quiet by auto
  then show ?thesis
    by (auto simp: n stop_cpus_spec_def stop_result_def ret_ok_def)
qed

lemma request_start:
  assumes "distinct cpus" "cpus \<noteq> []" "set cpus \<subseteq> {..<nr}" "sys_ok call st"
    and "\<And>cpu. nr \<le> cpu \<Longrightarrow> works (stoppers st cpu) = [] \<and> thread (stoppers st cpu) = Idle"
    and fresh: "\<And>cpu w. w \<in> set (works (stoppers st cpu)) \<union> set (held (stoppers st cpu)) \<Longrightarrow> \<not> mine d w" "runs st d = (\<lambda>cpu. 0)"
  shows "request_ok call f d cpus nr (\<lambda>cpu. enabled (stoppers st cpu)) (stop_cpus_start cpus d st)"
proof -
  have none: "filter (mine d) (works (stoppers st cpu)) = []" "\<not> took d (stoppers st cpu)" "\<not> has_run d (stoppers st cpu)" for cpu
    using fresh(1) [of _ cpu] by (auto simp: took_def has_run_def held_def filter_empty_conv split: stopper_pc.split)
  then have "pending d (stop_cpus_start cpus d st) = set cpus"
    by (auto simp: pending_def stop_cpus_start_def)
  moreover have "cpu_ok f d (cpu \<in> set cpus) (cpu \<in> set cpus) (stoppers st cpu) 0" for cpu
    using none fresh(1) by (auto simp: cpu_ok_def)
  ultimately have "request_inv call f d cpus (stop_cpus_start cpus d st)"
    using assms(1,2) fresh(2)
    by (auto simp: request_inv_def stop_cpus_start_def cpu_stop_init_done_def distinct_card ret_ok_def)
  moreover have "sys_ok call (stop_cpus_start cpus d st)"
    by (rule sys_ok_mono [OF assms(4)]) (auto simp: stop_cpus_start_def)
  ultimately show ?thesis
    using assms(3,5) by (auto simp: request_ok_def stop_cpus_start_def)
qed

lemma request_run:
  assumes "(stop_cpus_next call f d ^^ n) st st'" "request_ok call f d cpus nr en st"
  shows "request_ok call f d cpus nr en st' \<and> n + stop_todo nr st' \<le> stop_todo nr st"
  using assms(1)
proof (induction n arbitrary: st')
  case 0
  then show ?case
    using assms(2) by simp
next
  case (Suc n)
  then obtain v where "(stop_cpus_next call f d ^^ n) st v" "stop_cpus_next call f d v st'"
    by auto
  with Suc.IH [of v] request_next [of call f d v st' cpus nr en] show ?case
    by linarith
qed

text \<open>
  C10. A call of \<^verbatim>\<open>stop_cpus\<close>, with other works in the queues and any interleaving of the stopper threads, always comes to its
  end, and its completion is completed once. By then the function was run exactly once on each CPU of the mask that
  was enabled and on no other, and the result is as documented: \<^verbatim>\<open>-ENOENT\<close> if there was no such CPU, 0 if all runs returned 0,
  and otherwise what some run with a result other than 0 returned.
\<close>

theorem stop_cpus_correct:
  assumes "distinct cpus" "cpus \<noteq> []" "set cpus \<subseteq> {..<nr}" "sys_ok call st"
    and "\<And>cpu. nr \<le> cpu \<Longrightarrow> works (stoppers st cpu) = [] \<and> thread (stoppers st cpu) = Idle"
    and "\<And>cpu w. w \<in> set (works (stoppers st cpu)) \<union> set (held (stoppers st cpu)) \<Longrightarrow> \<not> mine d w" "runs st d = (\<lambda>cpu. 0)"
    and run: "(stop_cpus_next call f d ^^ n) (stop_cpus_start cpus d st) st'"
  shows "n \<le> stop_todo nr (stop_cpus_start cpus d st) \<and>
    (\<exists>dn. dones st' d = Some dn \<and>
       (if fired dn = 0 then \<exists>st''. stop_cpus_next call f d st' st''
        else fired dn = 1 \<and> runs st' d = (\<lambda>cpu. of_bool (cpu \<in> set cpus \<and> enabled (stoppers st cpu))) \<and>
          stop_cpus_spec call f {cpu \<in> set cpus. enabled (stoppers st cpu)} (stop_result dn)))"
proof -
  let ?ok = "request_ok call f d cpus nr (\<lambda>cpu. enabled (stoppers st cpu))"
  have start: "?ok (stop_cpus_start cpus d st)"
    by (rule request_start) (use assms in auto)
  have ok: "?ok st'" and n: "n \<le> stop_todo nr (stop_cpus_start cpus d st)"
    using request_run [OF run start] by auto
  have inv: "request_inv call f d cpus st'"
    using ok by (simp add: request_ok_def)
  obtain dn where dn: "dones st' d = Some dn" "fired dn = of_bool (pending d st' = {})"
    using request_invD(4) [OF inv] by blast
  have "\<exists>st''. stop_cpus_next call f d st' st''" if "pending d st' \<noteq> {}"
    using that request_not_stuck [OF ok] by blast
  then show ?thesis
    using n dn request_result [OF ok _ dn(1)] by auto
qed

text \<open>Runs given by who takes each step.\<close>

datatype stop_turn = Caller | Thread nat

fun stop_turns :: "('f \<Rightarrow> nat \<Rightarrow> int) \<Rightarrow> 'f \<Rightarrow> nat \<Rightarrow> stop_turn list \<Rightarrow> 'f stop_sys \<Rightarrow> 'f stop_sys option" where
  "stop_turns call f d [] st = Some st"
| "stop_turns call f d (Caller # ts) st =
     (if to_queue st \<noteq> [] then do { st1 \<leftarrow> queue_next f d st; stop_turns call f d ts st1 } else None)"
| "stop_turns call f d (Thread cpu # ts) st =
     (if thread (stoppers st cpu) \<noteq> Idle \<or> cpu_stop_should_run cpu st
      then do { st1 \<leftarrow> cpu_stopper_thread call cpu st; stop_turns call f d ts st1 } else None)"

lemma stop_turns_run: "stop_turns call f d ts st = Some st' \<Longrightarrow> (stop_cpus_next call f d ^^ length ts) st st'"
proof (induction call f d ts st rule: stop_turns.induct)
  case (2 call f d ts st)
  then obtain st1 where "to_queue st \<noteq> []" "queue_next f d st = Some st1" "(stop_cpus_next call f d ^^ length ts) st1 st'"
    by (auto split: if_splits Option.bind_splits)
  then show ?case
    unfolding length_Cons by (blast intro: relpowp_Suc_I2 stop_cpus_next.queue)
next
  case (3 call f d cpu ts st)
  then obtain st1 where "thread (stoppers st cpu) \<noteq> Idle \<or> cpu_stop_should_run cpu st" "cpu_stopper_thread call cpu st = Some st1"
    "(stop_cpus_next call f d ^^ length ts) st1 st'"
    by (auto split: if_splits Option.bind_splits)
  then show ?case
    unfolding length_Cons by (blast intro: relpowp_Suc_I2 stop_cpus_next.thread)
qed simp

definition demo_stoppers :: "unit stop_sys" where
  "demo_stoppers = \<lparr>stoppers = (\<lambda>cpu. \<lparr>enabled = (cpu \<noteq> 1), works = (if cpu = 2 then [\<lparr>work_fn = (), work_done = Some 9\<rparr>] else []), thread = Idle\<rparr>),
     dones = [9 \<mapsto> cpu_stop_init_done 1], to_queue = [], runs = (\<lambda>d cpu. 0)\<rparr>"

definition demo_call :: "unit \<Rightarrow> nat \<Rightarrow> int" where
  "demo_call f cpu = (if cpu = 2 then - 5 else 0)"

definition demo_turns :: "stop_turn list" where
  "demo_turns = [Caller, Thread 0, Caller, Thread 2, Thread 0, Caller, Thread 2, Thread 0, Thread 2, Thread 2, Thread 2, Thread 2]"

definition demo_end :: "unit stop_sys" where
  "demo_end = the (stop_turns demo_call () 4 demo_turns (stop_cpus_start [0, 1, 2] 4 demo_stoppers))"

theorem stop_cpus_correct_witness:
  "\<exists>dn. (stop_cpus_next demo_call () 4 ^^ 12) (stop_cpus_start [0, 1, 2] 4 demo_stoppers) demo_end \<and>
     dones demo_end 4 = Some dn \<and> fired dn = 1 \<and> runs demo_end 4 0 = 1 \<and> runs demo_end 4 1 = 0 \<and> stop_result dn = Inr (- 5)"
proof -
  have "stop_turns demo_call () 4 demo_turns (stop_cpus_start [0, 1, 2] 4 demo_stoppers) \<noteq> None"
    by code_simp
  then have "stop_turns demo_call () 4 demo_turns (stop_cpus_start [0, 1, 2] 4 demo_stoppers) = Some demo_end"
    by (auto simp: demo_end_def)
  from stop_turns_run [OF this] have run: "(stop_cpus_next demo_call () 4 ^^ 12) (stop_cpus_start [0, 1, 2] 4 demo_stoppers) demo_end"
    by (simp add: demo_turns_def eval_nat_numeral)
  have "sys_ok demo_call demo_stoppers"
    by (simp add: sys_ok_def demo_stoppers_def work_ok_def held_def)
  then obtain dn where dn: "dones demo_end 4 = Some dn"
    "if fired dn = 0 then \<exists>st''. stop_cpus_next demo_call () 4 demo_end st''
        else fired dn = 1 \<and> runs demo_end 4 = (\<lambda>cpu. of_bool (cpu \<in> set [0, 1, 2] \<and> enabled (stoppers demo_stoppers cpu))) \<and>
          stop_cpus_spec demo_call () {cpu \<in> set [0, 1, 2]. enabled (stoppers demo_stoppers cpu)} (stop_result dn)"
    using stop_cpus_correct [OF _ _ _ _ _ _ _ run, of 3] by (fastforce simp: demo_stoppers_def held_def mine_def)
  have on: "{cpu \<in> set [0, 1, 2]. enabled (stoppers demo_stoppers cpu)} = {0, 2}"
    by (auto simp: demo_stoppers_def)
  have "fired (the (dones demo_end 4)) \<noteq> 0"
    by code_simp
  with dn have res: "fired dn = 1" "runs demo_end 4 = (\<lambda>cpu. of_bool (cpu \<in> set [0, 1, 2] \<and> enabled (stoppers demo_stoppers cpu)))"
    "stop_cpus_spec demo_call () {0, 2} (stop_result dn)"
    unfolding on by simp_all
  then show ?thesis
    using run dn(1) by (intro exI [of _ dn]) (auto simp: demo_stoppers_def stop_cpus_spec_def demo_call_def split: if_splits)
qed

section \<open>Parking and works without a done\<close>

text \<open>A work that nobody waits for must return 0: for any other result the thread dereferences a null pointer.\<close>

lemma stop_one_cpu_nowait_result:
  assumes "enabled (stoppers st cpu)" "works (stoppers st cpu) = []" "thread (stoppers st cpu) = Idle" "call f cpu \<noteq> 0"
  shows "do { st1 \<leftarrow> stop_one_cpu_nowait cpu f st; st2 \<leftarrow> cpu_stopper_thread call cpu st1; cpu_stopper_thread call cpu st2 } = None"
  using assms by (simp add: stop_one_cpu_nowait_def cpu_stop_queue_work_def cpu_stopper_thread_def store_ret_def Let_def)

text \<open>
  Parking completes the works of the queue but leaves them there. When the CPU is back its thread runs them, although
  the callers were told that they were not run and their \<^verbatim>\<open>done\<close> is gone.
\<close>

lemma signal_works_stoppers: "signal_works ws st = Some st' \<Longrightarrow> stoppers st' = stoppers st"
  by (induction ws arbitrary: st) (auto split: Option.bind_splits dest: cpu_stop_signal_done_Some(1))

lemma cpu_stop_park_keeps_works:
  assumes "cpu_stop_park cpu st = Some st'"
  shows "works (stoppers (cpu_stop_unpark cpu st') cpu) = works (stoppers st cpu)"
  using assms by (auto simp: cpu_stop_park_def cpu_stop_unpark_def dest: signal_works_stoppers split: Option.bind_splits)

lemma parked_work_runs_later:
  "do { st1 \<leftarrow> cpu_stop_park 2 demo_stoppers; dn \<leftarrow> dones st1 9; Some (fired dn, stop_result dn) } = Some (1, Inl ENOENT) \<and>
   do { st1 \<leftarrow> cpu_stop_park 2 demo_stoppers;
        st2 \<leftarrow> Some (cpu_stop_unpark 2 (st1\<lparr>dones := (dones st1)(9 := None)\<rparr>));
        st3 \<leftarrow> cpu_stopper_thread demo_call 2 st2; cpu_stopper_thread demo_call 2 st3 } = (None :: unit stop_sys option)"
  by (simp add: demo_stoppers_def cpu_stop_park_def cpu_stop_unpark_def cpu_stop_signal_done_def signal_done_def cpu_stop_init_done_def
      stop_result_def cpu_stopper_thread_def store_ret_def demo_call_def Let_def set_stopper_def count_run_def)

end
