(* ===== verification/Stop_Machine.thy ===== *)
theory Stop_Machine
  imports Kernel_Prelude
begin

text \<open>
  Stopping the machine (\<^verbatim>\<open>stop_machine.c\<close>): a thread on every CPU goes through the states of a shared state machine, so that
  a function runs while every CPU is held with its interrupts off. The model has the threads interleave in any way,
  with one access to the shared data at a time: comparing the state, reading it, counting down the acknowledgements, and the two
  writes with which the last thread moves to the next state.

  The states are the numbers of the enumeration; the last acknowledgement of \<open>MULTI_STOP_EXIT\<close> moves one past them. The
  function that runs is given by its result on each CPU, and every thread has a count of its calls of the function.
\<close>

section \<open>The state machine\<close>

definition MULTI_STOP_NONE :: nat where "MULTI_STOP_NONE = 0"
definition MULTI_STOP_PREPARE :: nat where "MULTI_STOP_PREPARE = 1"
definition MULTI_STOP_DISABLE_IRQ :: nat where "MULTI_STOP_DISABLE_IRQ = 2"
definition MULTI_STOP_RUN :: nat where "MULTI_STOP_RUN = 3"
definition MULTI_STOP_EXIT :: nat where "MULTI_STOP_EXIT = 4"

lemmas stop_state_defs = MULTI_STOP_NONE_def MULTI_STOP_PREPARE_def MULTI_STOP_DISABLE_IRQ_def MULTI_STOP_RUN_def MULTI_STOP_EXIT_def

record multi_stop_data =
  num_threads :: nat
  ms_state :: nat
  thread_ack :: int

text \<open>Where a thread is in \<^verbatim>\<open>multi_cpu_stop\<close>.\<close>

datatype stop_pc = Poll | Load | Act | Ack | Reset_Ack | Set_State | Left

record stop_thread =
  pc :: stop_pc
  curstate :: nat
  newstate :: nat
  irqs_off :: bool
  irq_flags :: bool
  stop_err :: int
  calls :: nat

record stop_world =
  msdata :: multi_stop_data
  threads :: "nat \<Rightarrow> stop_thread"

text \<open>
  What a thread reads and nobody writes meanwhile: the mask of active CPUs, which may be missing, the first online CPU, and
  the results of the function.
\<close>

record stop_env =
  active_cpus :: "nat set option"
  first_online_cpu :: nat
  stop_fn :: "nat \<Rightarrow> int"

definition is_active :: "stop_env \<Rightarrow> nat \<Rightarrow> bool" where
  "is_active env cpu =
     (case active_cpus env of None \<Rightarrow> cpu = first_online_cpu env | Some cpus \<Rightarrow> cpu \<in> cpus)"

text \<open>The two writes of \<^verbatim>\<open>set_state\<close>.\<close>

definition reset_ack :: "multi_stop_data \<Rightarrow> multi_stop_data" where
  "reset_ack m = m\<lparr>thread_ack := int (num_threads m)\<rparr>"

definition write_state :: "nat \<Rightarrow> multi_stop_data \<Rightarrow> multi_stop_data" where
  "write_state s m = m\<lparr>ms_state := s\<rparr>"

definition set_state :: "nat \<Rightarrow> multi_stop_data \<Rightarrow> multi_stop_data" where
  "set_state s m = write_state s (reset_ack m)"

text \<open>What a thread does in a state that it sees for the first time.\<close>

definition stop_action :: "stop_env \<Rightarrow> nat \<Rightarrow> stop_thread \<Rightarrow> stop_thread" where
  "stop_action env cpu t =
     (if curstate t = MULTI_STOP_DISABLE_IRQ then t\<lparr>irqs_off := True\<rparr>
      else if curstate t = MULTI_STOP_RUN
      then if is_active env cpu then t\<lparr>stop_err := stop_fn env cpu, calls := calls t + 1\<rparr> else t
      else t)"

text \<open>One step of the thread on a CPU, with the state of the machine it sees.\<close>

definition stop_step :: "stop_env \<Rightarrow> nat \<Rightarrow> multi_stop_data \<Rightarrow> stop_thread \<Rightarrow> multi_stop_data \<times> stop_thread" where
  "stop_step env cpu m t =
     (case pc t of
        Poll \<Rightarrow>
          if curstate t = MULTI_STOP_EXIT then (m, t\<lparr>pc := Left, irqs_off := irq_flags t\<rparr>)
          else if ms_state m \<noteq> curstate t then (m, t\<lparr>pc := Load\<rparr>)
          else (m, t)
      | Load \<Rightarrow> (m, t\<lparr>pc := Act, curstate := ms_state m\<rparr>)
      | Act \<Rightarrow> (m, (stop_action env cpu t)\<lparr>pc := Ack\<rparr>)
      | Ack \<Rightarrow> (m\<lparr>thread_ack := thread_ack m - 1\<rparr>, t\<lparr>pc := if thread_ack m - 1 = 0 then Reset_Ack else Poll\<rparr>)
      | Reset_Ack \<Rightarrow> (reset_ack m, t\<lparr>pc := Set_State, newstate := ms_state m + 1\<rparr>)
      | Set_State \<Rightarrow> (write_state (newstate t) m, t\<lparr>pc := Poll\<rparr>)
      | Left \<Rightarrow> (m, t))"

definition cpu_step :: "stop_env \<Rightarrow> nat \<Rightarrow> stop_world \<Rightarrow> stop_world" where
  "cpu_step env cpu w =
     (let (m, t) = stop_step env cpu (msdata w) (threads w cpu) in w\<lparr>msdata := m, threads := (threads w)(cpu := t)\<rparr>)"

text \<open>A thread of the set takes a step that changes something; polling an unchanged state does not.\<close>

inductive stop_next :: "stop_env \<Rightarrow> nat set \<Rightarrow> stop_world \<Rightarrow> stop_world \<Rightarrow> bool" for env T where
  "cpu \<in> T \<Longrightarrow> cpu_step env cpu w \<noteq> w \<Longrightarrow> stop_next env T w (cpu_step env cpu w)"

text \<open>The threads at the start of \<^verbatim>\<open>multi_cpu_stop\<close>, after \<^verbatim>\<open>set_state\<close> to \<^verbatim>\<open>MULTI_STOP_PREPARE\<close>.\<close>

definition stop_start :: "nat set \<Rightarrow> (nat \<Rightarrow> bool) \<Rightarrow> stop_world" where
  "stop_start T flags =
     \<lparr>msdata = set_state MULTI_STOP_PREPARE \<lparr>num_threads = card T, ms_state = MULTI_STOP_NONE, thread_ack = 0\<rparr>,
      threads = (\<lambda>i. \<lparr>pc = Poll, curstate = MULTI_STOP_NONE, newstate = MULTI_STOP_NONE, irqs_off = flags i, irq_flags = flags i, stop_err = 0, calls = 0\<rparr>)\<rparr>"

section \<open>The invariant\<close>

text \<open>What is known of one thread in state \<open>s\<close> of the machine.\<close>

definition thread_ok :: "stop_env \<Rightarrow> nat \<Rightarrow> nat \<Rightarrow> stop_thread \<Rightarrow> bool" where
  "thread_ok env s cpu t \<longleftrightarrow>
     curstate t \<le> 4 \<and>
     irqs_off t = (irq_flags t \<or> pc t \<noteq> Left \<and> 2 \<le> curstate t \<and> \<not> (curstate t = 2 \<and> pc t = Act)) \<and>
     calls t = (if is_active env cpu \<and> (curstate t = 4 \<or> curstate t = 3 \<and> pc t \<noteq> Act) then 1 else 0) \<and>
     stop_err t = (if calls t = 1 then stop_fn env cpu else 0) \<and>
     (pc t \<in> {Act, Ack, Reset_Ack, Set_State} \<longrightarrow> curstate t = s \<and> s \<le> 4) \<and>
     (pc t = Load \<longrightarrow> curstate t + 1 = s \<and> s \<le> 4) \<and> (pc t = Set_State \<longrightarrow> newstate t = s + 1) \<and>
     (pc t = Poll \<longrightarrow> curstate t = s \<or> curstate t + 1 = s) \<and>
     (pc t = Left \<longrightarrow> curstate t = 4 \<and> 4 \<le> s)"

definition to_ack :: "nat set \<Rightarrow> stop_world \<Rightarrow> nat set" where
  "to_ack T w = {i \<in> T. curstate (threads w i) < ms_state (msdata w) \<or> pc (threads w i) \<in> {Act, Ack}}"

definition moving :: "nat set \<Rightarrow> stop_pc \<Rightarrow> stop_world \<Rightarrow> nat set" where
  "moving T p w = {i \<in> T. pc (threads w i) = p}"

definition stop_inv :: "stop_env \<Rightarrow> nat set \<Rightarrow> stop_world \<Rightarrow> bool" where
  "stop_inv env T w \<longleftrightarrow>
     (let s = ms_state (msdata w); r = moving T Reset_Ack w; t = moving T Set_State w
      in 1 \<le> s \<and> s \<le> 5 \<and> num_threads (msdata w) = card T \<and> (\<forall>i\<in>T. thread_ok env s i (threads w i)) \<and>
         thread_ack (msdata w) = int (if t \<noteq> {} \<or> s = 5 then card T else card (to_ack T w)) \<and>
         (\<forall>i\<in>r \<union> t. \<forall>j\<in>r \<union> t. i = j) \<and> (r \<union> t \<noteq> {} \<longrightarrow> to_ack T w = {}) \<and> (r \<union> t = {} \<and> s \<le> 4 \<longrightarrow> to_ack T w \<noteq> {}))"


lemma cpu_step_eq:
  assumes "stop_step env i (msdata w) (threads w i) = (m, t)"
  shows "cpu_step env i w = \<lparr>msdata = m, threads = (threads w)(i := t)\<rparr>"
  using assms by (simp add: cpu_step_def)

text \<open>A step that neither acknowledges nor moves the machine.\<close>

lemma quiet_step_inv:
  assumes inv: "stop_inv env T w" and i: "i \<in> T"
    and ok: "thread_ok env (ms_state (msdata w)) i t"
    and still: "pc (threads w i) \<notin> {Reset_Ack, Set_State}" "pc t \<notin> {Reset_Ack, Set_State}"
    and same: "curstate t < ms_state (msdata w) \<or> pc t \<in> {Act, Ack}
      \<longleftrightarrow> curstate (threads w i) < ms_state (msdata w) \<or> pc (threads w i) \<in> {Act, Ack}"
  shows "stop_inv env T \<lparr>msdata = msdata w, threads = (threads w)(i := t)\<rparr>"
proof -
  let ?w = "\<lparr>msdata = msdata w, threads = (threads w)(i := t)\<rparr>"
  have u: "to_ack T ?w = to_ack T w"
    using same i unfolding to_ack_def by (intro Collect_cong) auto
  have r: "moving T Reset_Ack ?w = moving T Reset_Ack w" and s: "moving T Set_State ?w = moving T Set_State w"
    using still unfolding moving_def by auto
  show ?thesis
    using inv ok by (simp add: stop_inv_def Let_def u r s)
qed

lemma stop_step_frame:
  assumes "stop_step env i m t = (m', t')" "pc t \<noteq> Set_State"
  shows "ms_state m' = ms_state m" "num_threads m' = num_threads m"
  using assms by (cases "pc t"; auto simp: stop_step_def reset_ack_def split: if_splits)+

lemma stop_step_thread_ok:
  assumes ok: "thread_ok env (ms_state m) i t" and s: "1 \<le> ms_state m" "ms_state m \<le> 5" and p: "pc t \<noteq> Set_State"
  shows "thread_ok env (ms_state m) i (snd (stop_step env i m t))"
proof (cases "pc t")
  case Poll
  with ok s show ?thesis
    by (cases "curstate t = 4"; cases "ms_state m = curstate t") (simp_all add: stop_step_def thread_ok_def stop_state_defs)
next
  case Load
  with ok s show ?thesis
    by (cases "ms_state m = 4"; cases "ms_state m = 3"; cases "ms_state m = 2") (simp_all add: stop_step_def thread_ok_def)
next
  case Act
  with ok show ?thesis
    by (cases "curstate t = 2"; cases "curstate t = 3"; cases "is_active env i")
      (simp_all add: stop_step_def thread_ok_def stop_action_def stop_state_defs)
qed (use assms in \<open>simp_all add: stop_step_def thread_ok_def\<close>)

lemma stop_invD:
  assumes "stop_inv env T w"
  shows "1 \<le> ms_state (msdata w)" "ms_state (msdata w) \<le> 5" "num_threads (msdata w) = card T"
    and "i \<in> T \<Longrightarrow> thread_ok env (ms_state (msdata w)) i (threads w i)"
    and "i \<in> to_ack T w \<Longrightarrow> moving T Reset_Ack w = {} \<and> moving T Set_State w = {}"
    and "moving T Set_State w = {} \<Longrightarrow> ms_state (msdata w) \<le> 4 \<Longrightarrow> thread_ack (msdata w) = int (card (to_ack T w))"
    and "moving T Set_State w \<noteq> {} \<Longrightarrow> thread_ack (msdata w) = int (card T)"
    and "i \<in> moving T Reset_Ack w \<union> moving T Set_State w \<Longrightarrow> to_ack T w = {} \<and> moving T Reset_Ack w \<union> moving T Set_State w = {i}"
  using assms unfolding stop_inv_def Let_def by auto

lemma ack_step_inv:
  assumes inv: "stop_inv env T w" and i: "i \<in> T" and fin: "finite T" and pc: "pc (threads w i) = Ack"
  shows "stop_inv env T (cpu_step env i w)"
proof -
  let ?s = "ms_state (msdata w)" and ?t = "threads w i"
  let ?p = "if to_ack T w = {i} then Reset_Ack else Poll"
  let ?w = "\<lparr>msdata = (msdata w)\<lparr>thread_ack := thread_ack (msdata w) - 1\<rparr>, threads = (threads w)(i := ?t\<lparr>pc := ?p\<rparr>)\<rparr>"
  have ok: "thread_ok env ?s i ?t" and cur: "curstate ?t = ?s" "?s \<le> 4"
    using stop_invD(4) [OF inv i] pc by (auto simp: thread_ok_def)
  have mem: "i \<in> to_ack T w"
    using i pc by (simp add: to_ack_def)
  have none: "moving T Reset_Ack w = {}" "moving T Set_State w = {}"
    using stop_invD(5) [OF inv mem] by auto
  have ack: "thread_ack (msdata w) = int (card (to_ack T w))"
    by (rule stop_invD(6) [OF inv none(2) cur(2)])
  have fu: "finite (to_ack T w)"
    using fin by (simp add: to_ack_def)
  have card: "thread_ack (msdata w) - 1 = int (card (to_ack T w - {i}))"
    using card_Suc_Diff1 [OF fu mem] ack by linarith
  have "thread_ack (msdata w) - 1 = 0 \<longleftrightarrow> to_ack T w - {i} = {}"
    unfolding card using fu by (simp only: of_nat_eq_0_iff card_0_eq finite_Diff)
  then have last: "thread_ack (msdata w) - 1 = 0 \<longleftrightarrow> to_ack T w = {i}"
    using mem by blast
  have w: "cpu_step env i w = ?w"
    by (rule cpu_step_eq) (use last in \<open>auto simp: stop_step_def pc\<close>)
  have u: "to_ack T ?w = to_ack T w - {i}"
    using cur by (auto simp: to_ack_def)
  have r: "moving T Reset_Ack ?w = (if to_ack T w = {i} then {i} else {})" and s: "moving T Set_State ?w = {}"
    using none i by (auto simp: moving_def)
  have "thread_ok env ?s i (?t\<lparr>pc := ?p\<rparr>)"
    using ok pc by (simp add: thread_ok_def)
  then have all: "\<forall>j\<in>T. thread_ok env ?s j (threads ?w j)"
    using stop_invD(4) [OF inv] by (cases "to_ack T w = {i}") simp_all
  show ?thesis
    unfolding w stop_inv_def Let_def r s u using stop_invD(1-3) [OF inv] all card cur(2) mem by auto
qed

lemma reset_step_inv:
  assumes inv: "stop_inv env T w" and i: "i \<in> T" and pc: "pc (threads w i) = Reset_Ack"
  shows "stop_inv env T (cpu_step env i w)"
proof -
  let ?s = "ms_state (msdata w)" and ?t = "threads w i"
  let ?t' = "?t\<lparr>pc := Set_State, newstate := ?s + 1\<rparr>"
  let ?w = "\<lparr>msdata = reset_ack (msdata w), threads = (threads w)(i := ?t')\<rparr>"
  have w: "cpu_step env i w = ?w"
    by (rule cpu_step_eq) (simp add: stop_step_def pc)
  have mem: "i \<in> moving T Reset_Ack w"
    using i pc by (simp add: moving_def)
  have only: "to_ack T w = {}" "moving T Reset_Ack w \<union> moving T Set_State w = {i}"
    using stop_invD(8) [OF inv] mem by blast+
  have ok: "thread_ok env ?s i ?t'"
    using stop_invD(4) [OF inv i] pc by (simp add: thread_ok_def)
  have u: "to_ack T ?w = {}"
    using only(1) stop_invD(4) [OF inv i] pc by (auto simp: to_ack_def reset_ack_def)
  have r: "moving T Reset_Ack ?w = {}" and s: "moving T Set_State ?w = {i}"
    using only(2) i by (auto simp: moving_def)
  show ?thesis
    unfolding w stop_inv_def Let_def r s u
    using stop_invD(1-3) [OF inv] stop_invD(4) [OF inv] ok by (simp add: reset_ack_def)
qed

lemma set_step_inv:
  assumes inv: "stop_inv env T w" and i: "i \<in> T" and pc: "pc (threads w i) = Set_State"
  shows "stop_inv env T (cpu_step env i w)"
proof -
  let ?s = "ms_state (msdata w)" and ?t = "threads w i"
  let ?w = "\<lparr>msdata = write_state (?s + 1) (msdata w), threads = (threads w)(i := ?t\<lparr>pc := Poll\<rparr>)\<rparr>"
  have ok: "thread_ok env ?s i ?t" and cur: "curstate ?t = ?s" "?s \<le> 4" "newstate ?t = ?s + 1"
    using stop_invD(4) [OF inv i] pc by (auto simp: thread_ok_def)
  have w: "cpu_step env i w = ?w"
    by (rule cpu_step_eq) (simp add: stop_step_def pc cur)
  have mem: "i \<in> moving T Set_State w"
    using i pc by (simp add: moving_def)
  have only: "to_ack T w = {}" "moving T Reset_Ack w \<union> moving T Set_State w = {i}"
    using stop_invD(8) [OF inv] mem by blast+
  have rest: "curstate (threads w j) = ?s \<and> pc (threads w j) \<in> {Poll, Left}" if "j \<in> T" "j \<noteq> i" for j
  proof -
    have "\<not> curstate (threads w j) < ?s" "pc (threads w j) \<notin> {Act, Ack}"
      using only(1) that(1) by (auto simp: to_ack_def)
    moreover have "pc (threads w j) \<notin> {Reset_Ack, Set_State}"
      using only(2) that by (auto simp: moving_def)
    ultimately show ?thesis
      using stop_invD(4) [OF inv that(1)] cur(2) by (cases "pc (threads w j)") (simp_all add: thread_ok_def)
  qed
  have others: "thread_ok env (?s + 1) j (threads w j)" if "j \<in> T" "j \<noteq> i" for j
    using rest [OF that] stop_invD(4) [OF inv that(1)] by (cases "pc (threads w j)") (simp_all add: thread_ok_def)
  have mine: "thread_ok env (?s + 1) i (?t\<lparr>pc := Poll\<rparr>)"
    using ok pc cur by (simp add: thread_ok_def)
  have u: "to_ack T ?w = T"
    using rest cur by (auto simp: to_ack_def write_state_def)
  have r: "moving T Reset_Ack ?w = {}" and s: "moving T Set_State ?w = {}"
    using only(2) by (auto simp: moving_def)
  show ?thesis
    unfolding w stop_inv_def Let_def r s u
    using stop_invD(1-3) [OF inv] stop_invD(7) [OF inv] mem cur(2) mine others i by (auto simp: write_state_def)
qed

lemma cpu_step_inv:
  assumes inv: "stop_inv env T w" and i: "i \<in> T" and fin: "finite T"
  shows "stop_inv env T (cpu_step env i w)"
proof -
  let ?m = "msdata w" and ?t = "threads w i"
  have ok: "thread_ok env (ms_state ?m) i ?t"
    by (rule stop_invD(4) [OF inv i])
  consider "pc ?t = Ack" | "pc ?t = Reset_Ack" | "pc ?t = Set_State" | "pc ?t \<in> {Poll, Load, Act, Left}"
    by (cases "pc ?t") auto
  then show ?thesis
  proof cases
    case 4
    let ?t' = "snd (stop_step env i ?m ?t)"
    have step: "stop_step env i ?m ?t = (?m, ?t')"
      using 4 by (auto simp: stop_step_def)
    have p: "pc ?t' \<notin> {Reset_Ack, Set_State}"
      using 4 by (auto simp: stop_step_def)
    have same: "curstate ?t' < ms_state ?m \<or> pc ?t' \<in> {Act, Ack} \<longleftrightarrow> curstate ?t < ms_state ?m \<or> pc ?t \<in> {Act, Ack}"
      using 4 ok by (cases "pc ?t") (simp_all add: stop_step_def stop_action_def thread_ok_def stop_state_defs, linarith?)
    have "thread_ok env (ms_state ?m) i ?t'"
      using 4 by (intro stop_step_thread_ok [OF ok stop_invD(1,2) [OF inv]]) auto
    then show ?thesis
      using quiet_step_inv [OF inv i _ _ p same] 4 cpu_step_eq [OF step] by auto
  qed (use ack_step_inv [OF inv i fin] reset_step_inv [OF inv i] set_step_inv [OF inv i] in auto)
qed

section \<open>Progress\<close>

text \<open>How many steps a thread has left at most.\<close>

definition stop_rank :: "stop_thread \<Rightarrow> nat" where
  "stop_rank t = 6 * (4 - curstate t) +
     (case pc t of Poll \<Rightarrow> 1 | Load \<Rightarrow> 0 | Act \<Rightarrow> 5 | Ack \<Rightarrow> 4 | Reset_Ack \<Rightarrow> 3 | Set_State \<Rightarrow> 2 | Left \<Rightarrow> 0)"

lemma stop_step_rank:
  assumes ok: "thread_ok env (ms_state m) i t" and change: "stop_step env i m t \<noteq> (m, t)"
  shows "stop_rank (snd (stop_step env i m t)) < stop_rank t"
proof (cases "pc t")
  case Load
  then have "4 - curstate t = Suc (4 - ms_state m)"
    using ok by (auto simp: thread_ok_def)
  with Load show ?thesis
    by (simp add: stop_step_def stop_rank_def)
qed (use change in \<open>auto simp: stop_step_def stop_rank_def stop_action_def split: if_splits\<close>)

lemma cpu_step_rank:
  assumes inv: "stop_inv env T w" and i: "i \<in> T" and fin: "finite T" and change: "cpu_step env i w \<noteq> w"
  shows "(\<Sum>j\<in>T. stop_rank (threads (cpu_step env i w) j)) < (\<Sum>j\<in>T. stop_rank (threads w j))"
proof (rule sum_strict_mono_ex1 [OF fin])
  obtain m t where step: "stop_step env i (msdata w) (threads w i) = (m, t)"
    by fastforce
  have w: "cpu_step env i w = \<lparr>msdata = m, threads = (threads w)(i := t)\<rparr>"
    by (rule cpu_step_eq [OF step])
  have "(m, t) \<noteq> (msdata w, threads w i)"
    using change w by auto
  then have less: "stop_rank t < stop_rank (threads w i)"
    using stop_step_rank [OF stop_invD(4) [OF inv i]] step by simp
  show "\<forall>j\<in>T. stop_rank (threads (cpu_step env i w) j) \<le> stop_rank (threads w j)"
    using less w by simp
  show "\<exists>j\<in>T. stop_rank (threads (cpu_step env i w) j) < stop_rank (threads w j)"
    using less w i by auto
qed

text \<open>Some thread can go on until all have left.\<close>

lemma stop_can_step:
  assumes ok: "thread_ok env (ms_state (msdata w)) i (threads w i)"
    and wait: "pc (threads w i) = Poll \<Longrightarrow> curstate (threads w i) = 4 \<or> curstate (threads w i) \<noteq> ms_state (msdata w)"
    and p: "pc (threads w i) \<noteq> Left"
  shows "cpu_step env i w \<noteq> w"
proof -
  obtain m t where step: "stop_step env i (msdata w) (threads w i) = (m, t)"
    by fastforce
  have "pc t \<noteq> pc (threads w i)"
    using step wait p by (cases "pc (threads w i)") (auto simp: stop_step_def stop_state_defs split: if_splits)
  then have "threads (cpu_step env i w) i \<noteq> threads w i"
    using cpu_step_eq [OF step] by auto
  then show ?thesis
    by metis
qed

lemma stop_not_stuck:
  assumes inv: "stop_inv env T w" and left: "j \<in> T" "pc (threads w j) \<noteq> Left"
  shows "\<exists>i\<in>T. cpu_step env i w \<noteq> w"
proof -
  let ?s = "ms_state (msdata w)"
  have ex: "\<exists>i\<in>T. pc (threads w i) \<noteq> Left \<and> (pc (threads w i) = Poll \<longrightarrow> curstate (threads w i) = 4 \<or> curstate (threads w i) \<noteq> ?s)"
  proof (cases "moving T Reset_Ack w \<union> moving T Set_State w = {}")
    case True
    show ?thesis
    proof (cases "?s \<le> 4")
      case le: True
      then obtain i where i: "i \<in> to_ack T w"
        using inv True by (auto simp: stop_inv_def Let_def)
      then have "i \<in> T" "curstate (threads w i) < ?s \<or> pc (threads w i) \<in> {Act, Ack}"
        by (auto simp: to_ack_def)
      with stop_invD(4) [OF inv, of i] le show ?thesis
        by (intro bexI [of _ i]) (cases "pc (threads w i)", simp_all add: thread_ok_def)
    next
      case False
      then have s: "?s = 5"
        using stop_invD(2) [OF inv] by simp
      show ?thesis
        using left stop_invD(4) [OF inv left(1)] s by (intro bexI [of _ j]) (simp_all add: thread_ok_def)
    qed
  next
    case False
    then obtain i where "i \<in> T" "pc (threads w i) \<in> {Reset_Ack, Set_State}"
      by (auto simp: moving_def)
    then show ?thesis
      by (intro bexI [of _ i]) auto
  qed
  then obtain i where "i \<in> T" "pc (threads w i) \<noteq> Left" "pc (threads w i) = Poll \<longrightarrow> curstate (threads w i) = 4 \<or> curstate (threads w i) \<noteq> ?s"
    by blast
  then show ?thesis
    using stop_can_step [OF stop_invD(4) [OF inv]] by blast
qed

interpretation stop: transition_system "stop_next env T" "\<lambda>w. finite T \<and> stop_inv env T w" for env T
  by unfold_locales (auto elim!: stop_next.cases intro: cpu_step_inv)

lemma stop_start_inv:
  assumes "finite T" "T \<noteq> {}"
  shows "stop_inv env T (stop_start T flags)"
  using assms
  by (simp add: stop_inv_def stop_start_def Let_def set_state_def write_state_def reset_ack_def stop_state_defs to_ack_def
      moving_def thread_ok_def)

lemma stop_reach_inv:
  assumes "finite T" "T \<noteq> {}" "(stop_next env T)\<^sup>*\<^sup>* (stop_start T flags) w"
  shows "stop_inv env T w"
  using stop.reach_inv [OF assms(3)] stop_start_inv [OF assms(1,2)] assms(1) by blast

text \<open>The flags that a thread saved are those it started with, and it restores them.\<close>

lemma stop_flags:
  assumes "(stop_next env T)\<^sup>*\<^sup>* (stop_start T flags) w"
  shows "irq_flags (threads w i) = flags i"
  using assms
proof (induction rule: rtranclp_induct)
  case base
  show ?case
    by (simp add: stop_start_def)
next
  case (step v w)
  have "irq_flags (snd (stop_step env j m t)) = irq_flags t" for j m t
    by (simp add: stop_step_def stop_action_def split: stop_pc.splits)
  with step show ?case
    by (auto elim!: stop_next.cases simp: cpu_step_def case_prod_unfold Let_def split: if_splits)
qed

text \<open>
  C3. While a thread runs the function, every thread of the machine has its interrupts disabled, is still inside
  \<^verbatim>\<open>multi_cpu_stop\<close>, and has seen \<open>MULTI_STOP_DISABLE_IRQ\<close>, for any number of threads and under every interleaving.
\<close>

theorem multi_cpu_stop_safe:
  assumes "finite T" "(stop_next env T)\<^sup>*\<^sup>* (stop_start T flags) w"
    and "i \<in> T" "pc (threads w i) = Act" "curstate (threads w i) = MULTI_STOP_RUN" "j \<in> T"
  shows "irqs_off (threads w j) \<and> pc (threads w j) \<noteq> Left \<and> MULTI_STOP_DISABLE_IRQ \<le> curstate (threads w j)"
proof -
  have inv: "stop_inv env T w"
    using assms(1-3) by (intro stop_reach_inv) auto
  have s: "ms_state (msdata w) = 3"
    using stop_invD(4) [OF inv assms(3)] assms(4,5) by (simp add: thread_ok_def stop_state_defs)
  show ?thesis
    using stop_invD(4) [OF inv assms(6)] s by (cases "pc (threads w j)") (auto simp: thread_ok_def stop_state_defs)
qed

lemma stop_run_bound:
  assumes fin: "finite T" "T \<noteq> {}" and run: "(stop_next env T ^^ n) (stop_start T flags) w"
  shows "n + (\<Sum>i\<in>T. stop_rank (threads w i)) \<le> 25 * card T"
  using run
proof (induction n arbitrary: w)
  case 0
  then show ?case
    by (auto simp: stop_start_def stop_rank_def stop_state_defs)
next
  case (Suc n)
  then obtain v where v: "(stop_next env T ^^ n) (stop_start T flags) v" "stop_next env T v w"
    by auto
  have inv: "stop_inv env T v"
    by (rule stop_reach_inv [OF fin relpowp_imp_rtranclp [OF v(1)]])
  have "(\<Sum>i\<in>T. stop_rank (threads w i)) < (\<Sum>i\<in>T. stop_rank (threads v i))"
    using v(2) by (rule stop_next.cases) (use cpu_step_rank [OF inv _ fin(1)] in auto)
  with Suc.IH [OF v(1)] show ?case
    by simp
qed

text \<open>
  C15. Stopping always ends: a run has at most 25 steps per thread, polls that change nothing apart, and it can go on
  until every thread has left. By then every active CPU has run the function once and returns its result, the others
  have not run it and return 0, and each has its interrupts as it found them.
\<close>

theorem multi_cpu_stop_ends:
  assumes fin: "finite T" "T \<noteq> {}" and run: "(stop_next env T ^^ n) (stop_start T flags) w"
  shows "n \<le> 25 * card T \<and>
    ((\<exists>w'. stop_next env T w w') \<or>
     (\<forall>i\<in>T. pc (threads w i) = Left \<and> calls (threads w i) = of_bool (is_active env i) \<and>
        stop_err (threads w i) = (if is_active env i then stop_fn env i else 0) \<and> irqs_off (threads w i) = flags i))"
proof -
  have reach: "(stop_next env T)\<^sup>*\<^sup>* (stop_start T flags) w"
    by (rule relpowp_imp_rtranclp [OF run])
  have inv: "stop_inv env T w"
    by (rule stop_reach_inv [OF fin reach])
  have ended: "calls (threads w i) = of_bool (is_active env i) \<and>
      stop_err (threads w i) = (if is_active env i then stop_fn env i else 0) \<and> irqs_off (threads w i) = flags i"
    if "i \<in> T" "pc (threads w i) = Left" for i
    using stop_invD(4) [OF inv that(1)] that(2) stop_flags [OF reach, of i] by (simp add: thread_ok_def)
  show ?thesis
  proof (cases "\<forall>i\<in>T. pc (threads w i) = Left")
    case True
    then show ?thesis
      using stop_run_bound [OF fin run] ended by (meson le_trans le_add1)
  next
    case False
    then obtain i where "i \<in> T" "cpu_step env i w \<noteq> w"
      using stop_not_stuck [OF inv] by blast
    then have "stop_next env T w (cpu_step env i w)"
      by (rule stop_next.intros)
    then show ?thesis
      using stop_run_bound [OF fin run] by (meson le_trans le_add1)
  qed
qed

text \<open>A run of two threads in turn: CPU 0 is the active one, and CPU 1 starts with its interrupts off.\<close>

definition demo_stop :: stop_env where
  "demo_stop = \<lparr>active_cpus = None, first_online_cpu = 0, stop_fn = (\<lambda>cpu. int cpu + 7)\<rparr>"

definition turns :: "nat \<Rightarrow> stop_world" where
  "turns n = fold (cpu_step demo_stop) (concat (replicate n [0, 1])) (stop_start {0, 1} (\<lambda>cpu. cpu = 1))"

lemma fold_steps_reach: "set is \<subseteq> T \<Longrightarrow> (stop_next env T)\<^sup>*\<^sup>* w (fold (cpu_step env) is w)"
proof (induction "is" arbitrary: w)
  case (Cons i "is")
  have "(stop_next env T)\<^sup>*\<^sup>* w (cpu_step env i w)"
    using Cons.prems stop_next.intros [of i T env w] by (cases "cpu_step env i w = w") auto
  with Cons show ?case
    by (auto intro: rtranclp_trans)
qed simp

lemma turns_reach: "(stop_next demo_stop {0, 1})\<^sup>*\<^sup>* (stop_start {0, 1} (\<lambda>cpu. cpu = 1)) (turns n)"
  unfolding turns_def by (rule fold_steps_reach) auto

lemma demo_stop_active: "is_active demo_stop 0" "\<not> is_active demo_stop (Suc 0)" "stop_fn demo_stop 0 = 7"
  by code_simp+

theorem multi_cpu_stop_safe_witness:
  "pc (threads (turns 14) 0) = Act \<and> curstate (threads (turns 14) 0) = MULTI_STOP_RUN \<and> irqs_off (threads (turns 14) 1)"
proof -
  have "pc (threads (turns 14) 0) = Act" "curstate (threads (turns 14) 0) = MULTI_STOP_RUN"
    by code_simp+
  then show ?thesis
    using multi_cpu_stop_safe [OF _ turns_reach, of 0 14 1] by simp
qed

theorem multi_cpu_stop_ends_witness:
  "\<exists>n. n \<le> 50 \<and> (stop_next demo_stop {0, 1} ^^ n) (stop_start {0, 1} (\<lambda>cpu. cpu = 1)) (turns 26) \<and>
     pc (threads (turns 26) 0) = Left \<and> stop_err (threads (turns 26) 0) = 7 \<and> \<not> irqs_off (threads (turns 26) 0) \<and>
     pc (threads (turns 26) 1) = Left \<and> stop_err (threads (turns 26) 1) = 0 \<and> irqs_off (threads (turns 26) 1)"
proof -
  obtain n where n: "(stop_next demo_stop {0, 1} ^^ n) (stop_start {0, 1} (\<lambda>cpu. cpu = 1)) (turns 26)"
    using rtranclp_imp_relpowp [OF turns_reach] by blast
  have "pc (threads (turns 26) 0) = Left" "pc (threads (turns 26) 1) = Left"
    by code_simp+
  then have "\<not> stop_next demo_stop {0, 1} (turns 26) w'" for w'
    by (auto elim!: stop_next.cases simp: cpu_step_def stop_step_def)
  then show ?thesis
    using multi_cpu_stop_ends [OF _ _ n] n by (auto simp: demo_stop_active intro!: exI [of _ n])
qed

end
