(* ===== verification/Spec2Isabelle.thy ===== *)
theory Spec2Isabelle
  imports Ranges Res_Counter User_Ns Group_Lists Semaphore Rwsem Completion Cpu_Deadline Cpu_Priority Time_Conv Notifier Timer_Wheel Resource_Region Param_Ops Pids Cpu_Stop Stop_Machine
begin

text \<open>
  The repository holds the software of a robot: an operating system kernel in C (\<^verbatim>\<open>src/ROBOT OS/ROBT KERNLE\<close>, the bulk of
  the code), CP/M tools and system sources, Apple II assembly, the robot controller in Java, and programs for lights
  and vision. This library models parts of the kernel: data structures, state machines and parsers whose behaviour
  is decided by the code itself and not by the hardware. File names below are relative to the directory of the kernel.

  \<^bold>\<open>How the code is modelled.\<close> A C struct is a record and an enumeration a datatype or its numbers. Pointers are
  natural numbers and memory is a function or a map from them. \<^verbatim>\<open>unsigned\<close> types that can wrap around are words of their width, for
  a 64-bit machine; signed values are integers where they cannot overflow, and cut to their width where they can.
  Error codes are values of \<open>errno\<close>, and a function that may fail returns \<open>errno + 'a\<close>. A loop along pointers is a
  \<^theory_text>\<open>partial_function (option)\<close>: \<open>None\<close> is a null dereference or a loop that does not end, and the
  theorems about such functions state that they return. The other loops are functions with a termination proof; no model
  uses fuel. What runs under a spinlock is one step; tasks that wait, wake up and race are \<^theory_text>\<open>inductive\<close> step relations over every
  interleaving, with sequentially consistent memory. Code outside the sources (the library sort, number parsers, the
  allocator, capabilities, security hooks, callbacks) is a parameter, with its documented behaviour as a hypothesis where a
  theorem needs it.

  \<^bold>\<open>Shared theories.\<close> \<open>Kernel_Prelude\<close> has the integer types, \<open>errno\<close>, C division, list lemmas and three interfaces as locales: \<open>step_system\<close> (operations keep
  an invariant), \<open>transition_system\<close> (steps of any task keep an invariant) and \<open>refinement_system\<close> (operations implement an
  abstract one). The stateful components interpret one of them on their own operations. \<open>Linked_List\<close> relates chains of pointers to lists.

  \<^bold>\<open>Memory and devices.\<close>
  \<^item> \<open>Ranges\<close> (\<^verbatim>\<open>range.c\<close>): arrays of memory ranges. Adding with merging keeps the ranges disjoint and covers the union
    (or drops the new range if the array is full),
    subtracting removes exactly the given addresses, compacting and sorting keeps the ranges.
  \<^item> \<open>Resource_Tree\<close>, \<open>Resource_Alloc\<close>, \<open>Resource_Region\<close> (\<^verbatim>\<open>resource.c\<close>): the tree of address ranges with its parent,
    child and sibling pointers. Every operation returns and keeps the tree well formed (\<open>tree_ok\<close>); requests, insertions and
    adjustments succeed exactly if the result is well formed; allocation finds the first aligned free range if there is one;
    reserving fills the gaps around conflicts; releasing a part of a region gives up exactly that part. A request that waits for
    a multiplexed region can be granted while that one is still in use.
  \<^item> \<open>Res_Counter\<close> (\<^verbatim>\<open>res_counter.c\<close>): counters in a hierarchy. A charge succeeds on the whole path or changes nothing but
    failure counts, and the usage of a counter is what was charged to it directly and the usage of its children, as long as nobody
    gives back more than it charged.

  \<^bold>\<open>Users and processes.\<close>
  \<^item> \<open>Id_Map\<close>, \<open>User_Ns\<close> (\<^verbatim>\<open>user_namespace.c\<close>): id maps are parsed from text, checked and installed; translation down and up are
    inverse (locale \<open>id_translation\<close>), and a namespace reaches only ids that its parent reaches, for every tree of namespaces.
  \<^item> \<open>Credentials\<close> (\<^verbatim>\<open>cred.c\<close>, \<^verbatim>\<open>sys.c\<close>): the set-id system calls. Without capabilities no sequence of calls yields an id that the task
    did not have; errors leave the credentials alone.
  \<^item> \<open>Group_Lists\<close> (\<^verbatim>\<open>groups.c\<close>): the block arrays, Shell sort and binary search of supplementary groups.
  \<^item> \<open>Pid_Map\<close>, \<open>Pids\<close> (\<^verbatim>\<open>pid.c\<close>): the bitmap allocator implements a set of ids with a search for the next free one; a pid has a
    number in its namespace and in each above, or none after a failure.

  \<^bold>\<open>Waiting and scheduling.\<close>
  \<^item> \<open>Semaphore\<close> (\<^verbatim>\<open>locking/semaphore.c\<close>), \<open>Rwsem\<close> (\<^verbatim>\<open>locking/rwsem-spinlock.c\<close>), \<open>Completion\<close> (\<^verbatim>\<open>sched/completion.c\<close>, \<^verbatim>\<open>sched/wait.c\<close>): exclusion,
    order of the waiters and absence of lost wake-ups, with signals, timeouts and spurious wake-ups.
  \<^item> \<open>Cpu_Deadline\<close> (\<^verbatim>\<open>sched/cpudeadline.c\<close>), \<open>Cpu_Priority\<close> (\<^verbatim>\<open>sched/cpupri.c\<close>): the heap implements a map from CPUs to deadlines, and the searches
    return the right CPUs, also while another CPU updates the vectors.
  \<^item> \<open>Cpu_Stop\<close>, \<open>Stop_Machine\<close> (\<^verbatim>\<open>stop_machine.c\<close>): the stopper threads with their queues, and the state machine that holds every CPU
    with interrupts off while a function runs. Both end within a bound on the number of steps that the theorems state.
  \<^item> \<open>Notifier\<close> (\<^verbatim>\<open>notifier.c\<close>): chains of callbacks in the order of their priorities.

  \<^bold>\<open>Time.\<close>
  \<^item> \<open>Calendar\<close> (\<^verbatim>\<open>time/timeconv.c\<close>, \<open>mktime\<close> of \<^verbatim>\<open>time.c\<close>): dates are exact for every number of seconds, in a calendar
    that counts the days month by month and year by year, and the conversion back inverts them.
  \<^item> \<open>Time_Conv\<close> (\<^verbatim>\<open>time.c\<close>): units of time, with rounding and saturation, for any tick frequency of the configuration.
  \<^item> \<open>Timer_Wheel\<close> (\<^verbatim>\<open>timer.c\<close>): the wheel with its cascades fires each timer at its tick and no other.

  \<^bold>\<open>Parameters.\<close> \<open>Params\<close>, \<open>Param_Ops\<close> (\<^verbatim>\<open>params.c\<close>): the parser works in place on the buffer; it equals a specification on text, reads back what
    is printed, and hands values to the setters of the standard types. A setter is an interface (locale \<open>param_setter\<close>), as is a
    command line with its table of parameters (locale \<open>cmdline\<close>).

  \<^bold>\<open>How the components interact.\<close> The set-id calls translate ids with the maps of \<open>Id_Map\<close>, which \<open>User_Ns\<close> installs in
  its namespaces; \<open>Group_Lists\<close> puts groups into the credentials. Completions use the wake-up function of the wait queues. Allocation and regions rest on the operations
  of the tree. Numbers of pids come from the bitmaps. The threads of \<open>Stop_Machine\<close> are works that \<open>Cpu_Stop\<close> runs.

  \<^bold>\<open>Bounds.\<close> Numbers of CPUs, tasks, threads, ranges and resources are arbitrary. Timers and deadlines are compared by signed
  difference as in the code, so the theorems about them ask for times within half the range of the counter. The date
  of \<open>mktime\<close> is exact below \<open>2 ^ 47\<close> seconds because parts of it are computed in 32 bits.

  \<^bold>\<open>Not modelled.\<close> The rest of the kernel drives hardware, patches code, or consists of calls into the memory manager, the file system and the
  architecture, which are not among these sources; read-copy update and the lock-free tracing buffers are about weak memory ordering, which interleaving of atomic steps
  does not express; the scheduling classes, control groups, futexes and work queues rest on those. In the modelled files, what is left out is reference
  counting of credentials and user namespaces, output to \<^verbatim>\<open>seq_file\<close> and sysfs, system calls that only copy values, initialisation at
  boot, and the migration of timers between CPUs. The assembly sources have no machine model here, and the tools, the robot controller and the
  scripts are sequences of calls of input and output libraries.
\<close>

end
